(* ===== verification/Prelude.thy ===== *)
theory Prelude
  imports Main "HOL-Library.Word"
begin

text \<open>
  Shared vocabulary of the development: bytes and machine integers, the result type in which
  every C/C++ undefined behaviour is a value, raw byte buffers as lists with checked access,
  and the named collections of simplification rules that the component theories extend.
\<close>

unbundle bit_operations_syntax

named_theorems res_simps \<open>evaluation of the result type\<close>
named_theorems buf_simps \<open>bounds-checked access to byte buffers\<close>
named_theorems model_defs \<open>definitions that component proofs unfold\<close>

section \<open>Results: undefined behaviour as a value\<close>

text \<open>
  \<open>ub\<close> lists what can go wrong in the C++ code without the language reporting it. \<open>Diverges\<close> is
  the value of a loop whose iteration bound (fuel) was used up.
\<close>

datatype ub =
    NullDeref        \<comment> \<open>a null pointer is dereferenced\<close>
  | OutOfBounds      \<comment> \<open>an access outside the object\<close>
  | IntOverflow      \<comment> \<open>signed integer overflow\<close>
  | UseAfterFree     \<comment> \<open>a deleted object is used\<close>
  | Diverges         \<comment> \<open>the loop bound was used up\<close>

type_synonym 'a res = "ub + 'a"
type_synonym byte = "8 word"

definition bindE :: "'e + 'a \<Rightarrow> ('a \<Rightarrow> 'e + 'b) \<Rightarrow> 'e + 'b" where
  "bindE m f = (case m of Inl e \<Rightarrow> Inl e | Inr x \<Rightarrow> f x)"

lemma bindE_Inl [simp, res_simps]: "bindE (Inl e) f = Inl e"
  by (simp add: bindE_def)

lemma bindE_Inr [simp, res_simps]: "bindE (Inr x) f = f x"
  by (simp add: bindE_def)

lemma bindE_eq_Inr [res_simps]:
  "bindE m f = Inr y \<longleftrightarrow> (\<exists>x. m = Inr x \<and> f x = Inr y)"
  by (cases m) auto

lemma bindE_eq_Inl:
  "bindE m f = Inl e \<longleftrightarrow> m = Inl e \<or> (\<exists>x. m = Inr x \<and> f x = Inl e)"
  by (cases m) auto

lemma bindE_assoc: "bindE (bindE m f) g = bindE m (\<lambda>x. bindE (f x) g)"
  by (cases m) auto

lemma bindE_cong [fundef_cong]:
  "m = m' \<Longrightarrow> (\<And>x. m' = Inr x \<Longrightarrow> f x = f' x) \<Longrightarrow> bindE m f = bindE m' f'"
  by (cases m') auto

lemma bindE_InrE:
  assumes "bindE m f = Inr y"
  obtains x where "m = Inr x" and "f x = Inr y"
  using assms by (auto simp: bindE_eq_Inr)

text \<open>
  A result meets \<open>wpE E P\<close> when its error satisfies \<open>E\<close> or its value satisfies \<open>P\<close>; the rule for
  \<open>bindE\<close> makes proofs follow the sequence of the code.
\<close>

definition wpE :: "('e \<Rightarrow> bool) \<Rightarrow> ('a \<Rightarrow> bool) \<Rightarrow> 'e + 'a \<Rightarrow> bool" where
  "wpE E P r = (case r of Inl e \<Rightarrow> E e | Inr x \<Rightarrow> P x)"

lemma wpE_simps [simp]: "wpE E P (Inl e) = E e" "wpE E P (Inr x) = P x"
  by (simp_all add: wpE_def)

lemma wpE_bind: "wpE E P m \<Longrightarrow> (\<And>x. P x \<Longrightarrow> wpE E Q (f x)) \<Longrightarrow> wpE E Q (bindE m f)"
  by (cases m) auto

lemma wpE_bind_eq:
  "wpE E P m \<Longrightarrow> (\<And>x. m = Inr x \<Longrightarrow> P x \<Longrightarrow> wpE E Q (f x)) \<Longrightarrow> wpE E Q (bindE m f)"
  by (cases m) auto

lemma wpE_if: "(b \<Longrightarrow> wpE E Q x) \<Longrightarrow> (\<not> b \<Longrightarrow> wpE E Q y) \<Longrightarrow> wpE E Q (if b then x else y)"
  by simp

lemma wpE_mono: "wpE E P m \<Longrightarrow> (\<And>x. P x \<Longrightarrow> Q x) \<Longrightarrow> wpE E Q m"
  by (cases m) auto

lemma wpE_Inr: "wpE E P m \<Longrightarrow> m = Inr x \<Longrightarrow> P x"
  by simp

lemma wpE_Inl: "wpE E P m \<Longrightarrow> m = Inl e \<Longrightarrow> E e"
  by simp

section \<open>Machine integers\<close>

text \<open>
  A C \<open>int\<close> is an \<open>int\<close> in the 32-bit range; \<open>c_int\<close> is the result of a signed operation, whose
  overflow is undefined. \<open>c_size_t\<close> is the conversion of an \<open>int\<close> argument to \<open>size_t\<close>.
\<close>

definition INT_MAX :: int where "INT_MAX = 2147483647"
definition INT_MIN :: int where "INT_MIN = - 2147483648"

definition in_int :: "int \<Rightarrow> bool" where
  "in_int i \<longleftrightarrow> INT_MIN \<le> i \<and> i \<le> INT_MAX"

definition c_int :: "int \<Rightarrow> int res" where
  "c_int i = (if in_int i then Inr i else Inl IntOverflow)"

definition c_size_t :: "int \<Rightarrow> nat" where
  "c_size_t i = nat (i mod 2 ^ 64)"

lemma c_int_Inr [simp]: "c_int i = Inr j \<longleftrightarrow> in_int i \<and> j = i"
  by (auto simp: c_int_def)

lemma c_int_ok [simp, res_simps]: "in_int i \<Longrightarrow> c_int i = Inr i"
  by simp

lemma in_intI: "INT_MIN \<le> i \<Longrightarrow> i \<le> INT_MAX \<Longrightarrow> in_int i"
  by (simp add: in_int_def)

lemma in_int_numeral_bounds: "in_int i \<longleftrightarrow> - 2147483648 \<le> i \<and> i \<le> 2147483647"
  by (simp add: in_int_def INT_MAX_def INT_MIN_def)

lemma c_size_t_nonneg [simp]: "0 \<le> i \<Longrightarrow> i \<le> INT_MAX \<Longrightarrow> c_size_t i = nat i"
  by (simp add: c_size_t_def INT_MAX_def)

lemma sint_word_of_int_32: "in_int i \<Longrightarrow> sint (word_of_int i :: 32 word) = i"
  by (simp add: int_word_sint in_int_numeral_bounds)

lemma unat_drop_bit: "unat (drop_bit n (x :: 'a::len word)) = unat x div 2 ^ n"
  by (simp add: unsigned_drop_bit_eq take_bit_nat_eq_self [OF unsigned_less] flip: drop_bit_eq_div)

lemma c_size_t_0 [simp]: "c_size_t 0 = 0"
  by (simp add: c_size_t_def)

section \<open>Byte buffers\<close>

text \<open>
  A block of memory is the list of its bytes. \<open>buf_get\<close> and \<open>buf_set\<close> are a load and a store of
  one byte, \<open>buf_write\<close> is \<open>memcpy\<close> into the block, \<open>buf_slice\<close> reads a range.
\<close>

definition buf_get :: "byte list \<Rightarrow> int \<Rightarrow> byte res" where
  "buf_get bs i = (if 0 \<le> i \<and> i < int (length bs) then Inr (bs ! nat i) else Inl OutOfBounds)"

definition buf_set :: "byte list \<Rightarrow> int \<Rightarrow> byte \<Rightarrow> byte list res" where
  "buf_set bs i v = (if 0 \<le> i \<and> i < int (length bs) then Inr (bs[nat i := v]) else Inl OutOfBounds)"

definition overwrite :: "nat \<Rightarrow> 'a list \<Rightarrow> 'a list \<Rightarrow> 'a list" where
  "overwrite i xs bs = take i bs @ xs @ drop (i + length xs) bs"

definition buf_write :: "byte list \<Rightarrow> int \<Rightarrow> byte list \<Rightarrow> byte list res" where
  "buf_write bs i xs =
     (if 0 \<le> i \<and> i + int (length xs) \<le> int (length bs) then Inr (overwrite (nat i) xs bs)
      else Inl OutOfBounds)"

definition seg :: "nat \<Rightarrow> nat \<Rightarrow> 'a list \<Rightarrow> 'a list" where
  "seg i n xs = take n (drop i xs)"

definition buf_slice :: "byte list \<Rightarrow> int \<Rightarrow> int \<Rightarrow> byte list res" where
  "buf_slice bs i n =
     (if 0 \<le> i \<and> 0 \<le> n \<and> i + n \<le> int (length bs) then Inr (seg (nat i) (nat n) bs)
      else Inl OutOfBounds)"

lemma length_overwrite [simp]:
  "i + length xs \<le> length bs \<Longrightarrow> length (overwrite i xs bs) = length bs"
  by (simp add: overwrite_def)

lemma overwrite_eq_Nil [simp]:
  "i + length xs \<le> length bs \<Longrightarrow> overwrite i xs bs = [] \<longleftrightarrow> bs = []"
  by (metis length_0_conv length_overwrite)

lemma overwrite_Nil [simp]: "overwrite i [] bs = bs"
  by (simp add: overwrite_def)

lemma length_seg [simp]: "i + n \<le> length xs \<Longrightarrow> length (seg i n xs) = n"
  by (simp add: seg_def)

lemma seg_overwrite_same [simp]:
  "i + length xs \<le> length bs \<Longrightarrow> n = length xs \<Longrightarrow> seg i n (overwrite i xs bs) = xs"
  by (simp add: overwrite_def seg_def)

lemma take_overwrite_before:
  "n \<le> i \<Longrightarrow> i \<le> length bs \<Longrightarrow> take n (overwrite i xs bs) = take n bs"
  by (simp add: overwrite_def min_def)

lemma take_overwrite_end:
  "i \<le> length bs \<Longrightarrow> n = i + length xs \<Longrightarrow> take n (overwrite i xs bs) = take i bs @ xs"
  by (simp add: overwrite_def)

lemma overwrite_append:
  assumes "i + length xs + length ys \<le> length bs"
  shows "overwrite (i + length xs) ys (overwrite i xs bs) = overwrite i (xs @ ys) bs"
  using assms by (simp add: overwrite_def add.commute add.left_commute)

lemma overwrite_append_right:
  "i + length xs \<le> length bs \<Longrightarrow> overwrite i xs bs @ g = overwrite i xs (bs @ g)"
  by (simp add: overwrite_def)

lemma list_update_overwrite:
  "i < length bs \<Longrightarrow> bs[i := v] = overwrite i [v] bs"
  by (simp add: overwrite_def upd_conv_take_nth_drop)

lemma seg_nth: "i + n \<le> length xs \<Longrightarrow> k < n \<Longrightarrow> seg i n xs ! k = xs ! (i + k)"
  by (simp add: seg_def)

lemma seg_append: "seg i (m + n) xs = seg i m xs @ seg (i + m) n xs"
  by (simp add: seg_def take_add add.commute)

lemma drop_seg: "k \<le> n \<Longrightarrow> drop k (seg i n xs) = seg (i + k) (n - k) xs"
  by (simp add: seg_def drop_take add.commute)

lemma seg_append_eqD:
  assumes "seg i (m + n) xs = ys @ zs" and "length ys = m" and "i + m \<le> length xs"
  shows "seg i m xs = ys" and "seg (i + m) n xs = zs"
  using assms by (auto simp: seg_append append_eq_append_conv)

lemma seg_overwrite_before:
  "j + n \<le> i \<Longrightarrow> i \<le> length bs \<Longrightarrow> seg j n (overwrite i xs bs) = seg j n bs"
  unfolding seg_def overwrite_def by (simp add: drop_take min_absorb1 min_absorb2)

lemma seg_overwrite_after:
  "i + length xs \<le> j \<Longrightarrow> i + length xs \<le> length bs \<Longrightarrow>
   seg j n (overwrite i xs bs) = seg j n bs"
  unfolding seg_def overwrite_def by (simp add: min_def)

lemma buf_get_ok [buf_simps]:
  "0 \<le> i \<Longrightarrow> i < int (length bs) \<Longrightarrow> buf_get bs i = Inr (bs ! nat i)"
  by (simp add: buf_get_def)

lemma buf_set_ok [buf_simps]:
  "0 \<le> i \<Longrightarrow> i < int (length bs) \<Longrightarrow> buf_set bs i v = Inr (overwrite (nat i) [v] bs)"
  by (simp add: buf_set_def list_update_overwrite)

lemma buf_write_ok [buf_simps]:
  "0 \<le> i \<Longrightarrow> i + int (length xs) \<le> int (length bs) \<Longrightarrow>
   buf_write bs i xs = Inr (overwrite (nat i) xs bs)"
  by (simp add: buf_write_def)

lemma buf_slice_ok [buf_simps]:
  "0 \<le> i \<Longrightarrow> 0 \<le> n \<Longrightarrow> i + n \<le> int (length bs) \<Longrightarrow>
   buf_slice bs i n = Inr (seg (nat i) (nat n) bs)"
  by (simp add: buf_slice_def)

section \<open>Big-endian bytes of a word\<close>

text \<open>
  \<open>be_bytes k v\<close> are the \<open>k\<close> low bytes of \<open>v\<close>, most significant first: the specification that
  every writer of the wire format meets. \<open>be_val\<close> reads such a list back.
\<close>

fun be_bytes :: "nat \<Rightarrow> 'a::len word \<Rightarrow> byte list" where
  "be_bytes 0 v = []"
| "be_bytes (Suc k) v = ucast (drop_bit (8 * k) v) # be_bytes k v"

fun be_val :: "byte list \<Rightarrow> 'a::len word" where
  "be_val [] = 0"
| "be_val (b # bs) = (push_bit (8 * length bs) (ucast b)) OR be_val bs"

lemma length_be_bytes [simp]: "length (be_bytes k v) = k"
  by (induction k) auto

lemma be_val_be_bytes: "be_val (be_bytes k v) = take_bit (8 * k) v"
proof (induction k)
  case 0
  show ?case by simp
next
  case (Suc k)
  show ?case
    by (rule bit_word_eqI) (auto simp: Suc bit_simps)
qed

end
