(* ===== verification/BufPool.thy ===== *)
theory BufPool
  imports Prelude "HOL-Library.Multiset"
begin

text \<open>
  The message buffers of \<open>src/NetMessage.cpp\<close>: \<open>MemBuffer\<close>, a growable block of bytes, and
  \<open>CMessageBufPool\<close>, the process-wide free list from which messages take their buffers. The
  allocator of the C library is a parameter \<open>M\<close>: \<open>M n\<close> is the contents of a fresh block of
  \<open>n\<close> bytes, or \<open>None\<close> when \<open>malloc\<close> returns a null pointer.
\<close>

type_synonym malloc = "nat \<Rightarrow> byte list option"

text \<open>What the C standard says of \<open>malloc\<close>: a block it returns has the size asked for.\<close>

definition malloc_sound :: "malloc \<Rightarrow> bool" where
  "malloc_sound M \<longleftrightarrow> (\<forall>n bs. M n = Some bs \<longrightarrow> length bs = n)"

text \<open>The allocator serves every request of at most \<open>k\<close> bytes.\<close>

definition malloc_serves :: "malloc \<Rightarrow> nat \<Rightarrow> bool" where
  "malloc_serves M k \<longleftrightarrow> malloc_sound M \<and> (\<forall>n \<le> k. M n \<noteq> None)"

definition realloc :: "malloc \<Rightarrow> byte list option \<Rightarrow> nat \<Rightarrow> byte list option" where
  "realloc M old n =
     (case M n of
        None \<Rightarrow> None
      | Some g \<Rightarrow> Some (case old of None \<Rightarrow> g | Some bs \<Rightarrow> take n bs @ drop (length bs) g))"

text \<open>An allocator that always succeeds and clears its blocks, for concrete runs.\<close>

definition zero_malloc :: malloc where
  "zero_malloc n = Some (replicate n 0)"

lemma zero_malloc_serves [simp]: "malloc_serves zero_malloc k"
  by (simp add: malloc_serves_def malloc_sound_def zero_malloc_def)

section \<open>MemBuffer\<close>

record MemBuffer =
  mb_size :: int                   \<comment> \<open>\<open>m_size\<close>\<close>
  mb_buf :: "byte list option"     \<comment> \<open>\<open>m_buf\<close>, \<open>None\<close> for the null pointer\<close>

definition MemBuffer_new :: "malloc \<Rightarrow> int \<Rightarrow> MemBuffer" where
  "MemBuffer_new M sz =
     (case M (c_size_t sz) of
        None \<Rightarrow> \<lparr>mb_size = 0, mb_buf = None\<rparr>
      | Some bs \<Rightarrow> \<lparr>mb_size = sz, mb_buf = Some bs\<rparr>)"

definition MemBuffer_enlarge :: "malloc \<Rightarrow> int \<Rightarrow> MemBuffer \<Rightarrow> MemBuffer res" where
  "MemBuffer_enlarge M newSize b =
     bindE (if newSize = 0 then c_int (mb_size b * 2) else Inr (mb_size b)) (\<lambda>n.
       Inr (case realloc M (mb_buf b) (c_size_t n) of
              None \<Rightarrow> \<lparr>mb_size = 0, mb_buf = None\<rparr>
            | Some bs \<Rightarrow> \<lparr>mb_size = n, mb_buf = Some bs\<rparr>))"

text \<open>
  \<open>MemBuffer::getBuf\<close> computes \<open>m_buf + pos\<close> and only prints a warning when \<open>pos\<close> is not below the
  size; the pointer is then read or written. The two accesses the callers make of it:
\<close>

definition MemBuffer_load :: "MemBuffer \<Rightarrow> int \<Rightarrow> byte res" where
  "MemBuffer_load b pos = (case mb_buf b of None \<Rightarrow> Inl NullDeref | Some bs \<Rightarrow> buf_get bs pos)"

definition MemBuffer_store :: "MemBuffer \<Rightarrow> int \<Rightarrow> byte list \<Rightarrow> MemBuffer res" where
  "MemBuffer_store b pos xs =
     (case mb_buf b of
        None \<Rightarrow> Inl NullDeref
      | Some bs \<Rightarrow> bindE (buf_write bs pos xs) (\<lambda>bs'. Inr (b\<lparr>mb_buf := Some bs'\<rparr>)))"

definition MemBuffer_read :: "MemBuffer \<Rightarrow> int \<Rightarrow> int \<Rightarrow> byte list res" where
  "MemBuffer_read b pos n =
     (case mb_buf b of None \<Rightarrow> Inl NullDeref | Some bs \<Rightarrow> buf_slice bs pos n)"

text \<open>A buffer that owns as many bytes as its size says.\<close>

definition mb_wf :: "MemBuffer \<Rightarrow> bool" where
  "mb_wf b \<longleftrightarrow> (case mb_buf b of None \<Rightarrow> False | Some bs \<Rightarrow> mb_size b = int (length bs))
               \<and> 0 < mb_size b \<and> mb_size b \<le> INT_MAX"

section \<open>CMessageBufPool\<close>

record bufpool =
  pool_constructed :: bool         \<comment> \<open>the static local of \<open>getInstance\<close> exists\<close>
  m_hasInit :: bool
  m_pool :: "MemBuffer list"

definition pool_init :: bufpool where
  "pool_init = \<lparr>pool_constructed = False, m_hasInit = False, m_pool = []\<rparr>"

definition pool_getInstance :: "bufpool \<Rightarrow> bufpool" where
  "pool_getInstance p =
     (if pool_constructed p then p else p\<lparr>pool_constructed := True, m_hasInit := True\<rparr>)"

definition pool_destroy :: "bufpool \<Rightarrow> bufpool" where
  "pool_destroy p = p\<lparr>m_pool := [], m_hasInit := False\<rparr>"

definition pool_Init :: "malloc \<Rightarrow> bufpool \<Rightarrow> bufpool" where
  "pool_Init M p =
     p\<lparr>m_pool := m_pool p @ replicate 5 (MemBuffer_new M 512)
                         @ replicate 5 (MemBuffer_new M 1024) @ [MemBuffer_new M 65536]\<rparr>"

fun first_fit :: "int \<Rightarrow> MemBuffer list \<Rightarrow> (MemBuffer \<times> MemBuffer list) option" where
  "first_fit sz [] = None"
| "first_fit sz (b # bs) =
     (if mb_size b \<ge> sz then Some (b, bs)
      else map_option (\<lambda>(out, rest). (out, b # rest)) (first_fit sz bs))"

definition pool_require :: "malloc \<Rightarrow> int \<Rightarrow> bufpool \<Rightarrow> MemBuffer \<times> bufpool" where
  "pool_require M sz p0 =
     (let p = (if m_pool p0 = [] then pool_Init M p0 else p0)
      in if sz = 0 then (hd (m_pool p), p\<lparr>m_pool := tl (m_pool p)\<rparr>)
         else case first_fit sz (m_pool p) of
                Some (out, rest) \<Rightarrow> (out, p\<lparr>m_pool := rest\<rparr>)
              | None \<Rightarrow> (MemBuffer_new M sz, p))"

fun release_at :: "MemBuffer \<Rightarrow> MemBuffer list \<Rightarrow> MemBuffer list" where
  "release_at b [] = [b]"
| "release_at b (c # cs) = (if mb_size c \<ge> mb_size b then b # c # cs else c # release_at b cs)"

definition pool_release :: "MemBuffer \<Rightarrow> bufpool \<Rightarrow> bufpool" where
  "pool_release b p = (if \<not> m_hasInit p then p else p\<lparr>m_pool := release_at b (m_pool p)\<rparr>)"

text \<open>The free list is kept in order of size and holds only usable buffers.\<close>

definition pool_wf :: "bufpool \<Rightarrow> bool" where
  "pool_wf p \<longleftrightarrow> sorted (map mb_size (m_pool p)) \<and> (\<forall>b \<in> set (m_pool p). mb_wf b)"

lemmas buffer_defs [model_defs] =
  MemBuffer_load_def MemBuffer_store_def MemBuffer_read_def

section \<open>Lemmas\<close>

lemma malloc_servesE:
  assumes "malloc_serves M k" and "n \<le> k"
  obtains bs where "M n = Some bs" and "length bs = n"
  using assms unfolding malloc_serves_def malloc_sound_def by auto

lemma MemBuffer_new_wf:
  assumes "malloc_serves M k" and "0 < sz" and "sz \<le> int k" and "sz \<le> INT_MAX"
  shows "mb_wf (MemBuffer_new M sz) \<and> mb_size (MemBuffer_new M sz) = sz"
proof -
  have n: "c_size_t sz = nat sz" using assms by simp
  obtain bs where "M (nat sz) = Some bs" and "length bs = nat sz"
    using assms(1) by (rule malloc_servesE [where n = "nat sz"]) (use assms in auto)
  then show ?thesis using assms n by (simp add: MemBuffer_new_def mb_wf_def)
qed

lemma enlarge_ok:
  assumes "malloc_serves M k" and "mb_wf b" and "mb_buf b = Some bs"
    and "2 * mb_size b \<le> int k" and "2 * mb_size b \<le> INT_MAX"
  obtains g where "MemBuffer_enlarge M 0 b = Inr \<lparr>mb_size = 2 * mb_size b, mb_buf = Some (bs @ g)\<rparr>"
    and "length g = length bs"
proof -
  have len: "mb_size b = int (length bs)" using assms by (auto simp: mb_wf_def)
  have sz: "c_size_t (mb_size b * 2) = 2 * length bs" using assms len by (simp add: mult.commute)
  obtain g where g: "M (2 * length bs) = Some g" "length g = 2 * length bs"
    using assms(1) by (rule malloc_servesE [where n = "2 * length bs"]) (use assms(4) len in auto)
  have "in_int (mb_size b * 2)" using assms(5) len by (simp add: in_int_def INT_MIN_def)
  then have "MemBuffer_enlarge M 0 b =
      Inr \<lparr>mb_size = 2 * mb_size b, mb_buf = Some (bs @ drop (length bs) g)\<rparr>"
    using g sz assms(3) by (simp add: MemBuffer_enlarge_def c_int_def realloc_def mult.commute)
  with g that show thesis by simp
qed

lemma first_fit_Some:
  "first_fit sz bs = Some (out, rest) \<Longrightarrow>
   mb_size out \<ge> sz \<and> mset bs = add_mset out (mset rest)
   \<and> (\<exists>us vs. bs = us @ out # vs \<and> rest = us @ vs \<and> (\<forall>u \<in> set us. mb_size u < sz))"
proof (induction bs arbitrary: out rest)
  case Nil
  then show ?case by simp
next
  case (Cons b bs)
  show ?case
  proof (cases "mb_size b \<ge> sz")
    case True
    with Cons.prems show ?thesis by (auto intro: exI [of _ "[]"])
  next
    case False
    with Cons.prems obtain r where r: "first_fit sz bs = Some (out, r)" "rest = b # r"
      by auto
    from Cons.IH [OF r(1)] obtain us vs where
      "bs = us @ out # vs" "r = us @ vs" "\<forall>u \<in> set us. mb_size u < sz" by auto
    then have "b # bs = (b # us) @ out # vs \<and> rest = (b # us) @ vs
               \<and> (\<forall>u \<in> set (b # us). mb_size u < sz)" using False r by auto
    moreover have "mb_size out \<ge> sz \<and> mset (b # bs) = add_mset out (mset rest)"
      using Cons.IH [OF r(1)] r(2) by auto
    ultimately show ?thesis by blast
  qed
qed

lemma first_fit_None: "first_fit sz bs = None \<longleftrightarrow> (\<forall>b \<in> set bs. mb_size b < sz)"
  by (induction bs) auto

lemma mset_release_at [simp]: "mset (release_at b bs) = add_mset b (mset bs)"
  by (induction bs) auto

lemma set_release_at [simp]: "set (release_at b bs) = insert b (set bs)"
  by (induction bs) auto

lemma sorted_release_at:
  "sorted (map mb_size bs) \<Longrightarrow> sorted (map mb_size (release_at b bs))"
  by (induction bs) auto

lemma sorted_remove_middle:
  "sorted (map f (us @ x # vs)) \<Longrightarrow> sorted (map f (us @ vs))"
  by (auto simp: sorted_append)

lemma pool_getInstance_simps [simp]:
  "m_pool (pool_getInstance p) = m_pool p"
  "pool_constructed (pool_getInstance p)"
  "pool_wf (pool_getInstance p) = pool_wf p"
  by (auto simp: pool_getInstance_def pool_wf_def)

lemma pool_release_wf: "pool_wf p \<Longrightarrow> mb_wf b \<Longrightarrow> pool_wf (pool_release b p)"
  by (auto simp: pool_release_def pool_wf_def sorted_release_at)

lemma pool_Init_wf:
  assumes "malloc_serves M 65536" and "m_pool p = []"
  shows "pool_wf (pool_Init M p)"
proof -
  have "mb_wf (MemBuffer_new M 512) \<and> mb_size (MemBuffer_new M 512) = 512"
    "mb_wf (MemBuffer_new M 1024) \<and> mb_size (MemBuffer_new M 1024) = 1024"
    "mb_wf (MemBuffer_new M 65536) \<and> mb_size (MemBuffer_new M 65536) = 65536"
    by (rule MemBuffer_new_wf [OF assms(1)]; simp add: INT_MAX_def)+
  then show ?thesis
    using assms(2) by (auto simp: pool_Init_def pool_wf_def sorted_append)
qed

lemma pool_wf_refill:
  assumes "malloc_serves M k" and "65536 \<le> k" and "pool_wf p"
  shows "pool_wf (if m_pool p = [] then pool_Init M p else p)"
    and "m_pool (if m_pool p = [] then pool_Init M p else p) \<noteq> []"
proof -
  have "malloc_serves M 65536" using assms(1,2) by (auto simp: malloc_serves_def)
  then show "pool_wf (if m_pool p = [] then pool_Init M p else p)"
    using pool_Init_wf assms(3) by auto
  show "m_pool (if m_pool p = [] then pool_Init M p else p) \<noteq> []"
    by (simp add: pool_Init_def)
qed

lemma pool_wf_remove:
  assumes "pool_wf p" and "m_pool p = us @ b # vs"
  shows "pool_wf (p\<lparr>m_pool := us @ vs\<rparr>)" and "mb_wf b"
    and "\<forall>v \<in> set vs. mb_size b \<le> mb_size v"
  using assms sorted_remove_middle [of mb_size us b vs]
  by (auto simp: pool_wf_def sorted_append)

lemma pool_require_cases:
  assumes "malloc_serves M (nat INT_MAX)" and "pool_wf p" and "0 \<le> n" and "n \<le> INT_MAX"
    and "q = (if m_pool p = [] then pool_Init M p else p)" and "pool_require M n p = (b, p')"
  shows "(\<exists>us vs. m_pool q = us @ b # vs \<and> p' = q\<lparr>m_pool := us @ vs\<rparr> \<and> n \<le> mb_size b
            \<and> (\<forall>u \<in> set us. mb_size u < n))
         \<or> (0 < n \<and> (\<forall>c \<in> set (m_pool q). mb_size c < n) \<and> p' = q \<and> b = MemBuffer_new M n)"
proof -
  have ne: "m_pool q \<noteq> []" and qwf: "pool_wf q"
    using pool_wf_refill [OF assms(1) _ assms(2)] assms(5) by (simp_all add: INT_MAX_def)
  have eq: "pool_require M n p =
      (if n = 0 then (hd (m_pool q), q\<lparr>m_pool := tl (m_pool q)\<rparr>)
       else case first_fit n (m_pool q) of Some (out, rest) \<Rightarrow> (out, q\<lparr>m_pool := rest\<rparr>)
            | None \<Rightarrow> (MemBuffer_new M n, q))"
    unfolding pool_require_def Let_def assms(5) [symmetric] by (rule refl)
  show ?thesis
  proof (cases "n = 0")
    case True
    with eq assms(6) ne have b: "m_pool q = [] @ b # tl (m_pool q)" "p' = q\<lparr>m_pool := [] @ tl (m_pool q)\<rparr>"
      by auto
    then have "mb_wf b" using pool_wf_remove(2) [OF qwf] by blast
    then have "m_pool q = [] @ b # tl (m_pool q) \<and> p' = q\<lparr>m_pool := [] @ tl (m_pool q)\<rparr>
        \<and> n \<le> mb_size b \<and> (\<forall>u \<in> set []. mb_size u < n)"
      using b True by (simp add: mb_wf_def)
    then show ?thesis by blast
  next
    case False
    show ?thesis
    proof (cases "first_fit n (m_pool q)")
      case None
      with False eq assms(3,6) show ?thesis by (auto simp: first_fit_None)
    next
      case (Some br)
      with False eq assms(6) have "first_fit n (m_pool q) = Some (b, m_pool p')" "p' = q\<lparr>m_pool := snd br\<rparr>"
        by (auto split: prod.splits)
      with first_fit_Some [OF this(1)] obtain us vs where
        "m_pool q = us @ b # vs \<and> p' = q\<lparr>m_pool := us @ vs\<rparr> \<and> n \<le> mb_size b
          \<and> (\<forall>u \<in> set us. mb_size u < n)" by auto
      then show ?thesis by blast
    qed
  qed
qed

section \<open>The pool as a supply of buffers\<close>

text \<open>
  What the messages rely on: a requested buffer is usable and large enough, and requests and
  releases keep the supply in order. \<open>env_ok\<close> is what the supply needs of its allocator.
\<close>

locale buffer_supply =
  fixes require :: "'env \<Rightarrow> int \<Rightarrow> 'p \<Rightarrow> 'b \<times> 'p"
    and release :: "'b \<Rightarrow> 'p \<Rightarrow> 'p"
    and env_ok :: "'env \<Rightarrow> bool"
    and pinv :: "'p \<Rightarrow> bool"
    and binv :: "'b \<Rightarrow> bool"
    and cap :: "'b \<Rightarrow> int"
    and limit :: int
  assumes require_ok: "env_ok e \<Longrightarrow> pinv p \<Longrightarrow> 0 \<le> n \<Longrightarrow> n \<le> limit \<Longrightarrow> require e n p = (b, p') \<Longrightarrow>
      pinv p' \<and> binv b \<and> n \<le> cap b"
    and release_ok: "pinv p \<Longrightarrow> binv b \<Longrightarrow> pinv (release b p)"

text \<open>A client: requests and releases in any order, holding the buffers it has not given back.\<close>

datatype supply_op = Require int | Release nat

fun supply_step :: "('env \<Rightarrow> int \<Rightarrow> 'p \<Rightarrow> 'b \<times> 'p) \<Rightarrow> ('b \<Rightarrow> 'p \<Rightarrow> 'p) \<Rightarrow> 'env \<Rightarrow>
    supply_op \<Rightarrow> 'p \<times> 'b list \<Rightarrow> 'p \<times> 'b list" where
  "supply_step req rel e (Require n) (p, held) = (let (b, p') = req e n p in (p', b # held))"
| "supply_step req rel e (Release i) (p, held) =
     (if i < length held then (rel (held ! i) p, take i held @ drop (Suc i) held) else (p, held))"

fun supply_run :: "('env \<Rightarrow> int \<Rightarrow> 'p \<Rightarrow> 'b \<times> 'p) \<Rightarrow> ('b \<Rightarrow> 'p \<Rightarrow> 'p) \<Rightarrow> 'env \<Rightarrow>
    supply_op list \<Rightarrow> 'p \<times> 'b list \<Rightarrow> 'p \<times> 'b list" where
  "supply_run req rel e [] s = s"
| "supply_run req rel e (x # xs) s = supply_run req rel e xs (supply_step req rel e x s)"

context buffer_supply begin

lemma step_inv:
  assumes "env_ok e" and "\<And>n. x = Require n \<Longrightarrow> 0 \<le> n \<and> n \<le> limit"
    and "pinv p" and "\<forall>b \<in> set held. binv b"
  shows "pinv (fst (supply_step require release e x (p, held)))
         \<and> (\<forall>b \<in> set (snd (supply_step require release e x (p, held))). binv b)"
proof (cases x)
  case (Require n)
  obtain b p' where r: "require e n p = (b, p')" by fastforce
  then show ?thesis using require_ok [OF assms(1,3) _ _ r] assms Require by auto
next
  case (Release i)
  then show ?thesis
    using assms release_ok by (auto dest: in_set_takeD in_set_dropD)
qed

lemma run_inv:
  assumes "env_ok e" and "\<forall>n. Require n \<in> set xs \<longrightarrow> 0 \<le> n \<and> n \<le> limit"
  shows "pinv (fst s) \<Longrightarrow> \<forall>b \<in> set (snd s). binv b \<Longrightarrow>
    pinv (fst (supply_run require release e xs s))
    \<and> (\<forall>b \<in> set (snd (supply_run require release e xs s)). binv b)"
  using assms(2)
proof (induction xs arbitrary: s)
  case Nil
  then show ?case by simp
next
  case (Cons x xs)
  have "pinv (fst (supply_step require release e x s))
        \<and> (\<forall>b \<in> set (snd (supply_step require release e x s)). binv b)"
    using step_inv [OF assms(1), of x "fst s" "snd s"] Cons.prems by auto
  then show ?case
    using Cons.IH [of "supply_step require release e x s"] Cons.prems(3) by auto
qed

end

lemma require_wf:
  assumes "malloc_serves M (nat INT_MAX)" and "pool_wf p" and "0 \<le> n" and "n \<le> INT_MAX"
    and "pool_require M n p = (b, p')"
  shows "pool_wf p' \<and> mb_wf b \<and> n \<le> mb_size b"
proof -
  define q where "q = (if m_pool p = [] then pool_Init M p else p)"
  have qwf: "pool_wf q"
    using pool_wf_refill(1) [OF assms(1) _ assms(2)] by (simp add: q_def INT_MAX_def)
  from pool_require_cases [OF assms(1-4) q_def assms(5)] show ?thesis
  proof
    assume "\<exists>us vs. m_pool q = us @ b # vs \<and> p' = q\<lparr>m_pool := us @ vs\<rparr> \<and> n \<le> mb_size b
            \<and> (\<forall>u \<in> set us. mb_size u < n)"
    then obtain us vs where "m_pool q = us @ b # vs" "p' = q\<lparr>m_pool := us @ vs\<rparr>" "n \<le> mb_size b"
      by blast
    with pool_wf_remove [OF qwf this(1)] show ?thesis by simp
  next
    assume "0 < n \<and> (\<forall>c \<in> set (m_pool q). mb_size c < n) \<and> p' = q \<and> b = MemBuffer_new M n"
    with MemBuffer_new_wf [OF assms(1), of n] assms(4) qwf show ?thesis by simp
  qed
qed

interpretation pool: buffer_supply pool_require pool_release
  "\<lambda>M. malloc_serves M (nat INT_MAX)" pool_wf mb_wf mb_size INT_MAX
  by unfold_locales (simp_all add: require_wf pool_release_wf)

section \<open>Properties\<close>

text \<open>
  C9: in any sequence of requests (of at most the largest \<open>int\<close> bytes) and releases on the
  message buffer pool, the free list stays ordered by size and holds only usable buffers, and
  every buffer handed out is usable.
\<close>

theorem pool_run_invariant:
  assumes "malloc_serves M (nat INT_MAX)"
    and "\<forall>n. Require n \<in> set xs \<longrightarrow> 0 \<le> n \<and> n \<le> INT_MAX"
    and "supply_run pool_require pool_release M xs (pool_getInstance pool_init, []) = (p, held)"
  shows "pool_wf p \<and> (\<forall>b \<in> set held. mb_wf b)"
  using pool.run_inv [OF assms(1,2), of "(pool_getInstance pool_init, [])"] assms(3)
  by (simp add: pool_wf_def pool_init_def)

theorem pool_run_invariant_witness:
  "let s = supply_run pool_require pool_release zero_malloc [Require 600, Release 0, Require 0]
             (pool_getInstance pool_init, [])
   in pool_wf (fst s) \<and> (\<forall>b \<in> set (snd s). mb_wf b)"
  using pool_run_invariant [of zero_malloc "[Require 600, Release 0, Require 0]" "fst s" "snd s" for s]
  by (auto simp: Let_def INT_MAX_def)

text \<open>
  C10: \<open>require\<close> takes the smallest pooled buffer that is large enough, and takes it out of the pool;
  only when no pooled buffer is large enough does it allocate one of exactly the requested size.
\<close>

theorem pool_require_best_fit:
  assumes "malloc_serves M (nat INT_MAX)" and "pool_wf p" and "m_pool p \<noteq> []" and "0 < n" and "n \<le> INT_MAX"
    and "pool_require M n p = (b, p')"
  shows "if \<exists>c \<in> set (m_pool p). n \<le> mb_size c
         then mset (m_pool p) = add_mset b (mset (m_pool p')) \<and> n \<le> mb_size b
              \<and> (\<forall>c \<in> set (m_pool p). n \<le> mb_size c \<longrightarrow> mb_size b \<le> mb_size c)
         else p' = p \<and> mb_size b = n"
proof -
  have q: "p = (if m_pool p = [] then pool_Init M p else p)" using assms(3) by simp
  from assms(4) have "0 \<le> n" by simp
  from pool_require_cases [OF assms(1,2) this assms(5) q assms(6)] show ?thesis
  proof
    assume "\<exists>us vs. m_pool p = us @ b # vs \<and> p' = p\<lparr>m_pool := us @ vs\<rparr> \<and> n \<le> mb_size b
            \<and> (\<forall>u \<in> set us. mb_size u < n)"
    then obtain us vs where u: "m_pool p = us @ b # vs" "p' = p\<lparr>m_pool := us @ vs\<rparr>" "n \<le> mb_size b"
      "\<forall>u \<in> set us. mb_size u < n" by blast
    have "n \<le> mb_size c \<longrightarrow> mb_size b \<le> mb_size c" if "c \<in> set (m_pool p)" for c
      using that u pool_wf_remove(3) [OF assms(2) u(1)] by auto
    with u show ?thesis by auto
  next
    assume "0 < n \<and> (\<forall>c \<in> set (m_pool p). mb_size c < n) \<and> p' = p \<and> b = MemBuffer_new M n"
    moreover from this have "\<not> (\<exists>c \<in> set (m_pool p). n \<le> mb_size c)" by (simp add: not_le)
    ultimately show ?thesis using MemBuffer_new_wf [OF assms(1), of n] assms(5) by simp
  qed
qed

theorem pool_require_best_fit_witness:
  "let p = \<lparr>pool_constructed = True, m_hasInit = True,
            m_pool = [MemBuffer_new zero_malloc 8, MemBuffer_new zero_malloc 16]\<rparr>;
       (b, p') = pool_require zero_malloc 10 p
   in mset (m_pool p) = add_mset b (mset (m_pool p')) \<and> 10 \<le> mb_size b
      \<and> (\<forall>c \<in> set (m_pool p). 10 \<le> mb_size c \<longrightarrow> mb_size b \<le> mb_size c)"
  using pool_require_best_fit [of zero_malloc "\<lparr>pool_constructed = True, m_hasInit = True,
      m_pool = [MemBuffer_new zero_malloc 8, MemBuffer_new zero_malloc 16]\<rparr>" 10
      "fst r" "snd r" for r]
  by (auto simp: Let_def pool_wf_def mb_wf_def MemBuffer_new_def zero_malloc_def INT_MAX_def
      pool_require_def)

end
