(* ===== verification/NetMsg.thy ===== *)
theory NetMsg
  imports BufPool
begin

text \<open>
  \<open>NetMessage\<close> (\<open>src/NetMessage.h\<close>, \<open>src/NetMessage.cpp\<close>): one message of the wire protocol, with
  its length framing (two bytes, or \<open>FF FF\<close> and four bytes) and its typed readers and writers. A
  message owns its buffer, so the buffer is a component of the message. Short, int and 64-bit
  values are words whose bits are the two's complement bits; \<open>float\<close> and \<open>double\<close> are the words
  of their memory image on a little-endian machine.
\<close>

record NetMessage =
  m_size :: int            \<comment> \<open>\<open>-1\<close> unknown, \<open>-2\<close> four more length bytes needed, else the size\<close>
  m_headSize :: int
  m_bufStartPos :: int
  m_curPos :: int
  m_buffer :: "MemBuffer option"

section \<open>Construction, positions and capacities\<close>

definition NetMessage_createBuf :: "malloc \<Rightarrow> int \<Rightarrow> NetMessage \<Rightarrow> bufpool \<Rightarrow> NetMessage \<times> bufpool" where
  "NetMessage_createBuf M bufSize m p =
     (let (b, p') = pool_require M bufSize (pool_getInstance p) in (m\<lparr>m_buffer := Some b\<rparr>, p'))"

definition NetMessage_new :: "malloc \<Rightarrow> int \<Rightarrow> bufpool \<Rightarrow> NetMessage \<times> bufpool" where
  "NetMessage_new M n p =
     NetMessage_createBuf M n
       \<lparr>m_size = -1, m_headSize = 2, m_bufStartPos = 0, m_curPos = 0, m_buffer = None\<rparr> p"

definition NetMessage_delete :: "NetMessage \<Rightarrow> bufpool \<Rightarrow> bufpool" where
  "NetMessage_delete m p =
     (case m_buffer m of None \<Rightarrow> p | Some b \<Rightarrow> pool_release b (pool_getInstance p))"

definition NetMessage_getReadCap :: "NetMessage \<Rightarrow> int" where
  "NetMessage_getReadCap m =
     (if m_size m \<ge> 0 then m_size m - m_curPos m + m_headSize m
      else if m_size m = -1 then 2 else 4)"

definition NetMessage_getSendCap :: "NetMessage \<Rightarrow> int" where
  "NetMessage_getSendCap m = m_size m - m_curPos m + m_bufStartPos m + m_headSize m"

definition NetMessage_isEnd :: "NetMessage \<Rightarrow> bool" where
  "NetMessage_isEnd m =
     (if m_size m < 0 then False else m_curPos m = m_size m + m_headSize m + m_bufStartPos m)"

definition NetMessage_ResetForSend :: "NetMessage \<Rightarrow> NetMessage" where
  "NetMessage_ResetForSend m = m\<lparr>m_curPos := m_bufStartPos m\<rparr>"

definition NetMessage_ResetForRead :: "NetMessage \<Rightarrow> NetMessage" where
  "NetMessage_ResetForRead m = m\<lparr>m_curPos := m_bufStartPos m + m_headSize m\<rparr>"

definition NetMessage_onSend :: "int \<Rightarrow> NetMessage \<Rightarrow> NetMessage res" where
  "NetMessage_onSend n m = bindE (c_int (m_curPos m + n)) (\<lambda>p. Inr (m\<lparr>m_curPos := p\<rparr>))"

section \<open>Growing the buffer, single bytes\<close>

text \<open>
  The loop of \<open>checkBufSize\<close>. A buffer whose size is 0 (a failed allocation) is never enlarged, so
  the loop does not end there; \<open>grow_fuel\<close> iterations are enough in every other case, because
  the size doubles and 31 doublings pass the largest \<open>int\<close>.
\<close>

fun grow_loop :: "nat \<Rightarrow> malloc \<Rightarrow> int \<Rightarrow> MemBuffer \<Rightarrow> MemBuffer res" where
  "grow_loop 0 M need b = (if need > mb_size b then Inl Diverges else Inr b)"
| "grow_loop (Suc fuel) M need b =
     (if need > mb_size b then bindE (MemBuffer_enlarge M 0 b) (grow_loop fuel M need) else Inr b)"

definition grow_fuel :: nat where "grow_fuel = 32"

definition NetMessage_checkBufSize :: "malloc \<Rightarrow> int \<Rightarrow> NetMessage \<Rightarrow> NetMessage res" where
  "NetMessage_checkBufSize M n m =
     (case m_buffer m of
        None \<Rightarrow> Inl NullDeref
      | Some b \<Rightarrow>
          bindE (c_int (m_curPos m + n)) (\<lambda>need.
          bindE (grow_loop grow_fuel M need b) (\<lambda>b'. Inr (m\<lparr>m_buffer := Some b'\<rparr>))))"

definition NetMessage_store :: "NetMessage \<Rightarrow> int \<Rightarrow> byte list \<Rightarrow> NetMessage res" where
  "NetMessage_store m pos xs =
     (case m_buffer m of
        None \<Rightarrow> Inl NullDeref
      | Some b \<Rightarrow> bindE (MemBuffer_store b pos xs) (\<lambda>b'. Inr (m\<lparr>m_buffer := Some b'\<rparr>)))"

definition NetMessage_load :: "NetMessage \<Rightarrow> int \<Rightarrow> byte res" where
  "NetMessage_load m pos =
     (case m_buffer m of None \<Rightarrow> Inl NullDeref | Some b \<Rightarrow> MemBuffer_load b pos)"

definition NetMessage_read :: "NetMessage \<Rightarrow> int \<Rightarrow> int \<Rightarrow> byte list res" where
  "NetMessage_read m pos n =
     (case m_buffer m of None \<Rightarrow> Inl NullDeref | Some b \<Rightarrow> MemBuffer_read b pos n)"

definition NetMessage_advance :: "int \<Rightarrow> NetMessage \<Rightarrow> NetMessage res" where
  "NetMessage_advance n m = bindE (c_int (m_curPos m + n)) (\<lambda>p. Inr (m\<lparr>m_curPos := p\<rparr>))"

definition NetMessage_setBufValue :: "byte \<Rightarrow> NetMessage \<Rightarrow> NetMessage res" where
  "NetMessage_setBufValue v m =
     bindE (NetMessage_store m (m_curPos m) [v]) (NetMessage_advance 1)"

definition NetMessage_getBufValue :: "NetMessage \<Rightarrow> (byte \<times> NetMessage) res" where
  "NetMessage_getBufValue m =
     bindE (NetMessage_load m (m_curPos m)) (\<lambda>v.
     bindE (NetMessage_advance 1 m) (\<lambda>m'. Inr (v, m')))"

text \<open>A run of consecutive \<open>setBufValue\<close> or \<open>getBufValue\<close> calls in the source.\<close>

fun setBufValues :: "byte list \<Rightarrow> NetMessage \<Rightarrow> NetMessage res" where
  "setBufValues [] m = Inr m"
| "setBufValues (v # vs) m = bindE (NetMessage_setBufValue v m) (setBufValues vs)"

fun getBufValues :: "nat \<Rightarrow> NetMessage \<Rightarrow> (byte list \<times> NetMessage) res" where
  "getBufValues 0 m = Inr ([], m)"
| "getBufValues (Suc n) m =
     bindE (NetMessage_getBufValue m) (\<lambda>(v, m').
     bindE (getBufValues n m') (\<lambda>(vs, m''). Inr (v # vs, m'')))"

section \<open>Typed writers and readers\<close>

definition lo8 :: "'a::len word \<Rightarrow> byte" where
  "lo8 v = ucast (v AND 0xFF)"

definition NetMessage_wUShort :: "malloc \<Rightarrow> 16 word \<Rightarrow> NetMessage \<Rightarrow> NetMessage res" where
  "NetMessage_wUShort M v m =
     bindE (NetMessage_checkBufSize M 2 m) (setBufValues [lo8 (drop_bit 8 v), lo8 v])"

definition NetMessage_rUShort :: "NetMessage \<Rightarrow> (16 word \<times> NetMessage) res" where
  "NetMessage_rUShort m =
     bindE (getBufValues 2 m) (\<lambda>(bs, m').
       Inr (push_bit 8 (ucast (bs ! 0)) OR ucast (bs ! 1), m'))"

definition NetMessage_wShort :: "malloc \<Rightarrow> 16 word \<Rightarrow> NetMessage \<Rightarrow> NetMessage res" where
  "NetMessage_wShort M v m =
     bindE (NetMessage_checkBufSize M 2 m) (setBufValues [lo8 (signed_drop_bit 8 v), lo8 v])"

definition NetMessage_rShort :: "NetMessage \<Rightarrow> (16 word \<times> NetMessage) res" where
  "NetMessage_rShort m =
     bindE (getBufValues 2 m) (\<lambda>(bs, m').
       Inr (push_bit 8 (ucast (bs ! 0)) OR ucast (bs ! 1), m'))"

definition NetMessage_wInt8 :: "malloc \<Rightarrow> byte \<Rightarrow> NetMessage \<Rightarrow> NetMessage res" where
  "NetMessage_wInt8 M v m = bindE (NetMessage_checkBufSize M 1 m) (setBufValues [lo8 v])"

definition NetMessage_rInt8 :: "NetMessage \<Rightarrow> (byte \<times> NetMessage) res" where
  "NetMessage_rInt8 m = bindE (getBufValues 1 m) (\<lambda>(bs, m'). Inr (lo8 (bs ! 0), m'))"

definition NetMessage_wUInt8 :: "malloc \<Rightarrow> byte \<Rightarrow> NetMessage \<Rightarrow> NetMessage res" where
  "NetMessage_wUInt8 M v m = bindE (NetMessage_checkBufSize M 1 m) (setBufValues [lo8 v])"

definition NetMessage_rUInt8 :: "NetMessage \<Rightarrow> (byte \<times> NetMessage) res" where
  "NetMessage_rUInt8 m = bindE (getBufValues 1 m) (\<lambda>(bs, m'). Inr (lo8 (bs ! 0), m'))"

definition NetMessage_wBoolean :: "malloc \<Rightarrow> bool \<Rightarrow> NetMessage \<Rightarrow> NetMessage res" where
  "NetMessage_wBoolean M v m =
     bindE (NetMessage_checkBufSize M 1 m) (setBufValues [if v then 1 else 0])"

definition NetMessage_rBoolean :: "NetMessage \<Rightarrow> (bool \<times> NetMessage) res" where
  "NetMessage_rBoolean m = bindE (getBufValues 1 m) (\<lambda>(bs, m'). Inr (lo8 (bs ! 0) \<noteq> 0, m'))"

definition NetMessage_wInt :: "malloc \<Rightarrow> 32 word \<Rightarrow> NetMessage \<Rightarrow> NetMessage res" where
  "NetMessage_wInt M v m =
     bindE (NetMessage_checkBufSize M 4 m)
       (setBufValues [lo8 (signed_drop_bit 24 v), lo8 (signed_drop_bit 16 v),
                      lo8 (signed_drop_bit 8 v), lo8 v])"

definition NetMessage_rInt :: "NetMessage \<Rightarrow> (32 word \<times> NetMessage) res" where
  "NetMessage_rInt m =
     bindE (getBufValues 4 m) (\<lambda>(bs, m').
       Inr (((push_bit 24 (ucast (bs ! 0)) OR push_bit 16 (ucast (bs ! 1)))
              OR push_bit 8 (ucast (bs ! 2))) OR ucast (bs ! 3), m'))"

definition NetMessage_wUInt :: "malloc \<Rightarrow> 32 word \<Rightarrow> NetMessage \<Rightarrow> NetMessage res" where
  "NetMessage_wUInt M v m =
     bindE (NetMessage_checkBufSize M 4 m)
       (setBufValues [lo8 (drop_bit 24 v), lo8 (drop_bit 16 v), lo8 (drop_bit 8 v), lo8 v])"

definition NetMessage_rUInt :: "NetMessage \<Rightarrow> (32 word \<times> NetMessage) res" where
  "NetMessage_rUInt m =
     bindE (getBufValues 4 m) (\<lambda>(bs, m').
       Inr (((push_bit 24 (ucast (bs ! 0)) OR push_bit 16 (ucast (bs ! 1)))
              OR push_bit 8 (ucast (bs ! 2))) OR ucast (bs ! 3), m'))"

text \<open>\<open>float\<close>: the four bytes of its image, through an \<open>int&\<close> on the same memory.\<close>

definition NetMessage_wFloat :: "malloc \<Rightarrow> 32 word \<Rightarrow> NetMessage \<Rightarrow> NetMessage res" where
  "NetMessage_wFloat M v m =
     bindE (NetMessage_checkBufSize M 4 m)
       (setBufValues [lo8 (signed_drop_bit 24 v), lo8 (signed_drop_bit 16 v),
                      lo8 (signed_drop_bit 8 v), lo8 v])"

definition NetMessage_rFloat :: "NetMessage \<Rightarrow> (32 word \<times> NetMessage) res" where
  "NetMessage_rFloat m =
     bindE (getBufValues 4 m) (\<lambda>(bs, m').
       Inr (((push_bit 24 (ucast (bs ! 0)) OR push_bit 16 (ucast (bs ! 1)))
              OR push_bit 8 (ucast (bs ! 2))) OR ucast (bs ! 3), m'))"

text \<open>
  \<open>double\<close>: \<open>buf\<close> is the memory image of the value, least significant byte first; the writer sends
  \<open>buf[7]\<close> to \<open>buf[0]\<close> and the reader fills \<open>buf[7]\<close> to \<open>buf[0]\<close>.
\<close>

definition image8 :: "64 word \<Rightarrow> byte list" where
  "image8 v = map (\<lambda>k. ucast (drop_bit (8 * k) v)) [0..<8]"

definition value_of_image8 :: "byte list \<Rightarrow> 64 word" where
  "value_of_image8 bs = fold (\<lambda>k acc. acc OR push_bit (8 * k) (ucast (bs ! k))) [0..<8] 0"

definition NetMessage_wDouble :: "malloc \<Rightarrow> 64 word \<Rightarrow> NetMessage \<Rightarrow> NetMessage res" where
  "NetMessage_wDouble M v m =
     bindE (NetMessage_checkBufSize M 8 m) (\<lambda>m.
       let buf = image8 v
       in setBufValues [buf ! 7, buf ! 6, buf ! 5, buf ! 4, buf ! 3, buf ! 2, buf ! 1, buf ! 0] m)"

definition NetMessage_rDouble :: "NetMessage \<Rightarrow> (64 word \<times> NetMessage) res" where
  "NetMessage_rDouble m =
     bindE (getBufValues 8 m) (\<lambda>(bs, m').
       let buf = [bs ! 7, bs ! 6, bs ! 5, bs ! 4, bs ! 3, bs ! 2, bs ! 1, bs ! 0]
       in Inr (value_of_image8 buf, m'))"

text \<open>
  \<open>wInt64\<close> first reserves eight positions and then stores from the last to the first, shifting
  the value right by eight bits between two stores.
\<close>

fun wInt64_stores :: "int list \<Rightarrow> 64 word \<Rightarrow> NetMessage \<Rightarrow> NetMessage res" where
  "wInt64_stores [] v m = Inr m"
| "wInt64_stores (p # ps) v m =
     bindE (NetMessage_store m p [lo8 v]) (wInt64_stores ps (signed_drop_bit 8 v))"

definition NetMessage_wInt64 :: "malloc \<Rightarrow> 64 word \<Rightarrow> NetMessage \<Rightarrow> NetMessage res" where
  "NetMessage_wInt64 M v m =
     bindE (NetMessage_checkBufSize M 8 m) (\<lambda>m.
       let p1 = m_curPos m in
       bindE (NetMessage_advance 8 m)
         (wInt64_stores [p1 + 7, p1 + 6, p1 + 5, p1 + 4, p1 + 3, p1 + 2, p1 + 1, p1] v))"

fun rInt64_loop :: "64 word \<Rightarrow> byte list \<Rightarrow> 64 word" where
  "rInt64_loop val [] = val"
| "rInt64_loop val (b # bs) = rInt64_loop (push_bit 8 val + ucast b) bs"

definition NetMessage_rInt64 :: "NetMessage \<Rightarrow> (64 word \<times> NetMessage) res" where
  "NetMessage_rInt64 m =
     bindE (getBufValues 8 m) (\<lambda>(bs, m'). Inr (rInt64_loop (ucast (hd bs)) (tl bs), m'))"

text \<open>
  \<open>rString\<close> and \<open>rRaw\<close> return a pointer: to an empty literal or into the buffer. Nothing is read
  through it yet, and nothing compares its range with the buffer's.
\<close>

datatype cptr = EmptyLit | BufPtr int

definition c_memcpy_src :: "byte list \<Rightarrow> int \<Rightarrow> byte list res" where
  "c_memcpy_src src n = buf_slice src 0 (int (c_size_t n))"

definition NetMessage_wRaw :: "malloc \<Rightarrow> byte list \<Rightarrow> int \<Rightarrow> NetMessage \<Rightarrow> NetMessage res" where
  "NetMessage_wRaw M buf sz m =
     bindE (NetMessage_checkBufSize M sz m) (\<lambda>m.
     bindE (c_memcpy_src buf sz) (\<lambda>xs.
     bindE (NetMessage_store m (m_curPos m) xs) (NetMessage_advance sz)))"

definition NetMessage_rRaw :: "int \<Rightarrow> NetMessage \<Rightarrow> (cptr \<times> NetMessage) res" where
  "NetMessage_rRaw sz m =
     (if sz \<le> 0 then Inr (EmptyLit, m)
      else bindE (NetMessage_advance sz m) (\<lambda>m'. Inr (BufPtr (m_curPos m), m')))"

definition c_int_of_size_t :: "int \<Rightarrow> int" where
  "c_int_of_size_t i = sint (word_of_int i :: 32 word)"

definition NetMessage_wString :: "malloc \<Rightarrow> byte list \<Rightarrow> int \<Rightarrow> NetMessage \<Rightarrow> NetMessage res" where
  "NetMessage_wString M pStr sz m =
     bindE (NetMessage_checkBufSize M (c_int_of_size_t (4 + sz)) m) (\<lambda>m.
     bindE (NetMessage_wInt M (word_of_int sz) m) (\<lambda>m.
     bindE (c_memcpy_src pStr sz) (\<lambda>xs.
     bindE (NetMessage_store m (m_curPos m) xs) (NetMessage_advance sz))))"

definition NetMessage_rString :: "NetMessage \<Rightarrow> (cptr \<times> int \<times> NetMessage) res" where
  "NetMessage_rString m =
     bindE (NetMessage_rInt m) (\<lambda>(w, m').
       let sz = sint w in
       if sz \<le> 0 then Inr (EmptyLit, sz, m')
       else bindE (NetMessage_advance sz m') (\<lambda>m''. Inr (BufPtr (m_curPos m'), sz, m'')))"

section \<open>Framing\<close>

definition NetMessage_beginForWrite :: "NetMessage \<Rightarrow> NetMessage" where
  "NetMessage_beginForWrite m = m\<lparr>m_curPos := 6\<rparr>"

definition NetMessage_endForWrite :: "malloc \<Rightarrow> NetMessage \<Rightarrow> NetMessage res" where
  "NetMessage_endForWrite M m =
     bindE (c_int (m_curPos m - 6)) (\<lambda>structLen.
       if structLen \<ge> 0xFFFF then
         bindE (NetMessage_wUShort M 0xFFFF (m\<lparr>m_size := structLen, m_headSize := 6, m_curPos := 0\<rparr>)) (\<lambda>m.
         bindE (NetMessage_wUInt M (word_of_int (m_size m)) m) (\<lambda>m.
           Inr (m\<lparr>m_curPos := 0, m_bufStartPos := 0\<rparr>)))
       else
         bindE (NetMessage_wUShort M (word_of_int structLen)
                  (m\<lparr>m_size := structLen, m_headSize := 2, m_curPos := 4\<rparr>)) (\<lambda>m.
           Inr (m\<lparr>m_curPos := 4, m_bufStartPos := 4\<rparr>)))"

definition NetMessage_onReceive :: "malloc \<Rightarrow> int \<Rightarrow> NetMessage \<Rightarrow> NetMessage res" where
  "NetMessage_onReceive M n m0 =
     bindE (NetMessage_advance n m0) (\<lambda>m.
       if m_size m \<ge> 0 then Inr m
       else if m_size m = -1 \<and> m_curPos m = m_headSize m then
         bindE (NetMessage_load m 0) (\<lambda>b0.
         bindE (NetMessage_load m 1) (\<lambda>b1.
           let val = push_bit 8 (ucast b0) OR ucast b1 :: 16 word in
           if val = 0xFFFF then Inr (m\<lparr>m_curPos := 0, m_size := -2, m_headSize := 4\<rparr>)
           else NetMessage_checkBufSize M (uint val)
                  (m\<lparr>m_size := uint val, m_headSize := 2, m_curPos := 2, m_bufStartPos := 0\<rparr>)))
       else if m_size m = -2 \<and> m_curPos m = m_headSize m then
         bindE (NetMessage_load m 0) (\<lambda>b0.
         bindE (NetMessage_load m 1) (\<lambda>b1.
         bindE (NetMessage_load m 2) (\<lambda>b2.
         bindE (NetMessage_load m 3) (\<lambda>b3.
           let val = ((push_bit 24 (ucast b0) OR push_bit 16 (ucast b1)) OR push_bit 8 (ucast b2))
                       OR ucast b3 :: 32 word in
           NetMessage_checkBufSize M (sint val)
             (m\<lparr>m_size := sint val, m_curPos := m_headSize m, m_bufStartPos := 0\<rparr>)))))
       else Inr m)"

text \<open>The bytes \<open>dump\<close> prints, in order.\<close>

fun dump_loop :: "nat \<Rightarrow> int \<Rightarrow> NetMessage \<Rightarrow> byte list res" where
  "dump_loop 0 i m = Inr []"
| "dump_loop (Suc n) i m =
     bindE (NetMessage_load m i) (\<lambda>b. bindE (dump_loop n (i + 1) m) (\<lambda>bs. Inr (b # bs)))"

definition NetMessage_dump :: "NetMessage \<Rightarrow> byte list res" where
  "NetMessage_dump m = dump_loop (nat (m_size m + m_headSize m)) 0 m"

section \<open>Growing the buffer\<close>

text \<open>A message whose buffer holds exactly the bytes \<open>bs\<close>.\<close>

definition with_bytes :: "NetMessage \<Rightarrow> byte list \<Rightarrow> NetMessage" where
  "with_bytes m bs = m\<lparr>m_buffer := Some \<lparr>mb_size = int (length bs), mb_buf = Some bs\<rparr>\<rparr>"

text \<open>
  The largest position a write may end at: up to here the doubling of the buffer size never
  overflows an \<open>int\<close>.
\<close>

definition POS_MAX :: int where "POS_MAX = 1073741824"

definition nm_wf :: "NetMessage \<Rightarrow> bool" where
  "nm_wf m \<longleftrightarrow> (case m_buffer m of
      None \<Rightarrow> False
    | Some b \<Rightarrow> mb_wf b \<and> 0 \<le> m_curPos m \<and> m_curPos m \<le> mb_size b)"

text \<open>There is room for \<open>n\<close> more bytes, after growing the buffer if necessary.\<close>

definition room :: "malloc \<Rightarrow> NetMessage \<Rightarrow> byte list \<Rightarrow> nat \<Rightarrow> bool" where
  "room M m bs n \<longleftrightarrow> malloc_serves M (nat INT_MAX) \<and> bs \<noteq> [] \<and> int (length bs) \<le> INT_MAX
     \<and> 0 \<le> m_curPos m \<and> m_curPos m + int n \<le> POS_MAX"

lemma with_bytes_simps [simp]:
  "m_size (with_bytes m bs) = m_size m"
  "m_headSize (with_bytes m bs) = m_headSize m"
  "m_bufStartPos (with_bytes m bs) = m_bufStartPos m"
  "m_curPos (with_bytes m bs) = m_curPos m"
  "m_buffer (with_bytes m bs) = Some \<lparr>mb_size = int (length bs), mb_buf = Some bs\<rparr>"
  "(with_bytes m bs)\<lparr>m_size := a\<rparr> = with_bytes (m\<lparr>m_size := a\<rparr>) bs"
  "(with_bytes m bs)\<lparr>m_headSize := a\<rparr> = with_bytes (m\<lparr>m_headSize := a\<rparr>) bs"
  "(with_bytes m bs)\<lparr>m_bufStartPos := a\<rparr> = with_bytes (m\<lparr>m_bufStartPos := a\<rparr>) bs"
  "(with_bytes m bs)\<lparr>m_curPos := a\<rparr> = with_bytes (m\<lparr>m_curPos := a\<rparr>) bs"
  "with_bytes (with_bytes m bs) cs = with_bytes m cs"
  by (simp_all add: with_bytes_def)

lemma nm_wf_with_bytes:
  "nm_wf (with_bytes m bs) \<longleftrightarrow>
     bs \<noteq> [] \<and> int (length bs) \<le> INT_MAX \<and> 0 \<le> m_curPos m \<and> m_curPos m \<le> int (length bs)"
  by (auto simp: nm_wf_def mb_wf_def)

lemma nm_wfE:
  assumes "nm_wf m"
  obtains bs where "m = with_bytes m bs" and "bs \<noteq> []" and "int (length bs) \<le> INT_MAX"
    and "0 \<le> m_curPos m" and "m_curPos m \<le> int (length bs)"
proof -
  from assms obtain b where b: "m_buffer m = Some b" "mb_wf b"
    "0 \<le> m_curPos m" "m_curPos m \<le> mb_size b"
    by (auto simp: nm_wf_def split: option.splits)
  then obtain bs where bs: "mb_buf b = Some bs" "mb_size b = int (length bs)"
    "0 < mb_size b" "mb_size b \<le> INT_MAX" by (auto simp: mb_wf_def split: option.splits)
  have "b = \<lparr>mb_size = int (length bs), mb_buf = Some bs\<rparr>" using bs by (cases b) auto
  then have "m = with_bytes m bs" using b by (cases m) (simp add: with_bytes_def)
  then show thesis by (rule that) (use b bs in auto)
qed

lemma grow_loop_fits [simp]: "need \<le> mb_size b \<Longrightarrow> grow_loop fuel M need b = Inr b"
  by (cases fuel) auto

lemma grow_loop_ok:
  assumes "malloc_serves M (nat INT_MAX)" and "need \<le> POS_MAX"
  shows "bs \<noteq> [] \<Longrightarrow> int (length bs) \<le> INT_MAX \<Longrightarrow> need \<le> int (length bs) * 2 ^ fuel \<Longrightarrow>
    \<exists>g. grow_loop fuel M need \<lparr>mb_size = int (length bs), mb_buf = Some bs\<rparr>
          = Inr \<lparr>mb_size = int (length (bs @ g)), mb_buf = Some (bs @ g)\<rparr>
        \<and> need \<le> int (length (bs @ g)) \<and> int (length (bs @ g)) \<le> INT_MAX
        \<and> (need \<le> int (length bs) \<longrightarrow> g = [])"
proof (induction fuel arbitrary: bs)
  case 0
  then show ?case by (auto intro: exI [of _ "[]"])
next
  case (Suc fuel)
  show ?case
  proof (cases "need > int (length bs)")
    case False
    with Suc.prems show ?thesis by (auto intro: exI [of _ "[]"])
  next
    case True
    let ?b = "\<lparr>mb_size = int (length bs), mb_buf = Some bs\<rparr>"
    have lim: "2 * int (length bs) \<le> INT_MAX"
      using True assms(2) by (simp add: POS_MAX_def INT_MAX_def)
    have wf: "mb_wf ?b" using Suc.prems by (simp add: mb_wf_def)
    obtain g where g: "MemBuffer_enlarge M 0 ?b
        = Inr \<lparr>mb_size = 2 * int (length bs), mb_buf = Some (bs @ g)\<rparr>" "length g = length bs"
      by (rule enlarge_ok [OF assms(1) wf, of bs]) (use lim in simp_all)
    have len: "2 * int (length bs) = int (length (bs @ g))" using g by simp
    have "need \<le> int (length (bs @ g)) * 2 ^ fuel" using Suc.prems(3) g by simp
    with Suc.IH [of "bs @ g"] obtain g' where
      "grow_loop fuel M need \<lparr>mb_size = int (length (bs @ g)), mb_buf = Some (bs @ g)\<rparr>
        = Inr \<lparr>mb_size = int (length ((bs @ g) @ g')), mb_buf = Some ((bs @ g) @ g')\<rparr>"
      "need \<le> int (length ((bs @ g) @ g'))" "int (length ((bs @ g) @ g')) \<le> INT_MAX"
      using Suc.prems(1) lim unfolding len by blast
    then have "grow_loop (Suc fuel) M need ?b
        = Inr \<lparr>mb_size = int (length (bs @ g @ g')), mb_buf = Some (bs @ g @ g')\<rparr>
        \<and> need \<le> int (length (bs @ g @ g')) \<and> int (length (bs @ g @ g')) \<le> INT_MAX"
      using True g(1) by (simp add: g(2))
    with True show ?thesis by (intro exI [of _ "g @ g'"]) simp
  qed
qed

lemma checkBufSize_ok:
  assumes "room M m bs n"
  obtains g where "NetMessage_checkBufSize M (int n) (with_bytes m bs) = Inr (with_bytes m (bs @ g))"
    and "m_curPos m + int n \<le> int (length (bs @ g))" and "int (length (bs @ g)) \<le> INT_MAX"
    and "m_curPos m + int n \<le> int (length bs) \<Longrightarrow> g = []"
proof -
  let ?need = "m_curPos m + int n"
  have r: "malloc_serves M (nat INT_MAX)" "?need \<le> POS_MAX" "bs \<noteq> []" "int (length bs) \<le> INT_MAX"
    "0 \<le> m_curPos m" using assms by (auto simp: room_def)
  have "?need \<le> 1 * 2 ^ grow_fuel" using r(2) by (simp add: grow_fuel_def POS_MAX_def)
  also have "\<dots> \<le> int (length bs) * 2 ^ grow_fuel"
    using r(3) by (intro mult_right_mono) (auto simp: Suc_le_eq)
  finally have "?need \<le> int (length bs) * 2 ^ grow_fuel" .
  from grow_loop_ok [OF r(1,2,3,4) this] obtain g where
    g: "grow_loop grow_fuel M ?need \<lparr>mb_size = int (length bs), mb_buf = Some bs\<rparr>
        = Inr \<lparr>mb_size = int (length (bs @ g)), mb_buf = Some (bs @ g)\<rparr>"
      "?need \<le> int (length (bs @ g))" "int (length (bs @ g)) \<le> INT_MAX"
      "?need \<le> int (length bs) \<longrightarrow> g = []" by auto
  have "c_int ?need = Inr ?need"
    using r by (simp add: in_int_def INT_MIN_def INT_MAX_def POS_MAX_def)
  then have "NetMessage_checkBufSize M (int n) (with_bytes m bs) = Inr (with_bytes m (bs @ g))"
    using g(1) by (simp add: NetMessage_checkBufSize_def with_bytes_def)
  with g that show thesis by auto
qed

lemma NetMessage_store_with_bytes [buf_simps]:
  "0 \<le> p \<Longrightarrow> p + int (length xs) \<le> int (length bs) \<Longrightarrow>
   NetMessage_store (with_bytes m bs) p xs = Inr (with_bytes m (overwrite (nat p) xs bs))"
  by (simp add: NetMessage_store_def MemBuffer_store_def buf_write_ok with_bytes_def)

lemma NetMessage_load_with_bytes [buf_simps]:
  "0 \<le> p \<Longrightarrow> p < int (length bs) \<Longrightarrow> NetMessage_load (with_bytes m bs) p = Inr (bs ! nat p)"
  by (simp add: NetMessage_load_def MemBuffer_load_def buf_get_ok)

lemma NetMessage_advance_ok [buf_simps]:
  "in_int (m_curPos m + n) \<Longrightarrow> NetMessage_advance n m = Inr (m\<lparr>m_curPos := m_curPos m + n\<rparr>)"
  by (simp add: NetMessage_advance_def c_int_ok)

lemma in_int_pos: "0 \<le> i \<Longrightarrow> i \<le> INT_MAX \<Longrightarrow> in_int i"
  by (simp add: in_int_def INT_MIN_def)

lemma setBufValues_ok:
  "0 \<le> m_curPos m \<Longrightarrow> m_curPos m + int (length xs) \<le> int (length bs) \<Longrightarrow> int (length bs) \<le> INT_MAX \<Longrightarrow>
   setBufValues xs (with_bytes m bs)
     = Inr (with_bytes (m\<lparr>m_curPos := m_curPos m + int (length xs)\<rparr>) (overwrite (nat (m_curPos m)) xs bs))"
proof (induction xs arbitrary: m bs)
  case Nil
  then show ?case by simp
next
  case (Cons v xs)
  let ?p = "nat (m_curPos m)"
  let ?bs = "overwrite ?p [v] bs"
  have p: "?p + length [v] + length xs \<le> length bs" using Cons.prems by simp
  have len: "length ?bs = length bs" using p by simp
  have "NetMessage_setBufValue v (with_bytes m bs)
        = Inr (with_bytes (m\<lparr>m_curPos := m_curPos m + 1\<rparr>) ?bs)"
    using Cons.prems by (simp add: NetMessage_setBufValue_def buf_simps in_int_pos)
  moreover have "overwrite (nat (m_curPos m + 1)) xs ?bs = overwrite ?p (v # xs) bs"
    using overwrite_append [OF p] Cons.prems by (simp add: nat_add_distrib)
  ultimately show ?case
    using Cons.IH [of "m\<lparr>m_curPos := m_curPos m + 1\<rparr>" ?bs] Cons.prems len
    by (simp add: ac_simps)
qed

lemma getBufValues_ok:
  "0 \<le> m_curPos m \<Longrightarrow> m_curPos m + int n \<le> int (length bs) \<Longrightarrow> int (length bs) \<le> INT_MAX \<Longrightarrow>
   getBufValues n (with_bytes m bs)
     = Inr (seg (nat (m_curPos m)) n bs, with_bytes (m\<lparr>m_curPos := m_curPos m + int n\<rparr>) bs)"
proof (induction n arbitrary: m)
  case 0
  then show ?case by (simp add: seg_def)
next
  case (Suc n)
  let ?p = "nat (m_curPos m)"
  have "NetMessage_getBufValue (with_bytes m bs)
        = Inr (bs ! ?p, with_bytes (m\<lparr>m_curPos := m_curPos m + 1\<rparr>) bs)"
    using Suc.prems by (simp add: NetMessage_getBufValue_def buf_simps in_int_pos)
  moreover have "seg ?p (Suc n) bs = bs ! ?p # seg (nat (m_curPos m + 1)) n bs"
  proof -
    have "?p < length bs" using Suc.prems by simp
    then show ?thesis
      using Suc.prems by (simp add: seg_def Cons_nth_drop_Suc [symmetric] nat_add_distrib)
  qed
  ultimately show ?case
    using Suc.IH [of "m\<lparr>m_curPos := m_curPos m + 1\<rparr>"] Suc.prems by (simp add: ac_simps)
qed

end
