(* ===== verification/NetCodec.thy ===== *)
theory NetCodec
  imports NetMsg
begin

text \<open>
  The typed writers and readers of \<open>NetMessage\<close>. They share one contract, the locale
  \<open>wire_codec\<close>: a writer makes room, puts the encoding of its value at the current position and
  moves past it; a reader that finds an encoding there returns the value and moves past it. Every
  pair of the source is an interpretation; the round trips, the memory safety and the sequencing
  of different codecs follow from the contract.
\<close>

section \<open>The contract\<close>

locale wire_codec =
  fixes wr :: "malloc \<Rightarrow> 'v \<Rightarrow> NetMessage \<Rightarrow> NetMessage res"
    and rd :: "NetMessage \<Rightarrow> ('v \<times> NetMessage) res"
    and enc :: "'v \<Rightarrow> byte list"
    and width :: nat
  assumes length_enc: "length (enc v) = width"
    and wr_spec: "room M m bs width \<Longrightarrow>
      \<exists>g. wr M v (with_bytes m bs)
            = Inr (with_bytes (m\<lparr>m_curPos := m_curPos m + int width\<rparr>)
                     (overwrite (nat (m_curPos m)) (enc v) (bs @ g)))
          \<and> m_curPos m + int width \<le> int (length (bs @ g)) \<and> int (length (bs @ g)) \<le> INT_MAX"
    and rd_spec: "0 \<le> m_curPos m \<Longrightarrow> m_curPos m + int width \<le> int (length bs) \<Longrightarrow>
      int (length bs) \<le> INT_MAX \<Longrightarrow> seg (nat (m_curPos m)) width bs = enc v \<Longrightarrow>
      rd (with_bytes m bs) = Inr (v, with_bytes (m\<lparr>m_curPos := m_curPos m + int width\<rparr>) bs)"
begin

text \<open>Writing and then reading from the same position returns the value.\<close>

lemma roundtrip:
  assumes "room M m bs width"
  shows "\<exists>m'. wr M v (with_bytes m bs) = Inr m' \<and> m_curPos m' = m_curPos m + int width
           \<and> rd (m'\<lparr>m_curPos := m_curPos m\<rparr>) = Inr (v, m')"
proof -
  from wr_spec [OF assms, of v] obtain g where
    g: "wr M v (with_bytes m bs)
          = Inr (with_bytes (m\<lparr>m_curPos := m_curPos m + int width\<rparr>)
                   (overwrite (nat (m_curPos m)) (enc v) (bs @ g)))"
      "m_curPos m + int width \<le> int (length (bs @ g))" "int (length (bs @ g)) \<le> INT_MAX"
    by blast
  have fits: "nat (m_curPos m) + length (enc v) \<le> length (bs @ g)"
    using g(2) assms by (simp add: room_def length_enc) linarith
  have "rd (with_bytes m (overwrite (nat (m_curPos m)) (enc v) (bs @ g)))
        = Inr (v, with_bytes (m\<lparr>m_curPos := m_curPos m + int width\<rparr>)
                    (overwrite (nat (m_curPos m)) (enc v) (bs @ g)))"
    by (rule rd_spec) (use g assms fits in \<open>auto simp: room_def length_enc\<close>)
  then show ?thesis using g by simp
qed

text \<open>A write never leaves the buffer and keeps the message well-formed.\<close>

lemma write_wf:
  assumes "malloc_serves M (nat INT_MAX)" and "nm_wf m" and "m_curPos m + int width \<le> POS_MAX"
  shows "\<exists>m'. wr M v m = Inr m' \<and> nm_wf m' \<and> m_curPos m' = m_curPos m + int width"
proof -
  from assms(2) obtain bs where bs: "m = with_bytes m bs" "bs \<noteq> []" "int (length bs) \<le> INT_MAX"
    "0 \<le> m_curPos m" "m_curPos m \<le> int (length bs)" by (rule nm_wfE)
  then have r: "room M m bs width" using assms by (simp add: room_def)
  from wr_spec [OF r, of v] obtain g where
    g: "wr M v (with_bytes m bs)
          = Inr (with_bytes (m\<lparr>m_curPos := m_curPos m + int width\<rparr>)
                   (overwrite (nat (m_curPos m)) (enc v) (bs @ g)))"
      "m_curPos m + int width \<le> int (length (bs @ g))" "int (length (bs @ g)) \<le> INT_MAX"
    by blast
  have fits: "nat (m_curPos m) + length (enc v) \<le> length (bs @ g)"
    using g(2) bs(4) by (simp add: length_enc)
  have ne: "overwrite (nat (m_curPos m)) (enc v) (bs @ g) \<noteq> []"
    using length_overwrite [OF fits] bs(2) by (metis append_is_Nil_conv length_0_conv)
  have "nm_wf (with_bytes (m\<lparr>m_curPos := m_curPos m + int width\<rparr>)
                  (overwrite (nat (m_curPos m)) (enc v) (bs @ g)))"
    using ne g bs length_overwrite [OF fits] by (simp add: nm_wf_with_bytes)
  then show ?thesis using g(1) bs(1) by (metis NetMessage.select_convs(4) NetMessage.surjective
      NetMessage.update_convs(4) with_bytes_simps(4))
qed

end

text \<open>
  A codec in the form most pairs have: make room, store a list of bytes; load as many and
  compute the value.
\<close>

lemma straight_codec:
  assumes "\<And>v. length (enc v) = k" and "\<And>v. dec (enc v) = v"
    and "\<And>M v m. wr M v m = bindE (NetMessage_checkBufSize M (int k) m) (setBufValues (enc v))"
    and "\<And>m. rd m = bindE (getBufValues k m) (\<lambda>(bs, m'). Inr (dec bs, m'))"
  shows "wire_codec wr rd enc k"
proof (unfold_locales, goal_cases)
  case (1 v)
  show ?case by (rule assms(1))
next
  case (2 M m bs v)
  then obtain g where
    "NetMessage_checkBufSize M (int k) (with_bytes m bs) = Inr (with_bytes m (bs @ g))"
    "m_curPos m + int k \<le> int (length (bs @ g))" "int (length (bs @ g)) \<le> INT_MAX"
    by (rule checkBufSize_ok)
  moreover have "0 \<le> m_curPos m" using 2 by (simp add: room_def)
  ultimately show ?case
    using setBufValues_ok [of m "enc v" "bs @ g"] assms(1,3) by (intro exI [of _ g]) simp
next
  case (3 m bs v)
  then show ?case using getBufValues_ok [of m k bs] assms(2,4) by simp
qed

section \<open>The bytes each writer stores\<close>

lemma lo8_eq: "lo8 (v :: 'a::len word) = ucast v"
proof -
  have "(0xFF :: 'a word) = mask 8" by (simp add: mask_eq_exp_minus_1)
  then have "lo8 v = ucast (take_bit 8 v)" by (simp add: lo8_def take_bit_eq_mask)
  also have "\<dots> = ucast v" by (rule bit_word_eqI) (auto simp: bit_simps dest: bit_imp_le_length)
  finally show ?thesis .
qed

lemma ucast_signed_drop_bit:
  "n + 8 \<le> LENGTH('a) \<Longrightarrow> (ucast (signed_drop_bit n (v :: 'a::len word)) :: byte) = ucast (drop_bit n v)"
  by (rule bit_word_eqI) (auto simp: bit_simps)

lemma be_bytes_unfold:
  "be_bytes 1 v = [ucast v]"
  "be_bytes 2 v = [ucast (drop_bit 8 v), ucast v]"
  "be_bytes 4 v = [ucast (drop_bit 24 v), ucast (drop_bit 16 v), ucast (drop_bit 8 v), ucast v]"
  "be_bytes 8 v = [ucast (drop_bit 56 v), ucast (drop_bit 48 v), ucast (drop_bit 40 v),
     ucast (drop_bit 32 v), ucast (drop_bit 24 v), ucast (drop_bit 16 v), ucast (drop_bit 8 v), ucast v]"
  by (simp_all add: eval_nat_numeral)

lemma be_val_be_bytes_full:
  "LENGTH('a) \<le> 8 * k \<Longrightarrow> be_val (be_bytes k v) = (v :: 'a::len word)"
  by (simp add: be_val_be_bytes take_bit_word_eq_self)

lemma be_val_2: "be_val [b0, b1] = push_bit 8 (ucast b0) OR ucast b1"
  by simp

lemma be_val_4: "be_val [b0, b1, b2, b3] =
   ((push_bit 24 (ucast b0) OR push_bit 16 (ucast b1)) OR push_bit 8 (ucast b2)) OR ucast b3"
  by (simp add: or.assoc)

lemma image8_be: "rev (image8 v) = be_bytes 8 v"
  by (simp add: image8_def be_bytes_unfold upt_rec)

lemma list8: "length bs = 8 \<Longrightarrow> [bs ! 0, bs ! 1, bs ! 2, bs ! 3, bs ! 4, bs ! 5, bs ! 6, bs ! 7] = bs"
  by (auto simp: list_eq_iff_nth_eq less_Suc_eq numeral_eq_Suc)

section \<open>The codecs of the source\<close>

interpretation UShort: wire_codec NetMessage_wUShort NetMessage_rUShort "be_bytes 2 :: 16 word \<Rightarrow> _" 2
  by (rule straight_codec [where dec = "\<lambda>bs. push_bit 8 (ucast (bs ! 0)) OR ucast (bs ! 1)"])
    (use be_val_be_bytes_full [where 'a = 16 and k = 2] in
      \<open>simp_all add: NetMessage_wUShort_def NetMessage_rUShort_def be_bytes_unfold lo8_eq be_val_2\<close>)

interpretation Short: wire_codec NetMessage_wShort NetMessage_rShort "be_bytes 2 :: 16 word \<Rightarrow> _" 2
  by (rule straight_codec [where dec = "\<lambda>bs. push_bit 8 (ucast (bs ! 0)) OR ucast (bs ! 1)"])
    (use be_val_be_bytes_full [where 'a = 16 and k = 2] in
      \<open>simp_all add: NetMessage_wShort_def NetMessage_rShort_def be_bytes_unfold lo8_eq be_val_2
         ucast_signed_drop_bit\<close>)

interpretation Int8: wire_codec NetMessage_wInt8 NetMessage_rInt8 "\<lambda>v. [v]" 1
  by (rule straight_codec [where dec = "\<lambda>bs. lo8 (bs ! 0)"])
    (simp_all add: NetMessage_wInt8_def NetMessage_rInt8_def lo8_eq)

interpretation UInt8: wire_codec NetMessage_wUInt8 NetMessage_rUInt8 "\<lambda>v. [v]" 1
  by (rule straight_codec [where dec = "\<lambda>bs. lo8 (bs ! 0)"])
    (simp_all add: NetMessage_wUInt8_def NetMessage_rUInt8_def lo8_eq)

interpretation Boolean: wire_codec NetMessage_wBoolean NetMessage_rBoolean "\<lambda>v. [if v then 1 else 0]" 1
  by (rule straight_codec [where dec = "\<lambda>bs. lo8 (bs ! 0) \<noteq> 0"])
    (simp_all add: NetMessage_wBoolean_def NetMessage_rBoolean_def lo8_eq)

interpretation Int: wire_codec NetMessage_wInt NetMessage_rInt "be_bytes 4 :: 32 word \<Rightarrow> _" 4
  by (rule straight_codec [where dec = "\<lambda>bs. ((push_bit 24 (ucast (bs ! 0)) OR
        push_bit 16 (ucast (bs ! 1))) OR push_bit 8 (ucast (bs ! 2))) OR ucast (bs ! 3)"])
    (use be_val_be_bytes_full [where 'a = 32 and k = 4] in
      \<open>simp_all add: NetMessage_wInt_def NetMessage_rInt_def be_bytes_unfold lo8_eq be_val_4
         ucast_signed_drop_bit or.assoc\<close>)

interpretation UInt: wire_codec NetMessage_wUInt NetMessage_rUInt "be_bytes 4 :: 32 word \<Rightarrow> _" 4
  by (rule straight_codec [where dec = "\<lambda>bs. ((push_bit 24 (ucast (bs ! 0)) OR
        push_bit 16 (ucast (bs ! 1))) OR push_bit 8 (ucast (bs ! 2))) OR ucast (bs ! 3)"])
    (use be_val_be_bytes_full [where 'a = 32 and k = 4] in
      \<open>simp_all add: NetMessage_wUInt_def NetMessage_rUInt_def be_bytes_unfold lo8_eq be_val_4 or.assoc\<close>)

interpretation Float: wire_codec NetMessage_wFloat NetMessage_rFloat "be_bytes 4 :: 32 word \<Rightarrow> _" 4
  by (rule straight_codec [where dec = "\<lambda>bs. ((push_bit 24 (ucast (bs ! 0)) OR
        push_bit 16 (ucast (bs ! 1))) OR push_bit 8 (ucast (bs ! 2))) OR ucast (bs ! 3)"])
    (use be_val_be_bytes_full [where 'a = 32 and k = 4] in
      \<open>simp_all add: NetMessage_wFloat_def NetMessage_rFloat_def be_bytes_unfold lo8_eq be_val_4
         ucast_signed_drop_bit or.assoc\<close>)

lemma value_of_image8_rev: "length bs = 8 \<Longrightarrow> value_of_image8 (rev bs) = be_val bs"
  by (auto simp: value_of_image8_def upt_rec numeral_eq_Suc length_Suc_conv or.assoc or.commute
        or.left_commute)

interpretation Double: wire_codec NetMessage_wDouble NetMessage_rDouble "be_bytes 8 :: 64 word \<Rightarrow> _" 8
proof (rule straight_codec [where dec = "\<lambda>bs. value_of_image8
      [bs ! 7, bs ! 6, bs ! 5, bs ! 4, bs ! 3, bs ! 2, bs ! 1, bs ! 0]"], goal_cases)
  case (2 v)
  have "[bs ! 7, bs ! 6, bs ! 5, bs ! 4, bs ! 3, bs ! 2, bs ! 1, bs ! 0] = rev bs"
    if "length bs = 8" for bs :: "byte list"
    using arg_cong [OF list8 [OF that], of rev] by simp
  then show ?case
    using value_of_image8_rev [of "be_bytes 8 v"] be_val_be_bytes_full [where 'a = 64 and k = 8]
    by simp
next
  case (3 M v m)
  have "[image8 v ! 7, image8 v ! 6, image8 v ! 5, image8 v ! 4, image8 v ! 3, image8 v ! 2,
         image8 v ! 1, image8 v ! 0] = be_bytes 8 v"
    by (simp add: image8_def be_bytes_unfold upt_rec)
  then show ?case
    unfolding NetMessage_wDouble_def Let_def by (simp only: of_nat_numeral)
qed (simp_all add: NetMessage_rDouble_def Let_def)

text \<open>\<open>wInt64\<close> fills its eight positions from the last to the first.\<close>

fun low_bytes :: "nat \<Rightarrow> 64 word \<Rightarrow> byte list" where
  "low_bytes 0 v = []"
| "low_bytes (Suc k) v = low_bytes k (signed_drop_bit 8 v) @ [lo8 v]"

lemma length_low_bytes [simp]: "length (low_bytes k v) = k"
  by (induction k arbitrary: v) auto

lemma low_bytes_8: "low_bytes 8 v = be_bytes 8 v"
  by (simp add: numeral_eq_Suc lo8_eq) (simp add: ucast_signed_drop_bit be_bytes_unfold)

lemma overwrite_snoc:
  assumes "i + length xs + 1 \<le> length bs"
  shows "overwrite i xs (overwrite (i + length xs) [b] bs) = overwrite i (xs @ [b]) bs"
  using assms by (simp add: overwrite_def take_drop min_def)

lemma wInt64_stores_ok:
  "0 \<le> p \<Longrightarrow> p + int k \<le> int (length bs) \<Longrightarrow>
   wInt64_stores (map (\<lambda>j. p + int j) (rev [0..<k])) v (with_bytes m bs)
     = Inr (with_bytes m (overwrite (nat p) (low_bytes k v) bs))"
proof (induction k arbitrary: v bs)
  case 0
  then show ?case by simp
next
  case (Suc k)
  have fits: "nat p + length (low_bytes k (signed_drop_bit 8 v)) + 1 \<le> length bs"
    using Suc.prems by simp
  have "nat (p + int k) = nat p + k" using Suc.prems by (simp add: nat_add_distrib)
  with Suc.prems have
    "wInt64_stores (map (\<lambda>j. p + int j) (rev [0..<Suc k])) v (with_bytes m bs)
     = wInt64_stores (map (\<lambda>j. p + int j) (rev [0..<k])) (signed_drop_bit 8 v)
         (with_bytes m (overwrite (nat p + k) [lo8 v] bs))"
    by (simp add: buf_simps)
  also have "\<dots> = Inr (with_bytes m (overwrite (nat p) (low_bytes (Suc k) v) bs))"
    using Suc.IH Suc.prems overwrite_snoc [OF fits, of "lo8 v"] by simp
  finally show ?case .
qed

lemma rInt64_loop_be:
  "rInt64_loop val bs = push_bit (8 * length bs) val OR be_val bs"
proof (induction bs arbitrary: val)
  case Nil
  then show ?case by simp
next
  case (Cons b bs)
  have "push_bit 8 val + ucast b = push_bit 8 val OR ucast b"
    by (rule disjunctive_add_eq_or) (auto simp: bit_eq_iff bit_simps dest: bit_imp_le_length)
  then show ?case using Cons.IH
    by (simp add: push_bit_or or.assoc mult.commute add.commute)
qed

interpretation Int64: wire_codec NetMessage_wInt64 NetMessage_rInt64 "be_bytes 8 :: 64 word \<Rightarrow> _" 8
proof (unfold_locales, goal_cases)
  case (1 v)
  show ?case by simp
next
  case (2 M m bs v)
  from 2 have cur: "0 \<le> m_curPos m" by (simp add: room_def)
  from 2 obtain g where
    "NetMessage_checkBufSize M (int 8) (with_bytes m bs) = Inr (with_bytes m (bs @ g))"
    "m_curPos m + int 8 \<le> int (length (bs @ g))" and lim: "int (length (bs @ g)) \<le> INT_MAX"
    by (rule checkBufSize_ok)
  then have g: "NetMessage_checkBufSize M 8 (with_bytes m bs) = Inr (with_bytes m (bs @ g))"
    "m_curPos m + 8 \<le> int (length (bs @ g))" by simp_all
  let ?p = "m_curPos m"
  have ps: "[?p + 7, ?p + 6, ?p + 5, ?p + 4, ?p + 3, ?p + 2, ?p + 1, ?p]
            = map (\<lambda>j. ?p + int j) (rev [0..<8])" by (simp add: upt_rec)
  have adv: "in_int (?p + 8)" using g lim cur by (intro in_int_pos) auto
  have "NetMessage_wInt64 M v (with_bytes m bs)
        = wInt64_stores (map (\<lambda>j. ?p + int j) (rev [0..<8])) v
            (with_bytes (m\<lparr>m_curPos := ?p + 8\<rparr>) (bs @ g))"
    using g(1) adv unfolding NetMessage_wInt64_def ps [symmetric]
    by (simp add: Let_def NetMessage_advance_ok)
  also have "\<dots> = Inr (with_bytes (m\<lparr>m_curPos := ?p + 8\<rparr>) (overwrite (nat ?p) (be_bytes 8 v) (bs @ g)))"
    using wInt64_stores_ok [of ?p 8 "bs @ g" v] g(2) cur by (simp add: low_bytes_8)
  finally show ?case using g lim by auto
next
  case (3 m bs v)
  have "rInt64_loop (ucast (hd (be_bytes 8 v))) (tl (be_bytes 8 v)) = be_val (be_bytes 8 v)"
    by (simp add: rInt64_loop_be be_bytes_unfold)
  also have "\<dots> = v" by (rule be_val_be_bytes_full) simp
  finally show ?case using 3 getBufValues_ok [of m 8 bs] by (simp add: NetMessage_rInt64_def)
qed

section \<open>Raw blocks and strings\<close>

lemma wRaw_ok:
  assumes "room M m bs (length xs)"
  shows "\<exists>g. NetMessage_wRaw M xs (int (length xs)) (with_bytes m bs)
             = Inr (with_bytes (m\<lparr>m_curPos := m_curPos m + int (length xs)\<rparr>)
                      (overwrite (nat (m_curPos m)) xs (bs @ g)))
           \<and> m_curPos m + int (length xs) \<le> int (length (bs @ g)) \<and> int (length (bs @ g)) \<le> INT_MAX"
proof -
  from assms obtain g where
    g: "NetMessage_checkBufSize M (int (length xs)) (with_bytes m bs) = Inr (with_bytes m (bs @ g))"
    "m_curPos m + int (length xs) \<le> int (length (bs @ g))" "int (length (bs @ g)) \<le> INT_MAX"
    by (rule checkBufSize_ok)
  have cur: "0 \<le> m_curPos m" using assms by (simp add: room_def)
  then have len: "int (length xs) \<le> INT_MAX" using g(2,3) by linarith
  then have "c_memcpy_src xs (int (length xs)) = Inr xs"
    by (simp add: c_memcpy_src_def buf_slice_ok seg_def)
  moreover have "in_int (m_curPos m + int (length xs))" using cur g by (intro in_int_pos) auto
  ultimately show ?thesis
    using g cur by (intro exI [of _ g]) (simp add: NetMessage_wRaw_def buf_simps)
qed

lemma rRaw_ok:
  assumes "0 < n" and "in_int (m_curPos m + n)"
  shows "NetMessage_rRaw n m = Inr (BufPtr (m_curPos m), m\<lparr>m_curPos := m_curPos m + n\<rparr>)"
  using assms by (simp add: NetMessage_rRaw_def NetMessage_advance_ok)

lemma wString_ok:
  assumes "room M m bs (4 + length xs)"
  shows "\<exists>g. NetMessage_wString M xs (int (length xs)) (with_bytes m bs)
             = Inr (with_bytes (m\<lparr>m_curPos := m_curPos m + int (4 + length xs)\<rparr>)
                      (overwrite (nat (m_curPos m))
                         (be_bytes 4 (word_of_int (int (length xs)) :: 32 word) @ xs) (bs @ g)))
           \<and> m_curPos m + int (4 + length xs) \<le> int (length (bs @ g)) \<and> int (length (bs @ g)) \<le> INT_MAX"
proof -
  let ?n = "int (length xs)" and ?p = "m_curPos m"
  let ?w = "be_bytes 4 (word_of_int ?n :: 32 word)"
  have cur: "0 \<le> ?p" "?p + 4 + ?n \<le> POS_MAX" using assms by (simp_all add: room_def)
  have sz: "c_int_of_size_t (4 + ?n) = int (4 + length xs)"
    using cur unfolding c_int_of_size_t_def
    by (subst sint_word_of_int_32) (auto simp: in_int_numeral_bounds POS_MAX_def)
  from assms obtain g where
    g: "NetMessage_checkBufSize M (int (4 + length xs)) (with_bytes m bs) = Inr (with_bytes m (bs @ g))"
    "?p + int (4 + length xs) \<le> int (length (bs @ g))" "int (length (bs @ g)) \<le> INT_MAX"
    by (rule checkBufSize_ok)
  have r: "room M m (bs @ g) 4" using assms g by (auto simp: room_def)
  from Int.wr_spec [OF r, of "word_of_int ?n"] obtain g' where
    g': "NetMessage_wInt M (word_of_int ?n) (with_bytes m (bs @ g))
        = Inr (with_bytes (m\<lparr>m_curPos := ?p + 4\<rparr>) (overwrite (nat ?p) ?w (bs @ g @ g')))"
      "int (length (bs @ g @ g')) \<le> INT_MAX" by auto
  let ?bs = "overwrite (nat ?p) ?w (bs @ g @ g')"
  have fits: "nat ?p + length ?w + length xs \<le> length (bs @ g @ g')" using g(2) cur by simp
  have lenb: "length ?bs = length (bs @ g @ g')" using fits by simp
  have "c_memcpy_src xs ?n = Inr xs"
    using cur by (simp add: c_memcpy_src_def buf_slice_ok seg_def INT_MAX_def POS_MAX_def)
  moreover have "overwrite (nat (?p + 4)) xs ?bs = overwrite (nat ?p) (?w @ xs) (bs @ g @ g')"
    using overwrite_append [OF fits] cur by (simp add: nat_add_distrib)
  moreover have "in_int (?p + 4 + ?n)" using cur by (simp add: in_int_def INT_MIN_def INT_MAX_def POS_MAX_def)
  ultimately have "NetMessage_wString M xs ?n (with_bytes m bs)
      = Inr (with_bytes (m\<lparr>m_curPos := ?p + int (4 + length xs)\<rparr>) (overwrite (nat ?p) (?w @ xs) (bs @ g @ g')))"
    using g(1) g' fits cur lenb sz
    by (simp add: NetMessage_wString_def buf_simps add.assoc)
  then show ?thesis using g g' by (intro exI [of _ "g @ g'"]) simp
qed

text \<open>The bytes a caller sees through a pointer that \<open>rRaw\<close> or \<open>rString\<close> returned.\<close>

definition cptr_bytes :: "NetMessage \<Rightarrow> cptr \<Rightarrow> int \<Rightarrow> byte list res" where
  "cptr_bytes m p n =
     (case p of EmptyLit \<Rightarrow> buf_slice [0] 0 (int (c_size_t n))
              | BufPtr pos \<Rightarrow> NetMessage_read m pos (int (c_size_t n)))"

lemma NetMessage_read_with_bytes [buf_simps]:
  "0 \<le> p \<Longrightarrow> 0 \<le> n \<Longrightarrow> p + n \<le> int (length bs) \<Longrightarrow>
   NetMessage_read (with_bytes m bs) p n = Inr (seg (nat p) (nat n) bs)"
  by (simp add: NetMessage_read_def MemBuffer_read_def buf_slice_ok)

lemma rString_ok:
  assumes "0 \<le> m_curPos m" and "m_curPos m + int (4 + length xs) \<le> int (length bs)"
    and "int (length bs) \<le> INT_MAX" and "xs \<noteq> []"
    and "seg (nat (m_curPos m)) (4 + length xs) bs = be_bytes 4 (word_of_int (int (length xs)) :: 32 word) @ xs"
  shows "NetMessage_rString (with_bytes m bs)
         = Inr (BufPtr (m_curPos m + 4), int (length xs),
                with_bytes (m\<lparr>m_curPos := m_curPos m + int (4 + length xs)\<rparr>) bs)"
proof -
  let ?w = "word_of_int (int (length xs)) :: 32 word"
  have "seg (nat (m_curPos m)) 4 bs = be_bytes 4 ?w"
    by (rule seg_append_eqD [OF assms(5)]) (use assms(1,2) in simp_all)
  then have "NetMessage_rInt (with_bytes m bs) = Inr (?w, with_bytes (m\<lparr>m_curPos := m_curPos m + 4\<rparr>) bs)"
    using Int.rd_spec [of m bs ?w] assms by simp
  moreover have "sint ?w = int (length xs)"
    using assms by (intro sint_word_of_int_32 in_int_pos) auto
  moreover have "in_int (m_curPos m + 4 + int (length xs))"
    using assms by (intro in_int_pos) auto
  ultimately show ?thesis
    using assms(4) by (simp add: NetMessage_rString_def NetMessage_advance_ok Let_def add.assoc)
qed

section \<open>Sequences of fields\<close>

text \<open>
  What a client of the class does: it writes fields one after another and the peer reads the
  same kinds in the same order. \<open>field\<close> names the writer to call, \<open>kind\<close> the reader.
\<close>

datatype field =
    F_UShort "16 word" | F_Short "16 word" | F_Int8 byte | F_UInt8 byte | F_Boolean bool
  | F_Int "32 word" | F_UInt "32 word" | F_Float "32 word" | F_Double "64 word" | F_Int64 "64 word"
  | F_String "byte list" | F_Raw "byte list"

datatype kind =
    K_UShort | K_Short | K_Int8 | K_UInt8 | K_Boolean | K_Int | K_UInt | K_Float | K_Double
  | K_Int64 | K_String | K_Raw int

fun kind_of :: "field \<Rightarrow> kind" where
  "kind_of (F_UShort v) = K_UShort" | "kind_of (F_Short v) = K_Short"
| "kind_of (F_Int8 v) = K_Int8" | "kind_of (F_UInt8 v) = K_UInt8"
| "kind_of (F_Boolean v) = K_Boolean" | "kind_of (F_Int v) = K_Int"
| "kind_of (F_UInt v) = K_UInt" | "kind_of (F_Float v) = K_Float"
| "kind_of (F_Double v) = K_Double" | "kind_of (F_Int64 v) = K_Int64"
| "kind_of (F_String xs) = K_String" | "kind_of (F_Raw xs) = K_Raw (int (length xs))"

fun wField :: "malloc \<Rightarrow> field \<Rightarrow> NetMessage \<Rightarrow> NetMessage res" where
  "wField M (F_UShort v) = NetMessage_wUShort M v"
| "wField M (F_Short v) = NetMessage_wShort M v"
| "wField M (F_Int8 v) = NetMessage_wInt8 M v"
| "wField M (F_UInt8 v) = NetMessage_wUInt8 M v"
| "wField M (F_Boolean v) = NetMessage_wBoolean M v"
| "wField M (F_Int v) = NetMessage_wInt M v"
| "wField M (F_UInt v) = NetMessage_wUInt M v"
| "wField M (F_Float v) = NetMessage_wFloat M v"
| "wField M (F_Double v) = NetMessage_wDouble M v"
| "wField M (F_Int64 v) = NetMessage_wInt64 M v"
| "wField M (F_String xs) = NetMessage_wString M xs (int (length xs))"
| "wField M (F_Raw xs) = NetMessage_wRaw M xs (int (length xs))"

definition mapR :: "('a \<Rightarrow> 'b) \<Rightarrow> ('a \<times> 'c) res \<Rightarrow> ('b \<times> 'c) res" where
  "mapR f r = bindE r (\<lambda>(v, m). Inr (f v, m))"

fun rField :: "kind \<Rightarrow> NetMessage \<Rightarrow> (field \<times> NetMessage) res" where
  "rField K_UShort m = mapR F_UShort (NetMessage_rUShort m)"
| "rField K_Short m = mapR F_Short (NetMessage_rShort m)"
| "rField K_Int8 m = mapR F_Int8 (NetMessage_rInt8 m)"
| "rField K_UInt8 m = mapR F_UInt8 (NetMessage_rUInt8 m)"
| "rField K_Boolean m = mapR F_Boolean (NetMessage_rBoolean m)"
| "rField K_Int m = mapR F_Int (NetMessage_rInt m)"
| "rField K_UInt m = mapR F_UInt (NetMessage_rUInt m)"
| "rField K_Float m = mapR F_Float (NetMessage_rFloat m)"
| "rField K_Double m = mapR F_Double (NetMessage_rDouble m)"
| "rField K_Int64 m = mapR F_Int64 (NetMessage_rInt64 m)"
| "rField K_String m =
     bindE (NetMessage_rString m) (\<lambda>(p, n, m').
     bindE (cptr_bytes m' p n) (\<lambda>xs. Inr (F_String xs, m')))"
| "rField (K_Raw n) m =
     bindE (NetMessage_rRaw n m) (\<lambda>(p, m').
     bindE (cptr_bytes m' p n) (\<lambda>xs. Inr (F_Raw xs, m')))"

fun wFields :: "malloc \<Rightarrow> field list \<Rightarrow> NetMessage \<Rightarrow> NetMessage res" where
  "wFields M [] m = Inr m"
| "wFields M (f # fs) m = bindE (wField M f m) (wFields M fs)"

fun rFields :: "kind list \<Rightarrow> NetMessage \<Rightarrow> (field list \<times> NetMessage) res" where
  "rFields [] m = Inr ([], m)"
| "rFields (k # ks) m =
     bindE (rField k m) (\<lambda>(f, m'). bindE (rFields ks m') (\<lambda>(fs, m''). Inr (f # fs, m'')))"

text \<open>The bytes a field occupies on the wire.\<close>

fun encField :: "field \<Rightarrow> byte list" where
  "encField (F_UShort v) = be_bytes 2 v" | "encField (F_Short v) = be_bytes 2 v"
| "encField (F_Int8 v) = [v]" | "encField (F_UInt8 v) = [v]"
| "encField (F_Boolean v) = [if v then 1 else 0]" | "encField (F_Int v) = be_bytes 4 v"
| "encField (F_UInt v) = be_bytes 4 v" | "encField (F_Float v) = be_bytes 4 v"
| "encField (F_Double v) = be_bytes 8 v" | "encField (F_Int64 v) = be_bytes 8 v"
| "encField (F_String xs) = be_bytes 4 (word_of_int (int (length xs)) :: 32 word) @ xs"
| "encField (F_Raw xs) = xs"

definition encFields :: "field list \<Rightarrow> byte list" where
  "encFields fs = concat (map encField fs)"

lemma wField_ok:
  assumes "room M m bs (length (encField f))"
  shows "\<exists>g. wField M f (with_bytes m bs)
             = Inr (with_bytes (m\<lparr>m_curPos := m_curPos m + int (length (encField f))\<rparr>)
                      (overwrite (nat (m_curPos m)) (encField f) (bs @ g)))
           \<and> m_curPos m + int (length (encField f)) \<le> int (length (bs @ g))
           \<and> int (length (bs @ g)) \<le> INT_MAX"
  using assms UShort.wr_spec [of M m bs] Short.wr_spec [of M m bs] Int8.wr_spec [of M m bs]
    UInt8.wr_spec [of M m bs] Boolean.wr_spec [of M m bs] Int.wr_spec [of M m bs]
    UInt.wr_spec [of M m bs] Float.wr_spec [of M m bs] Double.wr_spec [of M m bs]
    Int64.wr_spec [of M m bs] wString_ok [of M m bs] wRaw_ok [of M m bs]
  by (cases f) simp_all

lemma rField_ok:
  assumes "0 \<le> m_curPos m" and "m_curPos m + int (length (encField f)) \<le> int (length bs)"
    and "int (length bs) \<le> INT_MAX"
    and "seg (nat (m_curPos m)) (length (encField f)) bs = encField f"
  shows "rField (kind_of f) (with_bytes m bs)
         = Inr (f, with_bytes (m\<lparr>m_curPos := m_curPos m + int (length (encField f))\<rparr>) bs)"
proof (cases f)
  case (F_String xs)
  show ?thesis
  proof (cases "xs = []")
    case True
    then show ?thesis
      using Int.rd_spec [of m bs 0] assms F_String
      by (simp add: NetMessage_rString_def cptr_bytes_def buf_slice_ok seg_def)
  next
    case False
    have "seg (nat (m_curPos m + 4)) (length xs) bs = xs"
      using seg_append_eqD(2) [of "nat (m_curPos m)" 4 "length xs" bs] assms F_String
      by (simp add: nat_add_distrib)
    then show ?thesis
      using rString_ok [of m xs bs] assms F_String False
      by (simp add: cptr_bytes_def buf_simps add.assoc)
  qed
next
  case (F_Raw xs)
  show ?thesis
  proof (cases "xs = []")
    case True
    then show ?thesis
      using F_Raw by (simp add: NetMessage_rRaw_def cptr_bytes_def buf_slice_ok seg_def)
  next
    case False
    have "in_int (m_curPos m + int (length xs))" using assms F_Raw by (intro in_int_pos) auto
    then show ?thesis
      using rRaw_ok [of "int (length xs)" "with_bytes m bs"] assms F_Raw False
      by (simp add: cptr_bytes_def buf_simps)
  qed
qed (use assms UShort.rd_spec [of m bs] Short.rd_spec [of m bs] Int8.rd_spec [of m bs]
    UInt8.rd_spec [of m bs] Boolean.rd_spec [of m bs] Int.rd_spec [of m bs] UInt.rd_spec [of m bs]
    Float.rd_spec [of m bs] Double.rd_spec [of m bs] Int64.rd_spec [of m bs]
    in \<open>simp_all add: mapR_def\<close>)

lemma encFields_simps [simp]:
  "encFields [] = []" "encFields (f # fs) = encField f @ encFields fs"
  by (simp_all add: encFields_def)

lemma wFields_ok:
  "room M m bs (length (encFields fs)) \<Longrightarrow>
   \<exists>g. wFields M fs (with_bytes m bs)
         = Inr (with_bytes (m\<lparr>m_curPos := m_curPos m + int (length (encFields fs))\<rparr>)
                  (overwrite (nat (m_curPos m)) (encFields fs) (bs @ g)))
       \<and> (fs = [] \<longrightarrow> g = [])
       \<and> (fs \<noteq> [] \<longrightarrow> m_curPos m + int (length (encFields fs)) \<le> int (length (bs @ g)))
       \<and> int (length (bs @ g)) \<le> INT_MAX"
proof (induction fs arbitrary: m bs)
  case Nil
  then show ?case by (auto simp: room_def intro!: exI [of _ "[]"])
next
  case (Cons f fs)
  let ?p = "m_curPos m" and ?n = "length (encField f)"
  have room1: "room M m bs ?n" using Cons.prems by (auto simp: room_def)
  from wField_ok [OF room1] obtain g where
    g: "wField M f (with_bytes m bs)
          = Inr (with_bytes (m\<lparr>m_curPos := ?p + int ?n\<rparr>) (overwrite (nat ?p) (encField f) (bs @ g)))"
      "?p + int ?n \<le> int (length (bs @ g))" "int (length (bs @ g)) \<le> INT_MAX" by blast
  let ?m = "m\<lparr>m_curPos := ?p + int ?n\<rparr>" and ?bs = "overwrite (nat ?p) (encField f) (bs @ g)"
  have p: "0 \<le> ?p" using Cons.prems by (simp add: room_def)
  have fits: "nat ?p + ?n \<le> length (bs @ g)" using g(2) p by simp
  have lenb: "length ?bs = length (bs @ g)" using fits by simp
  have "?bs \<noteq> []" using lenb room1 by (metis append_is_Nil_conv length_0_conv room_def)
  then have room2: "room M ?m ?bs (length (encFields fs))"
    using Cons.prems g(3) lenb by (auto simp: room_def)
  from Cons.IH [OF room2] obtain g' where
    g': "wFields M fs (with_bytes ?m ?bs)
          = Inr (with_bytes (m\<lparr>m_curPos := ?p + int ?n + int (length (encFields fs))\<rparr>)
                   (overwrite (nat (?p + int ?n)) (encFields fs) (?bs @ g')))"
      "fs = [] \<longrightarrow> g' = []"
      "fs \<noteq> [] \<longrightarrow> ?p + int ?n + int (length (encFields fs)) \<le> int (length (?bs @ g'))"
      "int (length (?bs @ g')) \<le> INT_MAX" by auto
  have end': "?p + int ?n + int (length (encFields fs)) \<le> int (length (bs @ g @ g'))"
    using g'(2,3) g(2) lenb by (cases "fs = []") auto
  have fits2: "nat ?p + ?n + length (encFields fs) \<le> length ((bs @ g) @ g')" using end' p by simp
  have "overwrite (nat (?p + int ?n)) (encFields fs) (?bs @ g')
        = overwrite (nat ?p) (encFields (f # fs)) (bs @ g @ g')"
    using overwrite_append [OF fits2] overwrite_append_right [OF fits, of g'] p
    by (simp add: nat_add_distrib)
  then have "wFields M (f # fs) (with_bytes m bs)
        = Inr (with_bytes (m\<lparr>m_curPos := ?p + int (length (encFields (f # fs)))\<rparr>)
                 (overwrite (nat ?p) (encFields (f # fs)) (bs @ g @ g')))"
    using g(1) g'(1) by (simp add: add.assoc)
  then show ?case using end' g'(4) lenb by (intro exI [of _ "g @ g'"]) simp
qed

lemma rFields_ok:
  "0 \<le> m_curPos m \<Longrightarrow> m_curPos m + int (length (encFields fs)) \<le> int (length bs) \<Longrightarrow>
   int (length bs) \<le> INT_MAX \<Longrightarrow>
   seg (nat (m_curPos m)) (length (encFields fs)) bs = encFields fs \<Longrightarrow>
   rFields (map kind_of fs) (with_bytes m bs)
     = Inr (fs, with_bytes (m\<lparr>m_curPos := m_curPos m + int (length (encFields fs))\<rparr>) bs)"
proof (induction fs arbitrary: m)
  case Nil
  then show ?case by simp
next
  case (Cons f fs)
  let ?p = "m_curPos m" and ?n = "length (encField f)"
  have le: "nat ?p + ?n \<le> length bs" using Cons.prems(1,2) by simp
  have "seg (nat ?p) (?n + length (encFields fs)) bs = encField f @ encFields fs"
    using Cons.prems(4) by simp
  from seg_append_eqD [OF this _ le] have
    s: "seg (nat ?p) ?n bs = encField f" "seg (nat ?p + ?n) (length (encFields fs)) bs = encFields fs"
    by simp_all
  have "rField (kind_of f) (with_bytes m bs) = Inr (f, with_bytes (m\<lparr>m_curPos := ?p + int ?n\<rparr>) bs)"
    by (rule rField_ok) (use Cons.prems s in simp_all)
  then show ?case
    using Cons.IH [of "m\<lparr>m_curPos := ?p + int ?n\<rparr>"] Cons.prems s(2)
    by (simp add: nat_add_distrib add.assoc)
qed

section \<open>Properties\<close>

text \<open>
  C5: any sequence of fields written by the typed writers of a well-formed message, in which the
  position stays below \<open>POS_MAX\<close>, is read back unchanged by the typed readers of the same kinds
  from the position where writing began, and reading ends where writing ended; no write leaves
  the buffer.
\<close>

theorem fields_roundtrip:
  assumes "malloc_serves M (nat INT_MAX)" and "nm_wf m" and "fs \<noteq> []"
    and "m_curPos m + int (length (encFields fs)) \<le> POS_MAX"
  shows "\<exists>m'. wFields M fs m = Inr m' \<and> nm_wf m'
           \<and> rFields (map kind_of fs) (m'\<lparr>m_curPos := m_curPos m\<rparr>) = Inr (fs, m')"
proof -
  from assms(2) obtain bs where bs: "m = with_bytes m bs" "bs \<noteq> []" "int (length bs) \<le> INT_MAX"
    "0 \<le> m_curPos m" "m_curPos m \<le> int (length bs)" by (rule nm_wfE)
  let ?p = "m_curPos m" and ?e = "encFields fs"
  have "room M m bs (length ?e)" using assms bs by (simp add: room_def)
  from wFields_ok [OF this] assms(3) obtain g where
    g: "wFields M fs (with_bytes m bs)
          = Inr (with_bytes (m\<lparr>m_curPos := ?p + int (length ?e)\<rparr>) (overwrite (nat ?p) ?e (bs @ g)))"
      "?p + int (length ?e) \<le> int (length (bs @ g))" "int (length (bs @ g)) \<le> INT_MAX" by auto
  have fits: "nat ?p + length ?e \<le> length (bs @ g)" using g(2) bs(4) by simp
  let ?bs = "overwrite (nat ?p) ?e (bs @ g)"
  have lenb: "length ?bs = length (bs @ g)" using fits by simp
  then have "?bs \<noteq> []" using bs(2) by (metis append_is_Nil_conv length_0_conv)
  then have "nm_wf (with_bytes (m\<lparr>m_curPos := ?p + int (length ?e)\<rparr>) ?bs)"
    using g bs(4) lenb by (simp add: nm_wf_with_bytes)
  moreover have "rFields (map kind_of fs) (with_bytes m ?bs)
      = Inr (fs, with_bytes (m\<lparr>m_curPos := ?p + int (length ?e)\<rparr>) ?bs)"
    by (rule rFields_ok) (use g bs(4) lenb fits in simp_all)
  ultimately show ?thesis using g(1) bs(1) by simp
qed

theorem fields_roundtrip_witness:
  "let m = with_bytes \<lparr>m_size = -1, m_headSize = 2, m_bufStartPos = 0, m_curPos = 2, m_buffer = None\<rparr>
             [0, 0, 0, 0];
       fs = [F_Int 7, F_String [72, 105], F_Int64 (- 1)]
   in \<exists>m'. wFields zero_malloc fs m = Inr m' \<and> nm_wf m'
        \<and> rFields [K_Int, K_String, K_Int64] (m'\<lparr>m_curPos := 2\<rparr>) = Inr (fs, m')"
  using fields_roundtrip [of zero_malloc
    "with_bytes \<lparr>m_size = -1, m_headSize = 2, m_bufStartPos = 0, m_curPos = 2, m_buffer = None\<rparr> [0, 0, 0, 0]"
    "[F_Int 7, F_String [72, 105], F_Int64 (- 1)]"]
  by (simp add: nm_wf_with_bytes INT_MAX_def POS_MAX_def)

end
