(* ===== verification/NetFrame.thy ===== *)
theory NetFrame
  imports NetCodec
begin

text \<open>
  The length framing of \<open>NetMessage\<close>: what \<open>beginForWrite\<close>, the writers and \<open>endForWrite\<close> leave
  for sending, and what \<open>onReceive\<close> makes of the bytes that arrive. The abstract frame is the
  two-byte big-endian length and the payload, or \<open>FF FF\<close>, a four-byte length and the payload when
  the payload has 65535 bytes or more.
\<close>

definition frame_head :: "nat \<Rightarrow> byte list list" where
  "frame_head n =
     (if n < 0xFFFF then [be_bytes 2 (word_of_int (int n) :: 16 word)]
      else [be_bytes 2 (0xFFFF :: 16 word), be_bytes 4 (word_of_int (int n) :: 32 word)])"

definition frame :: "byte list \<Rightarrow> byte list" where
  "frame payload = concat (frame_head (length payload)) @ payload"

text \<open>
  One arrival: the receive loop of the connection stores what \<open>recv\<close> delivered at the current
  position and calls \<open>onReceive\<close>.
\<close>

definition feed :: "malloc \<Rightarrow> byte list \<Rightarrow> NetMessage \<Rightarrow> NetMessage res" where
  "feed M chunk m =
     bindE (NetMessage_store m (m_curPos m) chunk) (NetMessage_onReceive M (int (length chunk)))"

fun feeds :: "malloc \<Rightarrow> byte list list \<Rightarrow> NetMessage \<Rightarrow> NetMessage res" where
  "feeds M [] m = Inr m"
| "feeds M (c # cs) m = bindE (feed M c m) (feeds M cs)"

lemma feeds_append: "feeds M (cs @ ds) m = bindE (feeds M cs m) (feeds M ds)"
  by (induction cs arbitrary: m) (simp_all add: bindE_assoc cong: bindE_cong)

section \<open>Sending\<close>

lemma wUShort_ok:
  assumes "room M m bs 2"
  shows "\<exists>g. NetMessage_wUShort M v (with_bytes m bs)
           = Inr (with_bytes (m\<lparr>m_curPos := m_curPos m + 2\<rparr>)
                    (overwrite (nat (m_curPos m)) (be_bytes 2 v) (bs @ g)))
         \<and> int (length (bs @ g)) \<le> INT_MAX"
  using UShort.wr_spec [OF assms, of v] by auto

lemma endForWrite_short:
  assumes "malloc_serves M (nat INT_MAX)" and "int (length bs) \<le> INT_MAX"
    and "m_curPos m = 6 + int n" and "6 + n \<le> length bs" and "n < 0xFFFF"
    and "seg 6 n bs = payload"
  shows "\<exists>m'. NetMessage_endForWrite M (with_bytes m bs) = Inr m' \<and> m_size m' = int n
     \<and> m_headSize m' = 2 \<and> m_bufStartPos m' = 4 \<and> m_curPos m' = 4
     \<and> NetMessage_read m' 4 (2 + int n) = Inr (frame payload)"
proof -
  let ?w = "word_of_int (int n) :: 16 word"
  let ?m = "m\<lparr>m_size := int n, m_headSize := 2, m_curPos := 4\<rparr>"
  have plen: "length payload = n" using assms(4,6) length_seg by blast
  have "room M ?m bs 2" using assms by (auto simp: room_def POS_MAX_def)
  from UShort.wr_spec [OF this, of ?w] obtain g where
    g: "NetMessage_wUShort M ?w (with_bytes ?m bs)
        = Inr (with_bytes (?m\<lparr>m_curPos := 6\<rparr>) (overwrite 4 (be_bytes 2 ?w) (bs @ g)))" by auto
  let ?bs = "overwrite 4 (be_bytes 2 ?w) (bs @ g)"
  have lenb: "length ?bs = length (bs @ g)" using assms(4) by simp
  have "seg 4 (2 + n) ?bs = seg 4 2 ?bs @ seg (4 + 2) n ?bs" by (rule seg_append)
  also have "seg 4 2 ?bs = be_bytes 2 ?w" using assms(4) by simp
  also have "seg (4 + 2) n ?bs = payload"
    using assms(4,6) by (subst seg_overwrite_after) (simp_all add: seg_def)
  finally have sg: "seg 4 (2 + n) ?bs = frame payload"
    using assms(5) plen by (simp add: frame_def frame_head_def)
  have c: "c_int (m_curPos m - 6) = Inr (int n)"
    using assms(3,5) by (simp add: in_int_numeral_bounds)
  have "NetMessage_endForWrite M (with_bytes m bs)
        = Inr (with_bytes (?m\<lparr>m_bufStartPos := 4\<rparr>) ?bs)"
    using c g assms(5) by (simp add: NetMessage_endForWrite_def)
  moreover have "NetMessage_read (with_bytes (?m\<lparr>m_bufStartPos := 4\<rparr>) ?bs) 4 (2 + int n)
                 = Inr (seg 4 (2 + n) ?bs)"
    using lenb assms(4) by (simp add: buf_simps nat_add_distrib)
  ultimately show ?thesis using sg by simp
qed

lemma endForWrite_long:
  assumes "malloc_serves M (nat INT_MAX)" and "int (length bs) \<le> INT_MAX"
    and "m_curPos m = 6 + int n" and "6 + n \<le> length bs" and "0xFFFF \<le> n"
    and "seg 6 n bs = payload"
  shows "\<exists>m'. NetMessage_endForWrite M (with_bytes m bs) = Inr m' \<and> m_size m' = int n
     \<and> m_headSize m' = 6 \<and> m_bufStartPos m' = 0 \<and> m_curPos m' = 0
     \<and> NetMessage_read m' 0 (6 + int n) = Inr (frame payload)"
proof -
  let ?w = "word_of_int (int n) :: 32 word" and ?ff = "be_bytes 2 (0xFFFF :: 16 word)"
  let ?m = "m\<lparr>m_size := int n, m_headSize := 6, m_curPos := 0\<rparr>"
  have plen: "length payload = n" using assms(4,6) length_seg by blast
  have "room M ?m bs 2" using assms by (auto simp: room_def POS_MAX_def)
  from UShort.wr_spec [OF this, of "0xFFFF"] obtain g where
    g: "NetMessage_wUShort M 0xFFFF (with_bytes ?m bs)
        = Inr (with_bytes (?m\<lparr>m_curPos := 2\<rparr>) (overwrite 0 ?ff (bs @ g)))"
      "int (length (bs @ g)) \<le> INT_MAX" by auto
  let ?bs = "overwrite 0 ?ff (bs @ g)"
  have lenb: "length ?bs = length (bs @ g)" using assms(4) by simp
  then have "?bs \<noteq> []" using assms(4) by (metis append_is_Nil_conv length_0_conv le_zero_eq
      add_eq_0_iff_both_eq_0 zero_neq_numeral list.size(3))
  then have "room M (?m\<lparr>m_curPos := 2\<rparr>) ?bs 4" using assms g lenb by (auto simp: room_def POS_MAX_def)
  from UInt.wr_spec [OF this, of ?w] obtain g' where
    g': "NetMessage_wUInt M ?w (with_bytes (?m\<lparr>m_curPos := 2\<rparr>) ?bs)
        = Inr (with_bytes (?m\<lparr>m_curPos := 6\<rparr>) (overwrite 2 (be_bytes 4 ?w) (?bs @ g')))" by auto
  have "overwrite (0 + length ?ff) (be_bytes 4 ?w) (overwrite 0 ?ff (bs @ g @ g'))
        = overwrite 0 (?ff @ be_bytes 4 ?w) (bs @ g @ g')"
    by (rule overwrite_append) (use assms(4) in simp)
  moreover have "?bs @ g' = overwrite 0 ?ff (bs @ g @ g')"
    using overwrite_append_right [of 0 ?ff "bs @ g" g'] assms(4) by simp
  ultimately have "overwrite 2 (be_bytes 4 ?w) (?bs @ g') = overwrite 0 (?ff @ be_bytes 4 ?w) (bs @ g @ g')"
    by (simp only: length_be_bytes add_0)
  with g' have g'': "NetMessage_wUInt M ?w (with_bytes (?m\<lparr>m_curPos := 2\<rparr>) ?bs)
      = Inr (with_bytes (?m\<lparr>m_curPos := 6\<rparr>) (overwrite 0 (?ff @ be_bytes 4 ?w) (bs @ g @ g')))"
    by simp
  let ?cs = "overwrite 0 (?ff @ be_bytes 4 ?w) (bs @ g @ g')"
  have lenc: "length ?cs = length (bs @ g @ g')" using assms(4) by (subst length_overwrite) auto
  have "seg 0 (6 + n) ?cs = seg 0 6 ?cs @ seg (0 + 6) n ?cs" by (rule seg_append)
  also have "seg 0 6 ?cs = ?ff @ be_bytes 4 ?w" using assms(4) by (intro seg_overwrite_same) auto
  also have "seg (0 + 6) n ?cs = payload"
    using assms(4,6) by (subst seg_overwrite_after) (simp_all add: seg_def)
  finally have sg: "seg 0 (6 + n) ?cs = frame payload"
    using assms(5) plen by (simp add: frame_def frame_head_def)
  have "n \<le> 2147483641" using assms(2,4) by (simp add: INT_MAX_def)
  then have c: "c_int (m_curPos m - 6) = Inr (int n)"
    using assms(3) by (simp add: in_int_numeral_bounds)
  have "NetMessage_endForWrite M (with_bytes m bs)
        = Inr (with_bytes (?m\<lparr>m_bufStartPos := 0\<rparr>) ?cs)"
    using c g(1) g'' assms(5) by (simp add: NetMessage_endForWrite_def)
  moreover have "NetMessage_read (with_bytes (?m\<lparr>m_bufStartPos := 0\<rparr>) ?cs) 0 (6 + int n)
                 = Inr (seg 0 (6 + n) ?cs)"
    using lenc assms(4) by (simp add: buf_simps nat_add_distrib)
  ultimately show ?thesis using sg by simp
qed

text \<open>The shape of a message that is ready to be sent: \<open>getSendCap\<close> bytes from \<open>m_bufStartPos\<close>.\<close>

definition ready_to_send :: "byte list \<Rightarrow> NetMessage \<Rightarrow> bool" where
  "ready_to_send payload m \<longleftrightarrow>
     NetMessage_ResetForSend m = m \<and> m_size m = int (length payload)
     \<and> NetMessage_read m (m_curPos m) (NetMessage_getSendCap m) = Inr (frame payload)"

lemma endForWrite_ready:
  assumes "malloc_serves M (nat INT_MAX)" and "int (length bs) \<le> INT_MAX"
    and "m_curPos m = 6 + int n" and "6 + n \<le> length bs" and "seg 6 n bs = payload"
  shows "\<exists>m'. NetMessage_endForWrite M (with_bytes m bs) = Inr m' \<and> ready_to_send payload m'"
proof -
  have len: "length payload = n" using assms(4,5) length_seg by blast
  show ?thesis
  proof (cases "n < 0xFFFF")
    case True
    from endForWrite_short [OF assms(1-4) True assms(5)] len show ?thesis
      by (auto simp: ready_to_send_def NetMessage_ResetForSend_def NetMessage_getSendCap_def add.commute)
  next
    case False
    then have "0xFFFF \<le> n" by simp
    from endForWrite_long [OF assms(1-4) this assms(5)] len show ?thesis
      by (auto simp: ready_to_send_def NetMessage_ResetForSend_def NetMessage_getSendCap_def add.commute)
  qed
qed

section \<open>Receiving\<close>

lemma store_advance:
  assumes "0 \<le> m_curPos m" and "m_curPos m + int (length c) \<le> int (length bs)" and "int (length bs) \<le> INT_MAX"
  shows "NetMessage_store (with_bytes m bs) (m_curPos m) c
           = Inr (with_bytes m (overwrite (nat (m_curPos m)) c bs))"
    and "NetMessage_advance (int (length c)) (with_bytes m (overwrite (nat (m_curPos m)) c bs))
           = Inr (with_bytes (m\<lparr>m_curPos := m_curPos m + int (length c)\<rparr>)
                    (overwrite (nat (m_curPos m)) c bs))"
  using assms by (simp_all add: buf_simps in_int_pos)

text \<open>Once the size is known, arriving bytes are only stored and counted.\<close>

lemma feed_body:
  assumes "0 \<le> m_size m" and "0 \<le> m_curPos m"
    and "m_curPos m + int (length c) \<le> int (length bs)" and "int (length bs) \<le> INT_MAX"
  shows "feed M c (with_bytes m bs)
         = Inr (with_bytes (m\<lparr>m_curPos := m_curPos m + int (length c)\<rparr>)
                  (overwrite (nat (m_curPos m)) c bs))"
  using store_advance [OF assms(2-4)] assms(1) by (simp add: feed_def NetMessage_onReceive_def)

text \<open>A message that waits for its length, with nothing received yet.\<close>

definition waiting :: "NetMessage \<Rightarrow> bool" where
  "waiting m \<longleftrightarrow> m_size m = -1 \<and> m_headSize m = 2 \<and> m_bufStartPos m = 0 \<and> m_curPos m = 0"

lemma length_word_16: "n < 0xFFFF \<Longrightarrow> uint (word_of_int (int n) :: 16 word) = int n"
  by (subst uint_word_of_int) simp

lemma nth_overwrite_0: "k < length xs \<Longrightarrow> overwrite 0 xs bs ! k = xs ! k"
  by (simp add: overwrite_def nth_append)

lemma feed_head_short:
  assumes "waiting m" and "malloc_serves M (nat INT_MAX)" and "512 \<le> length bs"
    and "int (length bs) \<le> INT_MAX" and "n < 0xFFFF"
  shows "\<exists>g. feed M (be_bytes 2 (word_of_int (int n) :: 16 word)) (with_bytes m bs)
           = Inr (with_bytes (m\<lparr>m_size := int n, m_headSize := 2, m_curPos := 2, m_bufStartPos := 0\<rparr>)
                    (overwrite 0 (be_bytes 2 (word_of_int (int n) :: 16 word)) bs @ g))
         \<and> 2 + n \<le> length (bs @ g) \<and> int (length (bs @ g)) \<le> INT_MAX"
proof -
  let ?w = "word_of_int (int n) :: 16 word"
  let ?h = "be_bytes 2 ?w"
  let ?bs = "overwrite 0 ?h bs"
  let ?m = "m\<lparr>m_size := int n, m_headSize := 2, m_curPos := 2, m_bufStartPos := 0\<rparr>"
  have w: "waiting m" by fact
  have lenb: "length ?bs = length bs" using assms(3) by simp
  have ne0: "bs \<noteq> []" using assms(3) by auto
  have ne: "?bs \<noteq> []" using lenb assms(3) by (metis length_0_conv not_numeral_le_zero)
  have "room M ?m ?bs n" using assms ne lenb by (auto simp: room_def POS_MAX_def)
  then obtain g where
    g: "NetMessage_checkBufSize M (int n) (with_bytes ?m ?bs) = Inr (with_bytes ?m (?bs @ g))"
      "2 + int n \<le> int (length (?bs @ g))" "int (length (?bs @ g)) \<le> INT_MAX"
    by (rule checkBufSize_ok) auto
  have ld: "?bs ! 0 = ucast (drop_bit 8 ?w)" "?bs ! 1 = ucast ?w"
    by (simp_all add: nth_overwrite_0 be_bytes_unfold)
  have val: "push_bit 8 (ucast (?bs ! 0)) OR ucast (?bs ! 1) = ?w"
    unfolding ld using be_val_be_bytes_full [of 2 ?w] by (simp only: be_bytes_unfold be_val_2) simp
  have "?w \<noteq> 0xFFFF"
  proof
    assume "?w = 0xFFFF"
    then have "uint ?w = 0xFFFF" by simp
    with length_word_16 [OF assms(5)] assms(5) show False by simp
  qed
  then have "feed M ?h (with_bytes m bs) = Inr (with_bytes ?m (?bs @ g))"
    using store_advance [of m ?h bs] w assms(3,4) lenb ne ne0 val g(1) length_word_16 [OF assms(5)]
    by (simp add: feed_def NetMessage_onReceive_def waiting_def buf_simps)
  then show ?thesis using g lenb by (intro exI [of _ g]) simp
qed

lemma feed_head_marker:
  assumes "waiting m" and "512 \<le> length bs" and "int (length bs) \<le> INT_MAX"
  shows "feed M (be_bytes 2 (0xFFFF :: 16 word)) (with_bytes m bs)
         = Inr (with_bytes (m\<lparr>m_size := -2, m_headSize := 4, m_curPos := 0\<rparr>)
                  (overwrite 0 (be_bytes 2 (0xFFFF :: 16 word)) bs))"
proof -
  let ?bs = "overwrite 0 (be_bytes 2 (0xFFFF :: 16 word)) bs"
  have lenb: "length ?bs = length bs" using assms(2) by simp
  have ne0: "bs \<noteq> []" using assms(2) by auto
  have "?bs ! 0 = 0xFF" "?bs ! 1 = 0xFF"
    by (simp_all add: nth_overwrite_0 be_bytes_unfold)
  then show ?thesis
    using store_advance [of m "be_bytes 2 (0xFFFF :: 16 word)" bs] assms lenb ne0
    by (simp add: feed_def NetMessage_onReceive_def waiting_def buf_simps)
qed

lemma feed_head_long:
  assumes "m_size m = -2" and "m_headSize m = 4" and "m_curPos m = 0"
    and "512 \<le> length bs" and "int (length bs) \<le> INT_MAX"
    and "malloc_serves M (nat INT_MAX)" and "4 + int n \<le> POS_MAX"
  shows "\<exists>g. feed M (be_bytes 4 (word_of_int (int n) :: 32 word)) (with_bytes m bs)
           = Inr (with_bytes (m\<lparr>m_size := int n, m_curPos := 4, m_bufStartPos := 0\<rparr>)
                    (overwrite 0 (be_bytes 4 (word_of_int (int n) :: 32 word)) bs @ g))
         \<and> 4 + n \<le> length (bs @ g) \<and> int (length (bs @ g)) \<le> INT_MAX"
proof -
  let ?w = "word_of_int (int n) :: 32 word"
  let ?h = "be_bytes 4 ?w"
  let ?bs = "overwrite 0 ?h bs"
  let ?m = "m\<lparr>m_size := int n, m_curPos := 4, m_bufStartPos := 0\<rparr>"
  have lenb: "length ?bs = length bs" using assms(4) by simp
  have ne0: "bs \<noteq> []" using assms(4) by auto
  have ne: "?bs \<noteq> []" using lenb assms(4) by (metis length_0_conv not_numeral_le_zero)
  have "room M ?m ?bs n" using assms ne lenb by (auto simp: room_def)
  then obtain g where
    g: "NetMessage_checkBufSize M (int n) (with_bytes ?m ?bs) = Inr (with_bytes ?m (?bs @ g))"
      "4 + int n \<le> int (length (?bs @ g))" "int (length (?bs @ g)) \<le> INT_MAX"
    by (rule checkBufSize_ok) auto
  have ld: "?bs ! 0 = ucast (drop_bit 24 ?w)" "?bs ! 1 = ucast (drop_bit 16 ?w)"
    "?bs ! 2 = ucast (drop_bit 8 ?w)" "?bs ! 3 = ucast ?w"
    by (simp_all add: nth_overwrite_0 be_bytes_unfold)
  have val: "((push_bit 24 (ucast (?bs ! 0)) OR push_bit 16 (ucast (?bs ! 1)))
      OR push_bit 8 (ucast (?bs ! 2))) OR ucast (?bs ! 3) = ?w"
    unfolding ld using be_val_be_bytes_full [of 4 ?w] by (simp only: be_bytes_unfold be_val_4) simp
  have sz: "sint ?w = int n"
    using assms(7) by (intro sint_word_of_int_32) (simp add: in_int_numeral_bounds POS_MAX_def)
  have "feed M ?h (with_bytes m bs) = Inr (with_bytes ?m (?bs @ g))"
    using store_advance [of m ?h bs] assms(1-5) lenb ne ne0 val g(1) sz
    by (simp add: feed_def NetMessage_onReceive_def buf_simps or.assoc)
  then show ?thesis using g lenb by (intro exI [of _ g]) simp
qed

text \<open>
  A message of known size \<open>n\<close> that has received the bytes \<open>c\<close> of its payload: they follow the
  header, the rest of the buffer has room for what is missing, and the position is at the end of
  \<open>c\<close>.
\<close>

definition received :: "nat \<Rightarrow> byte list \<Rightarrow> NetMessage \<Rightarrow> bool" where
  "received n c m \<longleftrightarrow>
     nm_wf m \<and> m_size m = int n \<and> m_bufStartPos m = 0 \<and> 0 \<le> m_headSize m
     \<and> m_headSize m + int n \<le> (case m_buffer m of None \<Rightarrow> 0 | Some b \<Rightarrow> mb_size b)
     \<and> m_curPos m = m_headSize m + int (length c) \<and> length c \<le> n
     \<and> NetMessage_read m (m_headSize m) (int (length c)) = Inr c"

lemma received_with_bytes:
  "received n c (with_bytes m bs) \<longleftrightarrow>
     bs \<noteq> [] \<and> int (length bs) \<le> INT_MAX \<and> m_size m = int n \<and> m_bufStartPos m = 0 \<and> 0 \<le> m_headSize m
     \<and> m_headSize m + int n \<le> int (length bs) \<and> m_curPos m = m_headSize m + int (length c)
     \<and> length c \<le> n \<and> seg (nat (m_headSize m)) (length c) bs = c"
  by (auto simp: received_def nm_wf_with_bytes NetMessage_read_with_bytes)

lemma received_feed:
  assumes "received n c m" and "length (c @ d) \<le> n"
  shows "\<exists>m'. feed M d m = Inr m' \<and> received n (c @ d) m' \<and> m_headSize m' = m_headSize m"
proof -
  from assms(1) obtain bs where m: "m = with_bytes m bs" by (auto simp: received_def elim: nm_wfE)
  with assms(1) have r: "received n c (with_bytes m bs)" by simp
  let ?h = "m_headSize m"
  let ?bs = "overwrite (nat ?h + length c) d bs"
  let ?m = "m\<lparr>m_curPos := ?h + int (length c) + int (length d)\<rparr>"
  have h: "0 \<le> ?h" "m_curPos m = ?h + int (length c)" "nat ?h + length (c @ d) \<le> length bs"
    using r assms(2) by (auto simp: received_with_bytes)
  then have lenb: "length ?bs = length bs" by simp
  have "feed M d (with_bytes m bs) = Inr (with_bytes ?m ?bs)"
    using feed_body [of m d bs M] r h assms(2) by (auto simp: received_with_bytes nat_add_distrib)
  moreover have "seg (nat ?h) (length c + length d) ?bs = c @ d"
    using h r by (simp add: seg_append seg_overwrite_before received_with_bytes)
  then have "received n (c @ d) (with_bytes ?m ?bs)"
    using r h lenb assms(2) by (auto simp: received_with_bytes)
  ultimately show ?thesis using m by (intro exI [of _ "with_bytes ?m ?bs"]) simp
qed

lemma received_feeds:
  "received n c m \<Longrightarrow> length (c @ concat cs) \<le> n \<Longrightarrow>
   \<exists>m'. feeds M cs m = Inr m' \<and> received n (c @ concat cs) m' \<and> m_headSize m' = m_headSize m"
proof (induction cs arbitrary: c m)
  case Nil
  then show ?case by simp
next
  case (Cons d cs)
  from received_feed [OF Cons.prems(1), of d M] Cons.prems(2) obtain m1 where
    m1: "feed M d m = Inr m1" "received n (c @ d) m1" "m_headSize m1 = m_headSize m" by auto
  from Cons.IH [OF m1(2)] Cons.prems(2) m1 show ?case by auto
qed

lemma received_head:
  assumes "waiting m" and "malloc_serves M (nat INT_MAX)" and "512 \<le> length bs"
    and "int (length bs) \<le> INT_MAX" and "4 + int n \<le> POS_MAX"
  shows "\<exists>m'. feeds M (frame_head n) (with_bytes m bs) = Inr m' \<and> received n [] m'"
proof (cases "n < 0xFFFF")
  case True
  from feed_head_short [OF assms(1-4) True] assms(3) True show ?thesis
    by (auto simp: frame_head_def received_with_bytes seg_def)
next
  case False
  let ?b1 = "overwrite 0 (be_bytes 2 (0xFFFF :: 16 word)) bs"
  let ?m1 = "m\<lparr>m_size := -2, m_headSize := 4, m_curPos := 0\<rparr>"
  have len1: "length ?b1 = length bs" using assms(3) by simp
  note feed_head_marker [OF assms(1,3,4), of M]
  moreover have "\<exists>m'. feed M (be_bytes 4 (word_of_int (int n) :: 32 word)) (with_bytes ?m1 ?b1) = Inr m'
                   \<and> received n [] m'"
    using feed_head_long [of ?m1 ?b1 M n] assms len1
    by (auto simp: received_with_bytes seg_def)
  ultimately show ?thesis using False by (auto simp: frame_head_def)
qed

lemma received_isEnd: "received n c m \<Longrightarrow> NetMessage_isEnd m \<longleftrightarrow> length c = n"
  by (auto simp: received_def NetMessage_isEnd_def)

lemma received_getReadCap: "received n c m \<Longrightarrow> NetMessage_getReadCap m = int n - int (length c)"
  by (simp add: received_def NetMessage_getReadCap_def)

lemma received_payload:
  "received n c m \<Longrightarrow>
   NetMessage_read m (m_curPos (NetMessage_ResetForRead m)) (int (length c)) = Inr c"
  by (simp add: received_def NetMessage_ResetForRead_def)

section \<open>Properties\<close>

text \<open>
  C7: a new message that is fed the header of a payload of \<open>n\<close> bytes, uncut (the two bytes of a short
  header at once, the two and then the four bytes of a long one; a cut header is the overflow of
  C11), and then any pieces of the payload, in any split, has stored exactly those pieces in order, asks for exactly the missing
  number of bytes, and reports its end if and only if all \<open>n\<close> bytes have arrived.
\<close>

theorem receive_frame:
  assumes "malloc_serves M (nat INT_MAX)" and "nm_wf m" and "waiting m"
    and "512 \<le> (case m_buffer m of None \<Rightarrow> 0 | Some b \<Rightarrow> mb_size b)"
    and "4 + int n \<le> POS_MAX" and "length (concat cs) \<le> n"
  shows "\<exists>m'. feeds M (frame_head n @ cs) m = Inr m' \<and> nm_wf m' \<and> m_size m' = int n
     \<and> NetMessage_getReadCap m' = int n - int (length (concat cs))
     \<and> (NetMessage_isEnd m' \<longleftrightarrow> length (concat cs) = n)
     \<and> NetMessage_read m' (m_curPos (NetMessage_ResetForRead m')) (int (length (concat cs)))
         = Inr (concat cs)"
proof -
  from assms(2) obtain bs where bs: "m = with_bytes m bs" "int (length bs) \<le> INT_MAX"
    by (rule nm_wfE)
  have "m_buffer m = Some \<lparr>mb_size = int (length bs), mb_buf = Some bs\<rparr>"
    using bs(1) by (metis with_bytes_simps(5))
  then have "512 \<le> length bs" using assms(4) by simp
  from received_head [OF assms(3,1) this bs(2) assms(5)] bs(1) obtain m1 where
    m1: "feeds M (frame_head n) m = Inr m1" "received n [] m1" by auto
  from received_feeds [OF m1(2), of cs M] assms(6) obtain m2 where
    m2: "feeds M cs m1 = Inr m2" "received n (concat cs) m2" by auto
  show ?thesis
    using m1(1) m2 received_isEnd [OF m2(2)] received_getReadCap [OF m2(2)] received_payload [OF m2(2)]
    by (auto simp: feeds_append received_def)
qed

text \<open>A message in a state from which it can be written or fed, for concrete runs.\<close>

definition sample_message :: NetMessage where
  "sample_message = with_bytes
     \<lparr>m_size = -1, m_headSize = 2, m_bufStartPos = 0, m_curPos = 0, m_buffer = None\<rparr> (replicate 512 0)"

lemma sample_message_facts:
  "nm_wf sample_message" "waiting sample_message" "m_curPos sample_message = 0"
  "m_buffer sample_message = Some \<lparr>mb_size = 512, mb_buf = Some (replicate 512 0)\<rparr>"
  by (simp_all add: sample_message_def nm_wf_with_bytes waiting_def INT_MAX_def)

theorem receive_frame_witness:
  "\<exists>m'. feeds zero_malloc (frame_head 3 @ [[1], [2]]) sample_message = Inr m' \<and> nm_wf m' \<and> m_size m' = 3
     \<and> NetMessage_getReadCap m' = 1 \<and> \<not> NetMessage_isEnd m'
     \<and> NetMessage_read m' (m_curPos (NetMessage_ResetForRead m')) 2 = Inr [1, 2]"
  using receive_frame [of zero_malloc sample_message 3 "[[1], [2]]"]
  by (simp add: sample_message_facts POS_MAX_def)

text \<open>The fields written between \<open>beginForWrite\<close> and \<open>endForWrite\<close> leave a message ready to send.\<close>

lemma write_frame:
  assumes "malloc_serves M (nat INT_MAX)" and "nm_wf m"
    and "6 \<le> (case m_buffer m of None \<Rightarrow> 0 | Some b \<Rightarrow> mb_size b)"
    and "6 + int (length (encFields fs)) \<le> POS_MAX"
  shows "\<exists>m1. bindE (wFields M fs (NetMessage_beginForWrite m)) (NetMessage_endForWrite M) = Inr m1
           \<and> ready_to_send (encFields fs) m1"
proof -
  from assms(2) obtain bs where bs: "m = with_bytes m bs" "bs \<noteq> []" "int (length bs) \<le> INT_MAX"
    by (rule nm_wfE)
  have "m_buffer m = Some \<lparr>mb_size = int (length bs), mb_buf = Some bs\<rparr>"
    using bs(1) by (metis with_bytes_simps(5))
  then have six: "6 \<le> length bs" using assms(3) by simp
  let ?m = "m\<lparr>m_curPos := 6\<rparr>" and ?e = "encFields fs"
  have "room M ?m bs (length ?e)" using assms bs by (simp add: room_def)
  from wFields_ok [OF this] obtain g where
    g: "wFields M fs (with_bytes ?m bs)
          = Inr (with_bytes (m\<lparr>m_curPos := 6 + int (length ?e)\<rparr>) (overwrite 6 ?e (bs @ g)))"
      "fs = [] \<longrightarrow> g = []" "fs \<noteq> [] \<longrightarrow> 6 + int (length ?e) \<le> int (length (bs @ g))"
      "int (length (bs @ g)) \<le> INT_MAX" by auto
  have fits: "6 + length ?e \<le> length (bs @ g)" using g(2,3) six by (cases "fs = []") auto
  have "\<exists>m1. NetMessage_endForWrite M
      (with_bytes (m\<lparr>m_curPos := 6 + int (length ?e)\<rparr>) (overwrite 6 ?e (bs @ g))) = Inr m1
      \<and> ready_to_send ?e m1"
    by (rule endForWrite_ready [where n = "length ?e"]) (use assms(1) g(4) fits in simp_all)
  moreover have "NetMessage_beginForWrite m = with_bytes ?m bs"
    by (subst bs(1)) (simp add: NetMessage_beginForWrite_def)
  ultimately show ?thesis using g(1) by simp
qed

text \<open>
  C2: end to end. The bytes that a sender transmits for a message built from any fields are the
  frame of the encoded fields; a receiver that gets the length header whole and the payload in any
  split ends up with a complete message, from which the typed readers return the fields of the
  sender.
\<close>

theorem frame_end_to_end:
  assumes "malloc_serves M (nat INT_MAX)"
    and "nm_wf sndr" and "6 \<le> (case m_buffer sndr of None \<Rightarrow> 0 | Some b \<Rightarrow> mb_size b)"
    and "nm_wf rcv" and "waiting rcv" and "512 \<le> (case m_buffer rcv of None \<Rightarrow> 0 | Some b \<Rightarrow> mb_size b)"
    and "6 + int (length (encFields fs)) \<le> POS_MAX" and "concat cs = encFields fs"
  shows "\<exists>m1 m2 m3. bindE (wFields M fs (NetMessage_beginForWrite sndr)) (NetMessage_endForWrite M) = Inr m1
     \<and> NetMessage_read m1 (m_curPos m1) (NetMessage_getSendCap m1)
         = Inr (concat (frame_head (length (encFields fs)) @ cs))
     \<and> feeds M (frame_head (length (encFields fs)) @ cs) rcv = Inr m2 \<and> NetMessage_isEnd m2
     \<and> rFields (map kind_of fs) (NetMessage_ResetForRead m2) = Inr (fs, m3)"
proof -
  let ?e = "encFields fs"
  from write_frame [OF assms(1-3,7)] obtain m1 where
    m1: "bindE (wFields M fs (NetMessage_beginForWrite sndr)) (NetMessage_endForWrite M) = Inr m1"
      "ready_to_send ?e m1" by blast
  from assms(4) obtain bs where bs: "rcv = with_bytes rcv bs" "int (length bs) \<le> INT_MAX"
    by (rule nm_wfE)
  have "m_buffer rcv = Some \<lparr>mb_size = int (length bs), mb_buf = Some bs\<rparr>"
    using bs(1) by (metis with_bytes_simps(5))
  then have "512 \<le> length bs" using assms(6) by simp
  from received_head [OF assms(5,1) this bs(2), of "length ?e"] bs(1) assms(7) obtain r1 where
    r1: "feeds M (frame_head (length ?e)) rcv = Inr r1" "received (length ?e) [] r1" by auto
  from received_feeds [OF r1(2), of cs M] assms(8) obtain r2 where
    r2: "feeds M cs r1 = Inr r2" "received (length ?e) ?e r2" by auto
  from r2(2) obtain cs' where c: "r2 = with_bytes r2 cs'" by (auto simp: received_def elim: nm_wfE)
  with r2(2) have rb: "received (length ?e) ?e (with_bytes r2 cs')" by simp
  let ?r3 = "r2\<lparr>m_curPos := m_headSize r2\<rparr>"
  have "rFields (map kind_of fs) (with_bytes ?r3 cs')
        = Inr (fs, with_bytes (?r3\<lparr>m_curPos := m_headSize r2 + int (length ?e)\<rparr>) cs')"
    using rFields_ok [of ?r3 fs cs'] rb by (simp add: received_with_bytes)
  moreover have "NetMessage_ResetForRead r2 = with_bytes ?r3 cs'"
    by (subst c) (use r2(2) in \<open>simp add: NetMessage_ResetForRead_def received_def\<close>)
  ultimately show ?thesis
    using m1 r1(1) r2 received_isEnd [OF r2(2)] assms(8)
    by (auto simp: feeds_append ready_to_send_def frame_def)
qed

theorem frame_end_to_end_witness:
  "let fs = [F_Short 5, F_String [72, 105]]
   in \<exists>m1 m2 m3. bindE (wFields zero_malloc fs (NetMessage_beginForWrite sample_message))
                    (NetMessage_endForWrite zero_malloc) = Inr m1
     \<and> NetMessage_read m1 (m_curPos m1) (NetMessage_getSendCap m1) = Inr [0, 8, 0, 5, 0, 0, 0, 2, 72, 105]
     \<and> feeds zero_malloc (frame_head 8 @ [[0, 5, 0], [0, 0, 2, 72, 105]]) sample_message = Inr m2
     \<and> NetMessage_isEnd m2 \<and> rFields [K_Short, K_String] (NetMessage_ResetForRead m2) = Inr (fs, m3)"
  using frame_end_to_end [of zero_malloc sample_message sample_message "[F_Short 5, F_String [72, 105]]"
      "[[0, 5, 0], [0, 0, 2, 72, 105]]"]
  by (simp add: sample_message_facts POS_MAX_def be_bytes_unfold frame_head_def)

section \<open>Where the framing fails\<close>

text \<open>
  A message whose size is negative and whose position has passed its header never learns its
  size again: \<open>onReceive\<close> only looks at the header when the position equals the header size.
\<close>

definition lost :: "NetMessage \<Rightarrow> bool" where
  "lost m \<longleftrightarrow> m_size m < 0 \<and> m_headSize m \<le> m_curPos m"

lemma feed_lost:
  assumes "lost m" and "c \<noteq> []" and "0 \<le> m_curPos m" and "int (length bs) \<le> INT_MAX"
  shows "feed M c (with_bytes m bs) =
     (if m_curPos m + int (length c) \<le> int (length bs)
      then Inr (with_bytes (m\<lparr>m_curPos := m_curPos m + int (length c)\<rparr>)
                  (overwrite (nat (m_curPos m)) c bs))
      else Inl OutOfBounds)"
proof (cases "m_curPos m + int (length c) \<le> int (length bs)")
  case True
  have "m_headSize m < m_curPos m + int (length c)"
    using assms(1,2) by (auto simp: lost_def neq_Nil_conv)
  with True assms(1) show ?thesis
    using store_advance [OF assms(3) True assms(4)]
    by (simp add: feed_def NetMessage_onReceive_def lost_def)
next
  case False
  then show ?thesis
    by (simp add: feed_def NetMessage_store_def MemBuffer_store_def buf_write_def)
qed

lemma feeds_lost:
  "lost m \<Longrightarrow> \<forall>c \<in> set cs. c \<noteq> [] \<Longrightarrow> 0 \<le> m_curPos m \<Longrightarrow> int (length bs) \<le> INT_MAX \<Longrightarrow>
   int (length bs) < m_curPos m + int (length (concat cs)) \<Longrightarrow> m_curPos m \<le> int (length bs) \<Longrightarrow>
   feeds M cs (with_bytes m bs) = Inl OutOfBounds"
proof (induction cs arbitrary: m bs)
  case Nil
  then show ?case by simp
next
  case (Cons c cs)
  let ?p = "m_curPos m"
  have f: "feed M c (with_bytes m bs) =
     (if ?p + int (length c) \<le> int (length bs)
      then Inr (with_bytes (m\<lparr>m_curPos := ?p + int (length c)\<rparr>) (overwrite (nat ?p) c bs))
      else Inl OutOfBounds)"
    using Cons.prems by (intro feed_lost) auto
  show ?case
  proof (cases "?p + int (length c) \<le> int (length bs)")
    case True
    then have "length (overwrite (nat ?p) c bs) = length bs" using Cons.prems by simp
    with True f show ?thesis
      using Cons.IH [of "m\<lparr>m_curPos := ?p + int (length c)\<rparr>" "overwrite (nat ?p) c bs"] Cons.prems
      by (simp add: lost_def)
  next
    case False
    with f show ?thesis by simp
  qed
qed

lemma feed_head_negative:
  assumes "m_size m = -2" and "m_headSize m = 4" and "m_curPos m = 0"
    and "512 \<le> length bs" and "int (length bs) \<le> INT_MAX" and "sint (val :: 32 word) < 0"
  shows "feed M (be_bytes 4 val) (with_bytes m bs)
         = Inr (with_bytes (m\<lparr>m_size := sint val, m_curPos := 4, m_bufStartPos := 0\<rparr>)
                  (overwrite 0 (be_bytes 4 val) bs))"
proof -
  let ?bs = "overwrite 0 (be_bytes 4 val) bs"
  have lenb: "length ?bs = length bs" using assms(4) by simp
  have ne0: "bs \<noteq> []" using assms(4) by auto
  have ld: "?bs ! 0 = ucast (drop_bit 24 val)" "?bs ! 1 = ucast (drop_bit 16 val)"
    "?bs ! 2 = ucast (drop_bit 8 val)" "?bs ! 3 = ucast val"
    by (simp_all add: nth_overwrite_0 be_bytes_unfold)
  have val: "((push_bit 24 (ucast (?bs ! 0)) OR push_bit 16 (ucast (?bs ! 1)))
      OR push_bit 8 (ucast (?bs ! 2))) OR ucast (?bs ! 3) = val"
    unfolding ld using be_val_be_bytes_full [of 4 val] by (simp only: be_bytes_unfold be_val_4) simp
  have lo: "- 2147483648 \<le> sint val" using sint_ge [of val] by simp
  have need: "in_int (4 + sint val)" "4 + sint val \<le> int (length bs)"
    using lo assms(4,6) by (auto simp: in_int_numeral_bounds)
  have grow: "grow_loop grow_fuel M (4 + sint val) b = Inr b" if "mb_size b = int (length bs)" for b
    using need(2) that by simp
  have chk: "NetMessage_checkBufSize M (sint val)
      (with_bytes (m\<lparr>m_size := sint val, m_curPos := 4, m_bufStartPos := 0\<rparr>) ?bs)
      = Inr (with_bytes (m\<lparr>m_size := sint val, m_curPos := 4, m_bufStartPos := 0\<rparr>) ?bs)"
    using need grow lenb by (simp add: NetMessage_checkBufSize_def with_bytes_def)
  show ?thesis
    using store_advance [of m "be_bytes 4 val" bs] assms(1-5) lenb ne0 val chk
    by (simp add: feed_def NetMessage_onReceive_def buf_simps or.assoc)
qed

text \<open>
  C11: if the two bytes of the length header arrive one at first and then two together (as
  \<open>getReadCap\<close> asks for two bytes each time), the message never finds its length; the receive loop
  keeps storing what arrives until it writes past the end of the buffer.
\<close>

theorem header_split_overflow:
  assumes "nm_wf m" and "waiting m" and "m_buffer m = Some b" and "512 \<le> mb_size b"
    and "\<forall>d \<in> set cs. d \<noteq> [] \<and> length d \<le> 2" and "mb_size b < 3 + int (length (concat cs))"
  shows "feeds M ([b0] # [b1, b2] # cs) m = Inl OutOfBounds"
proof -
  from assms(1) obtain bs where bs: "m = with_bytes m bs" "int (length bs) \<le> INT_MAX"
    by (rule nm_wfE)
  have "b = \<lparr>mb_size = int (length bs), mb_buf = Some bs\<rparr>"
    using assms(3) bs(1) by (metis option.inject with_bytes_simps(5))
  then have len: "mb_size b = int (length bs)" by simp
  let ?b1 = "overwrite 0 [b0] bs" and ?m1 = "m\<lparr>m_curPos := 1\<rparr>"
  have len1: "length ?b1 = length bs" using len assms(4) by simp
  have "feed M [b0] (with_bytes m bs) = Inr (with_bytes ?m1 ?b1)"
    using store_advance [of m "[b0]" bs] assms(2,4) bs(2) len
    by (simp add: feed_def NetMessage_onReceive_def waiting_def)
  moreover have "feed M [b1, b2] (with_bytes ?m1 ?b1)
      = Inr (with_bytes (m\<lparr>m_curPos := 3\<rparr>) (overwrite 1 [b1, b2] ?b1))"
    using store_advance [of ?m1 "[b1, b2]" ?b1] assms(2,4) bs(2) len len1
    by (simp add: feed_def NetMessage_onReceive_def waiting_def)
  moreover have "feeds M cs (with_bytes (m\<lparr>m_curPos := 3\<rparr>) (overwrite 1 [b1, b2] ?b1)) = Inl OutOfBounds"
    using assms(2,4,5,6) bs(2) len len1 by (intro feeds_lost) (auto simp: lost_def waiting_def)
  ultimately show ?thesis by (subst bs(1)) simp
qed

theorem header_split_overflow_witness:
  "feeds zero_malloc ([0] # [3, 1] # replicate 260 [7, 7]) sample_message = Inl OutOfBounds"
  using header_split_overflow [of sample_message _ "replicate 260 [7, 7]" zero_malloc 0 3 1,
      OF sample_message_facts(1,2,4)]
  by (simp add: length_concat sum_list_replicate)

text \<open>
  C12: a four-byte length with its top bit set is taken as a negative size. The message is then
  never complete, and the four-byte reads that follow run past the end of the buffer: a peer can
  make the receiver write outside its buffer with a well-formed frame header.
\<close>

theorem negative_length_overflow:
  assumes "nm_wf m" and "waiting m" and "m_buffer m = Some b" and "512 \<le> mb_size b"
    and "sint (val :: 32 word) < 0"
    and "\<forall>d \<in> set cs. d \<noteq> [] \<and> length d \<le> 4" and "mb_size b < 4 + int (length (concat cs))"
  shows "feeds M (be_bytes 2 (0xFFFF :: 16 word) # be_bytes 4 val # cs) m = Inl OutOfBounds"
proof -
  from assms(1) obtain bs where bs: "m = with_bytes m bs" "int (length bs) \<le> INT_MAX"
    by (rule nm_wfE)
  have "b = \<lparr>mb_size = int (length bs), mb_buf = Some bs\<rparr>"
    using assms(3) bs(1) by (metis option.inject with_bytes_simps(5))
  then have len: "mb_size b = int (length bs)" by simp
  let ?b1 = "overwrite 0 (be_bytes 2 (0xFFFF :: 16 word)) bs"
  let ?m1 = "m\<lparr>m_size := -2, m_headSize := 4, m_curPos := 0\<rparr>"
  let ?b2 = "overwrite 0 (be_bytes 4 val) ?b1"
  let ?m2 = "?m1\<lparr>m_size := sint val, m_curPos := 4, m_bufStartPos := 0\<rparr>"
  have lens: "length ?b1 = length bs" "length ?b2 = length bs" using len assms(4) by simp_all
  have "feed M (be_bytes 2 (0xFFFF :: 16 word)) (with_bytes m bs) = Inr (with_bytes ?m1 ?b1)"
    by (rule feed_head_marker) (use assms(2,4) bs(2) len in simp_all)
  moreover have "feed M (be_bytes 4 val) (with_bytes ?m1 ?b1) = Inr (with_bytes ?m2 ?b2)"
    by (rule feed_head_negative) (use assms(4,5) bs(2) len lens in simp_all)
  moreover have "feeds M cs (with_bytes ?m2 ?b2) = Inl OutOfBounds"
    using assms(4-7) bs(2) len lens by (intro feeds_lost) (auto simp: lost_def)
  ultimately show ?thesis by (subst bs(1)) simp
qed

theorem negative_length_overflow_witness:
  "feeds zero_malloc (be_bytes 2 (0xFFFF :: 16 word) # be_bytes 4 (0x80000000 :: 32 word) # replicate 130 [7, 7, 7, 7])
     sample_message = Inl OutOfBounds"
  using negative_length_overflow [of sample_message _ "0x80000000" "replicate 130 [7, 7, 7, 7]" zero_malloc,
      OF sample_message_facts(1,2,4)]
  by (simp add: length_concat sum_list_replicate)

end
