(* ===== verification/SocketLayer.thy ===== *)
theory SocketLayer
  imports NetFrame
begin

text \<open>
  \<open>CSocketCommon\<close> (\<open>src/SocketCommon.h\<close>, \<open>src/SocketCommon.cpp\<close>) in its POSIX configuration, and
  the operating system below it. The system is a parameter: the record \<open>sysif\<close> holds one function
  per call the code makes, over an abstract state \<open>'w\<close> of the outside world that every call may
  change. Constants of the system headers are values of enumeration types.
\<close>

datatype sockopt = IPPROTO_TCP_NODELAY | SOL_SOCKET_KEEPALIVE | TCP_KEEPIDLE | TCP_KEEPALIVE
  | TCP_KEEPINTVL | TCP_KEEPCNT

datatype errno = EINPROGRESS | EAFNOSUPPORT | EPROTONOSUPPORT | EOTHER int

datatype fcntl_cmd = F_GETFL | F_SETFL_NONBLOCK

record sockaddr =
  sin_port :: "16 word"
  sa_data :: "byte list"

record addrinfo =
  ai_family :: int
  ai_socktype :: int
  ai_protocol :: int
  ai_addr :: sockaddr

record select_result =
  sel_ret :: int
  sel_read :: bool
  sel_write :: bool
  sel_error :: bool

record 'w sysif =
  sys_malloc :: malloc
  sys_linux :: bool              \<comment> \<open>\<open>OS_ANDROID\<close> or \<open>OS_LINUX\<close> is defined\<close>
  sys_socket :: "int \<Rightarrow> int \<Rightarrow> int \<Rightarrow> 'w \<Rightarrow> int \<times> 'w"
  sys_close :: "int \<Rightarrow> 'w \<Rightarrow> 'w"
  sys_setsockopt :: "int \<Rightarrow> sockopt \<Rightarrow> int \<Rightarrow> 'w \<Rightarrow> int \<times> 'w"
  sys_bind :: "int \<Rightarrow> sockaddr \<Rightarrow> 'w \<Rightarrow> int \<times> 'w"
  sys_listen :: "int \<Rightarrow> int \<Rightarrow> 'w \<Rightarrow> int \<times> 'w"
  sys_accept :: "int \<Rightarrow> 'w \<Rightarrow> (int \<times> sockaddr) \<times> 'w"
  sys_connect :: "int \<Rightarrow> sockaddr \<Rightarrow> 'w \<Rightarrow> int \<times> 'w"
  sys_send :: "int \<Rightarrow> byte list \<Rightarrow> 'w \<Rightarrow> int \<times> 'w"
  sys_recv :: "int \<Rightarrow> nat \<Rightarrow> 'w \<Rightarrow> (int \<times> byte list) \<times> 'w"
  sys_select :: "int \<Rightarrow> 'w \<Rightarrow> select_result \<times> 'w"
  sys_fcntl :: "int \<Rightarrow> fcntl_cmd \<Rightarrow> 'w \<Rightarrow> int \<times> 'w"
  sys_getaddrinfo :: "string \<Rightarrow> int \<Rightarrow> 'w \<Rightarrow> (int \<times> addrinfo list) \<times> 'w"
  sys_errno :: "'w \<Rightarrow> errno"

section \<open>CSocketCommon\<close>

record CSocketCommon =
  m_readFlag :: bool
  m_writeFlag :: bool
  m_socket :: int

definition CSocketCommon_new :: CSocketCommon where
  "CSocketCommon_new = \<lparr>m_readFlag = False, m_writeFlag = False, m_socket = -1\<rparr>"

definition CSocketCommon_of_fd :: "int \<Rightarrow> CSocketCommon" where
  "CSocketCommon_of_fd fd = \<lparr>m_readFlag = False, m_writeFlag = False, m_socket = fd\<rparr>"

definition CSocketCommon_GetError :: "'w sysif \<Rightarrow> 'w \<Rightarrow> errno" where
  "CSocketCommon_GetError S w = sys_errno S w"

definition CSocketCommon_CreateSocket ::
    "'w sysif \<Rightarrow> int \<Rightarrow> int \<Rightarrow> int \<Rightarrow> CSocketCommon \<Rightarrow> 'w \<Rightarrow> int \<times> CSocketCommon \<times> 'w" where
  "CSocketCommon_CreateSocket S family type protocal sk w =
     (let (fd, w1) = sys_socket S family type protocal w;
          sk1 = sk\<lparr>m_socket := fd\<rparr>;
          w2 = (if fd = -1 then w1 else snd (sys_setsockopt S fd IPPROTO_TCP_NODELAY 1 w1))
      in (fd, sk1, w2))"

definition CSocketCommon_CloseSocket :: "'w sysif \<Rightarrow> CSocketCommon \<Rightarrow> 'w \<Rightarrow> int \<times> CSocketCommon \<times> 'w" where
  "CSocketCommon_CloseSocket S sk w = (1, sk\<lparr>m_socket := -1\<rparr>, sys_close S (m_socket sk) w)"

definition CSocketCommon_Bind :: "'w sysif \<Rightarrow> sockaddr \<Rightarrow> CSocketCommon \<Rightarrow> 'w \<Rightarrow> int \<times> 'w" where
  "CSocketCommon_Bind S addr sk w = sys_bind S (m_socket sk) addr w"

definition CSocketCommon_Listen :: "'w sysif \<Rightarrow> int \<Rightarrow> CSocketCommon \<Rightarrow> 'w \<Rightarrow> int \<times> 'w" where
  "CSocketCommon_Listen S backlog sk w = sys_listen S (m_socket sk) backlog w"

definition CSocketCommon_Accept :: "'w sysif \<Rightarrow> CSocketCommon \<Rightarrow> 'w \<Rightarrow> (int \<times> sockaddr) \<times> 'w" where
  "CSocketCommon_Accept S sk w = sys_accept S (m_socket sk) w"

definition CSocketCommon_ConnectTo :: "'w sysif \<Rightarrow> sockaddr \<Rightarrow> CSocketCommon \<Rightarrow> 'w \<Rightarrow> int \<times> 'w" where
  "CSocketCommon_ConnectTo S addr sk w = sys_connect S (m_socket sk) addr w"

definition CSocketCommon_Send :: "'w sysif \<Rightarrow> byte list \<Rightarrow> CSocketCommon \<Rightarrow> 'w \<Rightarrow> int \<times> 'w" where
  "CSocketCommon_Send S bytes sk w = sys_send S (m_socket sk) bytes w"

definition CSocketCommon_Recv :: "'w sysif \<Rightarrow> int \<Rightarrow> CSocketCommon \<Rightarrow> 'w \<Rightarrow> (int \<times> byte list) \<times> 'w" where
  "CSocketCommon_Recv S sz sk w = sys_recv S (m_socket sk) (c_size_t sz) w"

definition CSocketCommon_KeepAlived ::
    "'w sysif \<Rightarrow> int \<Rightarrow> int \<Rightarrow> int \<Rightarrow> int \<Rightarrow> CSocketCommon \<Rightarrow> 'w \<Rightarrow> int \<times> 'w" where
  "CSocketCommon_KeepAlived S keepalive keepidle keepinterval keepcount sk w =
     (let fd = m_socket sk;
          (rst, w1) = sys_setsockopt S fd SOL_SOCKET_KEEPALIVE keepalive w
      in if keepalive \<noteq> 0 then
           let w2 = snd (sys_setsockopt S fd (if sys_linux S then TCP_KEEPIDLE else TCP_KEEPALIVE) keepidle w1);
               w3 = snd (sys_setsockopt S fd TCP_KEEPINTVL keepinterval w2);
               w4 = snd (sys_setsockopt S fd TCP_KEEPCNT keepcount w3)
           in (rst, w4)
         else (rst, w1))"

end
