(* ===== verification/ConnMgr.thy ===== *)
theory ConnMgr
  imports SocketLayer
begin

text \<open>
  \<open>CConnectionManager\<close> (\<open>src/ConnectionManager.h\<close>, \<open>src/ConnectionManager.cpp\<close>): the connection
  state machine, its queues of messages to send and received, and the polling step \<open>Update\<close>.
  Messages are heap objects, named by addresses in \<open>st_msgs\<close>, because the queues, the Lua message
  objects and the manager pass pointers to them around; deleting one twice or using a deleted one
  is \<open>UseAfterFree\<close>. Output by \<open>printf\<close> is left out.
\<close>

section \<open>Memory and world\<close>

record 'w st =
  st_pool :: bufpool
  st_msgs :: "nat \<Rightarrow> NetMessage option"
  st_next :: nat
  st_os :: 'w

definition new_msg :: "'w sysif \<Rightarrow> int \<Rightarrow> 'w st \<Rightarrow> nat \<times> 'w st" where
  "new_msg S n s =
     (let (m, p) = NetMessage_new (sys_malloc S) n (st_pool s)
      in (st_next s, s\<lparr>st_pool := p, st_msgs := (st_msgs s)(st_next s \<mapsto> m), st_next := Suc (st_next s)\<rparr>))"

definition get_msg :: "nat \<Rightarrow> 'w st \<Rightarrow> NetMessage res" where
  "get_msg a s = (case st_msgs s a of None \<Rightarrow> Inl UseAfterFree | Some m \<Rightarrow> Inr m)"

definition put_msg :: "nat \<Rightarrow> NetMessage \<Rightarrow> 'w st \<Rightarrow> 'w st" where
  "put_msg a m s = s\<lparr>st_msgs := (st_msgs s)(a \<mapsto> m)\<rparr>"

definition delete_msg :: "nat \<Rightarrow> 'w st \<Rightarrow> 'w st res" where
  "delete_msg a s =
     bindE (get_msg a s) (\<lambda>m.
       Inr (s\<lparr>st_pool := NetMessage_delete m (st_pool s), st_msgs := (st_msgs s)(a := None)\<rparr>))"

fun delete_msgs :: "nat list \<Rightarrow> 'w st \<Rightarrow> 'w st res" where
  "delete_msgs [] s = Inr s"
| "delete_msgs (a # as) s = bindE (delete_msg a s) (delete_msgs as)"

section \<open>State\<close>

datatype net_state = NetConState_Connecting | NetConState_ConnectTimeOut | NetConState_ConnectError
  | NetConState_Connected | NetConState_Disconnected

datatype net_error = NetErrorCode_CreateSocket | NetErrorCode_ConnectToServer | NetErrorCode_Select
  | NetErrorCode_RecvZeroByte | NetErrorCode_SendZeroByte | NetErrorCode_DNSError
  | NetErrorCode_ConnectTimeOut

record CConnectionManager =
  m_server :: string
  m_port :: int
  m_sendList :: "nat list"
  m_recvList :: "nat list"
  m_pSocket :: "CSocketCommon option"
  m_netState :: net_state
  m_encryptInited :: bool
  m_name :: string
  m_tOutTimer :: int

definition CONNECT_TIMEOUT :: int where "CONNECT_TIMEOUT = 5000"
definition FD_SETSIZE :: int where "FD_SETSIZE = 1024"

definition CConnectionManager_new :: CConnectionManager where
  "CConnectionManager_new = \<lparr>m_server = [], m_port = -1, m_sendList = [], m_recvList = [],
     m_pSocket = None, m_netState = NetConState_Disconnected, m_encryptInited = False, m_name = [],
     m_tOutTimer = -1\<rparr>"

definition CM_Close :: "'w sysif \<Rightarrow> CConnectionManager \<Rightarrow> 'w st \<Rightarrow> CConnectionManager \<times> 'w st" where
  "CM_Close S cm s =
     (let cm = cm\<lparr>m_encryptInited := False\<rparr> in
      case m_pSocket cm of
        None \<Rightarrow> (cm, s)
      | Some sk \<Rightarrow>
          (let (_, _, w) = CSocketCommon_CloseSocket S sk (st_os s)
           in (cm\<lparr>m_pSocket := None, m_netState := NetConState_Disconnected\<rparr>, s\<lparr>st_os := w\<rparr>)))"

definition CM_OnError :: "'w sysif \<Rightarrow> net_error \<Rightarrow> CConnectionManager \<Rightarrow> 'w st \<Rightarrow> CConnectionManager \<times> 'w st" where
  "CM_OnError S errorCode cm s =
     (let (cm, s) = CM_Close S cm s in (cm\<lparr>m_netState := NetConState_ConnectError\<rparr>, s))"

definition CM_OnTimeOut :: "'w sysif \<Rightarrow> CConnectionManager \<Rightarrow> 'w st \<Rightarrow> CConnectionManager \<times> 'w st" where
  "CM_OnTimeOut S cm s =
     (let (cm, s) = CM_Close S cm s
      in (cm\<lparr>m_tOutTimer := -1, m_netState := NetConState_ConnectTimeOut\<rparr>, s))"

definition CM_OnSuccess :: "CConnectionManager \<Rightarrow> CConnectionManager" where
  "CM_OnSuccess cm = cm\<lparr>m_netState := NetConState_Connected, m_tOutTimer := -1\<rparr>"

definition CM_ClearCached :: "CConnectionManager \<Rightarrow> 'w st \<Rightarrow> (CConnectionManager \<times> 'w st) res" where
  "CM_ClearCached cm s =
     bindE (delete_msgs (m_sendList cm) s) (\<lambda>s.
     bindE (delete_msgs (m_recvList cm) s) (\<lambda>s.
       Inr (cm\<lparr>m_sendList := [], m_recvList := []\<rparr>, s)))"

definition CM_delete :: "'w sysif \<Rightarrow> CConnectionManager \<Rightarrow> 'w st \<Rightarrow> 'w st res" where
  "CM_delete S cm s =
     (let (cm, s) = CM_Close S cm s in bindE (CM_ClearCached cm s) (\<lambda>(_, s). Inr s))"

text \<open>
  \<open>CheckState\<close> polls the socket with \<open>select\<close>. \<open>FD_SET\<close> writes outside the set for a descriptor
  that is negative or not below \<open>FD_SETSIZE\<close>.
\<close>

definition CM_CheckState ::
    "'w sysif \<Rightarrow> CConnectionManager \<Rightarrow> 'w st \<Rightarrow> (bool \<times> CConnectionManager \<times> 'w st) res" where
  "CM_CheckState S cm s =
     (case m_pSocket cm of
        None \<Rightarrow> Inl NullDeref
      | Some sk \<Rightarrow>
          let fd = m_socket sk in
          if fd < 0 \<or> fd \<ge> FD_SETSIZE then Inl OutOfBounds
          else
            let (r, w) = sys_select S fd (st_os s); s = s\<lparr>st_os := w\<rparr> in
            if sel_ret r < 0 \<or> sel_error r then
              let cm = cm\<lparr>m_pSocket := Some (sk\<lparr>m_writeFlag := False, m_readFlag := False\<rparr>)\<rparr>;
                  (cm, s) = (if m_netState cm = NetConState_Connecting
                             then CM_OnError S NetErrorCode_ConnectToServer cm s
                             else CM_OnError S NetErrorCode_Select cm s)
              in Inr (False, cm, s)
            else
              Inr (True, cm\<lparr>m_pSocket := Some (sk\<lparr>m_writeFlag := sel_write r, m_readFlag := sel_read r\<rparr>)\<rparr>, s))"

section \<open>Messages\<close>

definition CM_EncodeMsg :: "CConnectionManager \<Rightarrow> NetMessage \<Rightarrow> NetMessage" where
  "CM_EncodeMsg cm m = (if m_encryptInited cm then m else m)"

definition CM_DecodeBuf :: "CConnectionManager \<Rightarrow> byte list \<Rightarrow> byte list" where
  "CM_DecodeBuf cm bs = (if m_encryptInited cm then bs else bs)"

definition CM_getMsg :: "CConnectionManager \<Rightarrow> nat option" where
  "CM_getMsg cm = (case m_recvList cm of [] \<Rightarrow> None | a # _ \<Rightarrow> Some a)"

definition CM_RemoveMsg :: "nat option \<Rightarrow> CConnectionManager \<Rightarrow> CConnectionManager" where
  "CM_RemoveMsg p cm = (case p of None \<Rightarrow> cm | Some a \<Rightarrow> cm\<lparr>m_recvList := remove1 a (m_recvList cm)\<rparr>)"

definition CM_SendMsg ::
    "nat option \<Rightarrow> CConnectionManager \<Rightarrow> 'w st \<Rightarrow> (CConnectionManager \<times> 'w st) res" where
  "CM_SendMsg p cm s =
     (case p of
        None \<Rightarrow> Inl NullDeref
      | Some a \<Rightarrow>
          bindE (get_msg a s) (\<lambda>m.
            Inr (cm\<lparr>m_sendList := m_sendList cm @ [a]\<rparr>,
                 put_msg a (CM_EncodeMsg cm (NetMessage_ResetForSend m)) s)))"

fun encode_msgs :: "CConnectionManager \<Rightarrow> nat list \<Rightarrow> 'w st \<Rightarrow> 'w st res" where
  "encode_msgs cm [] s = Inr s"
| "encode_msgs cm (a # as) s =
     bindE (get_msg a s) (\<lambda>m. encode_msgs cm as (put_msg a (CM_EncodeMsg cm m) s))"

definition CM_InitEncrypt ::
    "int \<Rightarrow> int \<Rightarrow> CConnectionManager \<Rightarrow> 'w st \<Rightarrow> (CConnectionManager \<times> 'w st) res" where
  "CM_InitEncrypt sendSeed recvSeed cm s =
     (let cm = cm\<lparr>m_encryptInited := True\<rparr>
      in bindE (encode_msgs cm (m_sendList cm) s) (\<lambda>s. Inr (cm, s)))"

definition CM_KeepAlived ::
    "'w sysif \<Rightarrow> int \<Rightarrow> int \<Rightarrow> int \<Rightarrow> int \<Rightarrow> CConnectionManager \<Rightarrow> 'w st \<Rightarrow> int \<times> 'w st" where
  "CM_KeepAlived S keepalive keepidle keepinterval keepcount cm s =
     (case m_pSocket cm of
        None \<Rightarrow> (-1, s)
      | Some sk \<Rightarrow>
          (let (r, w) = CSocketCommon_KeepAlived S keepalive keepidle keepinterval keepcount sk (st_os s)
           in (r, s\<lparr>st_os := w\<rparr>)))"

definition CM_SetName :: "string \<Rightarrow> CConnectionManager \<Rightarrow> CConnectionManager" where
  "CM_SetName name cm = cm\<lparr>m_name := name\<rparr>"

section \<open>Connecting\<close>

definition CM_GetUrlAddrinfo ::
    "'w sysif \<Rightarrow> string \<Rightarrow> int \<Rightarrow> 'w st \<Rightarrow> (int \<times> addrinfo list) \<times> 'w st" where
  "CM_GetUrlAddrinfo S url port s =
     (let ((errorCode, res), w) = sys_getaddrinfo S url port (st_os s); s = s\<lparr>st_os := w\<rparr>
      in if errorCode \<noteq> 0 then ((-1, []), s) else ((0, res), s))"

text \<open>
  The loop over the resolved addresses. Its value says whether \<open>DoConnect\<close> goes on after the loop
  (\<open>True\<close>, by \<open>break\<close> or at the end of the list) or has returned \<open>false\<close> from inside it.
\<close>

fun connect_loop ::
    "'w sysif \<Rightarrow> int \<Rightarrow> addrinfo list \<Rightarrow> CConnectionManager \<Rightarrow> 'w st \<Rightarrow>
     (bool \<times> CConnectionManager \<times> 'w st) res" where
  "connect_loop S port [] cm s = Inr (True, cm, s)"
| "connect_loop S port (aip # rest) cm s =
     (case m_pSocket cm of
        None \<Rightarrow> Inl NullDeref
      | Some sk \<Rightarrow>
          let addr = (ai_addr aip)\<lparr>sin_port := word_of_int port\<rparr>;
              (ret, sk, w) = CSocketCommon_CreateSocket S (ai_family aip) (ai_socktype aip) (ai_protocol aip) sk (st_os s);
              cm = cm\<lparr>m_pSocket := Some sk\<rparr>; s = s\<lparr>st_os := w\<rparr>
          in if ret = -1 then
               (if rest \<noteq> [] then connect_loop S port rest cm s
                else let (cm, s) = CM_OnError S NetErrorCode_CreateSocket cm s in Inr (False, cm, s))
             else
               let (flag, w) = sys_fcntl S (m_socket sk) F_GETFL (st_os s);
                   (_, w) = sys_fcntl S (m_socket sk) F_SETFL_NONBLOCK w;
                   s = s\<lparr>st_os := w\<rparr>
               in if ret < 0 then
                    (if sys_errno S (st_os s) = EAFNOSUPPORT \<or> sys_errno S (st_os s) = EPROTONOSUPPORT then
                       (if rest \<noteq> [] then connect_loop S port rest cm s else Inr (True, cm, s))
                     else connect_loop S port rest cm s)
                  else
                    let (ret, w) = CSocketCommon_ConnectTo S addr sk (st_os s); s = s\<lparr>st_os := w\<rparr> in
                    if ret = -1 \<and> CSocketCommon_GetError S (st_os s) \<noteq> EINPROGRESS then
                      (if rest \<noteq> [] then connect_loop S port rest cm s
                       else let (cm, s) = CM_OnError S NetErrorCode_ConnectToServer cm s in Inr (False, cm, s))
                    else Inr (True, cm, s))"

definition CM_DoConnect ::
    "'w sysif \<Rightarrow> string \<Rightarrow> int \<Rightarrow> CConnectionManager \<Rightarrow> 'w st \<Rightarrow>
     (bool \<times> CConnectionManager \<times> 'w st) res" where
  "CM_DoConnect S oldpAddr port cm s =
     (if length oldpAddr + 1 > 129 then Inl OutOfBounds        \<comment> \<open>the local \<open>pAddr[129]\<close>\<close>
      else if length oldpAddr + 1 > 128 then Inl OutOfBounds   \<comment> \<open>\<open>m_server[128]\<close>\<close>
      else
        let cm = cm\<lparr>m_server := oldpAddr, m_port := port\<rparr>;
            ((r, res), s) = CM_GetUrlAddrinfo S oldpAddr port s
        in if r \<noteq> 0 then
             let (cm, s) = CM_OnError S NetErrorCode_DNSError cm s in Inr (False, cm, s)
           else
             bindE (connect_loop S port res (cm\<lparr>m_pSocket := Some CSocketCommon_new\<rparr>) s) (\<lambda>(go, cm, s).
               if \<not> go then Inr (False, cm, s)
               else CM_CheckState S (cm\<lparr>m_netState := NetConState_Connecting, m_tOutTimer := CONNECT_TIMEOUT\<rparr>) s))"

definition CM_Connect ::
    "'w sysif \<Rightarrow> string \<Rightarrow> int \<Rightarrow> CConnectionManager \<Rightarrow> 'w st \<Rightarrow>
     (bool \<times> CConnectionManager \<times> 'w st) res" where
  "CM_Connect S oldpAddr port cm s =
     (if m_port cm = -1 then CM_DoConnect S oldpAddr port cm s
      else
        let (cm, s) = CM_Close S cm s in
        bindE (CM_ClearCached cm s) (\<lambda>(cm, s). CM_DoConnect S oldpAddr port cm s))"

text \<open>
  \<open>ReConnect\<close> hands its own \<open>m_server\<close> to \<open>DoConnect\<close>, whose \<open>memcpy\<close> then copies the array onto itself:
  formally an overlapping copy, modelled as what it does in practice, nothing.
\<close>

definition CM_ReConnect ::
    "'w sysif \<Rightarrow> CConnectionManager \<Rightarrow> 'w st \<Rightarrow> (CConnectionManager \<times> 'w st) res" where
  "CM_ReConnect S cm s =
     (if m_port cm = -1 then Inr (cm, s)
      else
        let (cm, s) = CM_Close S cm s in
        bindE (CM_ClearCached cm s) (\<lambda>(cm, s).
        bindE (CM_Connect S (m_server cm) (m_port cm) cm s) (\<lambda>(_, cm, s). Inr (cm, s))))"

section \<open>Polling\<close>

text \<open>
  The loops of \<open>Update\<close> run as long as the outside world keeps them busy, so they take a bound on
  their iterations. The Boolean in their values is \<open>False\<close> when \<open>Update\<close> has returned from inside
  the loop.
\<close>

fun send_bytes ::
    "'w sysif \<Rightarrow> nat \<Rightarrow> nat \<Rightarrow> CConnectionManager \<Rightarrow> 'w st \<Rightarrow> (bool \<times> CConnectionManager \<times> 'w st) res" where
  "send_bytes S 0 a cm s = Inl Diverges"
| "send_bytes S (Suc fuel) a cm s =
     bindE (get_msg a s) (\<lambda>m.
       if NetMessage_isEnd m then Inr (True, cm, s)
       else
         case m_pSocket cm of
           None \<Rightarrow> Inl NullDeref
         | Some sk \<Rightarrow>
             bindE (NetMessage_read m (m_curPos m) (int (c_size_t (NetMessage_getSendCap m)))) (\<lambda>bytes.
               let (sizeSended, w) = CSocketCommon_Send S bytes sk (st_os s); s = s\<lparr>st_os := w\<rparr> in
               if sizeSended < 0 then
                 let (cm, s) = CM_OnError S NetErrorCode_SendZeroByte cm s in Inr (False, cm, s)
               else
                 bindE (NetMessage_onSend sizeSended m) (\<lambda>m. send_bytes S fuel a cm (put_msg a m s))))"

fun send_loop ::
    "'w sysif \<Rightarrow> nat \<Rightarrow> CConnectionManager \<Rightarrow> 'w st \<Rightarrow> (bool \<times> CConnectionManager \<times> 'w st) res" where
  "send_loop S 0 cm s = Inl Diverges"
| "send_loop S (Suc fuel) cm s =
     (case m_pSocket cm of
        None \<Rightarrow> Inl NullDeref
      | Some sk \<Rightarrow>
          if \<not> m_writeFlag sk then Inr (True, cm, s)
          else
            case m_sendList cm of
              [] \<Rightarrow> Inr (True, cm, s)
            | a # rest \<Rightarrow>
                bindE (send_bytes S fuel a cm s) (\<lambda>(go, cm, s).
                  if \<not> go then Inr (False, cm, s)
                  else
                    bindE (get_msg a s) (\<lambda>m.
                    bindE (if NetMessage_isEnd m then delete_msg a s else Inr s) (\<lambda>s.
                    bindE (CM_CheckState S (cm\<lparr>m_sendList := rest\<rparr>) s) (\<lambda>(_, cm, s).
                      send_loop S fuel cm s)))))"

definition recv_target :: "'w sysif \<Rightarrow> CConnectionManager \<Rightarrow> 'w st \<Rightarrow> (nat \<times> CConnectionManager \<times> 'w st) res" where
  "recv_target S cm s =
     bindE (if m_recvList cm = [] then Inr None
            else bindE (get_msg (last (m_recvList cm)) s) (\<lambda>m.
                   Inr (if NetMessage_isEnd m then None else Some (last (m_recvList cm))))) (\<lambda>p.
       case p of
         Some a \<Rightarrow> Inr (a, cm, s)
       | None \<Rightarrow>
           let (a, s) = new_msg S 512 s in Inr (a, cm\<lparr>m_recvList := m_recvList cm @ [a]\<rparr>, s))"

fun recv_loop ::
    "'w sysif \<Rightarrow> nat \<Rightarrow> CConnectionManager \<Rightarrow> 'w st \<Rightarrow> (bool \<times> CConnectionManager \<times> 'w st) res" where
  "recv_loop S 0 cm s = Inl Diverges"
| "recv_loop S (Suc fuel) cm s =
     (case m_pSocket cm of
        None \<Rightarrow> Inl NullDeref
      | Some sk \<Rightarrow>
          if \<not> m_readFlag sk then Inr (True, cm, s)
          else
            bindE (recv_target S cm s) (\<lambda>(a, cm, s).
            bindE (get_msg a s) (\<lambda>m.
              let ((sizeReceived, bytes), w) = CSocketCommon_Recv S (NetMessage_getReadCap m) sk (st_os s);
                  s = s\<lparr>st_os := w\<rparr>
              in bindE (NetMessage_store m (m_curPos m) bytes) (\<lambda>m.
                   let s = put_msg a m s in
                   if sizeReceived \<le> 0 then
                     let (cm, s) = CM_OnError S NetErrorCode_RecvZeroByte cm s in Inr (False, cm, s)
                   else
                     bindE (if m_size m \<ge> 0
                            then NetMessage_store m (m_curPos m) (CM_DecodeBuf cm bytes) else Inr m) (\<lambda>m.
                     bindE (NetMessage_onReceive (sys_malloc S) sizeReceived m) (\<lambda>m.
                     bindE (CM_CheckState S cm (put_msg a m s)) (\<lambda>(_, cm, s).
                       recv_loop S fuel cm s)))))))"

definition CM_Update ::
    "'w sysif \<Rightarrow> nat \<Rightarrow> int \<Rightarrow> CConnectionManager \<Rightarrow> 'w st \<Rightarrow> (CConnectionManager \<times> 'w st) res" where
  "CM_Update S fuel dt cm s =
     (if m_pSocket cm = None \<or> m_netState cm = NetConState_ConnectTimeOut
         \<or> m_netState cm = NetConState_ConnectError \<or> m_netState cm = NetConState_Disconnected
      then Inr (cm, s)
      else
        bindE (CM_CheckState S cm s) (\<lambda>(_, cm, s).
          if m_netState cm = NetConState_ConnectError then Inr (cm, s)
          else if m_netState cm = NetConState_Connecting then
            case m_pSocket cm of
              None \<Rightarrow> Inl NullDeref
            | Some sk \<Rightarrow>
                if m_writeFlag sk then
                  (if CONNECT_TIMEOUT \<noteq> m_tOutTimer cm then Inr (CM_OnSuccess cm, s)
                   else bindE (c_int (m_tOutTimer cm - dt)) (\<lambda>t. Inr (cm\<lparr>m_tOutTimer := t\<rparr>, s)))
                else
                  bindE (c_int (m_tOutTimer cm - dt)) (\<lambda>t.
                    let cm = cm\<lparr>m_tOutTimer := t\<rparr> in
                    if t \<le> 0 then Inr (CM_OnTimeOut S (cm\<lparr>m_tOutTimer := -1\<rparr>) s) else Inr (cm, s))
          else
            bindE (send_loop S fuel cm s) (\<lambda>(go, cm, s).
              if \<not> go then Inr (cm, s)
              else bindE (recv_loop S fuel cm s) (\<lambda>(_, cm, s). Inr (cm, s)))))"

section \<open>The default instance\<close>

definition CM_GetInstance :: "CConnectionManager option \<Rightarrow> CConnectionManager" where
  "CM_GetInstance inst = (case inst of None \<Rightarrow> CConnectionManager_new | Some cm \<Rightarrow> cm)"

definition CM_Restart ::
    "'w sysif \<Rightarrow> CConnectionManager option \<Rightarrow> 'w st \<Rightarrow> (CConnectionManager \<times> 'w st) res" where
  "CM_Restart S inst s =
     bindE (case inst of None \<Rightarrow> Inr s | Some cm \<Rightarrow> CM_delete S cm s) (\<lambda>s.
       Inr (CConnectionManager_new, s))"

section \<open>Invariants\<close>

text \<open>Between two operations, a socket exists exactly while connecting or connected.\<close>

definition cm_inv :: "CConnectionManager \<Rightarrow> bool" where
  "cm_inv cm \<longleftrightarrow> (m_pSocket cm \<noteq> None \<longleftrightarrow>
     m_netState cm = NetConState_Connecting \<or> m_netState cm = NetConState_Connected)"

text \<open>
  Ownership: the queues name live messages, each once, and none of the messages \<open>X\<close> that belong to
  somebody else; addresses from \<open>st_next\<close> on are not in use.
\<close>

definition owned :: "CConnectionManager \<Rightarrow> nat set" where
  "owned cm = set (m_sendList cm) \<union> set (m_recvList cm)"

definition mem_ok :: "nat set \<Rightarrow> CConnectionManager \<Rightarrow> 'w st \<Rightarrow> bool" where
  "mem_ok X cm s \<longleftrightarrow> distinct (m_sendList cm @ m_recvList cm) \<and> X \<inter> owned cm = {}
     \<and> (\<forall>a \<in> X \<union> owned cm. st_msgs s a \<noteq> None) \<and> (\<forall>a \<ge> st_next s. st_msgs s a = None)"

text \<open>The messages of \<open>X\<close> are the same objects with the same contents in both states.\<close>

definition same_on :: "nat set \<Rightarrow> 'w st \<Rightarrow> 'w st \<Rightarrow> bool" where
  "same_on X s s' \<longleftrightarrow> (\<forall>a \<in> X. st_msgs s' a = st_msgs s a)"

definition not_uaf :: "ub \<Rightarrow> bool" where
  "not_uaf e \<longleftrightarrow> e \<noteq> UseAfterFree"

definition cm_post :: "nat set \<Rightarrow> 'w st \<Rightarrow> CConnectionManager \<Rightarrow> 'w st \<Rightarrow> bool" where
  "cm_post X s0 cm s \<longleftrightarrow> cm_inv cm \<and> mem_ok X cm s \<and> same_on X s0 s"

lemma not_uaf_simps [simp]:
  "not_uaf NullDeref" "not_uaf OutOfBounds" "not_uaf IntOverflow" "not_uaf Diverges"
  "\<not> not_uaf UseAfterFree"
  by (simp_all add: not_uaf_def)

lemma same_on_refl [simp]: "same_on X s s"
  by (simp add: same_on_def)

lemma same_on_trans: "same_on X s t \<Longrightarrow> same_on X t u \<Longrightarrow> same_on X s u"
  by (simp add: same_on_def)

lemma same_on_os [simp]: "same_on X s (t\<lparr>st_os := w\<rparr>) = same_on X s t"
  by (simp add: same_on_def)

lemma mem_ok_os [simp]: "mem_ok X cm (s\<lparr>st_os := w\<rparr>) = mem_ok X cm s"
  by (simp add: mem_ok_def)

lemma mem_ok_lists:
  "m_sendList cm' = m_sendList cm \<Longrightarrow> m_recvList cm' = m_recvList cm \<Longrightarrow> mem_ok X cm' s = mem_ok X cm s"
  by (simp add: mem_ok_def owned_def)

lemma CM_Close_props:
  assumes "CM_Close S cm s = (cm', s')"
  shows "m_pSocket cm' = None" and "m_sendList cm' = m_sendList cm" and "m_recvList cm' = m_recvList cm"
    and "m_netState cm' = (if m_pSocket cm = None then m_netState cm else NetConState_Disconnected)"
    and "m_server cm' = m_server cm" and "m_port cm' = m_port cm"
    and "st_msgs s' = st_msgs s" and "st_next s' = st_next s" and "st_pool s' = st_pool s"
  using assms by (auto simp: CM_Close_def Let_def CSocketCommon_CloseSocket_def split: option.splits)

lemma CM_Close_inv: "cm_inv cm \<Longrightarrow> CM_Close S cm s = (cm', s') \<Longrightarrow> cm_inv cm'"
  by (auto dest: CM_Close_props simp: cm_inv_def)

lemma CM_OnError_props:
  assumes "CM_OnError S e cm s = (cm', s')"
  shows "m_pSocket cm' = None" and "m_netState cm' = NetConState_ConnectError"
    and "m_sendList cm' = m_sendList cm" and "m_recvList cm' = m_recvList cm"
    and "st_msgs s' = st_msgs s" and "st_next s' = st_next s" and "st_pool s' = st_pool s"
  using assms by (auto simp: CM_OnError_def Let_def split: prod.splits dest: CM_Close_props)

lemma CM_OnTimeOut_props:
  assumes "CM_OnTimeOut S cm s = (cm', s')"
  shows "m_pSocket cm' = None" and "m_netState cm' = NetConState_ConnectTimeOut"
    and "m_sendList cm' = m_sendList cm" and "m_recvList cm' = m_recvList cm"
    and "m_tOutTimer cm' = -1"
    and "st_msgs s' = st_msgs s" and "st_next s' = st_next s" and "st_pool s' = st_pool s"
  using assms by (auto simp: CM_OnTimeOut_def Let_def split: prod.splits dest: CM_Close_props)

lemma mem_ok_frame:
  "mem_ok X cm s \<Longrightarrow> m_sendList cm' = m_sendList cm \<Longrightarrow> m_recvList cm' = m_recvList cm \<Longrightarrow>
   st_msgs s' = st_msgs s \<Longrightarrow> st_next s' = st_next s \<Longrightarrow> mem_ok X cm' s' \<and> same_on X s s'"
  by (simp add: mem_ok_def owned_def same_on_def)

lemma CM_OnError_post:
  assumes "mem_ok X cm s" and "same_on X s0 s" and "CM_OnError S e cm s = (cm', s')"
  shows "cm_post X s0 cm' s'"
  using mem_ok_frame [OF assms(1), of cm' s'] CM_OnError_props [OF assms(3)] assms(2)
  by (auto simp: cm_post_def cm_inv_def intro: same_on_trans)

text \<open>What \<open>CheckState\<close> leaves behind: the socket and state as before, or an error state.\<close>

lemma CM_CheckState_wp:
  assumes "cm_inv cm" and "mem_ok X cm s" and "same_on X s0 s"
  shows "wpE not_uaf (\<lambda>(ok, cm', s'). cm_post X s0 cm' s'
           \<and> m_sendList cm' = m_sendList cm \<and> m_recvList cm' = m_recvList cm
           \<and> st_msgs s' = st_msgs s \<and> st_next s' = st_next s \<and> st_pool s' = st_pool s
           \<and> (if ok then m_netState cm' = m_netState cm \<and> m_pSocket cm' \<noteq> None
              else m_netState cm' = NetConState_ConnectError \<and> m_pSocket cm' = None))
         (CM_CheckState S cm s)"
proof (cases "m_pSocket cm")
  case None
  then show ?thesis by (simp add: CM_CheckState_def)
next
  case (Some sk)
  show ?thesis
  proof (cases "m_socket sk < 0 \<or> FD_SETSIZE \<le> m_socket sk")
    case True
    with Some show ?thesis by (simp add: CM_CheckState_def Let_def)
  next
    case False
    obtain r w where r: "sys_select S (m_socket sk) (st_os s) = (r, w)" by fastforce
    show ?thesis
    proof (cases "sel_ret r < 0 \<or> sel_error r")
      case True
      let ?cm = "cm\<lparr>m_pSocket := Some (sk\<lparr>m_writeFlag := False, m_readFlag := False\<rparr>)\<rparr>"
      let ?e = "if m_netState cm = NetConState_Connecting then NetErrorCode_ConnectToServer else NetErrorCode_Select"
      obtain cm' s' where o: "CM_OnError S ?e ?cm (s\<lparr>st_os := w\<rparr>) = (cm', s')" by fastforce
      have eq: "CM_CheckState S cm s = Inr (False, cm', s')"
        using Some False r True o by (simp add: CM_CheckState_def Let_def split: if_splits)
      have "mem_ok X ?cm (s\<lparr>st_os := w\<rparr>)" "same_on X s0 (s\<lparr>st_os := w\<rparr>)"
        using assms(2,3) by (simp_all add: mem_ok_lists [of ?cm cm])
      from CM_OnError_post [OF this o] CM_OnError_props [OF o] eq show ?thesis by simp
    next
      case ok: False
      let ?cm = "cm\<lparr>m_pSocket := Some (sk\<lparr>m_writeFlag := sel_write r, m_readFlag := sel_read r\<rparr>)\<rparr>"
      have "CM_CheckState S cm s = Inr (True, ?cm, s\<lparr>st_os := w\<rparr>)"
        using Some False r ok by (simp add: CM_CheckState_def Let_def)
      moreover have "mem_ok X ?cm s" using assms(2) by (simp add: mem_ok_lists [of ?cm cm])
      moreover have "cm_inv ?cm" using assms(1) Some by (simp add: cm_inv_def)
      ultimately show ?thesis using assms(3) by (simp add: cm_post_def)
    qed
  qed
qed

section \<open>No operation uses a deleted message\<close>

lemma no_uaf_c_int: "wpE not_uaf (\<lambda>_. True) (c_int i)"
  by (simp add: c_int_def)

lemma no_uaf_buffer:
  "wpE not_uaf (\<lambda>_. True) (NetMessage_store m p xs)"
  "wpE not_uaf (\<lambda>_. True) (NetMessage_load m p)"
  "wpE not_uaf (\<lambda>_. True) (NetMessage_read m p n)"
  "wpE not_uaf (\<lambda>_. True) (NetMessage_advance i m)"
  "wpE not_uaf (\<lambda>_. True) (NetMessage_onSend i m)"
  by (auto simp: NetMessage_store_def NetMessage_load_def NetMessage_read_def NetMessage_advance_def
      NetMessage_onSend_def model_defs buf_write_def buf_get_def buf_slice_def c_int_def split: option.splits)

lemma no_uaf_enlarge: "wpE not_uaf (\<lambda>_. True) (MemBuffer_enlarge M n b)"
  by (simp add: MemBuffer_enlarge_def c_int_def)

lemma no_uaf_grow: "wpE not_uaf (\<lambda>_. True) (grow_loop fuel M need b)"
  by (induction fuel arbitrary: b) (auto intro!: wpE_bind [OF no_uaf_enlarge])

lemma no_uaf_checkBufSize: "wpE not_uaf (\<lambda>_. True) (NetMessage_checkBufSize M n m)"
  by (auto simp: NetMessage_checkBufSize_def split: option.splits
      intro!: wpE_bind [OF no_uaf_c_int] wpE_bind [OF no_uaf_grow])

lemma no_uaf_onReceive: "wpE not_uaf (\<lambda>_. True) (NetMessage_onReceive M n m)"
  unfolding NetMessage_onReceive_def Let_def
  by (auto intro!: wpE_bind [OF no_uaf_buffer(4)] wpE_bind [OF no_uaf_buffer(2)] no_uaf_checkBufSize)

lemmas no_uaf = no_uaf_buffer no_uaf_onReceive

lemma get_msg_owned:
  assumes "mem_ok X cm s" and "a \<in> X \<union> owned cm"
  obtains m where "get_msg a s = Inr m" and "st_msgs s a = Some m"
  using assms that by (force simp: mem_ok_def get_msg_def)

lemma put_msg_ok:
  assumes "mem_ok X cm s" and "a \<in> owned cm"
  shows "mem_ok X cm (put_msg a m s)" and "same_on X s0 s \<Longrightarrow> same_on X s0 (put_msg a m s)"
proof -
  have "st_msgs s a \<noteq> None" using assms by (auto simp: mem_ok_def)
  then have "a < st_next s" using assms unfolding mem_ok_def by (meson not_le)
  then show "mem_ok X cm (put_msg a m s)" using assms by (auto simp: mem_ok_def put_msg_def)
  show "same_on X s0 (put_msg a m s)" if "same_on X s0 s"
    using assms that by (auto simp: mem_ok_def same_on_def put_msg_def)
qed

lemma delete_msg_ok:
  assumes "st_msgs s a \<noteq> None"
  shows "\<exists>s'. delete_msg a s = Inr s' \<and> st_msgs s' = (st_msgs s)(a := None) \<and> st_next s' = st_next s
           \<and> st_os s' = st_os s"
  using assms by (auto simp: delete_msg_def get_msg_def)

lemma delete_msgs_ok:
  "distinct as \<Longrightarrow> \<forall>a \<in> set as. st_msgs s a \<noteq> None \<Longrightarrow>
   \<exists>s'. delete_msgs as s = Inr s' \<and> st_msgs s' = (\<lambda>a. if a \<in> set as then None else st_msgs s a)
        \<and> st_next s' = st_next s \<and> st_os s' = st_os s"
proof (induction as arbitrary: s)
  case Nil
  then show ?case by simp
next
  case (Cons a as)
  from delete_msg_ok [of s a] Cons.prems obtain s1 where
    s1: "delete_msg a s = Inr s1" "st_msgs s1 = (st_msgs s)(a := None)" "st_next s1 = st_next s"
      "st_os s1 = st_os s" by auto
  have "\<forall>x \<in> set as. st_msgs s1 x \<noteq> None" using Cons.prems s1(2) by auto
  with Cons.IH [of s1] Cons.prems s1 show ?case by (fastforce simp: fun_eq_iff)
qed

lemma ClearCached_ok:
  assumes "mem_ok X cm s"
  shows "\<exists>s'. CM_ClearCached cm s = Inr (cm\<lparr>m_sendList := [], m_recvList := []\<rparr>, s')
           \<and> mem_ok X (cm\<lparr>m_sendList := [], m_recvList := []\<rparr>) s' \<and> same_on X s s'
           \<and> st_msgs s' = (\<lambda>a. if a \<in> owned cm then None else st_msgs s a) \<and> st_next s' = st_next s"
proof -
  have d: "distinct (m_sendList cm)" "distinct (m_recvList cm)" "set (m_sendList cm) \<inter> set (m_recvList cm) = {}"
    "\<forall>a \<in> owned cm. st_msgs s a \<noteq> None" using assms by (auto simp: mem_ok_def)
  from delete_msgs_ok [of "m_sendList cm" s] d obtain s1 where
    s1: "delete_msgs (m_sendList cm) s = Inr s1" "st_next s1 = st_next s"
      "st_msgs s1 = (\<lambda>a. if a \<in> set (m_sendList cm) then None else st_msgs s a)" by (auto simp: owned_def)
  have "\<forall>a \<in> set (m_recvList cm). st_msgs s1 a \<noteq> None" using d s1(3) by (auto simp: owned_def)
  from delete_msgs_ok [OF d(2) this] obtain s2 where
    s2: "delete_msgs (m_recvList cm) s1 = Inr s2" "st_next s2 = st_next s1"
      "st_msgs s2 = (\<lambda>a. if a \<in> set (m_recvList cm) then None else st_msgs s1 a)" by auto
  have m: "st_msgs s2 = (\<lambda>a. if a \<in> owned cm then None else st_msgs s a)"
    using s1(3) s2(3) by (auto simp: owned_def fun_eq_iff)
  have "mem_ok X (cm\<lparr>m_sendList := [], m_recvList := []\<rparr>) s2 \<and> same_on X s s2"
    using assms m s1(2) s2(2) by (auto simp: mem_ok_def owned_def same_on_def)
  with s1 s2 m show ?thesis by (auto simp: CM_ClearCached_def)
qed

text \<open>The connect loop only touches the socket, the state and the outside world.\<close>

definition connect_frame :: "CConnectionManager \<Rightarrow> 'w st \<Rightarrow> CConnectionManager \<Rightarrow> 'w st \<Rightarrow> bool" where
  "connect_frame cm s cm' s' \<longleftrightarrow> m_sendList cm' = m_sendList cm \<and> m_recvList cm' = m_recvList cm
     \<and> m_server cm' = m_server cm \<and> m_port cm' = m_port cm
     \<and> st_msgs s' = st_msgs s \<and> st_next s' = st_next s \<and> st_pool s' = st_pool s"

lemma connect_frame_trans:
  "connect_frame cm s cm1 s1 \<Longrightarrow> connect_frame cm1 s1 cm2 s2 \<Longrightarrow> connect_frame cm s cm2 s2"
  by (simp add: connect_frame_def)

lemma CM_OnError_frame: "CM_OnError S e cm s = (cm', s') \<Longrightarrow> connect_frame cm s cm' s'"
  by (auto simp: connect_frame_def CM_OnError_def Let_def split: prod.splits dest: CM_Close_props)

lemma connect_loop_cases:
  assumes "m_pSocket cm = Some sk"
  shows "(\<exists>sk' w'. connect_loop S port (aip # rest) cm s
             = connect_loop S port rest (cm\<lparr>m_pSocket := Some sk'\<rparr>) (s\<lparr>st_os := w'\<rparr>))
    \<or> (\<exists>sk' w' e. connect_loop S port (aip # rest) cm s
             = (let (cm, s) = CM_OnError S e (cm\<lparr>m_pSocket := Some sk'\<rparr>) (s\<lparr>st_os := w'\<rparr>) in Inr (False, cm, s)))
    \<or> (\<exists>sk' w'. connect_loop S port (aip # rest) cm s
             = Inr (True, cm\<lparr>m_pSocket := Some sk'\<rparr>, s\<lparr>st_os := w'\<rparr>))"
proof -
  obtain ret sk1 w1 where
    "CSocketCommon_CreateSocket S (ai_family aip) (ai_socktype aip) (ai_protocol aip) sk (st_os s) = (ret, sk1, w1)"
    using prod_cases3 by blast
  moreover obtain f2 w2 where "sys_fcntl S (m_socket sk1) F_GETFL w1 = (f2, w2)" by fastforce
  moreover obtain f3 w3 where "sys_fcntl S (m_socket sk1) F_SETFL_NONBLOCK w2 = (f3, w3)" by fastforce
  moreover obtain r4 w4 where
    "CSocketCommon_ConnectTo S ((ai_addr aip)\<lparr>sin_port := word_of_int port\<rparr>) sk1 w3 = (r4, w4)" by fastforce
  ultimately show ?thesis
    using assms unfolding connect_loop.simps Let_def
    by (simp del: connect_loop.simps split: prod.splits) blast
qed

lemma connect_loop_props:
  "m_pSocket cm \<noteq> None \<Longrightarrow>
   \<exists>go cm' s'. connect_loop S port res cm s = Inr (go, cm', s') \<and> connect_frame cm s cm' s'
     \<and> (if go then m_pSocket cm' \<noteq> None
        else m_pSocket cm' = None \<and> m_netState cm' = NetConState_ConnectError)"
proof (induction res arbitrary: cm s)
  case Nil
  then show ?case by (auto simp: connect_frame_def)
next
  case (Cons aip rest)
  then obtain sk where sk: "m_pSocket cm = Some sk" by auto
  have fr: "connect_frame cm s (cm\<lparr>m_pSocket := q\<rparr>) (s\<lparr>st_os := w'\<rparr>)" for q w'
    by (simp add: connect_frame_def)
  from connect_loop_cases [OF sk, of S port aip rest s] show ?case
  proof (elim disjE exE)
    fix sk' w'
    assume eq: "connect_loop S port (aip # rest) cm s
        = connect_loop S port rest (cm\<lparr>m_pSocket := Some sk'\<rparr>) (s\<lparr>st_os := w'\<rparr>)"
    show ?thesis
      unfolding eq using Cons.IH [of "cm\<lparr>m_pSocket := Some sk'\<rparr>" "s\<lparr>st_os := w'\<rparr>"]
        connect_frame_trans [OF fr] by fastforce
  next
    fix sk' w' e
    assume eq: "connect_loop S port (aip # rest) cm s
        = (let (cm, s) = CM_OnError S e (cm\<lparr>m_pSocket := Some sk'\<rparr>) (s\<lparr>st_os := w'\<rparr>) in Inr (False, cm, s))"
    obtain cm' s' where o: "CM_OnError S e (cm\<lparr>m_pSocket := Some sk'\<rparr>) (s\<lparr>st_os := w'\<rparr>) = (cm', s')"
      by fastforce
    show ?thesis
      unfolding eq o using CM_OnError_props [OF o] connect_frame_trans [OF fr CM_OnError_frame [OF o]]
      by (intro exI [of _ False]) simp
  next
    fix sk' w'
    assume eq: "connect_loop S port (aip # rest) cm s = Inr (True, cm\<lparr>m_pSocket := Some sk'\<rparr>, s\<lparr>st_os := w'\<rparr>)"
    show ?thesis unfolding eq using fr by (intro exI [of _ True]) simp
  qed
qed

lemma mem_ok_connect_frame:
  "mem_ok X cm s \<Longrightarrow> same_on X s0 s \<Longrightarrow> connect_frame cm s cm' s' \<Longrightarrow> mem_ok X cm' s' \<and> same_on X s0 s'"
  using mem_ok_frame [of X cm s cm' s'] by (auto simp: connect_frame_def intro: same_on_trans)

lemma GetUrlAddrinfo_frame:
  "\<exists>r res w. CM_GetUrlAddrinfo S url port s = ((r, res), s\<lparr>st_os := w\<rparr>)"
  by (auto simp: CM_GetUrlAddrinfo_def Let_def split: prod.splits)

lemma DoConnect_wp:
  assumes "mem_ok X cm s" and "same_on X s0 s"
  shows "wpE not_uaf (\<lambda>(ok, cm', s'). cm_post X s0 cm' s') (CM_DoConnect S url port cm s)"
proof (cases "length url + 1 > 128")
  case True
  then show ?thesis by (simp add: CM_DoConnect_def)
next
  case False
  let ?cm = "cm\<lparr>m_server := url, m_port := port\<rparr>"
  obtain r res w where g: "CM_GetUrlAddrinfo S url port s = ((r, res), s\<lparr>st_os := w\<rparr>)"
    using GetUrlAddrinfo_frame [of S url port s] by auto
  have ok: "mem_ok X ?cm (s\<lparr>st_os := w\<rparr>)" "same_on X s0 (s\<lparr>st_os := w\<rparr>)"
    using assms by (simp_all add: mem_ok_lists [of ?cm cm])
  show ?thesis
  proof (cases "r = 0")
    case True
    let ?cm1 = "?cm\<lparr>m_pSocket := Some CSocketCommon_new\<rparr>"
    obtain go cm2 s2 where l: "connect_loop S port res ?cm1 (s\<lparr>st_os := w\<rparr>) = Inr (go, cm2, s2)"
      "connect_frame ?cm1 (s\<lparr>st_os := w\<rparr>) cm2 s2"
      "if go then m_pSocket cm2 \<noteq> None
       else m_pSocket cm2 = None \<and> m_netState cm2 = NetConState_ConnectError"
      using connect_loop_props [of ?cm1 S port res "s\<lparr>st_os := w\<rparr>"] by auto
    have "mem_ok X ?cm1 (s\<lparr>st_os := w\<rparr>)" using ok(1) by (simp add: mem_ok_lists [of ?cm1 ?cm])
    from mem_ok_connect_frame [OF this ok(2) l(2)] have
      m2: "mem_ok X cm2 s2" "same_on X s0 s2" by simp_all
    let ?cm3 = "cm2\<lparr>m_netState := NetConState_Connecting, m_tOutTimer := CONNECT_TIMEOUT\<rparr>"
    have eq: "CM_DoConnect S url port cm s = (if \<not> go then Inr (False, cm2, s2) else CM_CheckState S ?cm3 s2)"
      using False True g l(1) by (simp add: CM_DoConnect_def Let_def)
    show ?thesis
    proof (cases go)
      case True
      then have "cm_inv ?cm3" "mem_ok X ?cm3 s2"
        using l(3) m2(1) by (simp_all add: cm_inv_def mem_ok_lists [of ?cm3 cm2])
      from CM_CheckState_wp [OF this m2(2), of S] eq True show ?thesis
        by (auto elim: wpE_mono)
    next
      case False
      with eq l(3) m2 show ?thesis by (simp add: cm_post_def cm_inv_def)
    qed
  next
    case r: False
    obtain cm' s' where o: "CM_OnError S NetErrorCode_DNSError ?cm (s\<lparr>st_os := w\<rparr>) = (cm', s')" by fastforce
    from CM_OnError_post [OF ok o] False r g o show ?thesis by (simp add: CM_DoConnect_def Let_def)
  qed
qed

lemma Close_post:
  assumes "cm_inv cm" and "mem_ok X cm s" and "same_on X s0 s" and "CM_Close S cm s = (cm', s')"
  shows "cm_post X s0 cm' s'"
  using CM_Close_inv [OF assms(1,4)] mem_ok_frame [OF assms(2), of cm' s'] CM_Close_props [OF assms(4)] assms(3)
  by (auto simp: cm_post_def intro: same_on_trans)

lemma Connect_wp:
  assumes "cm_inv cm" and "mem_ok X cm s" and "same_on X s0 s"
  shows "wpE not_uaf (\<lambda>(ok, cm', s'). cm_post X s0 cm' s') (CM_Connect S url port cm s)"
proof (cases "m_port cm = -1")
  case True
  with DoConnect_wp [OF assms(2,3), of S url port] show ?thesis by (simp add: CM_Connect_def)
next
  case False
  obtain cm1 s1 where c: "CM_Close S cm s = (cm1, s1)" by fastforce
  then have p: "mem_ok X cm1 s1" "same_on X s0 s1" using Close_post [OF assms c] by (simp_all add: cm_post_def)
  from ClearCached_ok [OF p(1)] obtain s2 where
    s2: "CM_ClearCached cm1 s1 = Inr (cm1\<lparr>m_sendList := [], m_recvList := []\<rparr>, s2)"
      "mem_ok X (cm1\<lparr>m_sendList := [], m_recvList := []\<rparr>) s2" "same_on X s1 s2" by blast
  from DoConnect_wp [OF s2(2) same_on_trans [OF p(2) s2(3)], of S url port] False c s2(1) show ?thesis
    by (simp add: CM_Connect_def)
qed

lemma ReConnect_wp:
  assumes "cm_inv cm" and "mem_ok X cm s" and "same_on X s0 s"
  shows "wpE not_uaf (\<lambda>(cm', s'). cm_post X s0 cm' s') (CM_ReConnect S cm s)"
proof (cases "m_port cm = -1")
  case True
  with assms show ?thesis by (simp add: CM_ReConnect_def cm_post_def)
next
  case False
  obtain cm1 s1 where c: "CM_Close S cm s = (cm1, s1)" by fastforce
  then have p: "cm_inv cm1" "mem_ok X cm1 s1" "same_on X s0 s1"
    using Close_post [OF assms c] by (simp_all add: cm_post_def)
  let ?cm = "cm1\<lparr>m_sendList := [], m_recvList := []\<rparr>"
  from ClearCached_ok [OF p(2)] obtain s2 where
    s2: "CM_ClearCached cm1 s1 = Inr (?cm, s2)" "mem_ok X ?cm s2" "same_on X s1 s2" by blast
  have inv: "cm_inv ?cm" using p(1) by (simp add: cm_inv_def)
  have "CM_ReConnect S cm s
      = bindE (CM_Connect S (m_server cm1) (m_port cm1) ?cm s2) (\<lambda>(_, cm, s). Inr (cm, s))"
    using False c s2(1) by (simp add: CM_ReConnect_def)
  then show ?thesis
    by (simp only:) (rule wpE_bind [OF Connect_wp [OF inv s2(2) same_on_trans [OF p(3) s2(3)]]], auto)
qed

lemma SendMsg_ok:
  assumes "cm_inv cm" and "mem_ok X cm s" and "a \<in> X"
  shows "\<exists>cm' s'. CM_SendMsg (Some a) cm s = Inr (cm', s') \<and> cm_post (X - {a}) s cm' s'
           \<and> m_sendList cm' = m_sendList cm @ [a] \<and> m_recvList cm' = m_recvList cm"
proof -
  from assms(2,3) obtain m where m: "get_msg a s = Inr m" by (auto elim: get_msg_owned)
  let ?cm = "cm\<lparr>m_sendList := m_sendList cm @ [a]\<rparr>"
  have "mem_ok (X - {a}) ?cm s" using assms(2,3) by (auto simp: mem_ok_def owned_def)
  moreover have "a \<in> owned ?cm" by (simp add: owned_def)
  ultimately have "mem_ok (X - {a}) ?cm (put_msg a m' s) \<and> same_on (X - {a}) s (put_msg a m' s)" for m'
    using put_msg_ok [where X = "X - {a}" and cm = ?cm and s = s and a = a and m = m'] by simp
  with m assms(1) show ?thesis by (auto simp: CM_SendMsg_def cm_post_def cm_inv_def)
qed

lemma send_bytes_wp:
  "cm_inv cm \<Longrightarrow> mem_ok X cm s \<Longrightarrow> same_on X s0 s \<Longrightarrow> a \<in> owned cm \<Longrightarrow>
   wpE not_uaf (\<lambda>(go, cm', s'). cm_post X s0 cm' s' \<and> m_sendList cm' = m_sendList cm
       \<and> m_recvList cm' = m_recvList cm) (send_bytes S fuel a cm s)"
proof (induction fuel arbitrary: s)
  case 0
  then show ?case by simp
next
  case (Suc fuel)
  from Suc.prems(2,4) obtain m where m: "get_msg a s = Inr m" by (auto elim: get_msg_owned)
  show ?case
  proof (cases "NetMessage_isEnd m")
    case True
    with m Suc.prems show ?thesis by (simp add: cm_post_def)
  next
    case False
    show ?thesis
    proof (cases "m_pSocket cm")
      case None
      with m False show ?thesis by simp
    next
      case (Some sk)
      let ?body = "\<lambda>bytes.
               let (sizeSended, w) = CSocketCommon_Send S bytes sk (st_os s); s = s\<lparr>st_os := w\<rparr> in
               if sizeSended < 0 then
                 let (cm, s) = CM_OnError S NetErrorCode_SendZeroByte cm s in Inr (False, cm, s)
               else
                 bindE (NetMessage_onSend sizeSended m) (\<lambda>m. send_bytes S fuel a cm (put_msg a m s))"
      let ?Q = "\<lambda>(go, cm', s'). cm_post X s0 cm' s' \<and> m_sendList cm' = m_sendList cm
       \<and> m_recvList cm' = m_recvList cm"
      have "wpE not_uaf ?Q (?body bytes)" for bytes
      proof -
        obtain n w where n: "CSocketCommon_Send S bytes sk (st_os s) = (n, w)" by fastforce
        let ?s = "s\<lparr>st_os := w\<rparr>"
        have ok: "mem_ok X cm ?s" "same_on X s0 ?s" using Suc.prems by simp_all
        show ?thesis
        proof (cases "n < 0")
          case True
          obtain cm' s' where o: "CM_OnError S NetErrorCode_SendZeroByte cm ?s = (cm', s')" by fastforce
          from CM_OnError_post [OF ok o] CM_OnError_props [OF o] n True o show ?thesis by simp
        next
          case False
          have "wpE not_uaf ?Q (send_bytes S fuel a cm (put_msg a m' ?s))" for m'
            using Suc.IH [of "put_msg a m' ?s"] put_msg_ok [OF ok(1) Suc.prems(4)] ok(2) Suc.prems by blast
          then have "wpE not_uaf ?Q (bindE (NetMessage_onSend n m) (\<lambda>m. send_bytes S fuel a cm (put_msg a m ?s)))"
            by (intro wpE_bind [OF no_uaf(5)])
          with n False show ?thesis by simp
        qed
      qed
      then have "wpE not_uaf ?Q (bindE (NetMessage_read m (m_curPos m) (int (c_size_t (NetMessage_getSendCap m)))) ?body)"
        by (intro wpE_bind [OF no_uaf(3)])
      with m False Some show ?thesis by simp
    qed
  qed
qed

lemma mem_ok_delete:
  assumes "mem_ok X cm s" and "m_sendList cm = a # rest" and "delete_msg a s = Inr s'"
  shows "mem_ok X (cm\<lparr>m_sendList := rest\<rparr>) s' \<and> same_on X s s'"
proof -
  have "st_msgs s a \<noteq> None" using assms(1,2) by (auto simp: mem_ok_def owned_def)
  from delete_msg_ok [OF this] assms(3) have
    s': "st_msgs s' = (st_msgs s)(a := None)" "st_next s' = st_next s" by auto
  show ?thesis using assms(1,2) s' by (auto simp: mem_ok_def owned_def same_on_def)
qed

lemma mem_ok_drop:
  "mem_ok X cm s \<Longrightarrow> m_sendList cm = a # rest \<Longrightarrow> mem_ok X (cm\<lparr>m_sendList := rest\<rparr>) s"
  by (auto simp: mem_ok_def owned_def)

lemma send_loop_wp:
  "cm_inv cm \<Longrightarrow> mem_ok X cm s \<Longrightarrow> same_on X s0 s \<Longrightarrow>
   wpE not_uaf (\<lambda>(go, cm', s'). cm_post X s0 cm' s') (send_loop S fuel cm s)"
proof (induction fuel arbitrary: cm s)
  case 0
  then show ?case by simp
next
  case (Suc fuel)
  show ?case
  proof (cases "m_pSocket cm = None \<or> (\<exists>sk. m_pSocket cm = Some sk \<and> \<not> m_writeFlag sk) \<or> m_sendList cm = []")
    case True
    with Suc.prems show ?thesis by (auto simp: cm_post_def split: option.splits)
  next
    case False
    then obtain sk a rest where sk: "m_pSocket cm = Some sk" "m_writeFlag sk" "m_sendList cm = a # rest"
      by (auto simp: neq_Nil_conv)
    let ?Q = "\<lambda>(go :: bool, cm', s'). cm_post X s0 cm' s'"
    let ?tail = "\<lambda>cm s. bindE (get_msg a s) (\<lambda>m.
         bindE (if NetMessage_isEnd m then delete_msg a s else Inr s) (\<lambda>s.
         bindE (CM_CheckState S (cm\<lparr>m_sendList := rest\<rparr>) s) (\<lambda>(_, cm, s). send_loop S fuel cm s)))"
    have chk: "wpE not_uaf ?Q (bindE (CM_CheckState S cm2 s2) (\<lambda>(_, cm, s). send_loop S fuel cm s))"
      if "cm_inv cm2" "mem_ok X cm2 s2" "same_on X s0 s2" for cm2 s2
      by (rule wpE_bind [OF CM_CheckState_wp [OF that]]) (use Suc.IH in \<open>auto simp: cm_post_def\<close>)
    have tail: "wpE not_uaf ?Q (?tail cm1 s1)"
      if c: "cm_inv cm1" "mem_ok X cm1 s1" "same_on X s0 s1" "m_sendList cm1 = a # rest" for cm1 s1
    proof -
      let ?cm = "cm1\<lparr>m_sendList := rest\<rparr>"
      have inv: "cm_inv ?cm" using c(1) by (simp add: cm_inv_def)
      have "a \<in> X \<union> owned cm1" using c(4) by (simp add: owned_def)
      with c(2) obtain m where m: "get_msg a s1 = Inr m" "st_msgs s1 a = Some m" by (rule get_msg_owned)
      show ?thesis
      proof (cases "NetMessage_isEnd m")
        case True
        from delete_msg_ok [of s1 a] m(2) obtain s2 where s2: "delete_msg a s1 = Inr s2" by auto
        from mem_ok_delete [OF c(2,4) s2] c(3) have "mem_ok X ?cm s2" "same_on X s0 s2"
          by (auto intro: same_on_trans)
        from chk [OF inv this] m True s2 show ?thesis by simp
      next
        case False
        from chk [OF inv mem_ok_drop [OF c(2,4)] c(3)] m False show ?thesis by simp
      qed
    qed
    have "a \<in> owned cm" using sk(3) by (simp add: owned_def)
    have "wpE not_uaf ?Q (bindE (send_bytes S fuel a cm s) (\<lambda>(go, cm, s).
        if \<not> go then Inr (False, cm, s) else ?tail cm s))"
      by (rule wpE_bind [OF send_bytes_wp [OF Suc.prems \<open>a \<in> owned cm\<close>]])
        (use tail sk(3) in \<open>auto simp: cm_post_def\<close>)
    with sk show ?thesis by simp
  qed
qed

lemma mem_ok_fresh: "mem_ok X cm s \<Longrightarrow> st_next s \<notin> X \<union> owned cm"
  unfolding mem_ok_def by (metis order_refl)

lemma new_msg_ok:
  assumes "mem_ok X cm s" and "new_msg S n s = (a, s')"
  shows "a = st_next s" and "a \<notin> X \<union> owned cm" and "st_next s' = Suc (st_next s)"
    and "\<exists>m. st_msgs s' = (st_msgs s)(a \<mapsto> m)" and "st_os s' = st_os s"
  using assms(2) mem_ok_fresh [OF assms(1)] by (auto simp: new_msg_def Let_def split: prod.splits)

lemma recv_target_wp:
  assumes "cm_inv cm" and "mem_ok X cm s" and "same_on X s0 s"
  shows "wpE not_uaf (\<lambda>(a, cm', s'). cm_post X s0 cm' s' \<and> a \<in> owned cm' \<and> m_pSocket cm' = m_pSocket cm)
           (recv_target S cm s)"
proof -
  have fresh: "wpE not_uaf (\<lambda>(a, cm', s'). cm_post X s0 cm' s' \<and> a \<in> owned cm' \<and> m_pSocket cm' = m_pSocket cm)
      (let (a, s) = new_msg S 512 s in Inr (a, cm\<lparr>m_recvList := m_recvList cm @ [a]\<rparr>, s))"
  proof -
    obtain a s' where n: "new_msg S 512 s = (a, s')" by fastforce
    note f = new_msg_ok [OF assms(2) n]
    then obtain m where m: "st_msgs s' = (st_msgs s)(a \<mapsto> m)" by blast
    have "mem_ok X (cm\<lparr>m_recvList := m_recvList cm @ [a]\<rparr>) s' \<and> same_on X s0 s'"
      using assms(2,3) f m by (auto simp: mem_ok_def owned_def same_on_def)
    with assms(1) n show ?thesis by (auto simp: cm_post_def cm_inv_def owned_def)
  qed
  show ?thesis
  proof (cases "m_recvList cm = []")
    case True
    with fresh show ?thesis by (simp add: recv_target_def)
  next
    case False
    then have own: "last (m_recvList cm) \<in> owned cm" by (simp add: owned_def)
    with assms(2) obtain m where m: "get_msg (last (m_recvList cm)) s = Inr m" by (auto elim: get_msg_owned)
    show ?thesis
    proof (cases "NetMessage_isEnd m")
      case True
      with fresh False m show ?thesis by (simp add: recv_target_def)
    next
      case nend: False
      with False m own assms show ?thesis by (simp add: recv_target_def cm_post_def)
    qed
  qed
qed

lemma recv_loop_wp:
  "cm_inv cm \<Longrightarrow> mem_ok X cm s \<Longrightarrow> same_on X s0 s \<Longrightarrow>
   wpE not_uaf (\<lambda>(go, cm', s'). cm_post X s0 cm' s') (recv_loop S fuel cm s)"
proof (induction fuel arbitrary: cm s)
  case 0
  then show ?case by simp
next
  case (Suc fuel)
  show ?case
  proof (cases "m_pSocket cm = None \<or> (\<exists>sk. m_pSocket cm = Some sk \<and> \<not> m_readFlag sk)")
    case True
    with Suc.prems show ?thesis by (auto simp: cm_post_def split: option.splits)
  next
    case False
    then obtain sk where sk: "m_pSocket cm = Some sk" "m_readFlag sk" by auto
    let ?Q = "\<lambda>(go :: bool, cm', s'). cm_post X s0 cm' s'"
    let ?body = "\<lambda>(a, cm, s). bindE (get_msg a s) (\<lambda>m.
        let ((sizeReceived, bytes), w) = CSocketCommon_Recv S (NetMessage_getReadCap m) sk (st_os s);
            s = s\<lparr>st_os := w\<rparr>
        in bindE (NetMessage_store m (m_curPos m) bytes) (\<lambda>m.
             let s = put_msg a m s in
             if sizeReceived \<le> 0 then
               let (cm, s) = CM_OnError S NetErrorCode_RecvZeroByte cm s in Inr (False, cm, s)
             else
               bindE (if m_size m \<ge> 0
                      then NetMessage_store m (m_curPos m) (CM_DecodeBuf cm bytes) else Inr m) (\<lambda>m.
               bindE (NetMessage_onReceive (sys_malloc S) sizeReceived m) (\<lambda>m.
               bindE (CM_CheckState S cm (put_msg a m s)) (\<lambda>(_, cm, s). recv_loop S fuel cm s)))))"
    have body: "wpE not_uaf ?Q (?body (a, cm1, s1))"
      if c: "cm_inv cm1" "mem_ok X cm1 s1" "same_on X s0 s1" "a \<in> owned cm1" for a cm1 s1
    proof -
      from c(2,4) obtain m where m: "get_msg a s1 = Inr m" by (auto elim: get_msg_owned)
      obtain n bytes w where r: "CSocketCommon_Recv S (NetMessage_getReadCap m) sk (st_os s1) = ((n, bytes), w)"
        by (metis surj_pair)
      let ?s = "s1\<lparr>st_os := w\<rparr>"
      have ok: "mem_ok X cm1 ?s" "same_on X s0 ?s" using c by simp_all
      have chk: "wpE not_uaf ?Q (bindE (CM_CheckState S cm1 (put_msg a m2 (put_msg a m1 ?s)))
          (\<lambda>(_, cm, s). recv_loop S fuel cm s))" for m1 m2
      proof (rule wpE_bind [OF CM_CheckState_wp [OF c(1), of X _ s0]])
        show "mem_ok X cm1 (put_msg a m2 (put_msg a m1 ?s))"
          using put_msg_ok(1) [OF _ c(4)] ok(1) by blast
        show "same_on X s0 (put_msg a m2 (put_msg a m1 ?s))"
          using put_msg_ok [OF ok(1) c(4)] put_msg_ok(2) [OF _ c(4)] ok(2) by blast
      qed (use Suc.IH in \<open>auto simp: cm_post_def\<close>)
      have "wpE not_uaf ?Q
          (if n \<le> 0 then let (cm, s) = CM_OnError S NetErrorCode_RecvZeroByte cm1 (put_msg a m1 ?s) in Inr (False, cm, s)
           else bindE (if m_size m1 \<ge> 0
                      then NetMessage_store m1 (m_curPos m1) (CM_DecodeBuf cm1 bytes) else Inr m1) (\<lambda>m.
               bindE (NetMessage_onReceive (sys_malloc S) n m) (\<lambda>m.
               bindE (CM_CheckState S cm1 (put_msg a m (put_msg a m1 ?s))) (\<lambda>(_, cm, s). recv_loop S fuel cm s))))"
        for m1
      proof (cases "n \<le> 0")
        case True
        obtain cm' s' where o: "CM_OnError S NetErrorCode_RecvZeroByte cm1 (put_msg a m1 ?s) = (cm', s')" by fastforce
        from CM_OnError_post [OF _ _ o, of X s0] put_msg_ok [OF ok(1) c(4)] ok(2) o True show ?thesis by simp
      next
        case False
        have dec: "wpE not_uaf (\<lambda>_. True) (if m_size m1 \<ge> 0
            then NetMessage_store m1 (m_curPos m1) (CM_DecodeBuf cm1 bytes) else Inr m1)"
          by (simp add: no_uaf(1))
        show ?thesis unfolding if_not_P [OF False]
          by (rule wpE_bind [OF dec], rule wpE_bind [OF no_uaf_onReceive], rule chk)
      qed
      then show ?thesis
        using m r by (simp add: Let_def) (intro wpE_bind [OF no_uaf(1)], blast)
    qed
    have "wpE not_uaf ?Q (bindE (recv_target S cm s) ?body)"
      by (rule wpE_bind [OF recv_target_wp [OF Suc.prems]]) (use body in \<open>auto simp: cm_post_def\<close>)
    with sk show ?thesis by (simp add: Let_def)
  qed
qed

lemma Update_wp:
  assumes "cm_inv cm" and "mem_ok X cm s" and "same_on X s0 s"
  shows "wpE not_uaf (\<lambda>(cm', s'). cm_post X s0 cm' s') (CM_Update S fuel dt cm s)"
proof (cases "m_pSocket cm = None \<or> m_netState cm = NetConState_ConnectTimeOut
         \<or> m_netState cm = NetConState_ConnectError \<or> m_netState cm = NetConState_Disconnected")
  case True
  with assms show ?thesis by (auto simp: CM_Update_def cm_post_def)
next
  case False
  let ?Q = "\<lambda>(cm', s'). cm_post X s0 cm' s'"
  let ?conn = "\<lambda>cm s. case m_pSocket cm of
              None \<Rightarrow> Inl NullDeref
            | Some sk \<Rightarrow>
                if m_writeFlag sk then
                  (if CONNECT_TIMEOUT \<noteq> m_tOutTimer cm then Inr (CM_OnSuccess cm, s)
                   else bindE (c_int (m_tOutTimer cm - dt)) (\<lambda>t. Inr (cm\<lparr>m_tOutTimer := t\<rparr>, s)))
                else
                  bindE (c_int (m_tOutTimer cm - dt)) (\<lambda>t.
                    let cm = cm\<lparr>m_tOutTimer := t\<rparr> in
                    if t \<le> 0 then Inr (CM_OnTimeOut S (cm\<lparr>m_tOutTimer := -1\<rparr>) s) else Inr (cm, s))"
  have timer: "cm_post X s0 (cm1\<lparr>m_tOutTimer := t\<rparr>) s1" if "cm_post X s0 cm1 s1" for cm1 s1 t
    using that by (simp add: cm_post_def cm_inv_def mem_ok_lists [of "cm1\<lparr>m_tOutTimer := t\<rparr>" cm1])
  have conn: "wpE not_uaf ?Q (?conn cm1 s1)"
    if c: "cm_post X s0 cm1 s1" "m_netState cm1 = NetConState_Connecting" for cm1 s1
  proof (cases "m_pSocket cm1")
    case None
    then show ?thesis by simp
  next
    case (Some sk)
    have succ: "cm_post X s0 (CM_OnSuccess cm1) s1"
      using c Some by (auto simp: CM_OnSuccess_def cm_post_def cm_inv_def mem_ok_def owned_def)
    obtain cm2 s2 where o: "CM_OnTimeOut S (cm1\<lparr>m_tOutTimer := -1\<rparr>) s1 = (cm2, s2)" by fastforce
    have "mem_ok X cm2 s2" "same_on X s1 s2"
      using mem_ok_frame [of X cm1 s1 cm2 s2] c(1) CM_OnTimeOut_props [OF o] by (simp_all add: cm_post_def)
    then have tmo: "cm_post X s0 cm2 s2"
      using c(1) CM_OnTimeOut_props [OF o] by (auto simp: cm_post_def cm_inv_def intro: same_on_trans)
    show ?thesis
      using Some succ tmo timer [OF c(1)] o by (auto simp: c_int_def Let_def)
  qed
  have loops: "wpE not_uaf ?Q (bindE (send_loop S fuel cm1 s1) (\<lambda>(go, cm, s).
              if \<not> go then Inr (cm, s)
              else bindE (recv_loop S fuel cm s) (\<lambda>(_, cm, s). Inr (cm, s))))"
    if c: "cm_inv cm1" "mem_ok X cm1 s1" "same_on X s0 s1" for cm1 s1
  proof (rule wpE_bind [OF send_loop_wp [OF c]], clarify)
    fix go cm2 s2
    assume p: "cm_post X s0 cm2 s2"
    then have "wpE not_uaf ?Q (bindE (recv_loop S fuel cm2 s2) (\<lambda>(_, cm, s). Inr (cm, s)))"
      by (intro wpE_bind [OF recv_loop_wp [of cm2 X s2 s0]]) (auto simp: cm_post_def)
    with p show "wpE not_uaf ?Q (if \<not> go then Inr (cm2, s2)
              else bindE (recv_loop S fuel cm2 s2) (\<lambda>(_, cm, s). Inr (cm, s)))"
      by simp
  qed
  have "wpE not_uaf ?Q (bindE (CM_CheckState S cm s) (\<lambda>(_, cm, s).
          if m_netState cm = NetConState_ConnectError then Inr (cm, s)
          else if m_netState cm = NetConState_Connecting then ?conn cm s
          else bindE (send_loop S fuel cm s) (\<lambda>(go, cm, s).
              if \<not> go then Inr (cm, s)
              else bindE (recv_loop S fuel cm s) (\<lambda>(_, cm, s). Inr (cm, s)))))"
  proof (rule wpE_bind [OF CM_CheckState_wp [OF assms]], goal_cases)
    case (1 x)
    obtain ok cm1 s1 where x: "x = (ok, cm1, s1)" using prod_cases3 by blast
    with 1 have p: "cm_post X s0 cm1 s1" by simp
    then have c: "cm_inv cm1" "mem_ok X cm1 s1" "same_on X s0 s1" by (simp_all add: cm_post_def)
    show ?case unfolding x prod.case
      by (rule wpE_if, use p in simp) (rule wpE_if, rule conn [OF p], assumption, rule loops [OF c])
  qed
  then show ?thesis unfolding CM_Update_def if_not_P [OF False] .
qed

section \<open>Runs of a manager\<close>

text \<open>
  The operations a client performs on one manager: every public method that changes the manager, its
  messages or the outside world, with a message that the client has created and filled in any way
  before \<open>SendMsg\<close>, and with a received message taken out of the queue (and deleted by the client)
  after \<open>getMsg\<close>. \<open>EncodeMsg\<close> and \<open>DecodeBuf\<close> change nothing; \<open>Restart\<close> deletes a manager and starts
  with a new one.
\<close>

inductive cm_step :: "'w sysif \<Rightarrow> CConnectionManager \<times> 'w st \<Rightarrow> CConnectionManager \<times> 'w st \<Rightarrow> bool"
  for S :: "'w sysif" where
  connect: "CM_Connect S url port cm s = Inr (ok, cm', s') \<Longrightarrow> cm_step S (cm, s) (cm', s')"
| reconnect: "CM_ReConnect S cm s = Inr (cm', s') \<Longrightarrow> cm_step S (cm, s) (cm', s')"
| do_connect: "CM_DoConnect S url port cm s = Inr (ok, cm', s') \<Longrightarrow> cm_step S (cm, s) (cm', s')"
| resolve: "CM_GetUrlAddrinfo S url port s = (r, s') \<Longrightarrow> cm_step S (cm, s) (cm, s')"
| keep_alived: "CM_KeepAlived S alive idle interval cnt cm s = (r, s') \<Longrightarrow> cm_step S (cm, s) (cm, s')"
| set_name: "cm_step S (cm, s) (CM_SetName name cm, s)"
| init_encrypt: "CM_InitEncrypt sendSeed recvSeed cm s = Inr (cm', s') \<Longrightarrow> cm_step S (cm, s) (cm', s')"
| close: "CM_Close S cm s = (cm', s') \<Longrightarrow> cm_step S (cm, s) (cm', s')"
| clear: "CM_ClearCached cm s = Inr (cm', s') \<Longrightarrow> cm_step S (cm, s) (cm', s')"
| update: "CM_Update S fuel dt cm s = Inr (cm', s') \<Longrightarrow> cm_step S (cm, s) (cm', s')"
| send: "new_msg S n s = (a, s1) \<Longrightarrow> CM_SendMsg (Some a) cm (put_msg a m s1) = Inr (cm', s') \<Longrightarrow>
     cm_step S (cm, s) (cm', s')"
| take_out: "CM_getMsg cm = Some a \<Longrightarrow> delete_msg a s = Inr s' \<Longrightarrow>
     cm_step S (cm, s) (CM_RemoveMsg (Some a) cm, s')"
| world: "cm_step S (cm, s) (cm, s\<lparr>st_os := w\<rparr>)"

inductive_cases cm_stepE: "cm_step S (cm, s) (cm', s')"

inductive cm_reachable :: "'w sysif \<Rightarrow> CConnectionManager \<times> 'w st \<Rightarrow> bool" for S :: "'w sysif" where
  start: "st_msgs s = Map.empty \<Longrightarrow> cm_reachable S (CConnectionManager_new, s)"
| step: "cm_reachable S c \<Longrightarrow> cm_step S c c' \<Longrightarrow> cm_reachable S c'"

lemma send_step_ok:
  assumes "cm_inv cm" and "mem_ok {} cm s" and "new_msg S n s = (a, s1)"
    and "CM_SendMsg (Some a) cm (put_msg a m s1) = Inr (cm', s')"
  shows "cm_inv cm' \<and> mem_ok {} cm' s'"
proof -
  note f = new_msg_ok [OF assms(2,3)]
  then obtain m0 where m0: "st_msgs s1 = (st_msgs s)(a \<mapsto> m0)" by blast
  have "mem_ok {a} cm (put_msg a m s1)"
    using assms(2) f m0 by (auto simp: mem_ok_def owned_def put_msg_def)
  from SendMsg_ok [OF assms(1) this] assms(4) show ?thesis by (auto simp: cm_post_def)
qed

lemma take_out_ok:
  assumes "cm_inv cm" and "mem_ok {} cm s" and "CM_getMsg cm = Some a" and "delete_msg a s = Inr s'"
  shows "cm_inv (CM_RemoveMsg (Some a) cm) \<and> mem_ok {} (CM_RemoveMsg (Some a) cm) s'"
proof -
  obtain rest where r: "m_recvList cm = a # rest"
    using assms(3) by (auto simp: CM_getMsg_def split: list.splits)
  have live: "st_msgs s a \<noteq> None" using assms(2) r by (auto simp: mem_ok_def owned_def)
  from delete_msg_ok [OF live] assms(4) have
    s': "st_msgs s' = (st_msgs s)(a := None)" "st_next s' = st_next s" by auto
  show ?thesis using assms(1,2) r s' by (auto simp: CM_RemoveMsg_def cm_inv_def mem_ok_def owned_def)
qed

lemma encode_msgs_ok:
  "mem_ok X cm s \<Longrightarrow> same_on X s0 s \<Longrightarrow> set as \<subseteq> owned cm \<Longrightarrow>
   \<exists>s'. encode_msgs cm1 as s = Inr s' \<and> mem_ok X cm s' \<and> same_on X s0 s'"
proof (induction as arbitrary: s)
  case (Cons a as)
  from Cons.prems(1,3) obtain m where m: "get_msg a s = Inr m" by (auto elim: get_msg_owned)
  from Cons.IH [OF put_msg_ok(1) [OF Cons.prems(1)] put_msg_ok(2) [OF Cons.prems(1)]] Cons.prems m
  show ?case by simp
qed auto

lemma InitEncrypt_ok:
  assumes "cm_inv cm" and "mem_ok X cm s" and "same_on X s0 s"
  shows "\<exists>cm' s'. CM_InitEncrypt i j cm s = Inr (cm', s') \<and> cm_post X s0 cm' s'"
  using encode_msgs_ok [OF assms(2,3), of "m_sendList cm" "cm\<lparr>m_encryptInited := True\<rparr>"] assms(1)
  by (auto simp: CM_InitEncrypt_def Let_def cm_post_def owned_def cm_inv_def
      mem_ok_lists [of "cm\<lparr>m_encryptInited := True\<rparr>" cm])

lemma KeepAlived_frame: "\<exists>r w. CM_KeepAlived S a b c d cm s = (r, s\<lparr>st_os := w\<rparr>)"
proof (cases "m_pSocket cm")
  case None
  then show ?thesis by (intro exI [of _ "-1"] exI [of _ "st_os s"]) (simp add: CM_KeepAlived_def)
qed (auto simp: CM_KeepAlived_def split: prod.splits)

lemma cm_step_inv:
  assumes "cm_step S (cm, s) (cm', s')" and "cm_inv cm" and "mem_ok {} cm s"
  shows "cm_inv cm' \<and> mem_ok {} cm' s'"
  using assms(1)
proof (rule cm_stepE)
  fix url port ok
  assume "CM_Connect S url port cm s = Inr (ok, cm', s')"
  with wpE_Inr [OF Connect_wp [OF assms(2,3) same_on_refl]] show ?thesis by (fastforce simp: cm_post_def)
next
  assume "CM_ReConnect S cm s = Inr (cm', s')"
  with wpE_Inr [OF ReConnect_wp [OF assms(2,3) same_on_refl]] show ?thesis by (fastforce simp: cm_post_def)
next
  fix url port ok
  assume "CM_DoConnect S url port cm s = Inr (ok, cm', s')"
  with wpE_Inr [OF DoConnect_wp [OF assms(3) same_on_refl]] show ?thesis by (fastforce simp: cm_post_def)
next
  fix url port r
  assume "cm' = cm" "CM_GetUrlAddrinfo S url port s = (r, s')"
  with GetUrlAddrinfo_frame [of S url port s] assms(2,3) show ?thesis by auto
next
  fix a b c d r
  assume "cm' = cm" "CM_KeepAlived S a b c d cm s = (r, s')"
  with KeepAlived_frame [of S a b c d cm s] assms(2,3) show ?thesis by auto
next
  fix name
  assume "cm' = CM_SetName name cm" "s' = s"
  with assms(2,3) show ?thesis by (simp add: CM_SetName_def cm_inv_def mem_ok_def owned_def)
next
  fix i j
  assume "CM_InitEncrypt i j cm s = Inr (cm', s')"
  with InitEncrypt_ok [OF assms(2,3) same_on_refl, of i j] show ?thesis by (auto simp: cm_post_def)
next
  assume "CM_Close S cm s = (cm', s')"
  from Close_post [OF assms(2,3) same_on_refl this] show ?thesis by (simp add: cm_post_def)
next
  assume "CM_ClearCached cm s = Inr (cm', s')"
  with ClearCached_ok [OF assms(3)] assms(2) show ?thesis by (auto simp: cm_inv_def)
next
  fix fuel dt
  assume "CM_Update S fuel dt cm s = Inr (cm', s')"
  with wpE_Inr [OF Update_wp [OF assms(2,3) same_on_refl]] show ?thesis by (fastforce simp: cm_post_def)
next
  fix n a s1 m
  assume "new_msg S n s = (a, s1)" "CM_SendMsg (Some a) cm (put_msg a m s1) = Inr (cm', s')"
  with send_step_ok [OF assms(2,3)] show ?thesis by blast
next
  fix a
  assume "cm' = CM_RemoveMsg (Some a) cm" "CM_getMsg cm = Some a" "delete_msg a s = Inr s'"
  with take_out_ok [OF assms(2,3)] show ?thesis by blast
next
  fix w
  assume "cm = cm'" "s' = s\<lparr>st_os := w\<rparr>"
  with assms(2,3) show ?thesis by simp
qed

lemma cm_reachable_inv: "cm_reachable S c \<Longrightarrow> cm_inv (fst c) \<and> mem_ok {} (fst c) (snd c)"
proof (induction rule: cm_reachable.induct)
  case (start s)
  then show ?case by (simp add: CConnectionManager_new_def cm_inv_def mem_ok_def owned_def)
next
  case (step c c')
  then show ?case using cm_step_inv [of S "fst c" "snd c" "fst c'" "snd c'"] by simp
qed

section \<open>Properties\<close>

text \<open>
  C4: in every state that a sequence of operations on a connection manager can reach, whatever the
  operating system answers, a socket object exists exactly when the state is \<open>Connecting\<close> or
  \<open>Connected\<close>, and the two queues name live messages, each of them once.
\<close>

theorem manager_invariant:
  assumes "cm_reachable S (cm, s)"
  shows "(m_pSocket cm \<noteq> None \<longleftrightarrow> m_netState cm \<in> {NetConState_Connecting, NetConState_Connected})
     \<and> distinct (m_sendList cm @ m_recvList cm)
     \<and> (\<forall>a \<in> set (m_sendList cm @ m_recvList cm). st_msgs s a \<noteq> None)"
  using cm_reachable_inv [OF assms] by (auto simp: cm_inv_def mem_ok_def owned_def)

text \<open>
  C8: no operation of a connection manager in a reachable state uses or deletes a message that has
  already been deleted: neither polling, connecting, switching encryption on (which visits every
  queued message), sending a message the client has just created, taking out and deleting a received
  one, emptying the queues, nor deleting or restarting the manager. (\<open>Close\<close>, \<open>KeepAlived\<close>, \<open>SetName\<close>
  and \<open>GetUrlAddrinfo\<close> do not touch messages and have no error result in the model.)
\<close>

theorem manager_no_use_after_free:
  assumes "cm_reachable S (cm, s)"
  shows "CM_Update S fuel dt cm s \<noteq> Inl UseAfterFree \<and> CM_Connect S url port cm s \<noteq> Inl UseAfterFree
     \<and> CM_DoConnect S url port cm s \<noteq> Inl UseAfterFree
     \<and> CM_ReConnect S cm s \<noteq> Inl UseAfterFree \<and> CM_ClearCached cm s \<noteq> Inl UseAfterFree
     \<and> CM_InitEncrypt sendSeed recvSeed cm s \<noteq> Inl UseAfterFree
     \<and> (\<forall>n a s1 m. new_msg S n s = (a, s1) \<longrightarrow> CM_SendMsg (Some a) cm (put_msg a m s1) \<noteq> Inl UseAfterFree)
     \<and> (\<forall>a. CM_getMsg cm = Some a \<longrightarrow> delete_msg a s \<noteq> Inl UseAfterFree)
     \<and> CM_delete S cm s \<noteq> Inl UseAfterFree \<and> CM_Restart S (Some cm) s \<noteq> Inl UseAfterFree"
proof -
  from cm_reachable_inv [OF assms] have inv: "cm_inv cm" and mem: "mem_ok {} cm s" by simp_all
  obtain cm1 s1 where c: "CM_Close S cm s = (cm1, s1)" by fastforce
  have "mem_ok {} cm1 s1" using Close_post [OF inv mem same_on_refl c] by (simp add: cm_post_def)
  from ClearCached_ok [OF this] c have "CM_delete S cm s \<noteq> Inl UseAfterFree"
    "CM_Restart S (Some cm) s \<noteq> Inl UseAfterFree"
    by (auto simp: CM_delete_def CM_Restart_def)
  moreover from ClearCached_ok [OF mem] have "CM_ClearCached cm s \<noteq> Inl UseAfterFree" by auto
  moreover have "CM_InitEncrypt sendSeed recvSeed cm s \<noteq> Inl UseAfterFree"
    using InitEncrypt_ok [OF inv mem same_on_refl, of sendSeed recvSeed] by auto
  moreover have "CM_Update S fuel dt cm s \<noteq> Inl UseAfterFree"
    using wpE_Inl [OF Update_wp [OF inv mem same_on_refl]] by fastforce
  moreover have "CM_Connect S url port cm s \<noteq> Inl UseAfterFree"
    using wpE_Inl [OF Connect_wp [OF inv mem same_on_refl]] by fastforce
  moreover have "CM_DoConnect S url port cm s \<noteq> Inl UseAfterFree"
    using wpE_Inl [OF DoConnect_wp [OF mem same_on_refl]] by fastforce
  moreover have "CM_ReConnect S cm s \<noteq> Inl UseAfterFree"
    using wpE_Inl [OF ReConnect_wp [OF inv mem same_on_refl]] by fastforce
  moreover have "CM_SendMsg (Some a) cm (put_msg a m s2) \<noteq> Inl UseAfterFree" if "new_msg S n s = (a, s2)" for n a s2 m
    by (simp add: CM_SendMsg_def get_msg_def put_msg_def)
  moreover have "delete_msg a s \<noteq> Inl UseAfterFree" if "CM_getMsg cm = Some a" for a
  proof -
    have "st_msgs s a \<noteq> None" using that mem by (auto simp: CM_getMsg_def mem_ok_def owned_def split: list.splits)
    from delete_msg_ok [OF this] show ?thesis by auto
  qed
  ultimately show ?thesis by blast
qed

end
