(* ===== verification/ConnRun.thy ===== *)
theory ConnRun
  imports ConnMgr
begin

text \<open>
  What \<open>Update\<close> does for a connected peer. The outside world of these theorems is a script: the
  pieces in which the peer's bytes arrive, and for each \<open>send\<close> the number of bytes the system is
  ready to take. Every byte sequence and every way of cutting it into pieces is a script; \<open>select\<close>
  reports no error, and the socket is writable or not throughout. A read takes from the first piece at
  most what it asks for.
\<close>

section \<open>A scripted operating system\<close>

record script =
  sc_in :: "byte list list"     \<comment> \<open>the pieces that \<open>recv\<close> will deliver\<close>
  sc_out :: "byte list"         \<comment> \<open>the bytes sent so far\<close>
  sc_quota :: "nat list"        \<comment> \<open>how much the next calls of \<open>send\<close> take\<close>
  sc_writable :: bool

definition script_recv :: "int \<Rightarrow> nat \<Rightarrow> script \<Rightarrow> (int \<times> byte list) \<times> script" where
  "script_recv fd n w =
     (case sc_in w of
        [] \<Rightarrow> ((-1, []), w)
      | c # cs \<Rightarrow>
          if length c \<le> n then ((int (length c), c), w\<lparr>sc_in := cs\<rparr>)
          else ((int n, take n c), w\<lparr>sc_in := drop n c # cs\<rparr>))"

definition script_send :: "int \<Rightarrow> byte list \<Rightarrow> script \<Rightarrow> int \<times> script" where
  "script_send fd bytes w =
     (case sc_quota w of
        [] \<Rightarrow> (int (length bytes), w\<lparr>sc_out := sc_out w @ bytes\<rparr>)
      | q # qs \<Rightarrow>
          let k = min (Suc q) (length bytes)
          in (int k, w\<lparr>sc_out := sc_out w @ take k bytes, sc_quota := qs\<rparr>))"

definition script_sys :: "malloc \<Rightarrow> script sysif" where
  "script_sys M =
     \<lparr>sys_malloc = M, sys_linux = True,
      sys_socket = (\<lambda>_ _ _ w. (3, w)), sys_close = (\<lambda>_ w. w), sys_setsockopt = (\<lambda>_ _ _ w. (0, w)),
      sys_bind = (\<lambda>_ _ w. (0, w)), sys_listen = (\<lambda>_ _ w. (0, w)),
      sys_accept = (\<lambda>_ w. ((4, \<lparr>sin_port = 0, sa_data = []\<rparr>), w)), sys_connect = (\<lambda>_ _ w. (0, w)),
      sys_send = script_send, sys_recv = script_recv,
      sys_select = (\<lambda>_ w. (\<lparr>sel_ret = 1, sel_read = sc_in w \<noteq> [], sel_write = sc_writable w, sel_error = False\<rparr>, w)),
      sys_fcntl = (\<lambda>_ _ w. (0, w)),
      sys_getaddrinfo = (\<lambda>_ _ w. ((0, [\<lparr>ai_family = 2, ai_socktype = 1, ai_protocol = 6,
         ai_addr = \<lparr>sin_port = 0, sa_data = []\<rparr>\<rparr>]), w)),
      sys_errno = (\<lambda>_. EOTHER 0)\<rparr>"

text \<open>The socket's flags are what \<open>select\<close> would say now.\<close>

definition polled :: "CConnectionManager \<Rightarrow> script st \<Rightarrow> bool" where
  "polled cm s \<longleftrightarrow> (case m_pSocket cm of
      None \<Rightarrow> False
    | Some sk \<Rightarrow> 0 \<le> m_socket sk \<and> m_socket sk < FD_SETSIZE
        \<and> m_readFlag sk = (sc_in (st_os s) \<noteq> []) \<and> m_writeFlag sk = sc_writable (st_os s))"

text \<open>The manager after a poll in state \<open>s\<close>.\<close>

definition repoll :: "CConnectionManager \<Rightarrow> script st \<Rightarrow> CConnectionManager" where
  "repoll cm s = cm\<lparr>m_pSocket := map_option (\<lambda>sk. sk\<lparr>m_writeFlag := sc_writable (st_os s),
     m_readFlag := sc_in (st_os s) \<noteq> []\<rparr>) (m_pSocket cm)\<rparr>"

definition valid_socket :: "CConnectionManager \<Rightarrow> bool" where
  "valid_socket cm \<longleftrightarrow> (case m_pSocket cm of None \<Rightarrow> False | Some sk \<Rightarrow> 0 \<le> m_socket sk \<and> m_socket sk < FD_SETSIZE)"

lemma repoll_simps [simp]:
  "m_sendList (repoll cm s) = m_sendList cm" "m_recvList (repoll cm s) = m_recvList cm"
  "m_netState (repoll cm s) = m_netState cm" "m_tOutTimer (repoll cm s) = m_tOutTimer cm"
  "m_pSocket (repoll cm s) = None \<longleftrightarrow> m_pSocket cm = None"
  "valid_socket (repoll cm s) = valid_socket cm"
  "repoll (repoll cm s) s' = repoll cm s'"
  "repoll (cm\<lparr>m_recvList := as\<rparr>) s = (repoll cm s)\<lparr>m_recvList := as\<rparr>"
  "repoll (cm\<lparr>m_sendList := as\<rparr>) s = (repoll cm s)\<lparr>m_sendList := as\<rparr>"
  by (auto simp: repoll_def valid_socket_def option.map_comp comp_def split: option.splits)

lemma CheckState_script:
  "valid_socket cm \<Longrightarrow> CM_CheckState (script_sys M) cm s = Inr (True, repoll cm s, s)"
  by (auto simp: CM_CheckState_def script_sys_def repoll_def valid_socket_def Let_def split: option.splits)

lemma sys_malloc_script [simp]: "sys_malloc (script_sys M) = M"
  by (simp add: script_sys_def)

section \<open>Receiving\<close>

text \<open>What a read leaves of the piece it took from: \<open>e\<close> stays in front of the other pieces.\<close>

definition pushback :: "byte list \<Rightarrow> byte list list \<Rightarrow> byte list list" where
  "pushback e ps = (if e = [] then ps else e # ps)"

text \<open>The offsets at which a piece ends.\<close>

definition cuts :: "byte list list \<Rightarrow> nat set" where
  "cuts ps = (\<lambda>k. length (concat (take k ps))) ` {..length ps}"

lemma concat_pushback [simp]: "concat (pushback e ps) = e @ concat ps"
  by (simp add: pushback_def)

lemma pushback_pieces: "[] \<notin> set ps \<Longrightarrow> [] \<notin> set (pushback e ps)"
  by (simp add: pushback_def)

lemma cuts_pushback:
  assumes "x \<in> cuts (pushback e ps)" and "0 < x"
  shows "length d + x \<in> cuts ((d @ e) # ps)"
proof -
  from assms(1) obtain k where k: "k \<le> length (pushback e ps)" "x = length (concat (take k (pushback e ps)))"
    by (auto simp: cuts_def)
  show ?thesis
  proof (cases "e = []")
    case True
    then show ?thesis using k unfolding cuts_def pushback_def
      by (intro image_eqI [where x = "Suc k"]) auto
  next
    case False
    with k assms(2) obtain j where "k = Suc j" by (cases k) auto
    then show ?thesis using k False unfolding cuts_def pushback_def
      by (intro image_eqI [where x = k]) auto
  qed
qed

text \<open>A read of the bytes \<open>d\<close> gets them at once when no piece ends inside them.\<close>

lemma read_whole:
  assumes "[] \<notin> set ps" and "concat ps = d @ r" and "d \<noteq> []" and "cuts ps \<inter> {1..<length d} = {}"
  obtains e qs where "ps = (d @ e) # qs" and "concat (pushback e qs) = r" and "[] \<notin> set (pushback e qs)"
proof -
  from assms(2,3) obtain p qs where ps: "ps = p # qs" by (cases ps) auto
  have "length p \<in> cuts ps" unfolding cuts_def ps by (intro image_eqI [where x = 1]) auto
  moreover have "p \<noteq> []" using assms(1) ps by auto
  ultimately have "length d \<le> length p" using assms(4) by (fastforce simp: Suc_le_eq)
  moreover have "p @ concat qs = d @ r" using assms(2) ps by simp
  ultimately obtain e where "p = d @ e" by (auto simp: append_eq_append_conv2)
  with assms ps show thesis by (intro that [of e qs] pushback_pieces) auto
qed

text \<open>The offsets strictly inside one of the parts of a header.\<close>

fun inside :: "byte list list \<Rightarrow> nat set" where
  "inside [] = {}"
| "inside (d # ds) = {1..<length d} \<union> (+) (length d) ` inside ds"

fun head_reads :: "byte list list \<Rightarrow> byte list list \<Rightarrow> byte list list \<Rightarrow> bool" where
  "head_reads [] ps rest \<longleftrightarrow> ps = rest"
| "head_reads (d # ds) ps rest \<longleftrightarrow> (\<exists>e qs. ps = (d @ e) # qs \<and> head_reads ds (pushback e qs) rest)"

lemma inside_pos: "x \<in> inside ds \<Longrightarrow> 0 < x"
  by (induction ds arbitrary: x) auto

lemma header_reads:
  "[] \<notin> set ps \<Longrightarrow> concat ps = concat hs @ r \<Longrightarrow> [] \<notin> set hs \<Longrightarrow> cuts ps \<inter> inside hs = {} \<Longrightarrow>
   \<exists>rest. head_reads hs ps rest \<and> concat rest = r \<and> [] \<notin> set rest
     \<and> (\<forall>x \<in> cuts rest. 0 < x \<longrightarrow> length (concat hs) + x \<in> cuts ps)"
proof (induction hs arbitrary: ps)
  case (Cons d hs)
  have "cuts ps \<inter> {1..<length d} = {}" "concat ps = d @ (concat hs @ r)" "d \<noteq> []" using Cons.prems by auto
  from read_whole [OF Cons.prems(1) this(2,3,1)] obtain e qs where
    e: "ps = (d @ e) # qs" "concat (pushback e qs) = concat hs @ r" "[] \<notin> set (pushback e qs)" by blast
  have "cuts (pushback e qs) \<inter> inside hs = {}"
  proof (rule ccontr)
    assume "cuts (pushback e qs) \<inter> inside hs \<noteq> {}"
    then obtain x where x: "x \<in> cuts (pushback e qs)" "x \<in> inside hs" by blast
    from cuts_pushback [OF x(1) inside_pos [OF x(2)], of d] e(1) x(2) Cons.prems(4) show False by auto
  qed
  from Cons.IH [OF e(3,2) _ this] Cons.prems(3) obtain rest where
    r: "head_reads hs (pushback e qs) rest" "concat rest = r" "[] \<notin> set rest"
    "\<forall>x \<in> cuts rest. 0 < x \<longrightarrow> length (concat hs) + x \<in> cuts (pushback e qs)" by auto
  have "length (concat (d # hs)) + x \<in> cuts ps" if "x \<in> cuts rest" "0 < x" for x
    using cuts_pushback [of "length (concat hs) + x" e qs d] r(4) that e(1) by (simp add: add.assoc)
  with r e(1) show ?case by auto
qed (auto intro: exI [of _ ps])

fun body_reads :: "byte list list \<Rightarrow> byte list list \<Rightarrow> byte list list \<Rightarrow> bool" where
  "body_reads [] ps rest \<longleftrightarrow> ps = rest"
| "body_reads (d # ds) ps rest \<longleftrightarrow>
     (\<exists>e qs. ps = (d @ e) # qs \<and> (e \<noteq> [] \<longrightarrow> ds = []) \<and> body_reads ds (pushback e qs) rest)"

text \<open>The payload is read in the pieces as they are; only the last one may have to be cut.\<close>

lemma payload_reads:
  "[] \<notin> set ps \<Longrightarrow> concat ps = b @ r \<Longrightarrow>
   \<exists>cs rest. body_reads cs ps rest \<and> concat cs = b \<and> [] \<notin> set cs \<and> concat rest = r \<and> [] \<notin> set rest
     \<and> (\<forall>x \<in> cuts rest. 0 < x \<longrightarrow> length b + x \<in> cuts ps)"
proof (induction ps arbitrary: b)
  case Nil
  then show ?case by (intro exI [of _ "[]"]) (simp add: cuts_def)
next
  case (Cons p ps)
  show ?case
  proof (cases "b = []")
    case True
    then show ?thesis using Cons.prems by (intro exI [of _ "[]"] exI [of _ "p # ps"]) simp
  next
    case b: False
    show ?thesis
    proof (cases "length p \<le> length b")
      case True
      with Cons.prems(2) obtain b' where b': "b = p @ b'" "concat ps = b' @ r"
        by (auto simp: append_eq_append_conv2)
      from Cons.IH [OF _ b'(2)] Cons.prems(1) obtain cs rest where
        cs: "body_reads cs ps rest" "concat cs = b'" "[] \<notin> set cs" "concat rest = r" "[] \<notin> set rest"
        "\<forall>x \<in> cuts rest. 0 < x \<longrightarrow> length b' + x \<in> cuts ps" by auto
      have "body_reads (p # cs) (p # ps) rest" using cs(1) by (auto simp: pushback_def intro: exI [of _ "[]"])
      moreover have "length b + x \<in> cuts (p # ps)" if "x \<in> cuts rest" "0 < x" for x
        using cuts_pushback [of "length b' + x" "[]" ps p] cs(6) that b'(1) by (simp add: pushback_def add.assoc)
      moreover have "p \<noteq> []" using Cons.prems(1) by auto
      ultimately show ?thesis using cs b'(1)
        by (intro exI [of _ "p # cs"] exI [of _ rest]) simp
    next
      case False
      with Cons.prems(2) obtain e where e: "p = b @ e" "e \<noteq> []" "r = e @ concat ps"
        by (auto simp: append_eq_append_conv2)
      have "body_reads [b] (p # ps) (pushback e ps)" by (auto simp: e)
      with e b Cons.prems(1) cuts_pushback [of _ e ps b] pushback_pieces [of ps e] show ?thesis
        by (intro exI [of _ "[b]"] exI [of _ "pushback e ps"]) auto
    qed
  qed
qed

text \<open>
  \<open>admissible M ds m\<close>: the pieces \<open>ds\<close> can be delivered to the message \<open>m\<close>: each is not empty, not
  longer than what the message asks for at that moment, and the message is not complete before it.
\<close>

fun admissible :: "malloc \<Rightarrow> byte list list \<Rightarrow> NetMessage \<Rightarrow> bool" where
  "admissible M [] m = True"
| "admissible M (d # ds) m \<longleftrightarrow>
     d \<noteq> [] \<and> int (length d) \<le> NetMessage_getReadCap m \<and> NetMessage_getReadCap m \<le> INT_MAX
     \<and> \<not> NetMessage_isEnd m
     \<and> (case feed M d m of Inl e \<Rightarrow> False | Inr m' \<Rightarrow> admissible M ds m')"

lemma admissible_append:
  "admissible M (ds @ es) m \<longleftrightarrow>
     admissible M ds m \<and> (case feeds M ds m of Inl e \<Rightarrow> False | Inr m' \<Rightarrow> admissible M es m')"
  by (induction ds arbitrary: m) (auto split: sum.splits simp: bindE_def)

lemma admissible_feeds: "admissible M ds m \<Longrightarrow> \<exists>m'. feeds M ds m = Inr m'"
  by (induction ds arbitrary: m) (auto split: sum.splits)

lemma store_twice:
  assumes "NetMessage_store m p xs = Inr m'"
  shows "NetMessage_store m' p xs = Inr m'"
proof -
  from assms obtain b bs where b: "m_buffer m = Some b" "mb_buf b = Some bs"
    "0 \<le> p" "p + int (length xs) \<le> int (length bs)"
    and m': "m' = m\<lparr>m_buffer := Some (b\<lparr>mb_buf := Some (overwrite (nat p) xs bs)\<rparr>)\<rparr>"
    by (auto simp: NetMessage_store_def MemBuffer_store_def buf_write_def bindE_eq_Inr
        split: option.splits if_splits)
  have fits: "nat p + length xs \<le> length bs" using b(3,4) by simp
  have "overwrite (nat p) xs (overwrite (nat p) xs bs) = overwrite (nat p) xs bs"
    using fits by (simp add: overwrite_def)
  then show ?thesis
    using m' b fits by (simp add: NetMessage_store_def MemBuffer_store_def buf_write_def)
qed

lemma store_size: "NetMessage_store m p xs = Inr m' \<Longrightarrow> m_size m' = m_size m \<and> m_curPos m' = m_curPos m"
  by (auto simp: NetMessage_store_def bindE_eq_Inr split: option.splits)

text \<open>One turn of the receive loop delivers one piece to the message being received.\<close>

lemma recv_loop_step:
  assumes "polled cm s" and "sc_in (st_os s) = (d @ e) # ds"
    and "recv_target (script_sys M) cm s = Inr (a, cm1, s1)" and "m_pSocket cm1 = m_pSocket cm"
    and "st_os s1 = st_os s" and "st_msgs s1 a = Some m" and "admissible M (d # es) m" and "feed M d m = Inr m'"
    and "e \<noteq> [] \<Longrightarrow> int (length d) = NetMessage_getReadCap m"
  shows "recv_loop (script_sys M) (Suc f) cm s
         = recv_loop (script_sys M) f
             (repoll cm1 (s1\<lparr>st_os := (st_os s)\<lparr>sc_in := pushback e ds\<rparr>\<rparr>))
             (s1\<lparr>st_msgs := (st_msgs s1)(a \<mapsto> m'), st_os := (st_os s)\<lparr>sc_in := pushback e ds\<rparr>\<rparr>)"
proof -
  from assms(1,2) obtain sk where sk: "m_pSocket cm = Some sk" "m_readFlag sk" "0 \<le> m_socket sk"
    "m_socket sk < FD_SETSIZE" by (auto simp: polled_def split: option.splits)
  from assms(8) obtain m1 where m1: "NetMessage_store m (m_curPos m) d = Inr m1"
    "NetMessage_onReceive M (int (length d)) m1 = Inr m'" by (auto simp: feed_def bindE_eq_Inr)
  have dec: "(if m_size m1 \<ge> 0 then NetMessage_store m1 (m_curPos m1) (CM_DecodeBuf cm1 d) else Inr m1) = Inr m1"
    using store_twice [OF m1(1)] store_size [OF m1(1)] by (simp add: CM_DecodeBuf_def)
  have d: "d \<noteq> []" "int (length d) \<le> NetMessage_getReadCap m" "NetMessage_getReadCap m \<le> INT_MAX"
    using assms(7) by auto
  have cap: "length d \<le> c_size_t (NetMessage_getReadCap m)"
    "e \<noteq> [] \<Longrightarrow> c_size_t (NetMessage_getReadCap m) = length d" using d assms(9) by (simp_all add: le_nat_iff)
  let ?w = "(st_os s)\<lparr>sc_in := pushback e ds\<rparr>"
  have rcv: "CSocketCommon_Recv (script_sys M) (NetMessage_getReadCap m) sk (st_os s1)
             = ((int (length d), d), ?w)"
    using assms(2,5) cap by (cases "e = []") (simp_all add: CSocketCommon_Recv_def script_sys_def script_recv_def pushback_def)
  have "valid_socket cm1" using sk assms(4) by (simp add: valid_socket_def)
  note chk = CheckState_script [OF this, of M]
  have put: "put_msg a m' (put_msg a m1 (s1\<lparr>st_os := ?w\<rparr>))
      = s1\<lparr>st_msgs := (st_msgs s1)(a \<mapsto> m'), st_os := ?w\<rparr>" by (simp add: put_msg_def)
  have rp: "repoll cm1 (s1\<lparr>st_msgs := (st_msgs s1)(a \<mapsto> m'), st_os := ?w\<rparr>) = repoll cm1 (s1\<lparr>st_os := ?w\<rparr>)"
    by (simp add: repoll_def)
  have gm: "get_msg a s1 = Inr m" using assms(6) by (simp add: get_msg_def)
  show ?thesis
    using sk(1,2) assms(3) gm rcv m1 d(1) dec chk put rp by (simp add: Let_def)
qed

lemma polled_repoll: "polled cm s \<Longrightarrow> repoll cm s = cm"
  by (cases cm) (auto simp: polled_def repoll_def split: option.splits)

lemma polled_after: "valid_socket cm \<Longrightarrow> polled (repoll cm s) s"
  by (auto simp: polled_def repoll_def valid_socket_def split: option.splits)

lemma polled_valid: "polled cm s \<Longrightarrow> valid_socket cm"
  by (auto simp: polled_def valid_socket_def split: option.splits)

lemma polled_cong: "polled cm s \<Longrightarrow> st_os s' = st_os s \<Longrightarrow> polled cm s'"
  by (auto simp: polled_def split: option.splits)

lemma recv_target_current:
  assumes "m_recvList cm \<noteq> []" and "st_msgs s (last (m_recvList cm)) = Some m" and "\<not> NetMessage_isEnd m"
  shows "recv_target S cm s = Inr (last (m_recvList cm), cm, s)"
  using assms by (simp add: recv_target_def get_msg_def)

text \<open>\<open>takes M ds m ps rest\<close>: reading for \<open>m\<close> from the pieces \<open>ps\<close> delivers \<open>ds\<close> and leaves \<open>rest\<close>.\<close>

fun takes :: "malloc \<Rightarrow> byte list list \<Rightarrow> NetMessage \<Rightarrow> byte list list \<Rightarrow> byte list list \<Rightarrow> bool" where
  "takes M [] m ps rest \<longleftrightarrow> ps = rest"
| "takes M (d # ds) m ps rest \<longleftrightarrow>
     (\<exists>e qs. ps = (d @ e) # qs \<and> (e \<noteq> [] \<longrightarrow> int (length d) = NetMessage_getReadCap m)
       \<and> (case feed M d m of Inl _ \<Rightarrow> False | Inr m' \<Rightarrow> takes M ds m' (pushback e qs) rest))"

lemma takes_append:
  "takes M (ds @ es) m ps rest \<longleftrightarrow>
     (\<exists>mid m'. takes M ds m ps mid \<and> feeds M ds m = Inr m' \<and> takes M es m' mid rest)"
proof (induction ds arbitrary: m ps)
  case (Cons d ds)
  show ?case
  proof (cases "feed M d m")
    case (Inr m1)
    then show ?thesis by (simp add: Cons.IH) blast
  qed simp
qed simp

lemma recv_current:
  "admissible M ds m \<Longrightarrow> feeds M ds m = Inr m' \<Longrightarrow> polled cm s \<Longrightarrow> m_recvList cm \<noteq> [] \<Longrightarrow>
   last (m_recvList cm) = a \<Longrightarrow> st_msgs s a = Some m \<Longrightarrow> takes M ds m (sc_in (st_os s)) rest \<Longrightarrow>
   s' = s\<lparr>st_msgs := (st_msgs s)(a \<mapsto> m'), st_os := (st_os s)\<lparr>sc_in := rest\<rparr>\<rparr> \<Longrightarrow>
   recv_loop (script_sys M) (length ds + f) cm s = recv_loop (script_sys M) f (repoll cm s') s'"
proof (induction ds arbitrary: m cm s)
  case Nil
  then have "s' = s" by (cases s) (auto simp: fun_upd_idem)
  then show ?case using Nil.prems(3) by (simp add: polled_repoll)
next
  case (Cons d ds)
  from Cons.prems(1) obtain m1 where m1: "feed M d m = Inr m1" "admissible M ds m1"
    by (auto split: sum.splits)
  from Cons.prems(7) m1(1) obtain e qs where e: "sc_in (st_os s) = (d @ e) # qs"
    "e \<noteq> [] \<Longrightarrow> int (length d) = NetMessage_getReadCap m" "takes M ds m1 (pushback e qs) rest" by auto
  let ?w = "(st_os s)\<lparr>sc_in := pushback e qs\<rparr>"
  let ?s = "s\<lparr>st_msgs := (st_msgs s)(a \<mapsto> m1), st_os := ?w\<rparr>"
  let ?cm = "repoll cm (s\<lparr>st_os := ?w\<rparr>)"
  have tgt: "recv_target (script_sys M) cm s = Inr (a, cm, s)"
    using recv_target_current [of cm s m] Cons.prems by simp
  have "recv_loop (script_sys M) (Suc (length ds + f)) cm s = recv_loop (script_sys M) (length ds + f) ?cm ?s"
    using recv_loop_step [OF Cons.prems(3) e(1) tgt refl refl Cons.prems(6,1) m1(1) e(2), of "length ds + f"] by simp
  also have "\<dots> = recv_loop (script_sys M) f (repoll ?cm s') s'"
  proof (rule Cons.IH [OF m1(2)])
    show "feeds M ds m1 = Inr m'" using Cons.prems(2) m1(1) by simp
    show "polled ?cm ?s"
      using polled_after [OF polled_valid [OF Cons.prems(3)], of "s\<lparr>st_os := ?w\<rparr>"]
      by (rule polled_cong) simp
    show "s' = ?s\<lparr>st_msgs := (st_msgs ?s)(a \<mapsto> m'), st_os := (st_os ?s)\<lparr>sc_in := rest\<rparr>\<rparr>"
      using Cons.prems(8) by (simp add: fun_upd_def fun_eq_iff)
  qed (use Cons.prems e(3) in simp_all)
  finally show ?case by simp
qed

text \<open>A new message has a buffer from the pool and waits for its header.\<close>

lemma NetMessage_new_ok:
  assumes "malloc_serves M (nat INT_MAX)" and "pool_wf p" and "NetMessage_new M 512 p = (m, p')"
  shows "nm_wf m \<and> waiting m \<and> pool_wf p' \<and> 512 \<le> (case m_buffer m of None \<Rightarrow> 0 | Some b \<Rightarrow> mb_size b)"
proof -
  obtain b q where b: "pool_require M 512 (pool_getInstance p) = (b, q)" by fastforce
  then have "pool_wf q \<and> mb_wf b \<and> 512 \<le> mb_size b"
    using pool.require_ok [OF assms(1) _ _ _ b] assms(2) by (simp add: INT_MAX_def)
  with b assms(3) show ?thesis
    by (auto simp: NetMessage_new_def NetMessage_createBuf_def nm_wf_def mb_wf_def waiting_def)
qed

lemma frame_admissible:
  assumes "malloc_serves M (nat INT_MAX)" and "nm_wf m" and "waiting m"
    and "512 \<le> (case m_buffer m of None \<Rightarrow> 0 | Some b \<Rightarrow> mb_size b)"
    and "4 + int n \<le> POS_MAX" and "length (concat cs) = n" and "\<forall>c \<in> set cs. c \<noteq> []"
  shows "admissible M (frame_head n @ cs) m
         \<and> (\<forall>ps mid rest. head_reads (frame_head n) ps mid \<longrightarrow> body_reads cs mid rest \<longrightarrow>
              takes M (frame_head n @ cs) m ps rest)
         \<and> (\<exists>m'. feeds M (frame_head n @ cs) m = Inr m' \<and> received n (concat cs) m')"
proof -
  from assms(2) obtain bs where bs: "m = with_bytes m bs" "int (length bs) \<le> INT_MAX"
    by (rule nm_wfE)
  have "m_buffer m = Some \<lparr>mb_size = int (length bs), mb_buf = Some bs\<rparr>"
    using bs(1) by (metis with_bytes_simps(5))
  then have len: "512 \<le> length bs" using assms(4) by simp
  from received_head [OF assms(3,1) len bs(2) assms(5)] bs(1) obtain m1 where
    m1: "feeds M (frame_head n) m = Inr m1" "received n [] m1" by auto
  have body: "admissible M es x \<and> (\<forall>ps rest. body_reads es ps rest \<longrightarrow> takes M es x ps rest)"
    if "received n c x" "length c + length (concat es) = n" "\<forall>e \<in> set es. e \<noteq> []" for c x es
    using that
  proof (induction es arbitrary: c x)
    case Nil
    then show ?case by simp
  next
    case (Cons e es)
    from received_feed [OF Cons.prems(1), of e M] Cons.prems(2) obtain y where
      y: "feed M e x = Inr y" "received n (c @ e) y" by auto
    have "admissible M es y \<and> (\<forall>ps rest. body_reads es ps rest \<longrightarrow> takes M es y ps rest)"
      using Cons.IH [OF y(2)] Cons.prems by simp
    moreover have "\<not> NetMessage_isEnd x"
      using received_isEnd [OF Cons.prems(1)] Cons.prems(2,3) by auto
    moreover have "int n \<le> INT_MAX" using assms(5) by (simp add: POS_MAX_def INT_MAX_def)
    ultimately show ?case
      using y(1) Cons.prems received_getReadCap [OF Cons.prems(1)] by fastforce
  qed
  have w: "m_size m = -1" "m_headSize m = 2" "m_curPos m = 0" using assms(3) by (simp_all add: waiting_def)
  have "admissible M (frame_head n) m
    \<and> (\<forall>ps mid. head_reads (frame_head n) ps mid \<longrightarrow> takes M (frame_head n) m ps mid)"
  proof (cases "n < 0xFFFF")
    case True
    with m1(1) w show ?thesis
      by (auto simp: frame_head_def NetMessage_getReadCap_def NetMessage_isEnd_def INT_MAX_def
          be_bytes_unfold bindE_eq_Inr split: sum.splits)
  next
    case False
    have "feed M (be_bytes 2 (0xFFFF :: 16 word)) m
        = Inr (with_bytes (m\<lparr>m_size := -2, m_headSize := 4, m_curPos := 0\<rparr>)
                 (overwrite 0 (be_bytes 2 (0xFFFF :: 16 word)) bs))"
      by (subst bs(1)) (rule feed_head_marker [OF assms(3) len bs(2)])
    moreover obtain y where "feed M (be_bytes 2 (0xFFFF :: 16 word)) m = Inr y"
      "feed M (be_bytes 4 (word_of_int (int n) :: 32 word)) y = Inr m1"
      using m1(1) False by (auto simp: frame_head_def bindE_eq_Inr)
    moreover have "be_bytes 2 (0xFFFF :: 16 word) \<noteq> []" "be_bytes 4 (word_of_int (int n) :: 32 word) \<noteq> []"
      by (simp_all add: be_bytes_unfold)
    ultimately show ?thesis
      using False w by (auto simp: frame_head_def NetMessage_getReadCap_def NetMessage_isEnd_def INT_MAX_def)
  qed
  moreover have "admissible M cs m1" "\<forall>ps rest. body_reads cs ps rest \<longrightarrow> takes M cs m1 ps rest"
    using body [OF m1(2)] assms(6,7) by simp_all
  moreover have "\<exists>m'. feeds M cs m1 = Inr m' \<and> received n (concat cs) m'"
    using received_feeds [OF m1(2), of cs M] assms(6) by auto
  ultimately show ?thesis using m1(1)
    by (simp add: admissible_append feeds_append takes_append) blast
qed

text \<open>No message is half received: the next byte starts a new one.\<close>

definition recv_idle :: "CConnectionManager \<Rightarrow> 'w st \<Rightarrow> bool" where
  "recv_idle cm s \<longleftrightarrow> m_recvList cm = [] \<or>
     (\<exists>m. st_msgs s (last (m_recvList cm)) = Some m \<and> NetMessage_isEnd m)"

lemma recv_target_new:
  assumes "recv_idle cm s" and "NetMessage_new M 512 (st_pool s) = (m, p)"
  shows "recv_target (script_sys M) cm s =
     Inr (st_next s, cm\<lparr>m_recvList := m_recvList cm @ [st_next s]\<rparr>,
          s\<lparr>st_pool := p, st_msgs := (st_msgs s)(st_next s \<mapsto> m), st_next := Suc (st_next s)\<rparr>)"
  using assms by (auto simp: recv_target_def recv_idle_def get_msg_def new_msg_def)

lemma frame_head_Cons: "\<exists>d ds. frame_head n = d # ds"
  by (simp add: frame_head_def)

lemma recv_message:
  assumes "malloc_serves M (nat INT_MAX)" and "pool_wf (st_pool s)" and "polled cm s" and "recv_idle cm s"
    and "head_reads (frame_head n) (sc_in (st_os s)) mid" and "body_reads cs mid rest"
    and "4 + int n \<le> POS_MAX" and "length (concat cs) = n" and "[] \<notin> set cs"
  obtains m p where "received n (concat cs) m" and "pool_wf p"
    and "\<And>f s'. s' = s\<lparr>st_pool := p, st_msgs := (st_msgs s)(st_next s \<mapsto> m), st_next := Suc (st_next s),
             st_os := (st_os s)\<lparr>sc_in := rest\<rparr>\<rparr> \<Longrightarrow>
           recv_loop (script_sys M) (length (frame_head n @ cs) + f) cm s
           = recv_loop (script_sys M) f (repoll (cm\<lparr>m_recvList := m_recvList cm @ [st_next s]\<rparr>) s') s'"
proof -
  obtain m0 p where new: "NetMessage_new M 512 (st_pool s) = (m0, p)" by fastforce
  note ok = NetMessage_new_ok [OF assms(1,2) new]
  obtain d ds0 where h: "frame_head n = d # ds0" using frame_head_Cons by blast
  define ds where "ds = ds0 @ cs"
  have hd: "frame_head n @ cs = d # ds" by (simp add: h ds_def)
  have ne: "\<forall>c \<in> set cs. c \<noteq> []" using assms(9) by auto
  from ok have "nm_wf m0" "waiting m0" "512 \<le> (case m_buffer m0 of None \<Rightarrow> 0 | Some b \<Rightarrow> mb_size b)" by simp_all
  from frame_admissible [OF assms(1) this assms(7,8) ne, unfolded hd] assms(5,6) obtain m where
    adm: "admissible M (d # ds) m0" and fd: "feeds M (d # ds) m0 = Inr m" and rc: "received n (concat cs) m"
    and tk: "takes M (d # ds) m0 (sc_in (st_os s)) rest"
    by blast
  from adm obtain m1 where m1: "feed M d m0 = Inr m1" "admissible M ds m1" by (auto split: sum.splits)
  from tk m1(1) obtain e qs where e: "sc_in (st_os s) = (d @ e) # qs"
    "e \<noteq> [] \<Longrightarrow> int (length d) = NetMessage_getReadCap m0" "takes M ds m1 (pushback e qs) rest" by auto
  let ?a = "st_next s" and ?cm = "cm\<lparr>m_recvList := m_recvList cm @ [st_next s]\<rparr>"
  let ?s1 = "s\<lparr>st_pool := p, st_msgs := (st_msgs s)(?a \<mapsto> m0), st_next := Suc ?a\<rparr>"
  let ?w = "(st_os s)\<lparr>sc_in := pushback e qs\<rparr>"
  let ?s2 = "?s1\<lparr>st_msgs := (st_msgs ?s1)(?a \<mapsto> m1), st_os := ?w\<rparr>"
  have "recv_loop (script_sys M) (length (frame_head n @ cs) + f) cm s
      = recv_loop (script_sys M) f (repoll ?cm s') s'"
    if s': "s' = s\<lparr>st_pool := p, st_msgs := (st_msgs s)(?a \<mapsto> m), st_next := Suc ?a,
             st_os := (st_os s)\<lparr>sc_in := rest\<rparr>\<rparr>" for f s'
  proof -
    have "recv_loop (script_sys M) (Suc (length ds + f)) cm s
        = recv_loop (script_sys M) (length ds + f) (repoll ?cm (?s1\<lparr>st_os := ?w\<rparr>)) ?s2"
      using recv_loop_step [OF assms(3) e(1) recv_target_new [OF assms(4) new] _ _ _ adm m1(1) e(2),
          of "length ds + f"] by simp
    also have "\<dots> = recv_loop (script_sys M) f (repoll (repoll ?cm (?s1\<lparr>st_os := ?w\<rparr>)) s') s'"
    proof (rule recv_current [OF m1(2), where m' = m and a = ?a])
      show "feeds M ds m1 = Inr m" using fd m1(1) by simp
      have "valid_socket ?cm" using polled_valid [OF assms(3)] by (simp add: valid_socket_def)
      from polled_after [OF this] show "polled (repoll ?cm (?s1\<lparr>st_os := ?w\<rparr>)) ?s2"
        by (rule polled_cong) simp
      show "s' = ?s2\<lparr>st_msgs := (st_msgs ?s2)(?a \<mapsto> m), st_os := (st_os ?s2)\<lparr>sc_in := rest\<rparr>\<rparr>"
        using s' by (simp add: fun_upd_def fun_eq_iff)
    qed (use e(3) in simp_all)
    finally show ?thesis by (simp add: hd)
  qed
  with rc ok that show ?thesis by blast
qed

text \<open>
  The offsets inside the headers of a stream of frames with the payloads \<open>bs\<close>, the first of which starts
  at offset \<open>o\<close>: a two-byte header must not be cut, nor the two and the four bytes of a long one.
\<close>

fun head_inside :: "nat \<Rightarrow> byte list list \<Rightarrow> nat set" where
  "head_inside off [] = {}"
| "head_inside off (b # bs) = (+) off ` inside (frame_head (length b)) \<union> head_inside (off + length (frame b)) bs"

definition heads_whole :: "byte list list \<Rightarrow> byte list list \<Rightarrow> bool" where
  "heads_whole bs ps \<longleftrightarrow> cuts ps \<inter> head_inside 0 bs = {}"

lemma head_inside_shift: "head_inside off bs = (+) off ` head_inside 0 bs"
proof (induction bs arbitrary: off)
  case (Cons b bs)
  show ?case using Cons [of "off + length (frame b)"] Cons [of "length (frame b)"]
    by (simp add: image_Un image_image add.assoc)
qed simp

lemma head_inside_pos: "x \<in> head_inside off bs \<Longrightarrow> 0 < x"
  by (induction off bs rule: head_inside.induct) (auto dest: inside_pos)

lemma frame_head_pieces: "[] \<notin> set (frame_head n)" "frame b = concat (frame_head (length b)) @ b"
  by (auto simp: frame_head_def be_bytes_unfold frame_def)

lemma heads_whole_tail:
  assumes "heads_whole (b # bs) ps" and "\<And>x. x \<in> cuts rest \<Longrightarrow> 0 < x \<Longrightarrow> length (frame b) + x \<in> cuts ps"
  shows "heads_whole bs rest"
  unfolding heads_whole_def
proof (rule ccontr)
  assume "cuts rest \<inter> head_inside 0 bs \<noteq> {}"
  then obtain x where x: "x \<in> cuts rest" "x \<in> head_inside 0 bs" by blast
  then have "length (frame b) + x \<in> head_inside 0 (b # bs)"
    using head_inside_shift [of "length (frame b)" bs] by auto
  with assms(1) assms(2) [OF x(1) head_inside_pos [OF x(2)]] show False by (auto simp: heads_whole_def)
qed

lemma frame_reads:
  assumes "heads_whole (b # bs) ps" and "[] \<notin> set ps" and "concat ps = frame b @ r"
  obtains mid cs rest where "head_reads (frame_head (length b)) ps mid" and "body_reads cs mid rest"
    and "concat cs = b" and "[] \<notin> set cs" and "[] \<notin> set rest" and "concat rest = r" and "heads_whole bs rest"
proof -
  let ?h = "frame_head (length b)"
  have "concat ps = concat ?h @ (b @ r)" "cuts ps \<inter> inside ?h = {}"
    using assms(1,3) by (auto simp: frame_head_pieces(2) heads_whole_def)
  from header_reads [OF assms(2) this(1) frame_head_pieces(1) this(2)] obtain mid where
    mid: "head_reads ?h ps mid" "concat mid = b @ r" "[] \<notin> set mid"
    "\<forall>x \<in> cuts mid. 0 < x \<longrightarrow> length (concat ?h) + x \<in> cuts ps" by blast
  from payload_reads [OF mid(3,2)] obtain cs rest where
    c: "body_reads cs mid rest" "concat cs = b" "[] \<notin> set cs" "concat rest = r" "[] \<notin> set rest"
    "\<forall>x \<in> cuts rest. 0 < x \<longrightarrow> length b + x \<in> cuts mid" by blast
  have "length (frame b) + x \<in> cuts ps" if "x \<in> cuts rest" "0 < x" for x
    using mid(4) c(6) that by (simp add: frame_head_pieces(2) add.assoc)
  from that [OF mid(1) c(1,2,3,5,4) heads_whole_tail [OF assms(1) this]] show thesis by blast
qed

definition holds_payload :: "'w st \<Rightarrow> nat \<Rightarrow> byte list \<Rightarrow> bool" where
  "holds_payload s a d \<longleftrightarrow> (case st_msgs s a of None \<Rightarrow> False | Some m \<Rightarrow> received (length d) d m)"

text \<open>The payload of a frame is short enough for the position arithmetic of the message.\<close>

definition deliverable :: "byte list \<Rightarrow> bool" where
  "deliverable b \<longleftrightarrow> 4 + int (length b) \<le> POS_MAX"

lemma received_complete: "received n d m \<Longrightarrow> length d = n \<Longrightarrow> NetMessage_isEnd m"
  using received_isEnd by simp

lemma pieces_le: "[] \<notin> set cs \<Longrightarrow> length cs \<le> length (concat cs)"
proof (induction cs)
  case (Cons c cs)
  then have "1 \<le> length c" "length cs \<le> length (concat cs)" by (auto simp: Suc_le_eq)
  then show ?case by simp
qed simp

lemma recv_messages:
  "malloc_serves M (nat INT_MAX) \<Longrightarrow> pool_wf (st_pool s) \<Longrightarrow> polled cm s \<Longrightarrow> recv_idle cm s \<Longrightarrow>
   concat (sc_in (st_os s)) = concat (map frame bs) \<Longrightarrow> [] \<notin> set (sc_in (st_os s)) \<Longrightarrow>
   heads_whole bs (sc_in (st_os s)) \<Longrightarrow> list_all deliverable bs \<Longrightarrow>
   \<exists>k cm' s'. k \<le> length (concat (sc_in (st_os s)))
     \<and> (\<forall>f. recv_loop (script_sys M) (k + Suc f) cm s = Inr (True, cm', s'))
     \<and> m_recvList cm' = m_recvList cm @ [st_next s ..< st_next s + length bs]
     \<and> m_sendList cm' = m_sendList cm \<and> m_netState cm' = m_netState cm
     \<and> st_os s' = (st_os s)\<lparr>sc_in := []\<rparr> \<and> (\<forall>a < st_next s. st_msgs s' a = st_msgs s a)
     \<and> list_all2 (holds_payload s') [st_next s ..< st_next s + length bs] bs"
proof (induction bs arbitrary: cm s)
  case Nil
  have "sc_in (st_os s) = []" using Nil.prems(5,6) by (cases "sc_in (st_os s)") auto
  moreover from this Nil.prems(3) have "recv_loop (script_sys M) (0 + Suc f) cm s = Inr (True, cm, s)" for f
    by (auto simp: polled_def split: option.splits)
  ultimately show ?case by (intro exI [of _ 0] exI [of _ cm] exI [of _ s]) simp
next
  case (Cons b bs)
  let ?n = "length b" and ?a = "st_next s" and ?r = "concat (map frame bs)"
  have "concat (sc_in (st_os s)) = frame b @ ?r" using Cons.prems(5) by simp
  from frame_reads [OF Cons.prems(7,6) this] obtain mid cs rest where
    rd: "head_reads (frame_head ?n) (sc_in (st_os s)) mid" "body_reads cs mid rest" and
    cs: "concat cs = b" "[] \<notin> set cs" "[] \<notin> set rest" "concat rest = ?r" "heads_whole bs rest" by blast
  have "4 + int ?n \<le> POS_MAX" using Cons.prems(8) by (simp add: deliverable_def)
  from recv_message [OF Cons.prems(1-4) rd this _ cs(2)] cs(1) obtain m p where
    m: "received ?n b m" "pool_wf p" and
    step: "\<And>f s'. s' = s\<lparr>st_pool := p, st_msgs := (st_msgs s)(?a \<mapsto> m), st_next := Suc ?a,
             st_os := (st_os s)\<lparr>sc_in := rest\<rparr>\<rparr> \<Longrightarrow>
           recv_loop (script_sys M) (length (frame_head ?n @ cs) + f) cm s
           = recv_loop (script_sys M) f (repoll (cm\<lparr>m_recvList := m_recvList cm @ [?a]\<rparr>) s') s'"
    by blast
  define s1 where "s1 = s\<lparr>st_pool := p, st_msgs := (st_msgs s)(?a \<mapsto> m), st_next := Suc ?a,
             st_os := (st_os s)\<lparr>sc_in := rest\<rparr>\<rparr>"
  let ?cm1 = "repoll (cm\<lparr>m_recvList := m_recvList cm @ [?a]\<rparr>) s1"
  have v: "valid_socket (cm\<lparr>m_recvList := m_recvList cm @ [?a]\<rparr>)"
    using polled_valid [OF Cons.prems(3)] by (simp add: valid_socket_def)
  have idle: "recv_idle ?cm1 s1"
    using received_complete [OF m(1) refl] by (simp add: recv_idle_def s1_def)
  have os1: "sc_in (st_os s1) = rest" by (simp add: s1_def)
  from Cons.IH [OF Cons.prems(1) _ polled_after [OF v] idle, unfolded os1] Cons.prems(8) m(2) cs obtain k cm' s' where
    ih: "k \<le> length (concat rest)" "\<And>f. recv_loop (script_sys M) (k + Suc f) ?cm1 s1 = Inr (True, cm', s')"
    "m_recvList cm' = m_recvList ?cm1 @ [Suc ?a ..< Suc ?a + length bs]"
    "m_sendList cm' = m_sendList cm" "m_netState cm' = m_netState cm"
    "st_os s' = (st_os s)\<lparr>sc_in := []\<rparr>" "\<forall>a < Suc ?a. st_msgs s' a = st_msgs s1 a"
    "list_all2 (holds_payload s') [Suc ?a ..< Suc ?a + length bs] bs"
    by (auto simp: s1_def)
  let ?k = "length (frame_head ?n @ cs) + k"
  have "recv_loop (script_sys M) (?k + Suc f) cm s = Inr (True, cm', s')" for f
    unfolding add.assoc by (subst step [OF s1_def]) (rule ih(2))
  moreover have "?k \<le> length (concat (sc_in (st_os s)))"
    using pieces_le [OF frame_head_pieces(1), of ?n] pieces_le [OF cs(2)] ih(1)
    unfolding Cons.prems(5) cs(1,4) by (simp add: frame_head_pieces(2) [of b])
  moreover have "holds_payload s' ?a b"
    using ih(7) m(1) by (simp add: holds_payload_def s1_def)
  moreover have "\<forall>a < ?a. st_msgs s' a = st_msgs s a" using ih(7) by (simp add: s1_def)
  moreover have "[?a ..< ?a + length (b # bs)] = ?a # [Suc ?a ..< Suc ?a + length bs]"
    by (subst upt_conv_Cons) simp_all
  ultimately show ?case using ih(3-8)
    by (intro exI [of _ ?k] exI [of _ cm'] exI [of _ s']) (simp del: recv_loop.simps)
qed

section \<open>Sending\<close>

text \<open>\<open>b\<close> are the bytes of the message that have still to be sent.\<close>

definition unsent :: "byte list \<Rightarrow> NetMessage \<Rightarrow> bool" where
  "unsent b m \<longleftrightarrow> nm_wf m \<and> 0 \<le> m_size m
     \<and> NetMessage_read m (m_curPos m) (NetMessage_getSendCap m) = Inr b"

lemma unsentE:
  assumes "unsent b m"
  obtains bs where "m = with_bytes m bs" and "0 \<le> m_curPos m" and "int (length bs) \<le> INT_MAX"
    and "nat (m_curPos m) + length b \<le> length bs" and "b = seg (nat (m_curPos m)) (length b) bs"
    and "NetMessage_getSendCap m = int (length b)"
proof -
  from assms obtain bs where bs: "m = with_bytes m bs" "0 \<le> m_curPos m" "int (length bs) \<le> INT_MAX"
    by (auto simp: unsent_def elim: nm_wfE)
  have "m_buffer m = Some \<lparr>mb_size = int (length bs), mb_buf = Some bs\<rparr>"
    using bs(1) by (metis with_bytes_simps(5))
  with assms have c: "0 \<le> NetMessage_getSendCap m" "m_curPos m + NetMessage_getSendCap m \<le> int (length bs)"
    "b = seg (nat (m_curPos m)) (nat (NetMessage_getSendCap m)) bs"
    by (auto simp: unsent_def NetMessage_read_def MemBuffer_read_def buf_slice_def split: if_splits)
  have fits: "nat (m_curPos m) + nat (NetMessage_getSendCap m) \<le> length bs" using bs(2) c(1,2) by linarith
  then have len: "length b = nat (NetMessage_getSendCap m)" using c(3) by simp
  show thesis by (rule that [OF bs]) (use c fits len in simp_all)
qed

lemma unsent_isEnd: "unsent b m \<Longrightarrow> NetMessage_isEnd m \<longleftrightarrow> b = []"
  by (rule unsentE, assumption) (auto simp: unsent_def NetMessage_isEnd_def NetMessage_getSendCap_def)

lemma unsent_onSend:
  assumes "unsent b m" and "k \<le> length b"
  shows "\<exists>m'. NetMessage_onSend (int k) m = Inr m' \<and> unsent (drop k b) m'"
proof -
  from assms(1) obtain bs where bs: "m = with_bytes m bs" "0 \<le> m_curPos m" "int (length bs) \<le> INT_MAX"
    "nat (m_curPos m) + length b \<le> length bs" "b = seg (nat (m_curPos m)) (length b) bs"
    "NetMessage_getSendCap m = int (length b)" by (rule unsentE)
  have buf: "m_buffer m = Some \<lparr>mb_size = int (length bs), mb_buf = Some bs\<rparr>"
    using bs(1) by (metis with_bytes_simps(5))
  let ?m = "m\<lparr>m_curPos := m_curPos m + int k\<rparr>"
  have "in_int (m_curPos m + int k)"
    using bs(2,3,4) assms(2) by (simp add: in_int_def INT_MIN_def INT_MAX_def)
  then have 1: "NetMessage_onSend (int k) m = Inr ?m" by (simp add: NetMessage_onSend_def)
  have cap: "NetMessage_getSendCap ?m = int (length b - k)"
    using bs(6) assms(2) by (simp add: NetMessage_getSendCap_def of_nat_diff)
  have pos: "nat (m_curPos m + int k) = nat (m_curPos m) + k" using bs(2) by simp
  have "drop k b = seg (nat (m_curPos m) + k) (length b - k) bs"
    using drop_seg [OF assms(2), of "nat (m_curPos m)" bs] bs(5) by simp
  then have "NetMessage_read ?m (m_curPos ?m) (NetMessage_getSendCap ?m) = Inr (drop k b)"
    using bs(2,4) assms(2) buf cap pos
    by (simp add: NetMessage_read_def MemBuffer_read_def buf_slice_def del: of_nat_diff)
  moreover have "nm_wf ?m" using assms buf bs(2,3,4) by (auto simp: unsent_def nm_wf_def mb_wf_def)
  ultimately show ?thesis using 1 assms(1) by (auto simp: unsent_def)
qed

lemma send_bytes_all:
  "unsent b m \<Longrightarrow> m_pSocket cm \<noteq> None \<Longrightarrow> st_msgs s a = Some m \<Longrightarrow> length b < fuel \<Longrightarrow>
   \<exists>m' qs. send_bytes (script_sys M) fuel a cm s
       = Inr (True, cm, s\<lparr>st_msgs := (st_msgs s)(a \<mapsto> m'),
                         st_os := (st_os s)\<lparr>sc_out := sc_out (st_os s) @ b, sc_quota := qs\<rparr>\<rparr>)
     \<and> unsent [] m'"
proof (induction fuel arbitrary: b m s)
  case 0
  then show ?case by simp
next
  case (Suc fuel)
  show ?case
  proof (cases "b = []")
    case True
    have "s = s\<lparr>st_msgs := (st_msgs s)(a \<mapsto> m), st_os := (st_os s)\<lparr>sc_out := sc_out (st_os s) @ [], sc_quota := sc_quota (st_os s)\<rparr>\<rparr>"
      using Suc.prems(3) by (cases s) (simp add: fun_upd_idem)
    moreover have "send_bytes (script_sys M) (Suc fuel) a cm s = Inr (True, cm, s)"
      using Suc.prems True unsent_isEnd by (simp add: get_msg_def)
    ultimately show ?thesis using True Suc.prems(1) by metis
  next
    case False
    from Suc.prems(2) obtain sk where sk: "m_pSocket cm = Some sk" by auto
    from Suc.prems(1) have cap: "NetMessage_getSendCap m = int (length b)" and mx: "int (length b) \<le> INT_MAX"
      by (auto elim!: unsentE)
    have rd: "NetMessage_read m (m_curPos m) (int (c_size_t (NetMessage_getSendCap m))) = Inr b"
      using Suc.prems(1) cap mx by (simp add: unsent_def)
    obtain k qs where k: "0 < k" "k \<le> length b"
      "script_send (m_socket sk) b (st_os s)
       = (int k, (st_os s)\<lparr>sc_out := sc_out (st_os s) @ take k b, sc_quota := qs\<rparr>)"
    proof (cases "sc_quota (st_os s)")
      case Nil
      then show ?thesis using that [of "length b" "sc_quota (st_os s)"] False
        by (cases "st_os s") (simp add: script_send_def)
    next
      case (Cons q qs)
      then show ?thesis using that [of "min (Suc q) (length b)" qs] False by (simp add: script_send_def Let_def)
    qed
    let ?w = "(st_os s)\<lparr>sc_out := sc_out (st_os s) @ take k b, sc_quota := qs\<rparr>"
    from unsent_onSend [OF Suc.prems(1) k(2)] obtain m1 where
      m1: "NetMessage_onSend (int k) m = Inr m1" "unsent (drop k b) m1" by blast
    let ?s = "put_msg a m1 (s\<lparr>st_os := ?w\<rparr>)"
    have step: "send_bytes (script_sys M) (Suc fuel) a cm s = send_bytes (script_sys M) fuel a cm ?s"
      using Suc.prems(3) unsent_isEnd [OF Suc.prems(1)] False sk rd k(3) m1(1)
      by (simp add: get_msg_def CSocketCommon_Send_def script_sys_def)
    have "st_msgs ?s a = Some m1" "length (drop k b) < fuel"
      using Suc.prems(4) k(1,2) by (auto simp: put_msg_def)
    from Suc.IH [OF m1(2) Suc.prems(2) this]
    obtain m' qs' where "send_bytes (script_sys M) fuel a cm ?s
       = Inr (True, cm, ?s\<lparr>st_msgs := (st_msgs ?s)(a \<mapsto> m'),
                         st_os := (st_os ?s)\<lparr>sc_out := sc_out (st_os ?s) @ drop k b, sc_quota := qs'\<rparr>\<rparr>)"
       and "unsent [] m'"
      by blast
    moreover have "?s\<lparr>st_msgs := (st_msgs ?s)(a \<mapsto> m'),
                     st_os := (st_os ?s)\<lparr>sc_out := sc_out (st_os ?s) @ drop k b, sc_quota := qs'\<rparr>\<rparr>
        = s\<lparr>st_msgs := (st_msgs s)(a \<mapsto> m'), st_os := (st_os s)\<lparr>sc_out := sc_out (st_os s) @ b, sc_quota := qs'\<rparr>\<rparr>"
      by (cases s) (simp add: put_msg_def)
    ultimately show ?thesis using step by metis
  qed
qed

text \<open>The queue of messages to send: each is live and has the bytes \<open>b\<close> still to send.\<close>

definition to_send :: "'w st \<Rightarrow> nat \<Rightarrow> byte list \<Rightarrow> bool" where
  "to_send s a b \<longleftrightarrow> (case st_msgs s a of None \<Rightarrow> False | Some m \<Rightarrow> unsent b m)"

lemma to_send_cong: "st_msgs s' a = st_msgs s a \<Longrightarrow> to_send s' a b = to_send s a b"
  by (simp add: to_send_def)

lemma delete_sent:
  assumes "unsent [] m" and "st_msgs s a = Some m" and "pool_wf (st_pool s)"
  obtains p where "delete_msg a s = Inr (s\<lparr>st_pool := p, st_msgs := (st_msgs s)(a := None)\<rparr>)" and "pool_wf p"
proof -
  obtain b where b: "m_buffer m = Some b" "mb_wf b"
    using assms(1) by (auto simp: unsent_def nm_wf_def split: option.splits)
  have "pool_wf (pool_release b (pool_getInstance (st_pool s)))"
    using pool.release_ok [of "pool_getInstance (st_pool s)" b] assms(3) b(2) by simp
  with that show thesis using assms(2) b by (auto simp: delete_msg_def get_msg_def NetMessage_delete_def)
qed

lemma send_messages:
  "pool_wf (st_pool s) \<Longrightarrow> polled cm s \<Longrightarrow> sc_writable (st_os s) \<Longrightarrow> distinct (m_sendList cm) \<Longrightarrow>
   list_all2 (to_send s) (m_sendList cm) bs \<Longrightarrow> length (concat bs) + length bs < fuel \<Longrightarrow>
   \<exists>cm' s' qs. send_loop (script_sys M) fuel cm s = Inr (True, cm', s') \<and> polled cm' s'
     \<and> m_sendList cm' = [] \<and> m_recvList cm' = m_recvList cm \<and> m_netState cm' = m_netState cm
     \<and> st_os s' = (st_os s)\<lparr>sc_out := sc_out (st_os s) @ concat bs, sc_quota := qs\<rparr>
     \<and> pool_wf (st_pool s') \<and> st_next s' = st_next s
     \<and> st_msgs s' = (\<lambda>a. if a \<in> set (m_sendList cm) then None else st_msgs s a)"
proof (induction bs arbitrary: cm s fuel)
  case Nil
  then obtain f where "fuel = Suc f" by (cases fuel) auto
  moreover obtain sk where "m_pSocket cm = Some sk"
    using Nil.prems(2) by (auto simp: polled_def split: option.splits)
  ultimately have "send_loop (script_sys M) fuel cm s = Inr (True, cm, s)" using Nil.prems(5) by simp
  then show ?case
    using Nil.prems by (intro exI [of _ cm] exI [of _ s] exI [of _ "sc_quota (st_os s)"]) simp
next
  case (Cons b bs)
  then obtain f where f: "fuel = Suc f" by (cases fuel) auto
  from Cons.prems(5) obtain a as where "m_sendList cm = a # as" "to_send s a b"
    "list_all2 (to_send s) as bs" by (auto simp: list_all2_Cons2)
  then obtain m where as: "m_sendList cm = a # as" "st_msgs s a = Some m" "unsent b m"
    "list_all2 (to_send s) as bs" by (auto simp: to_send_def split: option.splits)
  from Cons.prems(2,3) obtain sk where sk: "m_pSocket cm = Some sk" "m_writeFlag sk"
    by (auto simp: polled_def split: option.splits)
  from send_bytes_all [OF as(3) _ as(2), of cm f M] sk(1) Cons.prems(6) f obtain m' qs where
    sent: "send_bytes (script_sys M) f a cm s
       = Inr (True, cm, s\<lparr>st_msgs := (st_msgs s)(a \<mapsto> m'),
                         st_os := (st_os s)\<lparr>sc_out := sc_out (st_os s) @ b, sc_quota := qs\<rparr>\<rparr>)"
    and m': "unsent [] m'" by auto
  let ?w = "(st_os s)\<lparr>sc_out := sc_out (st_os s) @ b, sc_quota := qs\<rparr>"
  let ?s1 = "s\<lparr>st_msgs := (st_msgs s)(a \<mapsto> m'), st_os := ?w\<rparr>"
  have "st_msgs ?s1 a = Some m'" "pool_wf (st_pool ?s1)" using Cons.prems(1) by simp_all
  from delete_sent [OF m' this] obtain p where
    del: "delete_msg a ?s1 = Inr (?s1\<lparr>st_pool := p, st_msgs := (st_msgs ?s1)(a := None)\<rparr>)" and p: "pool_wf p"
    by blast
  define s2 where "s2 = s\<lparr>st_pool := p, st_msgs := (st_msgs s)(a := None), st_os := ?w\<rparr>"
  have del: "delete_msg a ?s1 = Inr s2" using del by (simp add: s2_def)
  let ?cm = "cm\<lparr>m_sendList := as\<rparr>"
  have v: "valid_socket ?cm" using polled_valid [OF Cons.prems(2)] by (simp add: valid_socket_def)
  have step: "send_loop (script_sys M) fuel cm s = send_loop (script_sys M) f (repoll ?cm s2) s2"
    using sk as(1) sent del m' unsent_isEnd [OF m'] CheckState_script [OF v, of M s2] f
    by (simp add: get_msg_def)
  have "a \<notin> set as" using Cons.prems(4) as(1) by simp
  then have "list_all2 (to_send s2) as bs"
    using as(4) by (auto simp: s2_def to_send_def list_all2_conv_all_nth)
  then have "\<exists>cm' s' qs'. send_loop (script_sys M) f (repoll ?cm s2) s2 = Inr (True, cm', s') \<and> polled cm' s'
     \<and> m_sendList cm' = [] \<and> m_recvList cm' = m_recvList cm \<and> m_netState cm' = m_netState cm
     \<and> st_os s' = (st_os s2)\<lparr>sc_out := sc_out (st_os s2) @ concat bs, sc_quota := qs'\<rparr>
     \<and> pool_wf (st_pool s') \<and> st_next s' = st_next s2
     \<and> st_msgs s' = (\<lambda>a. if a \<in> set as then None else st_msgs s2 a)"
    using Cons.IH [of s2 "repoll ?cm s2" f] polled_after [OF v, of s2] Cons.prems(3,4,6) as(1) f p
    by (simp add: s2_def)
  with step as(1) show ?case by (fastforce simp: s2_def fun_eq_iff)
qed

section \<open>A whole update\<close>

lemma ready_unsent: "ready_to_send d m \<Longrightarrow> nm_wf m \<Longrightarrow> unsent (frame d) m"
  by (simp add: ready_to_send_def unsent_def)

definition queued :: "'w st \<Rightarrow> nat \<Rightarrow> byte list \<Rightarrow> bool" where
  "queued s a d \<longleftrightarrow> (case st_msgs s a of None \<Rightarrow> False | Some m \<Rightarrow> ready_to_send d m \<and> nm_wf m)"

lemma queued_to_send: "queued s a d \<Longrightarrow> to_send s a (frame d)"
  by (auto simp: queued_def to_send_def ready_unsent split: option.splits)

lemma Update_connected:
  assumes "m_netState cm = NetConState_Connected" and "valid_socket cm"
  shows "CM_Update (script_sys M) fuel dt cm s =
     bindE (send_loop (script_sys M) fuel (repoll cm s) s) (\<lambda>(go, cm, s).
       if \<not> go then Inr (cm, s)
       else bindE (recv_loop (script_sys M) fuel cm s) (\<lambda>(_, cm, s). Inr (cm, s)))"
  using assms CheckState_script [OF assms(2), of M s]
  by (auto simp: CM_Update_def valid_socket_def split: option.splits)

text \<open>
  C1: one call of \<open>Update\<close> on an established connection whose socket stays writable. Whatever portions
  the system takes on \<open>send\<close>, and in whatever pieces the peer's bytes arrive, as long as no piece ends
  inside a frame header (a cut header overruns the buffer, C11), the update transmits the frames of
  all queued messages, whole, in the order of the queue, and frees them; and it appends one complete
  message per received frame to the receive queue, in the order of arrival, each holding that
  frame's payload, leaving the messages that were there alone. A piece may hold part of a payload or
  the end of one frame and the beginning, or all, of the next ones. The loops end within the bound.
\<close>

theorem update_exchange:
  assumes "malloc_serves M (nat INT_MAX)" and "pool_wf (st_pool s)"
    and "m_netState cm = NetConState_Connected" and "valid_socket cm" and "mem_ok X cm s"
    and "sc_writable (st_os s)" and "list_all2 (queued s) (m_sendList cm) ds"
    and "recv_idle cm s" and "concat (sc_in (st_os s)) = concat (map frame bs)"
    and "[] \<notin> set (sc_in (st_os s))" and "heads_whole bs (sc_in (st_os s))" and "list_all deliverable bs"
    and "length (concat (map frame ds)) + length ds < fuel" and "length (concat (map frame bs)) < fuel"
  shows "\<exists>cm' s'. CM_Update (script_sys M) fuel dt cm s = Inr (cm', s')
     \<and> m_netState cm' = NetConState_Connected \<and> m_sendList cm' = []
     \<and> sc_out (st_os s') = sc_out (st_os s) @ concat (map frame ds) \<and> sc_in (st_os s') = []
     \<and> (\<forall>a \<in> set (m_sendList cm). st_msgs s' a = None)
     \<and> m_recvList cm' = m_recvList cm @ [st_next s ..< st_next s + length bs]
     \<and> (\<forall>a \<in> X \<union> set (m_recvList cm). st_msgs s' a = st_msgs s a)
     \<and> list_all2 (holds_payload s') [st_next s ..< st_next s + length bs] bs"
proof -
  let ?cm = "repoll cm s"
  have mem: "distinct (m_sendList cm)" "set (m_sendList cm) \<inter> set (m_recvList cm) = {}"
    "X \<inter> set (m_sendList cm) = {}"
    using assms(5) by (auto simp: mem_ok_def owned_def)
  have old: "a < st_next s" if "a \<in> X \<union> owned cm" for a
    using assms(5) that unfolding mem_ok_def by (meson not_le)
  have "list_all2 (to_send s) (m_sendList ?cm) (map frame ds)"
    using assms(7) by (auto simp: list_all2_map2 elim!: list_all2_mono queued_to_send)
  from send_messages [OF assms(2) polled_after [OF assms(4)] assms(6) _ this, of fuel M] mem(1) assms(13)
  obtain cm1 s1 qs where
    snd1: "send_loop (script_sys M) fuel ?cm s = Inr (True, cm1, s1)" "polled cm1 s1"
    "m_sendList cm1 = []" "m_recvList cm1 = m_recvList cm" "m_netState cm1 = NetConState_Connected"
    and os1: "st_os s1 = (st_os s)\<lparr>sc_out := sc_out (st_os s) @ concat (map frame ds), sc_quota := qs\<rparr>"
    and s1: "pool_wf (st_pool s1)" "st_next s1 = st_next s"
     "st_msgs s1 = (\<lambda>a. if a \<in> set (m_sendList cm) then None else st_msgs s a)"
    by (auto simp: assms(3))
  have "last (m_recvList cm) \<notin> set (m_sendList cm)" if "m_recvList cm \<noteq> []"
    using mem(2) last_in_set [OF that] by auto
  then have idle: "recv_idle cm1 s1" using assms(8) snd1(4) s1(3) by (auto simp: recv_idle_def)
  have in1: "sc_in (st_os s1) = sc_in (st_os s)" using os1 by simp
  from recv_messages [OF assms(1) s1(1) snd1(2) idle, unfolded in1, OF assms(9-12)]
  obtain k cm2 s2 where k: "k \<le> length (concat (map frame bs))"
    and r0: "\<And>f. recv_loop (script_sys M) (k + Suc f) cm1 s1 = Inr (True, cm2, s2)" and
    r1: "m_recvList cm2 = m_recvList cm @ [st_next s ..< st_next s + length bs]" "m_sendList cm2 = []"
    "m_netState cm2 = NetConState_Connected" "st_os s2 = (st_os s1)\<lparr>sc_in := []\<rparr>"
    "\<forall>a < st_next s. st_msgs s2 a = st_msgs s1 a"
    "list_all2 (holds_payload s2) [st_next s ..< st_next s + length bs] bs"
    using snd1 s1(2) assms(9) by auto
  from k assms(14) obtain f where "fuel = k + Suc f"
    by (metis add_Suc_right less_imp_Suc_add order_le_less_trans)
  with r0 have "recv_loop (script_sys M) fuel cm1 s1 = Inr (True, cm2, s2)" by simp
  note r = this r1
  have "CM_Update (script_sys M) fuel dt cm s = Inr (cm2, s2)"
    using Update_connected [OF assms(3,4)] snd1(1) r(1) by simp
  moreover have "\<forall>a \<in> X \<union> set (m_recvList cm). st_msgs s2 a = st_msgs s a"
    using old r(6) s1(3) mem(2,3) by (auto simp: owned_def)
  moreover have "\<forall>a \<in> set (m_sendList cm). st_msgs s2 a = None"
    using old r(6) s1(3) by (auto simp: owned_def)
  ultimately show ?thesis using r os1 by (intro exI [of _ cm2] exI [of _ s2]) simp
qed

text \<open>
  A connection with one queued message and two incoming frames, the first of which arrives in three
  pieces, the last of them with the second frame behind it.
\<close>

definition demo_out :: NetMessage where
  "demo_out = with_bytes
     \<lparr>m_size = 2, m_headSize = 2, m_bufStartPos = 4, m_curPos = 4, m_buffer = None\<rparr> [0, 0, 0, 0, 0, 2, 65, 66]"

definition demo_os :: script where
  "demo_os = \<lparr>sc_in = [], sc_out = [], sc_quota = [0, 1], sc_writable = True\<rparr>"

definition demo_st :: "script st" where
  "demo_st = \<lparr>st_pool = pool_init, st_msgs = Map.empty, st_next = 0, st_os = demo_os\<rparr>"

definition demo_cm :: CConnectionManager where
  "demo_cm = \<lparr>m_server = ''h'', m_port = 80, m_sendList = [], m_recvList = [],
     m_pSocket = Some \<lparr>m_readFlag = False, m_writeFlag = True, m_socket = 3\<rparr>,
     m_netState = NetConState_Connecting, m_encryptInited = False, m_name = [], m_tOutTimer = 5000\<rparr>"

lemma demo_out_queued: "ready_to_send [65, 66] demo_out" "nm_wf demo_out"
  by (simp_all add: ready_to_send_def demo_out_def nm_wf_with_bytes NetMessage_ResetForSend_def
      NetMessage_getSendCap_def with_bytes_def NetMessage_read_def MemBuffer_read_def buf_slice_def
      seg_def frame_def frame_head_def be_bytes_unfold mb_wf_def nm_wf_def INT_MAX_def)

definition demo_cm1 :: CConnectionManager where
  "demo_cm1 = demo_cm\<lparr>m_netState := NetConState_Connected, m_sendList := [0]\<rparr>"

definition demo_st1 :: "script st" where
  "demo_st1 = demo_st\<lparr>st_msgs := [0 \<mapsto> demo_out], st_next := 1, st_os := demo_os\<lparr>sc_in := [[0, 3], [7], [8, 9, 0, 1, 5]]\<rparr>\<rparr>"

lemma demo_heads: "heads_whole [[7, 8, 9], [5]] [[0, 3], [7], [8, 9, 0, 1, 5]]"
proof -
  have "{..3 :: nat} = {0, 1, 2, 3}" by auto
  then have "cuts [[0, 3], [7], [8, 9, 0, 1, 5]] = {0, 2, 3, 8}"
    by (simp add: cuts_def eval_nat_numeral insert_commute)
  moreover have "head_inside 0 [[7, 8, 9], [5]] = {Suc 0, Suc (Suc (Suc (Suc (Suc (Suc 0)))))}"
  proof -
    have "{Suc 0..<2} = {1 :: nat}" by auto
    then show ?thesis by (simp add: frame_head_def be_bytes_unfold frame_def insert_commute)
  qed
  ultimately show ?thesis by (simp add: heads_whole_def)
qed

lemma demo_facts:
  "frame [7, 8, 9] = [0, 3, 7, 8, 9]" "frame [5] = [0, 1, 5]" "frame [65, 66] = [0, 2, 65, 66]"
  "list_all deliverable [[7, 8, 9], [5]]" "queued demo_st1 0 [65, 66]" "valid_socket demo_cm1" "mem_ok {} demo_cm1 demo_st1"
  "pool_wf (st_pool demo_st1)" "recv_idle demo_cm1 demo_st1"
  by (simp_all add: frame_head_def frame_def be_bytes_unfold deliverable_def POS_MAX_def
      queued_def demo_st1_def demo_out_queued valid_socket_def demo_cm1_def demo_cm_def FD_SETSIZE_def
      mem_ok_def owned_def demo_st_def pool_wf_def pool_init_def recv_idle_def)

theorem update_exchange_witness:
  "\<exists>cm' s'. CM_Update (script_sys zero_malloc) 10 16 demo_cm1 demo_st1 = Inr (cm', s')
     \<and> m_sendList cm' = [] \<and> sc_out (st_os s') = [0, 2, 65, 66] \<and> m_recvList cm' = [1, 2]
     \<and> holds_payload s' 1 [7, 8, 9] \<and> holds_payload s' 2 [5]"
proof -
  have "m_netState demo_cm1 = NetConState_Connected" "sc_writable (st_os demo_st1)"
    "list_all2 (queued demo_st1) (m_sendList demo_cm1) [[65, 66]]"
    "concat (sc_in (st_os demo_st1)) = concat (map frame [[7, 8, 9], [5]])" "[] \<notin> set (sc_in (st_os demo_st1))"
    "heads_whole [[7, 8, 9], [5]] (sc_in (st_os demo_st1))"
    "length (concat (map frame [[65, 66]])) + length [[65, 66]] < 10"
    "length (concat (map frame [[7, 8, 9], [5]])) < 10"
    using demo_facts demo_heads by (simp_all add: demo_cm1_def demo_cm_def demo_st1_def demo_os_def demo_st_def)
  from update_exchange [OF _ demo_facts(8) this(1) demo_facts(6,7) this(2,3) demo_facts(9) this(4-6) demo_facts(4)
      this(7,8), of zero_malloc 16] demo_facts(3)
  show ?thesis by (auto simp: demo_cm1_def demo_cm_def demo_st1_def demo_os_def upt_rec numeral_2_eq_2)
qed

section \<open>Reaching and losing a connection\<close>

lemma demo_reachable: "cm_reachable (script_sys zero_malloc) (demo_cm, demo_st)"
proof -
  have "CM_Connect (script_sys zero_malloc) ''h'' 80 CConnectionManager_new demo_st = Inr (True, demo_cm, demo_st)"
    by (simp add: CM_Connect_def CConnectionManager_new_def CM_DoConnect_def CM_GetUrlAddrinfo_def script_sys_def
        CSocketCommon_CreateSocket_def CSocketCommon_new_def CSocketCommon_ConnectTo_def CM_CheckState_def
        demo_st_def demo_os_def demo_cm_def CONNECT_TIMEOUT_def FD_SETSIZE_def Let_def)
  moreover have "cm_reachable (script_sys zero_malloc) (CConnectionManager_new, demo_st)"
    by (rule cm_reachable.start) (simp add: demo_st_def)
  ultimately show ?thesis using cm_reachable.step cm_step.connect by metis
qed

theorem manager_invariant_witness:
  "cm_reachable (script_sys zero_malloc) (demo_cm, demo_st) \<and> m_pSocket demo_cm \<noteq> None
     \<and> m_netState demo_cm \<in> {NetConState_Connecting, NetConState_Connected}"
  using manager_invariant [OF demo_reachable] demo_reachable by (simp add: demo_cm_def)

theorem manager_no_use_after_free_witness:
  "cm_reachable (script_sys zero_malloc) (demo_cm, demo_st)
     \<and> CM_Update (script_sys zero_malloc) 10 16 demo_cm demo_st \<noteq> Inl UseAfterFree"
  using manager_no_use_after_free [OF demo_reachable] demo_reachable by blast

text \<open>Several updates in a row, with the times that passed between them.\<close>

fun CM_Updates ::
    "'w sysif \<Rightarrow> nat \<Rightarrow> int list \<Rightarrow> CConnectionManager \<Rightarrow> 'w st \<Rightarrow> (CConnectionManager \<times> 'w st) res" where
  "CM_Updates S fuel [] cm s = Inr (cm, s)"
| "CM_Updates S fuel (dt # dts) cm s = bindE (CM_Update S fuel dt cm s) (\<lambda>(cm, s). CM_Updates S fuel dts cm s)"

text \<open>The peer does not answer: \<open>select\<close> reports nothing on the descriptor.\<close>

definition silent :: "'w sysif \<Rightarrow> int \<Rightarrow> bool" where
  "silent S fd \<longleftrightarrow> (\<forall>w. \<exists>w'. sys_select S fd w =
     (\<lparr>sel_ret = 0, sel_read = False, sel_write = False, sel_error = False\<rparr>, w'))"

lemma silent_update:
  assumes "silent S (m_socket sk)" and "m_pSocket cm = Some sk" and "0 \<le> m_socket sk" and "m_socket sk < FD_SETSIZE"
    and "m_netState cm = NetConState_Connecting" and "in_int (m_tOutTimer cm - dt)"
  obtains sk' s1 where "m_socket sk' = m_socket sk"
    and "CM_Update S fuel dt cm s =
       (let cm1 = cm\<lparr>m_pSocket := Some sk', m_tOutTimer := m_tOutTimer cm - dt\<rparr>
        in if m_tOutTimer cm \<le> dt then Inr (CM_OnTimeOut S (cm1\<lparr>m_tOutTimer := -1\<rparr>) s1) else Inr (cm1, s1))"
proof -
  from assms(1) obtain w where w: "sys_select S (m_socket sk) (st_os s) =
     (\<lparr>sel_ret = 0, sel_read = False, sel_write = False, sel_error = False\<rparr>, w)" by (auto simp: silent_def)
  show thesis
    by (rule that [of "sk\<lparr>m_writeFlag := False, m_readFlag := False\<rparr>" "s\<lparr>st_os := w\<rparr>"])
       (use assms w in \<open>simp_all add: CM_Update_def CM_CheckState_def Let_def\<close>)
qed

lemma timed_out_update:
  "m_netState cm = NetConState_ConnectTimeOut \<Longrightarrow> CM_Updates S fuel dts cm s = Inr (cm, s)"
  by (induction dts) (simp_all add: CM_Update_def)

text \<open>
  C6: an attempt to connect that the peer never answers stays in \<open>Connecting\<close> as long as the times
  between the updates add up to less than the timer (5000 ms after \<open>Connect\<close>), and with the update
  at which they reach it the state becomes \<open>ConnectTimeOut\<close>, the socket is gone and the timer is
  reset, for good.
\<close>

theorem connect_timeout:
  assumes "silent S (m_socket sk)" and "m_pSocket cm = Some sk" and "0 \<le> m_socket sk" and "m_socket sk < FD_SETSIZE"
    and "m_netState cm = NetConState_Connecting" and "0 < m_tOutTimer cm" and "m_tOutTimer cm \<le> CONNECT_TIMEOUT"
    and "\<forall>dt \<in> set dts. 0 \<le> dt \<and> dt \<le> 1000000"
  shows "\<exists>cm' s'. CM_Updates S fuel dts cm s = Inr (cm', s')
     \<and> (if sum_list dts < m_tOutTimer cm
        then m_netState cm' = NetConState_Connecting \<and> m_tOutTimer cm' = m_tOutTimer cm - sum_list dts
             \<and> m_pSocket cm' \<noteq> None
        else m_netState cm' = NetConState_ConnectTimeOut \<and> m_tOutTimer cm' = -1 \<and> m_pSocket cm' = None)"
  using assms
proof (induction dts arbitrary: cm s sk)
  case Nil
  then show ?case by simp
next
  case (Cons dt dts)
  have rng: "in_int (m_tOutTimer cm - dt)"
    using Cons.prems(6-8) by (simp add: in_int_def INT_MIN_def INT_MAX_def CONNECT_TIMEOUT_def)
  obtain sk' s1 where sk': "m_socket sk' = m_socket sk" and
    up: "CM_Update S fuel dt cm s =
       (let cm1 = cm\<lparr>m_pSocket := Some sk', m_tOutTimer := m_tOutTimer cm - dt\<rparr>
        in if m_tOutTimer cm \<le> dt then Inr (CM_OnTimeOut S (cm1\<lparr>m_tOutTimer := -1\<rparr>) s1) else Inr (cm1, s1))"
    using silent_update [OF Cons.prems(1-5) rng, of fuel s] by blast
  have pos: "0 \<le> sum_list dts" using Cons.prems(8) by (intro sum_list_nonneg) simp
  let ?cm = "cm\<lparr>m_pSocket := Some sk', m_tOutTimer := m_tOutTimer cm - dt\<rparr>"
  show ?case
  proof (cases "m_tOutTimer cm \<le> dt")
    case True
    obtain cm2 s2 where t: "CM_OnTimeOut S (?cm\<lparr>m_tOutTimer := -1\<rparr>) s1 = (cm2, s2)" by fastforce
    then have "m_netState cm2 = NetConState_ConnectTimeOut" "m_tOutTimer cm2 = -1" "m_pSocket cm2 = None"
      by (auto simp: CM_OnTimeOut_def CM_Close_def Let_def split: prod.splits)
    with True up t pos timed_out_update [of cm2 S fuel dts s2] show ?thesis by (simp add: Let_def)
  next
    case False
    from Cons.IH [of sk' ?cm s1] False Cons.prems sk' obtain cm' s' where
      "CM_Updates S fuel dts ?cm s1 = Inr (cm', s')"
      "if sum_list dts < m_tOutTimer cm - dt
        then m_netState cm' = NetConState_Connecting \<and> m_tOutTimer cm' = m_tOutTimer cm - dt - sum_list dts
             \<and> m_pSocket cm' \<noteq> None
        else m_netState cm' = NetConState_ConnectTimeOut \<and> m_tOutTimer cm' = -1 \<and> m_pSocket cm' = None"
      by auto
    with False up show ?thesis by (auto simp: Let_def algebra_simps split: if_splits)
  qed
qed

theorem connect_timeout_witness:
  "silent ((script_sys zero_malloc)\<lparr>sys_select := (\<lambda>_ w.
       (\<lparr>sel_ret = 0, sel_read = False, sel_write = False, sel_error = False\<rparr>, w))\<rparr>) 3
   \<and> (\<exists>cm' s'. CM_Updates ((script_sys zero_malloc)\<lparr>sys_select := (\<lambda>_ w.
       (\<lparr>sel_ret = 0, sel_read = False, sel_write = False, sel_error = False\<rparr>, w))\<rparr>) 10 [2000, 2000, 2000]
       demo_cm demo_st = Inr (cm', s') \<and> m_netState cm' = NetConState_ConnectTimeOut)"
proof -
  let ?S = "(script_sys zero_malloc)\<lparr>sys_select := (\<lambda>_ w.
       (\<lparr>sel_ret = 0, sel_read = False, sel_write = False, sel_error = False\<rparr>, w))\<rparr>"
  have sil: "silent ?S 3" by (simp add: silent_def)
  then show ?thesis
    using connect_timeout [of ?S "\<lparr>m_readFlag = False, m_writeFlag = True, m_socket = 3\<rparr>" demo_cm
        "[2000, 2000, 2000]" 10 demo_st]
    by (auto simp: demo_cm_def FD_SETSIZE_def CONNECT_TIMEOUT_def simp del: CM_Updates.simps)
qed

text \<open>
  C13: \<open>Update\<close> does not look at the result of the \<open>CheckState\<close> it calls after each received piece.
  When \<open>select\<close> reports an error there, \<open>OnError\<close> has deleted the socket object, and the loop
  condition reads the flag of a null pointer.
\<close>

theorem update_null_deref:
  assumes "m_netState cm = NetConState_Connected" and "m_pSocket cm = Some sk"
    and "0 \<le> m_socket sk" and "m_socket sk < FD_SETSIZE" and "m_sendList cm = []"
    and "sys_select S (m_socket sk) (st_os s) = (r1, w1)" and "0 \<le> sel_ret r1" and "\<not> sel_error r1" and "sel_read r1"
    and "m_recvList cm \<noteq> []" and "st_msgs s (last (m_recvList cm)) = Some m" and "\<not> NetMessage_isEnd m"
    and "sys_recv S (m_socket sk) (c_size_t (NetMessage_getReadCap m)) w1 = ((int (length bytes), bytes), w2)"
    and "bytes \<noteq> []" and "feed (sys_malloc S) bytes m = Inr m'"
    and "sys_select S (m_socket sk) w2 = (r2, w3)" and "sel_ret r2 < 0 \<or> sel_error r2"
  shows "CM_Update S (Suc (Suc f)) dt cm s = Inl NullDeref"
proof -
  let ?a = "last (m_recvList cm)"
  let ?sk = "sk\<lparr>m_writeFlag := sel_write r1, m_readFlag := True\<rparr>"
  let ?cm = "cm\<lparr>m_pSocket := Some ?sk\<rparr>" and ?s = "s\<lparr>st_os := w1\<rparr>"
  from assms(15) obtain m1 where m1: "NetMessage_store m (m_curPos m) bytes = Inr m1"
    "NetMessage_onReceive (sys_malloc S) (int (length bytes)) m1 = Inr m'" by (auto simp: feed_def bindE_eq_Inr)
  have dec: "(if m_size m1 \<ge> 0 then NetMessage_store m1 (m_curPos m1) (CM_DecodeBuf ?cm bytes) else Inr m1) = Inr m1"
    using store_twice [OF m1(1)] store_size [OF m1(1)] by (simp add: CM_DecodeBuf_def)
  have chk: "CM_CheckState S cm s = Inr (True, ?cm, ?s)"
    using assms(2-4,6-9) by (simp add: CM_CheckState_def Let_def)
  have chk2: "\<exists>cm' s'. CM_CheckState S ?cm t = Inr (False, cm', s') \<and> m_pSocket cm' = None"
    if "st_os t = w2" for t
    using assms(1,3,4,16,17) that
    by (auto simp: CM_CheckState_def Let_def CM_OnError_def CM_Close_def split: prod.splits)
  have tgt: "recv_target S ?cm ?s = Inr (?a, ?cm, ?s)"
    using recv_target_current [of ?cm ?s m S] assms(10-12) by simp
  have "recv_loop S (Suc (Suc f)) ?cm ?s = Inl NullDeref"
    using tgt assms(11,13,14) m1 dec chk2 [of "put_msg ?a m' (put_msg ?a m1 (s\<lparr>st_os := w2\<rparr>))"]
    by (auto simp: get_msg_def CSocketCommon_Recv_def Let_def put_msg_def)
  moreover have "send_loop S (Suc (Suc f)) ?cm ?s = Inr (True, ?cm, ?s)" using assms(5) by simp
  ultimately show ?thesis
    using assms(1,2) chk by (simp add: CM_Update_def del: recv_loop.simps send_loop.simps)
qed

theorem update_null_deref_witness:
  "CM_Update ((script_sys zero_malloc)\<lparr>sys_select := (\<lambda>_ w.
        (\<lparr>sel_ret = 1, sel_read = sc_in w \<noteq> [], sel_write = False, sel_error = sc_in w = []\<rparr>, w))\<rparr>) 2 16
     (demo_cm\<lparr>m_netState := NetConState_Connected, m_recvList := [0]\<rparr>)
     (demo_st\<lparr>st_msgs := [0 \<mapsto> sample_message], st_next := 1, st_os := demo_os\<lparr>sc_in := [[0, 3]]\<rparr>\<rparr>)
   = Inl NullDeref"
proof -
  let ?S = "(script_sys zero_malloc)\<lparr>sys_select := (\<lambda>_ w.
        (\<lparr>sel_ret = 1, sel_read = sc_in w \<noteq> [], sel_write = False, sel_error = sc_in w = []\<rparr>, w))\<rparr>"
  let ?cm = "demo_cm\<lparr>m_netState := NetConState_Connected, m_recvList := [0]\<rparr>"
  let ?s = "demo_st\<lparr>st_msgs := [0 \<mapsto> sample_message], st_next := 1, st_os := demo_os\<lparr>sc_in := [[0, 3]]\<rparr>\<rparr>"
  have "frame_head 3 = [[0, 3]]" by (simp add: frame_head_def be_bytes_unfold)
  with received_head [OF sample_message_facts(2), of zero_malloc "replicate 512 0" 3] obtain m1 where
    "feed zero_malloc [0, 3] sample_message = Inr m1"
    by (auto simp: sample_message_def POS_MAX_def INT_MAX_def bindE_eq_Inr)
  then show ?thesis
    using update_null_deref [of ?cm "\<lparr>m_readFlag = False, m_writeFlag = True, m_socket = 3\<rparr>" ?S ?s
        "\<lparr>sel_ret = 1, sel_read = True, sel_write = False, sel_error = False\<rparr>" "demo_os\<lparr>sc_in := [[0, 3]]\<rparr>"
        sample_message "[0, 3]" "demo_os\<lparr>sc_in := []\<rparr>" m1
        "\<lparr>sel_ret = 1, sel_read = False, sel_write = False, sel_error = True\<rparr>" "demo_os\<lparr>sc_in := []\<rparr>" 0 16]
    by (simp add: demo_cm_def demo_st_def FD_SETSIZE_def NetMessage_isEnd_def NetMessage_getReadCap_def
        sample_message_facts(2)[unfolded waiting_def] script_sys_def script_recv_def INT_MAX_def numeral_2_eq_2
        del: CM_Update_def)
qed

end
