(* ===== verification/SocketObj.thy ===== *)
theory SocketObj
  imports ConnRun
begin

text \<open>
  The objects that scripts see: \<open>SocketObject\<close> (\<open>src/eng_socket.h\<close>, \<open>src/eng_socket.cpp\<close>), each with
  its own connection manager and found by name in a set of pointers, and \<open>CLuaMsg\<close>
  (\<open>src/LuaMsg.h\<close>, \<open>src/LuaMsg.cpp\<close>), a handle on one message. The arguments that the methods take
  from the Lua stack are arguments here, the values they push are results.
\<close>

section \<open>State\<close>

record SocketObject =
  m_socketObjectName :: string
  m_pConnectionMgr :: "CConnectionManager option"

text \<open>
  \<open>s_objList\<close> is a \<open>std::set\<close> of pointers, hence ordered by address; \<open>lua_msgs\<close> are the live \<open>CLuaMsg\<close>
  objects with their \<open>m_pMsg\<close>.
\<close>

record 'w app =
  s_objList :: "(nat \<times> SocketObject) list"
  lua_msgs :: "(nat \<times> nat option) list"
  app_st :: "'w st"

definition assoc_put :: "nat \<Rightarrow> 'v \<Rightarrow> (nat \<times> 'v) list \<Rightarrow> (nat \<times> 'v) list" where
  "assoc_put k v xs = map (\<lambda>(k', v'). (k', if k' = k then v else v')) xs"

definition get_sock :: "nat \<Rightarrow> 'w app \<Rightarrow> SocketObject res" where
  "get_sock a ap = (case map_of (s_objList ap) a of None \<Rightarrow> Inl UseAfterFree | Some so \<Rightarrow> Inr so)"

definition put_sock :: "nat \<Rightarrow> SocketObject \<Rightarrow> 'w app \<Rightarrow> 'w app" where
  "put_sock a so ap = ap\<lparr>s_objList := assoc_put a so (s_objList ap)\<rparr>"

definition GetSocketByName :: "string \<Rightarrow> 'w app \<Rightarrow> nat option" where
  "GetSocketByName socketname ap =
     map_option fst (find (\<lambda>(_, so). m_socketObjectName so = socketname) (s_objList ap))"

definition GetDefaultSocket :: "'w app \<Rightarrow> nat option" where
  "GetDefaultSocket ap = GetSocketByName ''defaultSocket'' ap"

section \<open>SocketObject\<close>

definition SocketObject_new :: "nat \<Rightarrow> string \<Rightarrow> 'w app \<Rightarrow> 'w app" where
  "SocketObject_new a instClassName ap =
     ap\<lparr>s_objList := insort_key fst (a, \<lparr>m_socketObjectName = instClassName, m_pConnectionMgr = None\<rparr>) (s_objList ap)\<rparr>"

definition GetConnection :: "nat \<Rightarrow> 'w app \<Rightarrow> (CConnectionManager \<times> 'w app) res" where
  "GetConnection a ap =
     bindE (get_sock a ap) (\<lambda>so.
       case m_pConnectionMgr so of
         Some cm \<Rightarrow> Inr (cm, ap)
       | None \<Rightarrow>
           let cm = CM_SetName (m_socketObjectName so) CConnectionManager_new
           in Inr (cm, put_sock a (so\<lparr>m_pConnectionMgr := Some cm\<rparr>) ap))"

text \<open>A call \<open>GetConnection()->f(...)\<close>: the manager and the memory change as \<open>f\<close> says.\<close>

definition on_conn ::
    "nat \<Rightarrow> (CConnectionManager \<Rightarrow> 'w st \<Rightarrow> ('r \<times> CConnectionManager \<times> 'w st) res) \<Rightarrow> 'w app \<Rightarrow> ('r \<times> 'w app) res" where
  "on_conn a f ap =
     bindE (GetConnection a ap) (\<lambda>(cm, ap).
     bindE (get_sock a ap) (\<lambda>so.
     bindE (f cm (app_st ap)) (\<lambda>(r, cm, s).
       Inr (r, put_sock a (so\<lparr>m_pConnectionMgr := Some cm\<rparr>) (ap\<lparr>app_st := s\<rparr>)))))"

definition SocketObject_Restart :: "'w sysif \<Rightarrow> nat \<Rightarrow> 'w app \<Rightarrow> 'w app res" where
  "SocketObject_Restart S a ap =
     bindE (get_sock a ap) (\<lambda>so.
     bindE (case m_pConnectionMgr so of None \<Rightarrow> Inr (app_st ap) | Some cm \<Rightarrow> CM_delete S cm (app_st ap)) (\<lambda>s.
       Inr (put_sock a (so\<lparr>m_pConnectionMgr := Some (CM_SetName (m_socketObjectName so) CConnectionManager_new)\<rparr>)
              (ap\<lparr>app_st := s\<rparr>))))"

definition SocketObject_delete :: "'w sysif \<Rightarrow> nat \<Rightarrow> 'w app \<Rightarrow> 'w app res" where
  "SocketObject_delete S a ap =
     bindE (get_sock a ap) (\<lambda>so.
     bindE (case m_pConnectionMgr so of
              None \<Rightarrow> Inr (app_st ap)
            | Some cm \<Rightarrow>
                (let (cm, s) = CM_Close S cm (app_st ap)
                 in bindE (CM_ClearCached cm s) (\<lambda>(_, s). Inr s))) (\<lambda>s.
       Inr (ap\<lparr>s_objList := filter (\<lambda>(b, _). b \<noteq> a) (s_objList ap), app_st := s\<rparr>)))"

definition SocketObject_GetName :: "nat \<Rightarrow> 'w app \<Rightarrow> (string \<times> 'w app) res" where
  "SocketObject_GetName a ap = bindE (get_sock a ap) (\<lambda>so. Inr (m_socketObjectName so, ap))"

definition SocketObject_HasPendingMsg :: "nat \<Rightarrow> 'w app \<Rightarrow> (bool \<times> 'w app) res" where
  "SocketObject_HasPendingMsg a =
     on_conn a (\<lambda>cm s.
       case CM_getMsg cm of
         None \<Rightarrow> Inr (False, cm, s)
       | Some p \<Rightarrow> bindE (get_msg p s) (\<lambda>m. Inr (NetMessage_isEnd m, cm, s)))"

definition SocketObject_CloseConnection :: "'w sysif \<Rightarrow> nat \<Rightarrow> 'w app \<Rightarrow> (unit \<times> 'w app) res" where
  "SocketObject_CloseConnection S a ap =
     bindE (on_conn a (\<lambda>cm s. Inr ((), CM_Close S cm s)) ap) (\<lambda>(_, ap).
     on_conn a (\<lambda>cm s. bindE (CM_ClearCached cm s) (\<lambda>x. Inr ((), x))) ap)"

definition SocketObject_ConnectToServer ::
    "'w sysif \<Rightarrow> string \<Rightarrow> int \<Rightarrow> int \<Rightarrow> nat \<Rightarrow> 'w app \<Rightarrow> (bool \<times> 'w app) res" where
  "SocketObject_ConnectToServer S pAddr port needEncrypt a = on_conn a (CM_Connect S pAddr port)"

definition SocketObject_KeepAlived ::
    "'w sysif \<Rightarrow> int \<Rightarrow> int \<Rightarrow> int \<Rightarrow> int \<Rightarrow> nat \<Rightarrow> 'w app \<Rightarrow> (int \<times> 'w app) res" where
  "SocketObject_KeepAlived S keepalive keepidle keepinterval keepcount a =
     on_conn a (\<lambda>cm s. let (r, s) = CM_KeepAlived S keepalive keepidle keepinterval keepcount cm s in Inr (r, cm, s))"

definition SocketObject_InitPike :: "int \<Rightarrow> int \<Rightarrow> nat \<Rightarrow> 'w app \<Rightarrow> (unit \<times> 'w app) res" where
  "SocketObject_InitPike sendSeed recvSeed a =
     on_conn a (\<lambda>cm s. bindE (CM_InitEncrypt sendSeed recvSeed cm s) (\<lambda>x. Inr ((), x)))"

definition SocketObject_ReConnectToServer :: "'w sysif \<Rightarrow> nat \<Rightarrow> 'w app \<Rightarrow> (unit \<times> 'w app) res" where
  "SocketObject_ReConnectToServer S a = on_conn a (\<lambda>cm s. bindE (CM_ReConnect S cm s) (\<lambda>x. Inr ((), x)))"

definition SocketObject_UpdateNetMsg :: "'w sysif \<Rightarrow> nat \<Rightarrow> int \<Rightarrow> nat \<Rightarrow> 'w app \<Rightarrow> (unit \<times> 'w app) res" where
  "SocketObject_UpdateNetMsg S fuel dt a = on_conn a (\<lambda>cm s. bindE (CM_Update S fuel dt cm s) (\<lambda>x. Inr ((), x)))"

text \<open>
  The global functions of the module \<open>socketext\<close> call a method of the default socket; without one
  they call it on a null pointer.
\<close>

definition default_call :: "(nat \<Rightarrow> 'w app \<Rightarrow> ('r \<times> 'w app) res) \<Rightarrow> 'w app \<Rightarrow> ('r \<times> 'w app) res" where
  "default_call f ap = (case GetDefaultSocket ap of None \<Rightarrow> Inl NullDeref | Some a \<Rightarrow> f a ap)"

definition generateSecret :: "32 word \<Rightarrow> 32 word \<Rightarrow> 32 word" where
  "generateSecret key1 key2 =
     (let u1 = drop_bit 3 key2 AND 0xFF; u2 = drop_bit 23 key2 AND 0xFF;
          u3 = drop_bit 5 key1 AND 0xFF; u4 = drop_bit 15 key1 AND 0xFF
      in ((push_bit 24 u1 OR push_bit 16 u3) OR push_bit 8 u2) OR u4)"

section \<open>CLuaMsg\<close>

definition get_handle :: "nat \<Rightarrow> 'w app \<Rightarrow> nat option res" where
  "get_handle i ap = (case map_of (lua_msgs ap) i of None \<Rightarrow> Inl UseAfterFree | Some p \<Rightarrow> Inr p)"

definition put_handle :: "nat \<Rightarrow> nat option \<Rightarrow> 'w app \<Rightarrow> 'w app" where
  "put_handle i p ap = ap\<lparr>lua_msgs := assoc_put i p (lua_msgs ap)\<rparr>"

definition CLuaMsg_new :: "nat \<Rightarrow> 'w app \<Rightarrow> 'w app" where
  "CLuaMsg_new i ap = ap\<lparr>lua_msgs := (i, None) # lua_msgs ap\<rparr>"

definition CLuaMsg_delete :: "nat \<Rightarrow> 'w app \<Rightarrow> 'w app res" where
  "CLuaMsg_delete i ap =
     bindE (get_handle i ap) (\<lambda>p.
     bindE (case p of None \<Rightarrow> Inr (app_st ap) | Some a \<Rightarrow> delete_msg a (app_st ap)) (\<lambda>s.
       Inr (ap\<lparr>lua_msgs := filter (\<lambda>(j, _). j \<noteq> i) (lua_msgs ap), app_st := s\<rparr>)))"

definition CLuaMsg_CreateNewMessage :: "'w sysif \<Rightarrow> nat \<Rightarrow> 'w app \<Rightarrow> 'w app res" where
  "CLuaMsg_CreateNewMessage S i ap =
     bindE (get_handle i ap) (\<lambda>_.
       let (a, s) = new_msg S 512 (app_st ap) in Inr (put_handle i (Some a) (ap\<lparr>app_st := s\<rparr>)))"

text \<open>The socket a message is loaded from or sent to: the default one, or the one named.\<close>

definition named_socket :: "string option \<Rightarrow> 'w app \<Rightarrow> nat res" where
  "named_socket socketname ap =
     (case (case socketname of None \<Rightarrow> GetDefaultSocket ap | Some n \<Rightarrow> GetSocketByName n ap) of
        None \<Rightarrow> Inl NullDeref | Some a \<Rightarrow> Inr a)"

definition CLuaMsg_LoadMsg :: "nat \<Rightarrow> string option \<Rightarrow> 'w app \<Rightarrow> (byte list \<times> 'w app) res" where
  "CLuaMsg_LoadMsg i socketname ap =
     bindE (get_handle i ap) (\<lambda>_.
     bindE (named_socket socketname ap) (\<lambda>a.
     bindE (on_conn a (\<lambda>cm s. Inr (CM_getMsg cm, cm, s)) ap) (\<lambda>(p, ap).
     let ap = put_handle i p ap in
     bindE (on_conn a (\<lambda>cm s. Inr ((), CM_RemoveMsg p cm, s)) ap) (\<lambda>(_, ap).
     case p of
       None \<Rightarrow> Inl NullDeref
     | Some q \<Rightarrow>
         bindE (get_msg q (app_st ap)) (\<lambda>m.
         let m = NetMessage_ResetForRead m in
         bindE (NetMessage_dump m) (\<lambda>out. Inr (out, ap\<lparr>app_st := put_msg q m (app_st ap)\<rparr>)))))))"

text \<open>The methods that work on the message of the handle.\<close>

definition on_msg :: "nat \<Rightarrow> (NetMessage \<Rightarrow> ('r \<times> NetMessage) res) \<Rightarrow> 'w app \<Rightarrow> ('r \<times> 'w app) res" where
  "on_msg i f ap =
     bindE (get_handle i ap) (\<lambda>p.
       case p of
         None \<Rightarrow> Inl NullDeref
       | Some a \<Rightarrow>
           bindE (get_msg a (app_st ap)) (\<lambda>m.
           bindE (f m) (\<lambda>(r, m). Inr (r, ap\<lparr>app_st := put_msg a m (app_st ap)\<rparr>))))"

definition CLuaMsg_GetSize :: "nat \<Rightarrow> 'w app \<Rightarrow> (int \<times> 'w app) res" where
  "CLuaMsg_GetSize i = on_msg i (\<lambda>m. Inr (m_size m, m))"

text \<open>
  \<open>lua_pushlstring\<close> copies as many bytes from the pointer as \<open>size\<close> says after its conversion to
  \<open>size_t\<close>; the literal \<open>""\<close> owns one byte.
\<close>

definition push_bytes :: "NetMessage \<Rightarrow> cptr \<Rightarrow> int \<Rightarrow> byte list res" where
  "push_bytes m p sz =
     (case p of
        EmptyLit \<Rightarrow> buf_slice [0] 0 (int (c_size_t sz))
      | BufPtr pos \<Rightarrow> NetMessage_read m pos (int (c_size_t sz)))"

definition CLuaMsg_ReadRaw :: "nat \<Rightarrow> int \<Rightarrow> 'w app \<Rightarrow> (byte list \<times> 'w app) res" where
  "CLuaMsg_ReadRaw i sz =
     on_msg i (\<lambda>m. bindE (NetMessage_rRaw sz m) (\<lambda>(p, m'). bindE (push_bytes m' p sz) (\<lambda>xs. Inr (xs, m'))))"

definition CLuaMsg_WriteRaw :: "'w sysif \<Rightarrow> nat \<Rightarrow> byte list \<Rightarrow> 'w app \<Rightarrow> (unit \<times> 'w app) res" where
  "CLuaMsg_WriteRaw S i buf =
     on_msg i (\<lambda>m. bindE (NetMessage_wRaw (sys_malloc S) buf (c_int_of_size_t (int (length buf))) m) (\<lambda>m. Inr ((), m)))"

definition CLuaMsg_SendMsg :: "nat \<Rightarrow> string option \<Rightarrow> 'w app \<Rightarrow> 'w app res" where
  "CLuaMsg_SendMsg i socketname ap =
     bindE (get_handle i ap) (\<lambda>p.
     bindE (named_socket socketname ap) (\<lambda>a.
     bindE (on_conn a (\<lambda>cm s. bindE (CM_SendMsg p cm s) (\<lambda>x. Inr ((), x))) ap) (\<lambda>(_, ap).
       Inr (put_handle i None ap))))"

definition CLuaMsg_BeginForWrite :: "nat \<Rightarrow> 'w app \<Rightarrow> (unit \<times> 'w app) res" where
  "CLuaMsg_BeginForWrite i = on_msg i (\<lambda>m. Inr ((), NetMessage_beginForWrite m))"

definition CLuaMsg_EndForWrite :: "'w sysif \<Rightarrow> nat \<Rightarrow> 'w app \<Rightarrow> (unit \<times> 'w app) res" where
  "CLuaMsg_EndForWrite S i = on_msg i (\<lambda>m. bindE (NetMessage_endForWrite (sys_malloc S) m) (\<lambda>m. Inr ((), m)))"

section \<open>Ownership across objects\<close>

definition mgr_of :: "SocketObject \<Rightarrow> CConnectionManager" where
  "mgr_of so = (case m_pConnectionMgr so of None \<Rightarrow> CConnectionManager_new | Some cm \<Rightarrow> cm)"

definition sock_refs :: "(nat \<times> SocketObject) list \<Rightarrow> nat list" where
  "sock_refs xs = concat (map (\<lambda>(_, so). m_sendList (mgr_of so) @ m_recvList (mgr_of so)) xs)"

definition lua_refs :: "(nat \<times> nat option) list \<Rightarrow> nat list" where
  "lua_refs xs = concat (map (\<lambda>(_, p). case p of None \<Rightarrow> [] | Some a \<Rightarrow> [a]) xs)"

text \<open>
  Every message has one owner: a queue of one manager or one handle. All of them are live, and the
  addresses of objects are distinct.
\<close>

definition app_inv :: "'w app \<Rightarrow> bool" where
  "app_inv ap \<longleftrightarrow>
     distinct (map fst (s_objList ap)) \<and> distinct (map fst (lua_msgs ap))
     \<and> (\<forall>(a, so) \<in> set (s_objList ap). cm_inv (mgr_of so))
     \<and> distinct (sock_refs (s_objList ap) @ lua_refs (lua_msgs ap))
     \<and> (\<forall>r \<in> set (sock_refs (s_objList ap) @ lua_refs (lua_msgs ap)). st_msgs (app_st ap) r \<noteq> None)
     \<and> (\<forall>r \<ge> st_next (app_st ap). st_msgs (app_st ap) r = None)"

lemma refs_simps [simp]:
  "sock_refs [] = []" "sock_refs (x # xs) = m_sendList (mgr_of (snd x)) @ m_recvList (mgr_of (snd x)) @ sock_refs xs"
  "sock_refs (xs @ ys) = sock_refs xs @ sock_refs ys"
  "lua_refs [] = []" "lua_refs (y # zs) = (case snd y of None \<Rightarrow> [] | Some a \<Rightarrow> [a]) @ lua_refs zs"
  "lua_refs (zs @ ws) = lua_refs zs @ lua_refs ws"
  by (simp_all add: sock_refs_def lua_refs_def split_beta)

lemma mgr_of_simps [simp]:
  "mgr_of (so\<lparr>m_pConnectionMgr := Some cm\<rparr>) = cm"
  "mgr_of \<lparr>m_socketObjectName = n, m_pConnectionMgr = None\<rparr> = CConnectionManager_new"
  by (simp_all add: mgr_of_def)

lemma new_manager [simp]:
  "m_sendList CConnectionManager_new = []" "m_recvList CConnectionManager_new = []" "cm_inv CConnectionManager_new"
  "m_sendList (CM_SetName n cm) = m_sendList cm" "m_recvList (CM_SetName n cm) = m_recvList cm"
  "cm_inv (CM_SetName n cm) = cm_inv cm"
  by (simp_all add: CConnectionManager_new_def CM_SetName_def cm_inv_def)

lemma assoc_put_split:
  "a \<notin> set (map fst xs) \<Longrightarrow> a \<notin> set (map fst ys) \<Longrightarrow> assoc_put a v (xs @ (a, v0) # ys) = xs @ (a, v) # ys"
  by (force simp: assoc_put_def intro: map_idI)

lemma keys_assoc_put [simp]: "map fst (assoc_put a v xs) = map fst xs"
  by (simp add: assoc_put_def split_beta comp_def)

lemma map_of_split [simp]: "a \<notin> fst ` set xs \<Longrightarrow> map_of (xs @ (a, v) # ys) a = Some v"
  by (simp add: map_add_def map_of_eq_None_iff [THEN iffD2])

lemma assocE:
  assumes "distinct (map fst xs)" and "a \<in> fst ` set xs"
  obtains ys v zs where "xs = ys @ (a, v) # zs" and "map_of xs a = Some v"
    and "a \<notin> set (map fst ys)" and "a \<notin> set (map fst zs)"
proof -
  from assms(2) obtain v where "(a, v) \<in> set xs" by auto
  then obtain ys zs where "xs = ys @ (a, v) # zs" by (auto dest: split_list)
  moreover from this assms(1) have "a \<notin> set (map fst ys)" "a \<notin> set (map fst zs)" by auto
  moreover from calculation have "map_of xs a = Some v" by (simp del: map_of_append)
  ultimately show thesis using that by blast
qed

text \<open>
  The invariant seen from one socket object: everything that belongs to others is the set \<open>X\<close> of the
  manager's own invariant.
\<close>

lemma app_inv_at:
  assumes "s_objList ap = xs @ (a, so) # ys"
  shows "app_inv ap \<longleftrightarrow>
     distinct (map fst xs @ a # map fst ys) \<and> distinct (map fst (lua_msgs ap))
     \<and> (\<forall>(a, so) \<in> set (xs @ ys). cm_inv (mgr_of so)) \<and> cm_inv (mgr_of so)
     \<and> distinct (sock_refs (xs @ ys) @ lua_refs (lua_msgs ap))
     \<and> mem_ok (set (sock_refs (xs @ ys) @ lua_refs (lua_msgs ap))) (mgr_of so) (app_st ap)"
  unfolding app_inv_def assms mem_ok_def owned_def by auto

lemma app_inv_put:
  assumes "s_objList ap = xs @ (a, so) # ys" and "app_inv ap" and "cm_inv (mgr_of so')"
    and "mem_ok (set (sock_refs (xs @ ys) @ lua_refs (lua_msgs ap))) (mgr_of so') s'"
  shows "app_inv (ap\<lparr>app_st := s', s_objList := xs @ (a, so') # ys\<rparr>)"
  using assms(2-4) unfolding app_inv_at [OF assms(1)]
  by (subst app_inv_at [of _ xs a so' ys]) simp_all

lemma GetConnection_ok:
  assumes "s_objList ap = xs @ (a, so) # ys" and "app_inv ap"
  obtains cm so' where "GetConnection a ap = Inr (cm, ap\<lparr>s_objList := xs @ (a, so') # ys\<rparr>)"
    and "mgr_of so' = cm" and "m_sendList cm = m_sendList (mgr_of so)" and "m_recvList cm = m_recvList (mgr_of so)"
    and "cm_inv cm"
proof -
  from assms have d: "a \<notin> set (map fst xs)" "a \<notin> set (map fst ys)" "cm_inv (mgr_of so)"
    by (auto simp: app_inv_at)
  then have g: "get_sock a ap = Inr so"
    using assms(1) by (simp add: get_sock_def del: map_of_append)
  show thesis
  proof (cases "m_pConnectionMgr so")
    case (Some cm)
    then show thesis
      using that [of cm so] g d(3) assms(1) by (simp add: GetConnection_def mgr_of_def)
  next
    case None
    let ?cm = "CM_SetName (m_socketObjectName so) CConnectionManager_new"
    show thesis
      using that [of ?cm "so\<lparr>m_pConnectionMgr := Some ?cm\<rparr>"] g None d assms(1) assoc_put_split [OF d(1,2)]
      by (simp add: GetConnection_def put_sock_def mgr_of_def Let_def)
  qed
qed

text \<open>
  A call on a manager that keeps the manager's invariant, for every set \<open>X\<close> of foreign messages, keeps
  the invariant of the whole.
\<close>

definition keeps :: "(CConnectionManager \<Rightarrow> 'w st \<Rightarrow> ('r \<times> CConnectionManager \<times> 'w st) res) \<Rightarrow> bool" where
  "keeps f \<longleftrightarrow> (\<forall>X cm s. cm_inv cm \<longrightarrow> mem_ok X cm s \<longrightarrow>
     wpE not_uaf (\<lambda>(r, cm', s'). cm_post X s cm' s') (f cm s))"

lemma mem_ok_same: "mem_ok X cm s \<Longrightarrow> m_sendList cm' = m_sendList cm \<Longrightarrow> m_recvList cm' = m_recvList cm \<Longrightarrow> mem_ok X cm' s"
  by (simp add: mem_ok_def owned_def)

lemma on_conn_unfold:
  assumes "s_objList ap = xs @ (a, so) # ys" and "app_inv ap"
  obtains cm so' where "on_conn a f ap = bindE (f cm (app_st ap)) (\<lambda>(r, cm, s).
       Inr (r, ap\<lparr>app_st := s, s_objList := xs @ (a, so'\<lparr>m_pConnectionMgr := Some cm\<rparr>) # ys\<rparr>))"
    and "m_sendList cm = m_sendList (mgr_of so)" and "m_recvList cm = m_recvList (mgr_of so)" and "cm_inv cm"
proof -
  from GetConnection_ok [OF assms] obtain cm so' where g: "GetConnection a ap = Inr (cm, ap\<lparr>s_objList := xs @ (a, so') # ys\<rparr>)"
    and m: "mgr_of so' = cm" "m_sendList cm = m_sendList (mgr_of so)" "m_recvList cm = m_recvList (mgr_of so)" "cm_inv cm"
    by blast
  from assms have d: "a \<notin> set (map fst xs)" "a \<notin> set (map fst ys)" by (auto simp: app_inv_at)
  then have "get_sock a (ap\<lparr>s_objList := xs @ (a, so') # ys\<rparr>) = Inr so'"
    by (simp add: get_sock_def del: map_of_append)
  then have "on_conn a f ap = bindE (f cm (app_st ap)) (\<lambda>(r, cm, s).
       Inr (r, ap\<lparr>app_st := s, s_objList := xs @ (a, so'\<lparr>m_pConnectionMgr := Some cm\<rparr>) # ys\<rparr>))"
    using g assoc_put_split [OF d] by (simp add: on_conn_def put_sock_def)
  with m that show thesis by blast
qed

lemma on_conn_ok:
  assumes "app_inv ap" and "a \<in> fst ` set (s_objList ap)" and "keeps f"
  shows "wpE not_uaf (\<lambda>(r, ap'). app_inv ap' \<and> map fst (s_objList ap') = map fst (s_objList ap)
           \<and> lua_msgs ap' = lua_msgs ap) (on_conn a f ap)"
proof -
  from assocE [OF _ assms(2)] assms(1) obtain xs so ys where o: "s_objList ap = xs @ (a, so) # ys"
    unfolding app_inv_def by metis
  from on_conn_unfold [OF o assms(1)] obtain cm so' where
    u: "on_conn a f ap = bindE (f cm (app_st ap)) (\<lambda>(r, cm, s).
       Inr (r, ap\<lparr>app_st := s, s_objList := xs @ (a, so'\<lparr>m_pConnectionMgr := Some cm\<rparr>) # ys\<rparr>))"
    and m: "m_sendList cm = m_sendList (mgr_of so)" "m_recvList cm = m_recvList (mgr_of so)" "cm_inv cm" by blast
  let ?X = "set (sock_refs (xs @ ys) @ lua_refs (lua_msgs ap))"
  have mem: "mem_ok ?X cm (app_st ap)" using assms(1) m o by (auto simp: app_inv_at intro: mem_ok_same)
  have "wpE not_uaf (\<lambda>(r, cm', s'). cm_post ?X (app_st ap) cm' s') (f cm (app_st ap))"
    using assms(3) m(3) mem by (simp add: keeps_def)
  then show ?thesis
    unfolding u
    by (rule wpE_bind) (use app_inv_put [OF o assms(1)] o in \<open>auto simp: cm_post_def\<close>)
qed

section \<open>The operations a script can perform\<close>

text \<open>Operations on an existing object; \<open>New_Socket\<close> and \<open>New_Handle\<close> take the new object's address.\<close>

datatype app_op =
    New_Socket nat string | Delete_Socket nat | Restart nat | Has_Pending nat | Close_Connection nat
  | Connect_To nat string int int | Keep_Alived nat int int int int | Init_Pike nat int int | Re_Connect nat
  | Update_Net nat nat int
  | New_Handle nat | Delete_Handle nat | Create_Message nat | Load_Msg nat "string option" | Get_Size nat
  | Read_Raw nat int | Write_Raw nat "byte list" | Send_Msg nat "string option" | Begin_Write nat | End_Write nat

definition drop_result :: "('r \<times> 'w app) res \<Rightarrow> 'w app res" where
  "drop_result x = bindE x (\<lambda>(_, ap). Inr ap)"

fun app_exec :: "'w sysif \<Rightarrow> app_op \<Rightarrow> 'w app \<Rightarrow> 'w app res" where
  "app_exec S (New_Socket a n) ap = Inr (SocketObject_new a n ap)"
| "app_exec S (Delete_Socket a) ap = SocketObject_delete S a ap"
| "app_exec S (Restart a) ap = SocketObject_Restart S a ap"
| "app_exec S (Has_Pending a) ap = drop_result (SocketObject_HasPendingMsg a ap)"
| "app_exec S (Close_Connection a) ap = drop_result (SocketObject_CloseConnection S a ap)"
| "app_exec S (Connect_To a url port enc) ap = drop_result (SocketObject_ConnectToServer S url port enc a ap)"
| "app_exec S (Keep_Alived a k i j c) ap = drop_result (SocketObject_KeepAlived S k i j c a ap)"
| "app_exec S (Init_Pike a x y) ap = drop_result (SocketObject_InitPike x y a ap)"
| "app_exec S (Re_Connect a) ap = drop_result (SocketObject_ReConnectToServer S a ap)"
| "app_exec S (Update_Net a fuel dt) ap = drop_result (SocketObject_UpdateNetMsg S fuel dt a ap)"
| "app_exec S (New_Handle i) ap = Inr (CLuaMsg_new i ap)"
| "app_exec S (Delete_Handle i) ap = CLuaMsg_delete i ap"
| "app_exec S (Create_Message i) ap = CLuaMsg_CreateNewMessage S i ap"
| "app_exec S (Load_Msg i n) ap = drop_result (CLuaMsg_LoadMsg i n ap)"
| "app_exec S (Get_Size i) ap = drop_result (CLuaMsg_GetSize i ap)"
| "app_exec S (Read_Raw i k) ap = drop_result (CLuaMsg_ReadRaw i k ap)"
| "app_exec S (Write_Raw i b) ap = drop_result (CLuaMsg_WriteRaw S i b ap)"
| "app_exec S (Send_Msg i n) ap = CLuaMsg_SendMsg i n ap"
| "app_exec S (Begin_Write i) ap = drop_result (CLuaMsg_BeginForWrite i ap)"
| "app_exec S (End_Write i) ap = drop_result (CLuaMsg_EndForWrite S i ap)"

text \<open>
  What the garbage collector of the script guarantees: a method is called on an object that has not
  been collected, and a new object has an address of its own.
\<close>

fun app_live :: "app_op \<Rightarrow> 'w app \<Rightarrow> bool" where
  "app_live (New_Socket a n) ap = (a \<notin> fst ` set (s_objList ap))"
| "app_live (New_Handle i) ap = (i \<notin> fst ` set (lua_msgs ap))"
| "app_live (Delete_Socket a) ap = (a \<in> fst ` set (s_objList ap))"
| "app_live (Restart a) ap = (a \<in> fst ` set (s_objList ap))"
| "app_live (Has_Pending a) ap = (a \<in> fst ` set (s_objList ap))"
| "app_live (Close_Connection a) ap = (a \<in> fst ` set (s_objList ap))"
| "app_live (Connect_To a _ _ _) ap = (a \<in> fst ` set (s_objList ap))"
| "app_live (Keep_Alived a _ _ _ _) ap = (a \<in> fst ` set (s_objList ap))"
| "app_live (Init_Pike a _ _) ap = (a \<in> fst ` set (s_objList ap))"
| "app_live (Re_Connect a) ap = (a \<in> fst ` set (s_objList ap))"
| "app_live (Update_Net a _ _) ap = (a \<in> fst ` set (s_objList ap))"
| "app_live (Delete_Handle i) ap = (i \<in> fst ` set (lua_msgs ap))"
| "app_live (Create_Message i) ap = (i \<in> fst ` set (lua_msgs ap))"
| "app_live (Load_Msg i _) ap = (i \<in> fst ` set (lua_msgs ap))"
| "app_live (Get_Size i) ap = (i \<in> fst ` set (lua_msgs ap))"
| "app_live (Read_Raw i _) ap = (i \<in> fst ` set (lua_msgs ap))"
| "app_live (Write_Raw i _) ap = (i \<in> fst ` set (lua_msgs ap))"
| "app_live (Send_Msg i _) ap = (i \<in> fst ` set (lua_msgs ap))"
| "app_live (Begin_Write i) ap = (i \<in> fst ` set (lua_msgs ap))"
| "app_live (End_Write i) ap = (i \<in> fst ` set (lua_msgs ap))"

fun app_run :: "'w sysif \<Rightarrow> app_op list \<Rightarrow> 'w app \<Rightarrow> 'w app res" where
  "app_run S [] ap = Inr ap"
| "app_run S (x # xs) ap = (if app_live x ap then bindE (app_exec S x ap) (app_run S xs) else app_run S xs ap)"

section \<open>Every operation keeps the ownership discipline\<close>

lemma keeps_wp:
  assumes "\<And>X cm s. cm_inv cm \<Longrightarrow> mem_ok X cm s \<Longrightarrow> wpE not_uaf (\<lambda>(cm', s'). cm_post X s cm' s') (f cm s)"
  shows "keeps (\<lambda>cm s. bindE (f cm s) (\<lambda>x. Inr ((), x)))"
  unfolding keeps_def by (intro allI impI wpE_bind [OF assms]) auto

lemma encode_msgs_post:
  "cm_inv cm \<Longrightarrow> mem_ok X cm s \<Longrightarrow> set as \<subseteq> owned cm \<Longrightarrow> same_on X s0 s \<Longrightarrow>
   wpE not_uaf (\<lambda>s'. cm_post X s0 cm s') (encode_msgs cm as s)"
proof (induction as arbitrary: s)
  case Nil
  then show ?case by (simp add: cm_post_def)
next
  case (Cons a as)
  then obtain m where m: "get_msg a s = Inr m" by (auto elim: get_msg_owned)
  show ?case using Cons.IH [of "put_msg a (CM_EncodeMsg cm m) s"] Cons.prems put_msg_ok [OF Cons.prems(2), of a] m
    by simp
qed

lemma keeps_methods:
  "keeps (\<lambda>cm s. case CM_getMsg cm of None \<Rightarrow> Inr (False, cm, s)
            | Some p \<Rightarrow> bindE (get_msg p s) (\<lambda>m. Inr (NetMessage_isEnd m, cm, s)))"
  "keeps (\<lambda>cm s. Inr ((), CM_Close S cm s))"
  "keeps (\<lambda>cm s. bindE (CM_ClearCached cm s) (\<lambda>x. Inr ((), x)))"
  "keeps (CM_Connect S url port)"
  "keeps (\<lambda>cm s. let (r, s) = CM_KeepAlived S k i j c cm s in Inr (r, cm, s))"
  "keeps (\<lambda>cm s. bindE (CM_InitEncrypt x y cm s) (\<lambda>x. Inr ((), x)))"
  "keeps (\<lambda>cm s. bindE (CM_ReConnect S cm s) (\<lambda>x. Inr ((), x)))"
  "keeps (\<lambda>cm s. bindE (CM_Update S fuel dt cm s) (\<lambda>x. Inr ((), x)))"
proof -
  show "keeps (\<lambda>cm s. case CM_getMsg cm of None \<Rightarrow> Inr (False, cm, s)
            | Some p \<Rightarrow> bindE (get_msg p s) (\<lambda>m. Inr (NetMessage_isEnd m, cm, s)))"
    unfolding keeps_def
  proof (intro allI impI)
    fix X cm s assume a: "cm_inv cm" "mem_ok X cm s"
    show "wpE not_uaf (\<lambda>(r, cm', s'). cm_post X s cm' s') (case CM_getMsg cm of None \<Rightarrow> Inr (False, cm, s)
            | Some p \<Rightarrow> bindE (get_msg p s) (\<lambda>m. Inr (NetMessage_isEnd m, cm, s)))"
    proof (cases "m_recvList cm")
      case (Cons p ps)
      then have "p \<in> owned cm" by (simp add: owned_def)
      then obtain m where "get_msg p s = Inr m" using a(2) by (auto elim: get_msg_owned)
      then show ?thesis using Cons a by (simp add: CM_getMsg_def cm_post_def)
    qed (use a in \<open>simp add: CM_getMsg_def cm_post_def\<close>)
  qed
  show "keeps (\<lambda>cm s. Inr ((), CM_Close S cm s))"
    by (auto simp: keeps_def intro: Close_post)
  show "keeps (\<lambda>cm s. bindE (CM_ClearCached cm s) (\<lambda>x. Inr ((), x)))"
    by (rule keeps_wp, drule ClearCached_ok) (auto simp: cm_post_def cm_inv_def)
  show "keeps (CM_Connect S url port)" by (simp add: keeps_def Connect_wp)
  show "keeps (\<lambda>cm s. let (r, s) = CM_KeepAlived S k i j c cm s in Inr (r, cm, s))"
    by (auto simp: keeps_def CM_KeepAlived_def cm_post_def split: option.splits prod.splits)
  show "keeps (\<lambda>cm s. bindE (CM_InitEncrypt x y cm s) (\<lambda>x. Inr ((), x)))"
  proof (rule keeps_wp)
    fix X cm s assume a: "cm_inv cm" "mem_ok X cm s"
    let ?cm = "cm\<lparr>m_encryptInited := True\<rparr>"
    have "cm_inv ?cm" "mem_ok X ?cm s" "set (m_sendList ?cm) \<subseteq> owned ?cm"
      using a by (auto simp: cm_inv_def mem_ok_def owned_def)
    from encode_msgs_post [OF this same_on_refl]
    show "wpE not_uaf (\<lambda>(cm', s'). cm_post X s cm' s') (CM_InitEncrypt x y cm s)"
      by (auto simp: CM_InitEncrypt_def Let_def intro: wpE_bind)
  qed
  show "keeps (\<lambda>cm s. bindE (CM_ReConnect S cm s) (\<lambda>x. Inr ((), x)))"
    by (rule keeps_wp) (simp add: ReConnect_wp)
  show "keeps (\<lambda>cm s. bindE (CM_Update S fuel dt cm s) (\<lambda>x. Inr ((), x)))"
    by (rule keeps_wp) (simp add: Update_wp)
qed

text \<open>The methods of a handle never touch a deleted message by themselves.\<close>

lemma no_uaf_setBufValues: "wpE not_uaf (\<lambda>_. True) (setBufValues vs m)"
  by (induction vs arbitrary: m)
     (auto simp: NetMessage_setBufValue_def intro!: wpE_bind [OF wpE_bind [OF no_uaf_buffer(1)]] no_uaf_buffer(4))

lemma no_uaf_write:
  "wpE not_uaf (\<lambda>_. True) (NetMessage_wUShort M u m)" "wpE not_uaf (\<lambda>_. True) (NetMessage_wUInt M v m)"
  "wpE not_uaf (\<lambda>_. True) (NetMessage_wRaw M buf n m)"
  by (auto simp: NetMessage_wUShort_def NetMessage_wUInt_def NetMessage_wRaw_def c_memcpy_src_def buf_slice_def
      intro!: wpE_bind [OF no_uaf_checkBufSize] no_uaf_setBufValues wpE_bind [OF no_uaf_buffer(1)] no_uaf_buffer(4))

lemma no_uaf_endForWrite: "wpE not_uaf (\<lambda>_. True) (NetMessage_endForWrite M m)"
  by (auto simp: NetMessage_endForWrite_def
      intro!: wpE_bind [OF no_uaf_c_int] wpE_bind [OF no_uaf_write(1)] wpE_bind [OF no_uaf_write(2)])

lemma no_uaf_ReadRaw:
  "wpE not_uaf (\<lambda>_. True) (bindE (NetMessage_rRaw sz m) (\<lambda>(p, m'). bindE (push_bytes m' p sz) (\<lambda>xs. Inr (xs, m'))))"
proof -
  have "wpE not_uaf (\<lambda>_. True) (push_bytes m' p sz)" for m' p
    by (cases p) (auto simp: push_bytes_def buf_slice_def no_uaf_buffer)
  moreover have "wpE not_uaf (\<lambda>_. True) (NetMessage_rRaw sz m)"
    by (auto simp: NetMessage_rRaw_def intro!: wpE_bind [OF no_uaf_buffer(4)])
  ultimately show ?thesis by (auto intro!: wpE_bind split: prod.splits)
qed

lemma no_uaf_dump_loop: "wpE not_uaf (\<lambda>_. True) (dump_loop n i m)"
  by (induction n arbitrary: i) (auto intro!: wpE_bind [OF no_uaf_buffer(2)] wpE_bind)

lemma app_inv_handle:
  assumes "lua_msgs ap = xs @ (i, p) # ys"
  shows "app_inv ap \<longleftrightarrow>
     distinct (map fst (s_objList ap)) \<and> distinct (map fst xs @ i # map fst ys)
     \<and> (\<forall>(a, so) \<in> set (s_objList ap). cm_inv (mgr_of so))
     \<and> distinct (sock_refs (s_objList ap) @ lua_refs (xs @ ys) @ (case p of None \<Rightarrow> [] | Some a \<Rightarrow> [a]))
     \<and> (\<forall>r \<in> set (sock_refs (s_objList ap) @ lua_refs (xs @ ys) @ (case p of None \<Rightarrow> [] | Some a \<Rightarrow> [a])).
          st_msgs (app_st ap) r \<noteq> None)
     \<and> (\<forall>r \<ge> st_next (app_st ap). st_msgs (app_st ap) r = None)"
  unfolding app_inv_def assms by (auto split: option.splits)

lemma handleE:
  assumes "app_inv ap" and "i \<in> fst ` set (lua_msgs ap)"
  obtains xs p ys where "lua_msgs ap = xs @ (i, p) # ys" and "get_handle i ap = Inr p"
    and "\<forall>q. assoc_put i q (lua_msgs ap) = xs @ (i, q) # ys" and "i \<notin> fst ` set xs" and "i \<notin> fst ` set ys"
proof -
  have "distinct (map fst (lua_msgs ap))" using assms(1) by (simp add: app_inv_def)
  from assocE [OF this assms(2)] obtain xs p ys where
    "lua_msgs ap = xs @ (i, p) # ys" "map_of (lua_msgs ap) i = Some p" "i \<notin> set (map fst xs)" "i \<notin> set (map fst ys)"
    by blast
  then show thesis using that [of xs p ys] assoc_put_split [of i xs ys] by (simp add: get_handle_def)
qed

lemma ref_live:
  assumes "app_inv ap" and "r \<in> set (sock_refs (s_objList ap) @ lua_refs (lua_msgs ap))"
  obtains m where "st_msgs (app_st ap) r = Some m" and "r < st_next (app_st ap)"
proof -
  obtain m where m: "st_msgs (app_st ap) r = Some m" using assms unfolding app_inv_def by blast
  then have "\<not> st_next (app_st ap) \<le> r" using assms(1) unfolding app_inv_def by auto
  with m that show thesis by simp
qed

lemma put_msg_inv:
  assumes "app_inv ap" and "a \<in> set (lua_refs (lua_msgs ap))"
  shows "app_inv (ap\<lparr>app_st := put_msg a m (app_st ap)\<rparr>)"
proof -
  have "a < st_next (app_st ap)" by (rule ref_live [OF assms(1), of a]) (use assms(2) in auto)
  then show ?thesis using assms(1) by (auto simp: app_inv_def put_msg_def)
qed

lemma on_msg_ok:
  assumes "app_inv ap" and "i \<in> fst ` set (lua_msgs ap)" and "\<And>m. wpE not_uaf (\<lambda>_. True) (f m)"
  shows "wpE not_uaf app_inv (drop_result (on_msg i f ap))"
proof -
  obtain xs p ys where h: "lua_msgs ap = xs @ (i, p) # ys" "get_handle i ap = Inr p"
    and "\<forall>q. assoc_put i q (lua_msgs ap) = xs @ (i, q) # ys" "i \<notin> fst ` set xs" "i \<notin> fst ` set ys"
    using assms(1,2) by (rule handleE)
  show ?thesis
  proof (cases p)
    case None
    with h show ?thesis by (simp add: on_msg_def drop_result_def)
  next
    case (Some a)
    then have a: "a \<in> set (lua_refs (lua_msgs ap))" using h(1) by simp
    obtain m where m: "get_msg a (app_st ap) = Inr m"
      by (rule ref_live [OF assms(1), of a]) (use a in \<open>auto simp: get_msg_def\<close>)
    have "drop_result (on_msg i f ap) = bindE (f m) (\<lambda>(r, m). Inr (ap\<lparr>app_st := put_msg a m (app_st ap)\<rparr>))"
      using h(2) Some m by (simp add: on_msg_def drop_result_def bindE_assoc case_prod_unfold)
    then show ?thesis using put_msg_inv [OF assms(1) a] by (auto intro!: wpE_bind [OF assms(3)])
  qed
qed

lemma on_conn_exec:
  assumes "app_inv ap" and "a \<in> fst ` set (s_objList ap)" and "keeps f"
  shows "wpE not_uaf app_inv (drop_result (on_conn a f ap))"
  unfolding drop_result_def by (rule wpE_bind [OF on_conn_ok [OF assms]]) auto

lemma CloseConnection_exec:
  assumes "app_inv ap" and "a \<in> fst ` set (s_objList ap)"
  shows "wpE not_uaf app_inv (drop_result (SocketObject_CloseConnection S a ap))"
proof -
  let ?close = "\<lambda>cm s. Inr ((), CM_Close S cm s)"
  have "wpE not_uaf app_inv (bindE (on_conn a ?close ap) (\<lambda>(_, ap). drop_result
      (on_conn a (\<lambda>cm s. bindE (CM_ClearCached cm s) (\<lambda>x. Inr ((), x))) ap)))"
  proof (rule wpE_bind [OF on_conn_ok [OF assms keeps_methods(2)]], clarify)
    fix ap' assume "app_inv ap'" "map fst (s_objList ap') = map fst (s_objList ap)"
    moreover from this(2) assms(2) have "a \<in> fst ` set (s_objList ap')" by (metis list.set_map)
    ultimately show "wpE not_uaf app_inv
        (drop_result (on_conn a (\<lambda>cm s. bindE (CM_ClearCached cm s) (\<lambda>x. Inr ((), x))) ap'))"
      by (intro on_conn_exec keeps_methods(3))
  qed
  then show ?thesis
    by (simp add: SocketObject_CloseConnection_def drop_result_def bindE_assoc case_prod_unfold)
qed

text \<open>A socket object found by name is in the list.\<close>

lemma find_in_set: "find P xs = Some x \<Longrightarrow> x \<in> set xs \<and> P x"
  by (induction xs) (auto split: if_splits)

lemma named_socket_live: "named_socket n ap = Inr a \<Longrightarrow> a \<in> fst ` set (s_objList ap)"
  by (auto simp: named_socket_def GetDefaultSocket_def GetSocketByName_def
      split: option.splits dest!: find_in_set intro: rev_image_eqI)

lemma named_socket_cases: "named_socket n ap = Inl NullDeref \<or> (\<exists>a. named_socket n ap = Inr a)"
  by (auto simp: named_socket_def split: option.splits)

lemma sock_at:
  assumes "app_inv ap" and "a \<in> fst ` set (s_objList ap)"
  obtains xs so ys where "s_objList ap = xs @ (a, so) # ys" and "get_sock a ap = Inr so"
    and "a \<notin> set (map fst xs)" and "a \<notin> set (map fst ys)"
proof -
  have "distinct (map fst (s_objList ap))" using assms(1) by (simp add: app_inv_def)
  from assocE [OF this assms(2)] that show thesis by (metis get_sock_def option.simps(5))
qed

lemma Restart_ok:
  assumes "app_inv ap" and "a \<in> fst ` set (s_objList ap)"
  shows "wpE not_uaf app_inv (SocketObject_Restart S a ap)"
proof -
  obtain xs so ys where o: "s_objList ap = xs @ (a, so) # ys" "get_sock a ap = Inr so"
    "a \<notin> set (map fst xs)" "a \<notin> set (map fst ys)" using assms by (rule sock_at)
  let ?X = "set (sock_refs (xs @ ys) @ lua_refs (lua_msgs ap))"
  let ?cm = "CM_SetName (m_socketObjectName so) CConnectionManager_new"
  have mem: "cm_inv (mgr_of so)" "mem_ok ?X (mgr_of so) (app_st ap)" using assms(1) by (simp_all add: app_inv_at [OF o(1)])
  have fin: "app_inv (put_sock a (so\<lparr>m_pConnectionMgr := Some ?cm\<rparr>) (ap\<lparr>app_st := s\<rparr>))"
    if "mem_ok ?X CConnectionManager_new s" for s
    using app_inv_put [OF o(1) assms(1), of "so\<lparr>m_pConnectionMgr := Some ?cm\<rparr>" s] that
      assoc_put_split [OF o(3,4)] o(1) by (simp add: put_sock_def mem_ok_lists [of ?cm CConnectionManager_new])
  show ?thesis
  proof (cases "m_pConnectionMgr so")
    case None
    then have "mgr_of so = CConnectionManager_new" by (simp add: mgr_of_def)
    with mem(2) fin [of "app_st ap"] o(2) None show ?thesis by (simp add: SocketObject_Restart_def)
  next
    case (Some cm)
    then have cm: "mgr_of so = cm" by (simp add: mgr_of_def)
    obtain cm1 s1 where c: "CM_Close S cm (app_st ap) = (cm1, s1)" by fastforce
    from Close_post [OF mem same_on_refl] cm c have "mem_ok ?X cm1 s1" by (simp add: cm_post_def)
    from ClearCached_ok [OF this] obtain s2 where
      s2: "CM_ClearCached cm1 s1 = Inr (cm1\<lparr>m_sendList := [], m_recvList := []\<rparr>, s2)"
      "mem_ok ?X (cm1\<lparr>m_sendList := [], m_recvList := []\<rparr>) s2" by blast
    then have "mem_ok ?X CConnectionManager_new s2" by (auto intro: mem_ok_same)
    with fin Some c s2(1) o(2) show ?thesis by (simp add: SocketObject_Restart_def CM_delete_def)
  qed
qed

lemma filter_key: "a \<notin> fst ` set xs \<Longrightarrow> filter (\<lambda>(b, _). b \<noteq> a) xs = xs"
  by (induction xs) auto

lemma SocketObject_delete_ok:
  assumes "app_inv ap" and "a \<in> fst ` set (s_objList ap)"
  shows "wpE not_uaf app_inv (SocketObject_delete S a ap)"
proof -
  obtain xs so ys where o: "s_objList ap = xs @ (a, so) # ys" "get_sock a ap = Inr so"
    "a \<notin> set (map fst xs)" "a \<notin> set (map fst ys)" using assms by (rule sock_at)
  let ?X = "set (sock_refs (xs @ ys) @ lua_refs (lua_msgs ap))"
  have fl: "filter (\<lambda>(b, _). b \<noteq> a) (s_objList ap) = xs @ ys"
    using o(1,3,4) by (simp add: filter_key)
  have mem: "cm_inv (mgr_of so)" "mem_ok ?X (mgr_of so) (app_st ap)" using assms(1) by (simp_all add: app_inv_at [OF o(1)])
  have fin: "app_inv (ap\<lparr>s_objList := xs @ ys, app_st := s\<rparr>)" if "mem_ok ?X cm s" for s cm
    using assms(1) [unfolded app_inv_at [OF o(1)]] that by (auto simp: app_inv_def mem_ok_def)
  show ?thesis
  proof (cases "m_pConnectionMgr so")
    case None
    with fin [OF mem(2)] o(2) fl show ?thesis by (simp add: SocketObject_delete_def)
  next
    case (Some cm)
    then have cm: "mgr_of so = cm" by (simp add: mgr_of_def)
    obtain cm1 s1 where c: "CM_Close S cm (app_st ap) = (cm1, s1)" by fastforce
    from Close_post [OF mem same_on_refl] cm c have "mem_ok ?X cm1 s1" by (simp add: cm_post_def)
    from ClearCached_ok [OF this] obtain s2 where
      s2: "CM_ClearCached cm1 s1 = Inr (cm1\<lparr>m_sendList := [], m_recvList := []\<rparr>, s2)"
      "mem_ok ?X (cm1\<lparr>m_sendList := [], m_recvList := []\<rparr>) s2" by blast
    with fin [OF s2(2)] Some c o(2) fl show ?thesis by (simp add: SocketObject_delete_def)
  qed
qed

lemma CLuaMsg_delete_ok:
  assumes "app_inv ap" and "i \<in> fst ` set (lua_msgs ap)"
  shows "wpE not_uaf app_inv (CLuaMsg_delete i ap)"
proof -
  obtain xs p ys where h: "lua_msgs ap = xs @ (i, p) # ys" "get_handle i ap = Inr p"
    and "\<forall>q. assoc_put i q (lua_msgs ap) = xs @ (i, q) # ys" and n: "i \<notin> fst ` set xs" "i \<notin> fst ` set ys"
    using assms(1,2) by (rule handleE)
  have fl: "filter (\<lambda>(j, _). j \<noteq> i) (lua_msgs ap) = xs @ ys" using h(1) n by (simp add: filter_key)
  note inv = assms(1) [unfolded app_inv_handle [OF h(1)]]
  show ?thesis
  proof (cases p)
    case None
    with h(2) fl inv show ?thesis by (auto simp: CLuaMsg_delete_def app_inv_def)
  next
    case (Some a)
    then have "st_msgs (app_st ap) a \<noteq> None" using inv by simp
    from delete_msg_ok [OF this] obtain s' where
      "delete_msg a (app_st ap) = Inr s'" "st_msgs s' = (st_msgs (app_st ap))(a := None)"
      "st_next s' = st_next (app_st ap)" by blast
    with h(2) fl inv Some show ?thesis by (auto simp: CLuaMsg_delete_def app_inv_def)
  qed
qed

lemma CLuaMsg_CreateNewMessage_ok:
  assumes "app_inv ap" and "i \<in> fst ` set (lua_msgs ap)"
  shows "wpE not_uaf app_inv (CLuaMsg_CreateNewMessage S i ap)"
proof -
  obtain xs p ys where h: "lua_msgs ap = xs @ (i, p) # ys" "get_handle i ap = Inr p"
    and put: "\<forall>q. assoc_put i q (lua_msgs ap) = xs @ (i, q) # ys" and "i \<notin> fst ` set xs" "i \<notin> fst ` set ys"
    using assms(1,2) by (rule handleE)
  obtain m p' where new: "NetMessage_new (sys_malloc S) 512 (st_pool (app_st ap)) = (m, p')" by fastforce
  then obtain a s' where n: "new_msg S 512 (app_st ap) = (a, s')" "a = st_next (app_st ap)"
    "st_msgs s' = (st_msgs (app_st ap))(a \<mapsto> m)" "st_next s' = Suc a"
    by (simp add: new_msg_def)
  note inv = assms(1) [unfolded app_inv_handle [OF h(1)]]
  have old: "r < st_next (app_st ap)" if "r \<in> set (sock_refs (s_objList ap) @ lua_refs (xs @ ys))" for r
    by (rule ref_live [OF assms(1), of r]) (use that h(1) in auto)
  let ?ap = "ap\<lparr>app_st := s', lua_msgs := xs @ (i, Some a) # ys\<rparr>"
  have "app_inv ?ap"
    using inv old n by (subst app_inv_handle [of _ xs i "Some a" ys]) (auto dest!: old)
  with h(2) put n(1) show ?thesis by (simp add: CLuaMsg_CreateNewMessage_def put_handle_def)
qed

lemma on_conn_some:
  assumes "s_objList ap = xs @ (a, so) # ys" and "a \<notin> set (map fst xs)" and "a \<notin> set (map fst ys)"
    and "m_pConnectionMgr so = Some cm"
  shows "on_conn a f ap = bindE (f cm (app_st ap)) (\<lambda>(r, cm, s).
       Inr (r, ap\<lparr>app_st := s, s_objList := xs @ (a, so\<lparr>m_pConnectionMgr := Some cm\<rparr>) # ys\<rparr>))"
proof -
  have "get_sock a ap = Inr so" using assms(1,2) by (simp add: get_sock_def del: map_of_append)
  then show ?thesis
    using assms assoc_put_split [OF assms(2,3)] by (simp add: on_conn_def GetConnection_def put_sock_def)
qed

lemma CLuaMsg_SendMsg_ok:
  assumes "app_inv ap" and "i \<in> fst ` set (lua_msgs ap)"
  shows "wpE not_uaf app_inv (CLuaMsg_SendMsg i n ap)"
proof -
  obtain ls p rs where h: "lua_msgs ap = ls @ (i, p) # rs" "get_handle i ap = Inr p"
    and put: "\<forall>q. assoc_put i q (lua_msgs ap) = ls @ (i, q) # rs" and "i \<notin> fst ` set ls" "i \<notin> fst ` set rs"
    using assms(1,2) by (rule handleE)
  show ?thesis
  proof (cases "\<exists>a. named_socket n ap = Inr a")
    case False
    with named_socket_cases [of n ap] h(2) show ?thesis by (auto simp: CLuaMsg_SendMsg_def)
  next
    case True
    then obtain a where a: "named_socket n ap = Inr a" by blast
    obtain xs so ys where o: "s_objList ap = xs @ (a, so) # ys" "get_sock a ap = Inr so"
      "a \<notin> set (map fst xs)" "a \<notin> set (map fst ys)"
      using assms(1) named_socket_live [OF a] by (rule sock_at)
    from on_conn_unfold [OF o(1) assms(1)] obtain cm so' where
      u: "on_conn a (\<lambda>cm s. bindE (CM_SendMsg p cm s) (\<lambda>x. Inr ((), x))) ap =
         bindE (bindE (CM_SendMsg p cm (app_st ap)) (\<lambda>x. Inr ((), x))) (\<lambda>(r, cm, s).
         Inr (r, ap\<lparr>app_st := s, s_objList := xs @ (a, so'\<lparr>m_pConnectionMgr := Some cm\<rparr>) # ys\<rparr>))"
      and m: "m_sendList cm = m_sendList (mgr_of so)" "m_recvList cm = m_recvList (mgr_of so)" "cm_inv cm" by blast
    note inv = assms(1) [unfolded app_inv_at [OF o(1)]]
    show ?thesis
    proof (cases p)
      case None
      with u a h(2) show ?thesis by (simp add: CLuaMsg_SendMsg_def CM_SendMsg_def)
    next
      case (Some q)
      let ?X = "set (sock_refs (xs @ ys) @ lua_refs (lua_msgs ap))"
      have mem: "mem_ok ?X cm (app_st ap)" "q \<in> ?X" using inv m h(1) Some by (auto intro: mem_ok_same)
      from SendMsg_ok [OF m(3) mem] obtain cm' s' where
        s: "CM_SendMsg (Some q) cm (app_st ap) = Inr (cm', s')" "cm_post (?X - {q}) (app_st ap) cm' s'" by blast
      have X: "?X - {q} = set (sock_refs (xs @ ys) @ lua_refs (ls @ (i, None) # rs))"
        using inv h(1) Some by auto
      let ?ap = "ap\<lparr>app_st := s', s_objList := xs @ (a, so'\<lparr>m_pConnectionMgr := Some cm'\<rparr>) # ys, lua_msgs := ls @ (i, None) # rs\<rparr>"
      have "app_inv ?ap"
        using inv s(2) h(1) Some unfolding X by (subst app_inv_at [of _ xs a _ ys]) (auto simp: cm_post_def)
      moreover have "CLuaMsg_SendMsg i n ap = Inr ?ap"
        using h(2) a u s(1) Some put by (simp add: CLuaMsg_SendMsg_def put_handle_def)
      ultimately show ?thesis by simp
    qed
  qed
qed

lemma CLuaMsg_LoadMsg_ok:
  assumes "app_inv ap" and "i \<in> fst ` set (lua_msgs ap)"
  shows "wpE not_uaf app_inv (drop_result (CLuaMsg_LoadMsg i n ap))"
proof -
  obtain ls p rs where h: "lua_msgs ap = ls @ (i, p) # rs" "get_handle i ap = Inr p"
    and put: "\<forall>q. assoc_put i q (lua_msgs ap) = ls @ (i, q) # rs" and "i \<notin> fst ` set ls" "i \<notin> fst ` set rs"
    using assms(1,2) by (rule handleE)
  show ?thesis
  proof (cases "\<exists>a. named_socket n ap = Inr a")
    case False
    with named_socket_cases [of n ap] h(2) show ?thesis by (auto simp: CLuaMsg_LoadMsg_def drop_result_def)
  next
    case True
    then obtain a where a: "named_socket n ap = Inr a" by blast
    obtain xs so ys where o: "s_objList ap = xs @ (a, so) # ys" "get_sock a ap = Inr so"
      "a \<notin> set (map fst xs)" "a \<notin> set (map fst ys)"
      using assms(1) named_socket_live [OF a] by (rule sock_at)
    from on_conn_unfold [OF o(1) assms(1)] obtain cm so' where
      u: "on_conn a (\<lambda>cm s. Inr (CM_getMsg cm, cm, s)) ap =
         bindE (Inr (CM_getMsg cm, cm, app_st ap)) (\<lambda>(r, cm, s).
         Inr (r, ap\<lparr>app_st := s, s_objList := xs @ (a, so'\<lparr>m_pConnectionMgr := Some cm\<rparr>) # ys\<rparr>))"
      and m: "m_sendList cm = m_sendList (mgr_of so)" "m_recvList cm = m_recvList (mgr_of so)" "cm_inv cm" by blast
    note inv = assms(1) [unfolded app_inv_at [OF o(1)]]
    let ?so = "\<lambda>cm. so'\<lparr>m_pConnectionMgr := Some cm\<rparr>" and ?p = "CM_getMsg cm"
    let ?cm = "CM_RemoveMsg ?p cm"
    let ?ap1 = "ap\<lparr>s_objList := xs @ (a, ?so cm) # ys, lua_msgs := ls @ (i, ?p) # rs\<rparr>"
    let ?ap2 = "ap\<lparr>s_objList := xs @ (a, ?so ?cm) # ys, lua_msgs := ls @ (i, ?p) # rs\<rparr>"
    have u2: "on_conn a (\<lambda>cm s. Inr ((), CM_RemoveMsg ?p cm, s)) ?ap1 = Inr ((), ?ap2)"
      using on_conn_some [of ?ap1 xs a "?so cm" ys cm "\<lambda>cm s. Inr ((), CM_RemoveMsg ?p cm, s)"] o(3,4) by simp
    show ?thesis
    proof (cases "m_recvList cm")
      case Nil
      then show ?thesis using u u2 a h(2) put
        by (simp add: CLuaMsg_LoadMsg_def drop_result_def CM_getMsg_def put_handle_def)
    next
      case (Cons q qs)
      let ?X = "set (sock_refs (xs @ ys) @ lua_refs (lua_msgs ap))"
      have p: "?p = Some q" "m_recvList ?cm = qs" "m_sendList ?cm = m_sendList cm" "cm_inv ?cm"
        using Cons m(3) by (simp_all add: CM_getMsg_def CM_RemoveMsg_def cm_inv_def)
      have mem: "mem_ok ?X cm (app_st ap)" using inv m by (auto intro: mem_ok_same)
      have inv2: "app_inv ?ap2"
        using inv mem p Cons h(1) by (subst app_inv_at [of _ xs a _ ys])
          (auto simp: mem_ok_def owned_def split: option.splits)
      have "q \<in> ?X \<union> owned cm" using Cons by (simp add: owned_def)
      then obtain mq where mq: "get_msg q (app_st ap) = Inr mq" using mem by (auto elim: get_msg_owned)
      have "app_inv (?ap2\<lparr>app_st := put_msg q m' (app_st ?ap2)\<rparr>)" for m'
        by (rule put_msg_inv [OF inv2]) (simp add: p(1))
      then have fin: "app_inv (?ap2\<lparr>app_st := put_msg q m' (app_st ap)\<rparr>)" for m' by simp
      have "drop_result (CLuaMsg_LoadMsg i n ap) = bindE (NetMessage_dump (NetMessage_ResetForRead mq))
          (\<lambda>out. Inr (?ap2\<lparr>app_st := put_msg q (NetMessage_ResetForRead mq) (app_st ap)\<rparr>))"
        using u u2 a h(2) put p(1) mq
        by (simp add: CLuaMsg_LoadMsg_def drop_result_def put_handle_def bindE_assoc Let_def)
      then show ?thesis
        using fin unfolding NetMessage_dump_def by (auto intro!: wpE_bind [OF no_uaf_dump_loop])
    qed
  qed
qed

lemma app_exec_ok:
  assumes "app_inv ap" and "app_live x ap"
  shows "wpE not_uaf app_inv (app_exec S x ap)"
proof (cases x)
  case (New_Socket a n)
  have "sock_refs (insort_key fst (a, \<lparr>m_socketObjectName = n, m_pConnectionMgr = None\<rparr>) xs) = sock_refs xs" for xs
    by (induction xs) auto
  moreover have "map fst (insort_key fst (a, v) xs) = insort a (map fst xs)" for v :: SocketObject and xs
    by (induction xs) auto
  ultimately show ?thesis using assms New_Socket
    by (auto simp: SocketObject_new_def app_inv_def distinct_insort set_insort_key)
next
  case (New_Handle i)
  with assms show ?thesis by (auto simp: CLuaMsg_new_def app_inv_def)
qed (use assms in \<open>auto simp: SocketObject_HasPendingMsg_def SocketObject_ConnectToServer_def
      SocketObject_KeepAlived_def SocketObject_InitPike_def SocketObject_ReConnectToServer_def
      SocketObject_UpdateNetMsg_def CLuaMsg_GetSize_def CLuaMsg_ReadRaw_def CLuaMsg_WriteRaw_def
      CLuaMsg_BeginForWrite_def CLuaMsg_EndForWrite_def
      intro!: on_conn_exec keeps_methods keeps_methods(5) [unfolded Let_def] on_msg_ok CloseConnection_exec Restart_ok SocketObject_delete_ok
        CLuaMsg_delete_ok CLuaMsg_CreateNewMessage_ok CLuaMsg_SendMsg_ok CLuaMsg_LoadMsg_ok
        no_uaf_ReadRaw wpE_bind [OF no_uaf_write(3)] wpE_bind [OF no_uaf_endForWrite]\<close>)

lemma app_run_ok: "app_inv ap \<Longrightarrow> wpE not_uaf app_inv (app_run S xs ap)"
  by (induction xs arbitrary: ap) (auto intro!: wpE_bind [OF app_exec_ok])

section \<open>Properties\<close>

definition app_start :: "'w st \<Rightarrow> 'w app" where
  "app_start s = \<lparr>s_objList = [], lua_msgs = [], app_st = s\<rparr>"

text \<open>
  C3: whatever sequence of calls a script makes on its socket and message objects, and whatever the
  operating system answers, no call touches a message that has been freed and none is freed twice;
  and afterwards every message in a queue or behind a handle is live and is there only once, so no
  message has two owners. (A message may have lost its owner: \<open>CreateNewMessage\<close> and \<open>LoadMsg\<close> overwrite
  the handle's pointer, and what it pointed to is leaked.)
\<close>

theorem script_memory_safe:
  assumes "st_msgs s = Map.empty"
  shows "case app_run S ops (app_start s) of
      Inl e \<Rightarrow> e \<noteq> UseAfterFree
    | Inr ap \<Rightarrow> (let refs = sock_refs (s_objList ap) @ lua_refs (lua_msgs ap)
                in distinct refs \<and> (\<forall>r \<in> set refs. st_msgs (app_st ap) r \<noteq> None))"
proof -
  have "app_inv (app_start s)" using assms by (simp add: app_inv_def app_start_def)
  from app_run_ok [OF this, of S ops] show ?thesis
    by (auto simp: app_inv_def Let_def split: sum.splits)
qed

theorem script_memory_safe_witness:
  "\<exists>ap. app_run (script_sys zero_malloc)
       [New_Socket 7 ''defaultSocket'', New_Handle 1, Create_Message 1, Send_Msg 1 None] (app_start demo_st) = Inr ap
     \<and> sock_refs (s_objList ap) = [0] \<and> st_msgs (app_st ap) 0 \<noteq> None"
  using script_memory_safe [of demo_st "script_sys zero_malloc"
      "[New_Socket 7 ''defaultSocket'', New_Handle 1, Create_Message 1, Send_Msg 1 None]"]
  by (auto simp: demo_st_def app_start_def SocketObject_new_def CLuaMsg_new_def CLuaMsg_CreateNewMessage_def
      get_handle_def put_handle_def assoc_put_def new_msg_def Let_def CLuaMsg_SendMsg_def named_socket_def
      GetDefaultSocket_def GetSocketByName_def on_conn_def GetConnection_def get_sock_def put_sock_def
      CM_SendMsg_def get_msg_def mgr_of_def put_msg_def split_beta)

text \<open>
  C14: every bit of the value of \<open>generateSecret\<close> is one bit of one of the two keys: bits 24 to 31 are
  bits 3 to 10 of the second key, 16 to 23 are bits 5 to 12 of the first, 8 to 15 are bits 23 to 30
  of the second and 0 to 7 are bits 15 to 22 of the first.
\<close>

theorem generateSecret_bits:
  "bit (generateSecret key1 key2) n \<longleftrightarrow>
     (if n < 8 then bit key1 (n + 15) else if n < 16 then bit key2 (n + 15)
      else if n < 24 then bit key1 (n - 11) else n < 32 \<and> bit key2 (n - 21))"
proof -
  have ff: "x AND 0xFF = take_bit 8 x" for x :: "32 word"
    by (simp add: take_bit_eq_mask mask_eq_exp_minus_1)
  have "n < 8 \<or> 8 \<le> n \<and> n < 16 \<or> 16 \<le> n \<and> n < 24 \<or> 24 \<le> n \<and> n < 32 \<or> 32 \<le> n" by linarith
  then show ?thesis
    by (elim disjE) (auto simp: generateSecret_def Let_def ff bit_simps add.commute)
qed

end
