(* ===== verification/LuaObject.thy ===== *)
theory LuaObject
  imports Prelude
begin

text \<open>
  Values of the Lua interpreter and the generic functions on them (\<open>src/lua/src/lobject.h\<close>,
  \<open>lobject.c\<close>). A number is the bit pattern of an IEEE double, with the comparisons and conversions
  that the interpreter applies to it; strings are their contents, because the interpreter keeps one
  object per content; other collectable objects are named by address.
\<close>

section \<open>Numbers\<close>

type_synonym lua_Number = "64 word"

definition dbl_sign :: "lua_Number \<Rightarrow> bool" where "dbl_sign x \<longleftrightarrow> unat x div 2 ^ 63 = 1"
definition dbl_exp :: "lua_Number \<Rightarrow> nat" where "dbl_exp x = unat x div 2 ^ 52 mod 2048"
definition dbl_man :: "lua_Number \<Rightarrow> nat" where "dbl_man x = unat x mod 2 ^ 52"

definition luai_numisnan :: "lua_Number \<Rightarrow> bool" where
  "luai_numisnan x \<longleftrightarrow> dbl_exp x = 2047 \<and> dbl_man x \<noteq> 0"

text \<open>The order of doubles is the order of their magnitudes, read as integers, with the sign.\<close>

definition dbl_key :: "lua_Number \<Rightarrow> int" where
  "dbl_key x = (if dbl_sign x then - int (unat x mod 2 ^ 63) else int (unat x mod 2 ^ 63))"

definition luai_numeq :: "lua_Number \<Rightarrow> lua_Number \<Rightarrow> bool" where
  "luai_numeq x y \<longleftrightarrow> \<not> luai_numisnan x \<and> \<not> luai_numisnan y \<and> dbl_key x = dbl_key y"

definition luai_numlt :: "lua_Number \<Rightarrow> lua_Number \<Rightarrow> bool" where
  "luai_numlt x y \<longleftrightarrow> \<not> luai_numisnan x \<and> \<not> luai_numisnan y \<and> dbl_key x < dbl_key y"

definition luai_numle :: "lua_Number \<Rightarrow> lua_Number \<Rightarrow> bool" where
  "luai_numle x y \<longleftrightarrow> \<not> luai_numisnan x \<and> \<not> luai_numisnan y \<and> dbl_key x \<le> dbl_key y"

fun ilog2 :: "nat \<Rightarrow> nat" where
  "ilog2 n = (if n < 2 then 0 else Suc (ilog2 (n div 2)))"

declare ilog2.simps [simp del]

text \<open>
  \<open>cast_num\<close>: the double of an \<open>int\<close>, exact because an \<open>int\<close> has 32 bits and the mantissa 52.
  \<open>lua_number2int\<close>: the conversion back by truncation; for a value that no \<open>int\<close> holds the C
  conversion is undefined, and the model has the value \<open>INT_MIN\<close> that the processor's instruction
  gives.
\<close>

definition cast_num :: "int \<Rightarrow> lua_Number" where
  "cast_num i =
     (if i = 0 then 0
      else let n = nat \<bar>i\<bar>; e = ilog2 n
           in word_of_nat ((if i < 0 then 2 ^ 63 else 0) + (1023 + e) * 2 ^ 52 + (n - 2 ^ e) * 2 ^ (52 - e)))"

definition lua_number2int :: "lua_Number \<Rightarrow> int" where
  "lua_number2int x =
     (let e = dbl_exp x; m = 2 ^ 52 + dbl_man x;
          v = (if e < 1023 then 0 else if e \<le> 1075 then m div 2 ^ (1075 - e) else m * 2 ^ (e - 1075));
          i = (if dbl_sign x then - int v else int v)
      in if e = 2047 \<or> \<not> in_int i then INT_MIN else i)"

section \<open>Values\<close>

datatype TValue =
    TNil | TBoolean bool | TLightUserData nat | TNumber lua_Number | TString "byte list"
  | TTable nat | TFunction nat | TUserData nat | TThread nat | TDeadKey nat

fun ttype :: "TValue \<Rightarrow> nat" where
  "ttype TNil = 0" | "ttype (TBoolean _) = 1" | "ttype (TLightUserData _) = 2" | "ttype (TNumber _) = 3"
| "ttype (TString _) = 4" | "ttype (TTable _) = 5" | "ttype (TFunction _) = 6" | "ttype (TUserData _) = 7"
| "ttype (TThread _) = 8" | "ttype (TDeadKey _) = 11"

definition iscollectable :: "TValue \<Rightarrow> bool" where
  "iscollectable v \<longleftrightarrow> ttype v \<ge> 4"

fun l_isfalse :: "TValue \<Rightarrow> bool" where
  "l_isfalse TNil = True" | "l_isfalse (TBoolean b) = (\<not> b)" | "l_isfalse _ = False"

text \<open>\<open>gcvalue\<close> compares the pointers to collectable objects.\<close>

fun luaO_rawequalObj :: "TValue \<Rightarrow> TValue \<Rightarrow> bool" where
  "luaO_rawequalObj t1 t2 =
     (if ttype t1 \<noteq> ttype t2 then False
      else case t1 of
             TNil \<Rightarrow> True
           | TNumber n1 \<Rightarrow> (case t2 of TNumber n2 \<Rightarrow> luai_numeq n1 n2 | _ \<Rightarrow> False)
           | TBoolean b1 \<Rightarrow> (case t2 of TBoolean b2 \<Rightarrow> b1 = b2 | _ \<Rightarrow> False)
           | TLightUserData p1 \<Rightarrow> (case t2 of TLightUserData p2 \<Rightarrow> p1 = p2 | _ \<Rightarrow> False)
           | _ \<Rightarrow> t1 = t2)"

section \<open>Floating point bytes and logarithms\<close>

text \<open>The loop of \<open>luaO_int2fb\<close> on an unsigned \<open>int\<close>; \<open>x + 1\<close> wraps around.\<close>

function int2fb_loop :: "32 word \<Rightarrow> nat \<Rightarrow> 32 word \<times> nat" where
  "int2fb_loop x e = (if x \<ge> 16 then int2fb_loop (drop_bit 1 (x + 1)) (e + 1) else (x, e))"
  by auto

definition luaO_fb2int :: "int \<Rightarrow> int res" where
  "luaO_fb2int x =
     (let e = (drop_bit 3 x) AND 31
      in if e = 0 then Inr x else c_int (push_bit (nat (e - 1)) ((x AND 7) + 8)))"

definition log_2_table :: "nat list" where
  "log_2_table = [0, 1] @ replicate 2 2 @ replicate 4 3 @ replicate 8 4 @ replicate 16 5 @ replicate 32 6
     @ replicate 64 7 @ replicate 128 8"

function luaO_log2_loop :: "32 word \<Rightarrow> int \<Rightarrow> int" where
  "luaO_log2_loop x l =
     (if x \<ge> 256 then luaO_log2_loop (drop_bit 8 x) (l + 8) else l + int (log_2_table ! unat x))"
  by auto

definition luaO_log2 :: "32 word \<Rightarrow> int" where
  "luaO_log2 x = luaO_log2_loop x (-1)"

definition ceillog2 :: "32 word \<Rightarrow> int" where
  "ceillog2 x = luaO_log2 (x - 1) + 1"

lemma word_drop_less: "(k :: 32 word) \<le> x \<Longrightarrow> 0 < n \<Longrightarrow> 0 < unat k \<Longrightarrow> unat (drop_bit n x) < unat x"
proof -
  assume a: "k \<le> x" "0 < n" "0 < unat k"
  then have "unat k \<le> unat x" by (simp add: word_le_nat_alt)
  with a(3) have "0 < unat x" by linarith
  then show ?thesis using a(2) by (simp only: unat_drop_bit) (rule div_less_dividend, simp_all add: one_less_power del: One_nat_def)
qed

lemma unat_max: "unat (- 1 :: 32 word) = 4294967295"
  by (simp add: unsigned_minus_1_eq_mask mask_eq_exp_minus_1)

lemma unat_lt_32: "unat (x :: 32 word) < 4294967296"
proof -
  have "unat x < 2 ^ LENGTH(32)" by (rule unsigned_less)
  then show ?thesis by simp
qed

lemma unat_half_up: "unat (drop_bit 1 (x + 1 :: 32 word)) = (if x = - 1 then 0 else (unat x + 1) div 2)"
proof (cases "x = - 1")
  case False
  then have "1 + x \<noteq> 0" by (metis add_eq_0_iff)
  then have "unat (x + 1) = unat x + 1" using unatSuc [of x] by (simp add: add.commute)
  then show ?thesis using False by (simp add: unat_drop_bit del: drop_bit_eq_div)
qed simp

termination int2fb_loop
proof (relation "measure (\<lambda>(x, e). unat x)", simp, clarsimp)
  fix x :: "32 word" assume "16 \<le> x"
  then have "16 \<le> unat x" by (simp add: word_le_nat_alt)
  then show "unat (drop_bit (Suc 0) (x + 1)) < unat x" using unat_half_up [of x] by (auto split: if_splits)
qed

termination luaO_log2_loop
proof (relation "measure (\<lambda>(x, l). unat x)", simp, clarsimp)
  fix x :: "32 word" assume "256 \<le> x"
  then show "unat (drop_bit 8 x) < unat x" by (rule word_drop_less) simp_all
qed

declare int2fb_loop.simps [simp del] luaO_log2_loop.simps [simp del]

definition luaO_int2fb :: "32 word \<Rightarrow> int" where
  "luaO_int2fb x =
     (let (x, e) = int2fb_loop x 0
      in if x < 8 then uint x else (push_bit 3 (int e + 1)) OR (uint x - 8))"

section \<open>Rounding of floating point bytes\<close>

text \<open>The loop halves with rounding up; it stops at a mantissa between 8 and 15, or below.\<close>

lemma int2fb_loop_bounds:
  "x \<noteq> - 1 \<Longrightarrow>
   \<exists>m k. int2fb_loop x e = (m, e + k) \<and> unat m < 16 \<and> (0 < k \<longrightarrow> 8 \<le> unat m)
     \<and> unat x \<le> unat m * 2 ^ k \<and> unat m * 2 ^ k + 1 \<le> unat x + 2 ^ k"
proof (induction x e rule: int2fb_loop.induct)
  case (1 x e)
  show ?case
  proof (cases "16 \<le> x")
    case True
    let ?y = "drop_bit 1 (x + 1)"
    have y: "unat ?y = (unat x + 1) div 2" using unat_half_up [of x] 1(2) by simp
    have x: "16 \<le> unat x" "unat x < 4294967296" using True unat_lt_32 by (simp_all add: word_le_nat_alt)
    have "?y \<noteq> - 1"
    proof
      assume "?y = - 1"
      then have "unat ?y = 4294967295" by (simp only: unat_max)
      with y x show False by linarith
    qed
    from 1(1) [OF True this] obtain m k where mk: "int2fb_loop ?y (e + 1) = (m, e + 1 + k)" "unat m < 16"
      "0 < k \<longrightarrow> 8 \<le> unat m" "unat ?y \<le> unat m * 2 ^ k" "unat m * 2 ^ k + 1 \<le> unat ?y + 2 ^ k" by blast
    have "8 \<le> unat m" using mk(3,4) x(1) y by (cases "k = 0") auto
    moreover have "int2fb_loop x e = (m, e + Suc k)" using True mk(1) by (subst int2fb_loop.simps) simp
    moreover have "unat x \<le> unat m * 2 ^ Suc k" "unat m * 2 ^ Suc k + 1 \<le> unat x + 2 ^ Suc k"
      using mk(4,5) y by simp_all
    ultimately show ?thesis using mk(2) by blast
  next
    case False
    then have "unat x < 16" by (simp add: word_le_nat_alt)
    with False show ?thesis by (intro exI [of _ x] exI [of _ 0]) (subst int2fb_loop.simps, simp)
  qed
qed

lemma push_or_add: "0 \<le> b \<Longrightarrow> b < 8 \<Longrightarrow> push_bit 3 (a :: int) OR b = 8 * a + b"
proof -
  assume b: "0 \<le> b" "b < 8"
  then have "take_bit 3 b = b" by (simp add: take_bit_int_eq_self)
  then have "\<not> bit b n" if "3 \<le> n" for n using that by (metis bit_take_bit_iff not_less)
  then have "push_bit 3 a OR b = push_bit 3 a + b"
    by (subst disjunctive_add) (auto simp: bit_simps)
  then show ?thesis by (simp add: push_bit_eq_mult)
qed

lemma fb2int_code:
  assumes "0 \<le> b" "b < 8" "1 \<le> e" "e \<le> 31" and "(b + 8) * 2 ^ nat (e - 1) \<le> INT_MAX"
  shows "luaO_fb2int (push_bit 3 e OR b) = Inr ((b + 8) * 2 ^ nat (e - 1))"
proof -
  have c: "push_bit 3 e OR b = 8 * e + b" using assms(1,2) by (rule push_or_add)
  have "drop_bit 3 (8 * e + b) AND 31 = (8 * e + b) div 8 mod 32"
    using take_bit_eq_mask [of 5 "drop_bit 3 (8 * e + b)"] by (simp add: drop_bit_eq_div take_bit_eq_mod mask_eq_exp_minus_1)
  moreover have "(8 * e + b) AND 7 = (8 * e + b) mod 8"
    using take_bit_eq_mask [of 3 "8 * e + b"] by (simp add: take_bit_eq_mod mask_eq_exp_minus_1)
  moreover have "(8 * e + b) div 8 mod 32 = e" "(8 * e + b) mod 8 = b" using assms by auto
  moreover have "in_int ((b + 8) * 2 ^ nat (e - 1))"
    using assms by (simp add: in_int_def INT_MIN_def) (smt (verit) mult_nonneg_nonneg zero_le_power)
  ultimately show ?thesis using assms(3) c by (simp add: luaO_fb2int_def Let_def push_bit_eq_mult)
qed

text \<open>
  C25: the one-byte encoding of a table size rounds up, and by at most a seventh: for every size up to
  \<open>2 ^ 30\<close>, decoding the byte gives at least the size and at most \<open>8/7\<close> of it, without overflow.
\<close>

theorem fb_rounds_up:
  assumes "unat x \<le> 2 ^ 30"
  shows "\<exists>r. luaO_fb2int (luaO_int2fb x) = Inr r \<and> int (unat x) \<le> r \<and> 7 * r \<le> 8 * int (unat x)"
proof -
  have "x \<noteq> - 1" using assms by (auto simp: unat_max)
  from int2fb_loop_bounds [OF this, of 0] obtain m k where mk: "int2fb_loop x 0 = (m, k)" "unat m < 16"
    "0 < k \<longrightarrow> 8 \<le> unat m" "unat x \<le> unat m * 2 ^ k" "unat m * 2 ^ k + 1 \<le> unat x + 2 ^ k" by auto
  show ?thesis
  proof (cases "unat m < 8")
    case True
    then have k: "k = 0" using mk(3) by auto
    have "m < 8" using True by (simp add: word_less_nat_alt)
    moreover have "uint m = int (unat m)" by simp
    moreover have "int (unat m) div 8 = 0" using True by (intro div_pos_pos_trivial) linarith+
    ultimately have "luaO_fb2int (luaO_int2fb x) = Inr (int (unat m))"
      using mk(1) by (simp add: luaO_int2fb_def luaO_fb2int_def drop_bit_eq_div)
    moreover have "unat m = unat x" using mk(4,5) k by simp
    ultimately show ?thesis by (intro exI [of _ "int (unat m)"]) simp
  next
    case False
    then have m8: "8 \<le> unat m" by simp
    have seven: "7 * 2 ^ k \<le> unat x"
    proof -
      have "8 * 2 ^ k \<le> unat m * 2 ^ k" using m8 by simp
      with mk(5) show ?thesis by linarith
    qed
    have k: "k < 30"
    proof (rule ccontr)
      assume "\<not> k < 30"
      then have "(2 :: nat) ^ 30 \<le> 2 ^ k" by (intro power_increasing) auto
      then have "(2 :: nat) ^ k \<ge> 1073741824" by simp
      moreover have "unat x \<le> 1073741824" using assms by simp
      ultimately show False using seven by linarith
    qed
    have up: "7 * (unat m * 2 ^ k) \<le> 8 * unat x" using mk(5) seven by linarith
    have "\<not> m < 8" "uint m = int (unat m)" using m8 by (simp_all add: word_less_nat_alt)
    then have code: "luaO_int2fb x = push_bit 3 (int k + 1) OR (int (unat m) - 8)"
      using mk(1) by (simp add: luaO_int2fb_def)
    have r: "(int (unat m) - 8 + 8) * 2 ^ nat (int k + 1 - 1) = int (unat m * 2 ^ k)" by simp
    have um: "8 \<le> int (unat m)" "int (unat m) < 16" using m8 mk(2) by linarith+
    have "unat x \<le> 1073741824" using assms by simp
    with up have "unat m * 2 ^ k \<le> 2147483647" by linarith
    then have "int (unat m * 2 ^ k) \<le> INT_MAX" unfolding INT_MAX_def by linarith
    then have "luaO_fb2int (luaO_int2fb x) = Inr (int (unat m * 2 ^ k))"
      unfolding code using um k by (subst fb2int_code) (simp_all add: r)
    then show ?thesis using mk(4) up by (intro exI [of _ "int (unat m * 2 ^ k)"]) linarith
  qed
qed

theorem fb_rounds_up_witness:
  "\<exists>r. luaO_fb2int (luaO_int2fb 1000) = Inr r \<and> 1000 \<le> r \<and> 7 * r \<le> 8000"
  using fb_rounds_up [of 1000] by simp

section \<open>Logarithm\<close>

lemma log_2_table_entry:
  assumes "2 ^ j \<le> n" and "n < 2 ^ Suc j" and "n < 256"
  shows "log_2_table ! n = Suc j"
proof -
  have "j < 8"
  proof (rule ccontr)
    assume "\<not> j < 8"
    then have "(2 :: nat) ^ 8 \<le> 2 ^ j" by (intro power_increasing) auto
    with assms(1,3) show False by simp
  qed
  then consider "j = 0" | "j = 1" | "j = 2" | "j = 3" | "j = 4" | "j = 5" | "j = 6" | "j = 7" by linarith
  then show ?thesis using assms by cases (auto simp: log_2_table_def nth_append nth_Cons')
qed

lemma log2_loop_spec:
  "2 ^ j \<le> unat x \<Longrightarrow> unat x < 2 ^ Suc j \<Longrightarrow> luaO_log2_loop x l = l + int (Suc j)"
proof (induction x l arbitrary: j rule: luaO_log2_loop.induct)
  case (1 x l)
  show ?case
  proof (cases "256 \<le> x")
    case True
    have j: "8 \<le> j"
    proof (rule ccontr)
      assume "\<not> 8 \<le> j"
      then have "(2 :: nat) ^ Suc j \<le> 2 ^ 8" by (intro power_increasing) auto
      with 1(3) True show False by (simp add: word_le_nat_alt)
    qed
    then obtain i where i: "j = i + 8" by (metis add.commute le_Suc_ex)
    then have p: "(2 :: nat) ^ j = 2 ^ (j - 8) * 256" "(2 :: nat) ^ Suc j = 2 ^ Suc (j - 8) * 256"
      by (simp_all add: power_add)
    have "2 ^ (j - 8) \<le> unat (drop_bit 8 x)" "unat (drop_bit 8 x) < 2 ^ Suc (j - 8)"
      using 1(2,3) unfolding unat_drop_bit p by (auto simp: less_eq_div_iff_mult_less_eq div_less_iff_less_mult)
    from 1(1) [OF True this] True j show ?thesis by (subst luaO_log2_loop.simps) simp
  next
    case False
    then have "unat x < 256" by (simp add: word_le_nat_alt)
    with log_2_table_entry [OF 1(2,3)] False show ?thesis by (subst luaO_log2_loop.simps) simp
  qed
qed

lemma log2_correct_lemma:
  assumes "0 < x"
  shows "\<exists>l. luaO_log2 x = int l \<and> 2 ^ l \<le> unat x \<and> unat x < 2 ^ Suc l"
proof -
  have "0 < unat x" using assms by (simp add: word_less_nat_alt)
  then obtain j where j: "2 ^ j \<le> unat x" "unat x < 2 ^ Suc j"
    using ex_power_ivl1 [of 2 "unat x"] by auto
  from log2_loop_spec [OF this, of "-1"] j show ?thesis by (auto simp: luaO_log2_def)
qed

text \<open>\<open>luaO_log2\<close> is the integer part of the binary logarithm of every positive unsigned \<open>int\<close>.\<close>

theorem log2_correct:
  assumes "0 < x"
  shows "\<exists>l. luaO_log2 x = int l \<and> 2 ^ l \<le> unat x \<and> unat x < 2 ^ Suc l"
  using assms by (rule log2_correct_lemma)

theorem log2_correct_witness: "\<exists>l. luaO_log2 1000 = int l \<and> 2 ^ l \<le> (1000 :: nat) \<and> (1000 :: nat) < 2 ^ Suc l"
  using log2_correct [of 1000] by simp

section \<open>Integers as numbers\<close>

text \<open>Every \<open>int\<close> has an exact double, and the comparison of doubles is equality up to the sign of zero.\<close>

lemma ilog2_bounds: "0 < n \<Longrightarrow> 2 ^ ilog2 n \<le> n \<and> n < 2 ^ Suc (ilog2 n)"
proof (induction n rule: ilog2.induct)
  case (1 n)
  show ?case
  proof (cases "n < 2")
    case True
    with 1(2) show ?thesis by (simp add: ilog2.simps)
  next
    case False
    then have "2 ^ ilog2 (n div 2) \<le> n div 2" "n div 2 < 2 ^ Suc (ilog2 (n div 2))" using 1(1) by auto
    moreover have "ilog2 n = Suc (ilog2 (n div 2))" using False by (simp add: ilog2.simps [of n])
    ultimately show ?thesis by simp linarith
  qed
qed

lemma cast_num_fields:
  assumes "in_int i" and "i \<noteq> 0"
  defines "n \<equiv> nat \<bar>i\<bar>" and "e \<equiv> ilog2 (nat \<bar>i\<bar>)"
  shows "e \<le> 31" and "dbl_exp (cast_num i) = 1023 + e" and "dbl_man (cast_num i) = (n - 2 ^ e) * 2 ^ (52 - e)"
    and "dbl_sign (cast_num i) \<longleftrightarrow> i < 0" and "2 ^ 52 + dbl_man (cast_num i) = n * 2 ^ (52 - e)"
proof -
  have n: "0 < n" "n \<le> 2147483648" using assms(1,2) by (auto simp: n_def in_int_numeral_bounds)
  have b: "2 ^ e \<le> n" "n < 2 ^ Suc e" using ilog2_bounds [OF n(1)] by (simp_all add: e_def n_def)
  show e: "e \<le> 31"
  proof (rule ccontr)
    assume "\<not> e \<le> 31"
    then have "(2 :: nat) ^ 32 \<le> 2 ^ e" by (intro power_increasing) auto
    with b n show False by simp
  qed
  let ?m = "(n - 2 ^ e) * 2 ^ (52 - e)" and ?s = "if i < 0 then 2 ^ 63 else 0 :: nat"
  have pp: "(2 :: nat) ^ e * 2 ^ (52 - e) = 2 ^ 52" using e by (simp flip: power_add)
  have "?m < 2 ^ e * 2 ^ (52 - e)" using b by (intro mult_strict_right_mono) auto
  with pp have m: "?m < 2 ^ 52" by simp
  have u: "unat (cast_num i) = ?s + (1023 + e) * 2 ^ 52 + ?m"
  proof -
    have "?s + (1023 + e) * 2 ^ 52 + ?m < 2 ^ 64" using m e by auto
    then have "take_bit 64 (?s + (1023 + e) * 2 ^ 52 + ?m) = ?s + (1023 + e) * 2 ^ 52 + ?m"
      by (simp only: take_bit_nat_eq_self)
    moreover have "cast_num i = word_of_nat (?s + (1023 + e) * 2 ^ 52 + ?m)"
      using assms(2) by (simp add: cast_num_def Let_def n_def e_def)
    ultimately show ?thesis by (simp only: unsigned_of_nat) simp
  qed
  have s: "?s = (if i < 0 then 2048 else 0) * 2 ^ 52" by simp
  have d: "unat (cast_num i) div 2 ^ 52 = (if i < 0 then 2048 else 0) + 1023 + e"
    unfolding u s using m by (simp add: div_add1_eq flip: distrib_right add.assoc)
  have "(2048 + (1023 + e)) mod 2048 = 1023 + e" using e by (subst mod_add_self1) simp
  then show "dbl_exp (cast_num i) = 1023 + e" using e unfolding dbl_exp_def d by simp
  have "unat (cast_num i) mod 2 ^ 52 = ((if i < 0 then 2048 else 0) + (1023 + e)) * 2 ^ 52 mod 2 ^ 52 + ?m"
    unfolding u s using m by (metis (no_types, lifting) distrib_right mod_less mod_mult_self2_is_0 mod_mult_self3 add_0)
  then have "unat (cast_num i) mod 2 ^ 52 = ?m" by (simp only: mod_mult_self2_is_0 add_0)
  then show man: "dbl_man (cast_num i) = ?m" by (simp add: dbl_man_def)
  have "unat (cast_num i) div 2 ^ 63 = unat (cast_num i) div 2 ^ 52 div 2 ^ 11" by (simp flip: div_mult2_eq)
  then show "dbl_sign (cast_num i) \<longleftrightarrow> i < 0" unfolding dbl_sign_def d using e by auto
  show "2 ^ 52 + dbl_man (cast_num i) = n * 2 ^ (52 - e)"
    unfolding man using mult_le_mono1 [OF b(1), of "2 ^ (52 - e)"] pp by (simp add: diff_mult_distrib)
qed

lemma cast_num_0 [simp]: "cast_num 0 = 0"
  by (simp add: cast_num_def)

lemma lua_number2int_cast_num [simp]:
  assumes "in_int i"
  shows "lua_number2int (cast_num i) = i"
proof (cases "i = 0")
  case True
  then show ?thesis by (simp add: lua_number2int_def dbl_exp_def dbl_sign_def in_int_numeral_bounds)
next
  case False
  note f = cast_num_fields [OF assms False]
  let ?e = "ilog2 (nat \<bar>i\<bar>)"
  have e: "\<not> dbl_exp (cast_num i) < 1023" "dbl_exp (cast_num i) \<le> 1075" "dbl_exp (cast_num i) \<noteq> 2047"
    using f(1,2) by auto
  have "1075 - dbl_exp (cast_num i) = 52 - ?e" using f(2) by simp
  then have "(2 ^ 52 + dbl_man (cast_num i)) div 2 ^ (1075 - dbl_exp (cast_num i)) = nat \<bar>i\<bar>"
    using f(5) by simp
  then show ?thesis using e f(4) assms by (simp add: lua_number2int_def Let_def)
qed

lemma cast_num_not_nan [simp]: "in_int i \<Longrightarrow> \<not> luai_numisnan (cast_num i)"
  using cast_num_fields(1,2) [of i] by (cases "i = 0") (auto simp: luai_numisnan_def dbl_exp_def)

lemma dbl_key_unat:
  "dbl_key x = dbl_key y \<Longrightarrow> x = y \<or> unat x mod 2 ^ 63 = 0 \<and> unat y mod 2 ^ 63 = 0"
proof -
  have h: "unat x div 2 ^ 63 < 2" for x :: "64 word"
  proof -
    have "unat x < 2 ^ LENGTH(64)" by (rule unsigned_less)
    then show ?thesis by (simp add: div_less_iff_less_mult)
  qed
  assume a: "dbl_key x = dbl_key y"
  show ?thesis
  proof (cases "dbl_sign x = dbl_sign y")
    case True
    then have "unat x div 2 ^ 63 = unat y div 2 ^ 63" using h [of x] h [of y] by (simp only: dbl_sign_def) linarith
    moreover have "unat x mod 2 ^ 63 = unat y mod 2 ^ 63" using a True by (simp add: dbl_key_def split: if_splits)
    ultimately have "unat x = unat y" by (metis div_mult_mod_eq)
    then show ?thesis by (simp add: word_unat_eq_iff)
  next
    case False
    then show ?thesis using a by (simp add: dbl_key_def split: if_splits)
  qed
qed

lemma luai_numeq_refl [simp]: "luai_numeq x x \<longleftrightarrow> \<not> luai_numisnan x"
  by (simp add: luai_numeq_def)

lemma luai_numeq_sym: "luai_numeq x y \<longleftrightarrow> luai_numeq y x"
  by (auto simp: luai_numeq_def)

lemma luai_numeq_trans: "luai_numeq x y \<Longrightarrow> luai_numeq y z \<Longrightarrow> luai_numeq x z"
  by (auto simp: luai_numeq_def)

lemma luai_numeq_0: "luai_numeq x 0 \<longleftrightarrow> unat x mod 2 ^ 63 = 0"
proof -
  have "unat x mod 2 ^ 63 = 0 \<Longrightarrow> dbl_exp x mod 2048 = 0 \<and> dbl_man x = 0"
  proof -
    assume "unat x mod 2 ^ 63 = 0"
    then obtain k where "unat x = 2 ^ 63 * k" by (auto simp: mod_eq_0_iff_dvd)
    then have "unat x = 2 ^ 52 * (2048 * k)" by simp
    then show ?thesis by (simp add: dbl_exp_def dbl_man_def)
  qed
  then have "unat x mod 2 ^ 63 = 0 \<Longrightarrow> \<not> luai_numisnan x" by (auto simp: luai_numisnan_def)
  moreover have "\<not> luai_numisnan 0" "dbl_key 0 = 0" by (simp_all add: luai_numisnan_def dbl_man_def dbl_key_def)
  ultimately show ?thesis by (auto simp: luai_numeq_def dbl_key_def)
qed

lemma luai_numeq_cases: "luai_numeq x y \<Longrightarrow> x = y \<or> luai_numeq x 0 \<and> luai_numeq y 0"
  unfolding luai_numeq_0 by (rule dbl_key_unat) (simp add: luai_numeq_def)

lemma luai_numeq_cast_num:
  assumes "in_int i" "in_int j"
  shows "luai_numeq (cast_num i) (cast_num j) \<longleftrightarrow> i = j"
proof
  assume a: "luai_numeq (cast_num i) (cast_num j)"
  have z: "k = 0" if k: "in_int k" "luai_numeq (cast_num k) 0" for k
  proof (rule ccontr)
    assume "k \<noteq> 0"
    then have "dbl_exp (cast_num k) \<noteq> 0" using cast_num_fields(2) [OF k(1)] by simp
    moreover have "unat (cast_num k) mod 2 ^ 63 = 0" using k(2) by (simp only: luai_numeq_0)
    then obtain c where "unat (cast_num k) = 2 ^ 52 * (2048 * c)" by (auto simp: mod_eq_0_iff_dvd)
    then have "dbl_exp (cast_num k) = 0" by (simp add: dbl_exp_def)
    ultimately show False by simp
  qed
  from luai_numeq_cases [OF a] show "i = j"
    using z assms by (metis lua_number2int_cast_num)
qed (use assms in auto)

end
