(* ===== verification/LuaString.thy ===== *)
theory LuaString
  imports LuaObject "HOL-Library.Multiset"
begin

text \<open>
  The string table of the interpreter (\<open>src/lua/src/lstring.c\<close>): a hash table with chains, in which
  every string of the program exists once. A chain is the list of its objects; an object carries its
  address, contents, hash and mark bits. The allocator is a parameter: the address it returns for
  a block of a given size, or none.
\<close>

datatype lua_error = ErrRun string | ErrMem | ErrUB ub

type_synonym 'a lres = "lua_error + 'a"

definition MAX_INT :: int where "MAX_INT = INT_MAX - 2"
definition MAX_SIZET :: nat where "MAX_SIZET = 2 ^ 64 - 1 - 2"

text \<open>\<open>lmod\<close>: remainder by a power of two.\<close>

definition lmod :: "32 word \<Rightarrow> nat \<Rightarrow> nat" where
  "lmod s n = unat s AND (n - 1)"

section \<open>Mark bits\<close>

definition WHITEBITS :: byte where "WHITEBITS = 3"

definition luaC_white :: "byte \<Rightarrow> byte" where "luaC_white w = w AND WHITEBITS"
definition otherwhite :: "byte \<Rightarrow> byte" where "otherwhite w = w XOR WHITEBITS"

section \<open>State\<close>

record TString =
  ts_addr :: nat
  ts_str :: "byte list"
  ts_hash :: "32 word"
  ts_marked :: byte

record strings =
  strt_hash :: "TString list list"
  strt_nuse :: "32 word"
  currentwhite :: byte
  sweepstring :: bool   \<comment> \<open>\<open>gcstate == GCSsweepstring\<close>\<close>

definition strt_size :: "strings \<Rightarrow> nat" where "strt_size g = length (strt_hash g)"

definition isdead :: "strings \<Rightarrow> TString \<Rightarrow> bool" where
  "isdead g o1 \<longleftrightarrow> ts_marked o1 AND otherwhite (currentwhite g) AND WHITEBITS \<noteq> 0"

definition changewhite :: "TString \<Rightarrow> TString" where
  "changewhite o1 = o1\<lparr>ts_marked := ts_marked o1 XOR WHITEBITS\<rparr>"

type_synonym allocator = "nat \<Rightarrow> nat option"

section \<open>Operations\<close>

text \<open>The inner loop of \<open>luaS_resize\<close> moves the objects of one chain to the front of their new chains.\<close>

definition rechain :: "nat \<Rightarrow> TString \<Rightarrow> TString list list \<Rightarrow> TString list list" where
  "rechain newsize p newhash =
     (let h1 = lmod (ts_hash p) newsize in newhash[h1 := p # newhash ! h1])"

definition luaS_resize :: "allocator \<Rightarrow> nat \<Rightarrow> strings \<Rightarrow> strings lres" where
  "luaS_resize A newsize g =
     (if sweepstring g then Inr g
      else case A (newsize * 8) of
             None \<Rightarrow> Inl ErrMem
           | Some _ \<Rightarrow>
               Inr (g\<lparr>strt_hash := fold (fold (rechain newsize)) (strt_hash g) (replicate newsize [])\<rparr>))"

definition sizeof_TString :: nat where "sizeof_TString = 24"

definition newlstr :: "allocator \<Rightarrow> byte list \<Rightarrow> 32 word \<Rightarrow> strings \<Rightarrow> (TString \<times> strings) lres" where
  "newlstr A str h g =
     (let l = length str
      in if l + 1 > MAX_SIZET - sizeof_TString then Inl (ErrRun ''memory allocation error: block too big'')
         else case A (l + 1 + sizeof_TString) of
                None \<Rightarrow> Inl ErrMem
              | Some a \<Rightarrow>
                  let ts = \<lparr>ts_addr = a, ts_str = str, ts_hash = h, ts_marked = luaC_white (currentwhite g)\<rparr>;
                      k = lmod h (strt_size g);
                      g = g\<lparr>strt_hash := (strt_hash g)[k := ts # strt_hash g ! k], strt_nuse := strt_nuse g + 1\<rparr>
                  in if unat (strt_nuse g) > strt_size g \<and> int (strt_size g) \<le> MAX_INT div 2
                     then bindE (luaS_resize A (strt_size g * 2) g) (\<lambda>g. Inr (ts, g))
                     else Inr (ts, g))"

function hash_loop :: "byte list \<Rightarrow> nat \<Rightarrow> nat \<Rightarrow> 32 word \<Rightarrow> 32 word" where
  "hash_loop str step l1 h =
     (if 0 < step \<and> step \<le> l1
      then hash_loop str step (l1 - step) (h XOR (push_bit 5 h + drop_bit 2 h + ucast (str ! (l1 - 1))))
      else h)"
  by auto
termination by (relation "measure (\<lambda>(str, step, l1, h). l1)") auto

declare hash_loop.simps [simp del]

definition str_hash :: "byte list \<Rightarrow> 32 word" where
  "str_hash str =
     (let l = length str in hash_loop str (drop_bit 5 l + 1) l (word_of_nat l))"

text \<open>The search loop of \<open>luaS_newlstr\<close>: the first object of the chain with these contents, revived.\<close>

fun find_string :: "strings \<Rightarrow> byte list \<Rightarrow> TString list \<Rightarrow> (TString \<times> TString list) option" where
  "find_string g str [] = None"
| "find_string g str (ts # os) =
     (if length (ts_str ts) = length str \<and> ts_str ts = str
      then (let ts = (if isdead g ts then changewhite ts else ts) in Some (ts, ts # os))
      else map_option (\<lambda>(r, os'). (r, ts # os')) (find_string g str os))"

definition luaS_newlstr :: "allocator \<Rightarrow> byte list \<Rightarrow> strings \<Rightarrow> (TString \<times> strings) lres" where
  "luaS_newlstr A str g =
     (let h = str_hash str; k = lmod h (strt_size g)
      in case find_string g str (strt_hash g ! k) of
           Some (ts, os) \<Rightarrow> Inr (ts, g\<lparr>strt_hash := (strt_hash g)[k := os]\<rparr>)
         | None \<Rightarrow> newlstr A str h g)"

section \<open>Interning\<close>

definition all_strings :: "strings \<Rightarrow> TString list" where
  "all_strings g = concat (strt_hash g)"

text \<open>
  The table is sound when its size is a power of two, every object has the hash of its contents and
  stands in the chain of that hash, and no two objects have the same contents or address.
\<close>

definition in_chain :: "nat \<Rightarrow> nat \<Rightarrow> TString \<Rightarrow> bool" where
  "in_chain n i ts \<longleftrightarrow> ts_hash ts = str_hash (ts_str ts) \<and> lmod (ts_hash ts) n = i"

definition chained :: "nat \<Rightarrow> TString list list \<Rightarrow> bool" where
  "chained n xss \<longleftrightarrow> length xss = n \<and> (\<forall>i < n. \<forall>ts \<in> set (xss ! i). in_chain n i ts)"

definition strt_inv :: "strings \<Rightarrow> bool" where
  "strt_inv g \<longleftrightarrow>
     (\<exists>n. strt_size g = 2 ^ n) \<and> chained (strt_size g) (strt_hash g)
     \<and> distinct (map ts_str (all_strings g)) \<and> distinct (map ts_addr (all_strings g))"

lemma chained_hash: "chained n xss \<Longrightarrow> p \<in> set (concat xss) \<Longrightarrow> ts_hash p = str_hash (ts_str p)"
  unfolding chained_def in_chain_def by simp (metis in_set_conv_nth)

lemma chained_update:
  assumes "chained n xss" and "\<And>ts. ts \<in> set ys \<Longrightarrow> in_chain n i ts"
  shows "chained n (xss[i := ys])"
  using assms unfolding chained_def by (metis length_list_update nth_list_update_eq nth_list_update_neq)

lemma chained_Cons:
  "chained n xss \<Longrightarrow> i < n \<Longrightarrow> in_chain n i p \<Longrightarrow> chained n (xss[i := p # xss ! i])"
  by (rule chained_update) (auto simp: chained_def)

lemma lmod_less: "0 < n \<Longrightarrow> lmod s n < n"
proof -
  assume n: "0 < n"
  have "int (unat s AND (n - 1)) \<le> int (n - 1)"
    by (simp only: of_nat_and_eq) (rule AND_upper2, simp)
  then have "unat s AND (n - 1) \<le> n - 1" by linarith
  with n show ?thesis by (simp add: lmod_def)
qed

text \<open>Resizing distributes the same objects over the new chains.\<close>

lemma mset_concat_update:
  "i < length xss \<Longrightarrow> mset (concat (xss[i := x # xss ! i])) = add_mset x (mset (concat xss))"
  by (induction xss arbitrary: i) (auto simp: nth_Cons split: nat.split)

lemma rechain_chained:
  assumes "0 < n" and "chained n xss" and "ts_hash p = str_hash (ts_str p)"
  shows "chained n (rechain n p xss)" "mset (concat (rechain n p xss)) = add_mset p (mset (concat xss))"
proof -
  have l: "lmod (ts_hash p) n < length xss" using lmod_less [OF assms(1)] assms(2) by (simp add: chained_def)
  then show "mset (concat (rechain n p xss)) = add_mset p (mset (concat xss))"
    by (simp add: rechain_def Let_def mset_concat_update)
  show "chained n (rechain n p xss)" unfolding rechain_def Let_def
    using assms lmod_less [OF assms(1)] by (intro chained_Cons) (auto simp: in_chain_def)
qed

lemma fold_rechain:
  assumes "0 < n" and "\<forall>p \<in> set ps. ts_hash p = str_hash (ts_str p)" and "chained n xss"
  shows "chained n (fold (rechain n) ps xss) \<and> mset (concat (fold (rechain n) ps xss)) = mset ps + mset (concat xss)"
  using assms(2,3)
proof (induction ps arbitrary: xss)
  case (Cons p ps)
  then show ?case using rechain_chained [OF assms(1) Cons(3), of p] by simp
qed simp

lemma fold_fold: "fold (fold f) xss a = fold f (concat xss) a"
  by (induction xss arbitrary: a) auto

lemma luaS_resize_sound:
  assumes "strt_inv g" and "luaS_resize A (2 ^ n) g = Inr g'"
  shows "strt_inv g' \<and> mset (all_strings g') = mset (all_strings g)"
proof (cases "sweepstring g")
  case True
  then show ?thesis using assms by (simp add: luaS_resize_def)
next
  case False
  have h: "\<forall>p \<in> set (all_strings g). ts_hash p = str_hash (ts_str p)"
    using assms(1) chained_hash by (auto simp: strt_inv_def all_strings_def)
  have g': "g' = g\<lparr>strt_hash := fold (rechain (2 ^ n)) (all_strings g) (replicate (2 ^ n) [])\<rparr>"
    using assms(2) False by (auto simp: luaS_resize_def fold_fold all_strings_def split: option.splits)
  have e: "chained (2 ^ n) (replicate (2 ^ n) [])" by (simp add: chained_def)
  have "concat (replicate k []) = ([] :: TString list)" for k by (induction k) auto
  with fold_rechain [OF _ h e] have c: "chained (2 ^ n) (strt_hash g')" and m: "mset (all_strings g') = mset (all_strings g)"
    by (simp_all add: g' all_strings_def)
  have d: "distinct (map f (all_strings g')) = distinct (map f (all_strings g))" for f :: "TString \<Rightarrow> 'x"
    using m by (metis mset_eq_imp_distinct_iff mset_map)
  have "strt_size g' = 2 ^ n" using c by (simp add: chained_def strt_size_def)
  then show ?thesis using assms(1) c m d [of ts_str] d [of ts_addr]
    by (auto simp: strt_inv_def)
qed

text \<open>Searching a chain.\<close>

lemma find_string_None: "find_string g str os = None \<longleftrightarrow> str \<notin> ts_str ` set os"
  by (induction os) (auto simp: Let_def)

lemma find_string_Some:
  "find_string g str os = Some (ts, os') \<Longrightarrow>
   ts_str ts = str \<and> map ts_str os' = map ts_str os \<and> map ts_addr os' = map ts_addr os \<and> map ts_hash os' = map ts_hash os
   \<and> ts \<in> set os' \<and> (\<exists>t0 \<in> set os. ts_str t0 = str \<and> ts_addr t0 = ts_addr ts)"
  by (induction os arbitrary: os') (auto simp: Let_def changewhite_def split: if_splits)

definition idents :: "strings \<Rightarrow> (byte list \<times> nat) set" where
  "idents g = (\<lambda>ts. (ts_str ts, ts_addr ts)) ` set (all_strings g)"

lemma idents_mset: "mset (all_strings g) = mset (all_strings g') \<Longrightarrow> idents g = idents g'"
  unfolding idents_def by (metis set_mset_mset)

lemma concat_map_update:
  "map f ys = map f (xss ! k) \<Longrightarrow> map f (concat (xss[k := ys])) = map f (concat xss)"
  by (induction xss arbitrary: k) (auto simp: nth_Cons split: nat.split)

lemma idents_map:
  assumes "map ts_str xs = map ts_str ys" and "map ts_addr xs = map ts_addr ys"
  shows "(\<lambda>ts. (ts_str ts, ts_addr ts)) ` set xs = (\<lambda>ts. (ts_str ts, ts_addr ts)) ` set ys"
proof -
  have "(\<lambda>ts. (ts_str ts, ts_addr ts)) ` set zs = set (zip (map ts_str zs) (map ts_addr zs))" for zs
    by (induction zs) auto
  from this [of xs] this [of ys] show ?thesis by (simp only: assms)
qed

text \<open>Objects found in their chain: nothing changes but the mark bits.\<close>

lemma newlstr_found:
  assumes inv: "strt_inv g" and f: "find_string g str (strt_hash g ! k) = Some (ts, os)" and k: "k < strt_size g"
  defines "g' \<equiv> g\<lparr>strt_hash := (strt_hash g)[k := os]\<rparr>"
  shows "strt_inv g'" "idents g' = idents g" "(str, ts_addr ts) \<in> idents g" "ts \<in> set (all_strings g')"
proof -
  note fs = find_string_Some [OF f]
  have s: "strt_size g' = strt_size g" by (simp add: g'_def strt_size_def)
  have m: "map ts_str (all_strings g') = map ts_str (all_strings g)"
    "map ts_addr (all_strings g') = map ts_addr (all_strings g)"
    using fs by (simp_all add: g'_def all_strings_def concat_map_update del: map_concat)
  have "\<forall>t \<in> set os. \<exists>t0 \<in> set (strt_hash g ! k). ts_hash t0 = ts_hash t \<and> ts_str t0 = ts_str t"
  proof
    fix t assume "t \<in> set os"
    then obtain i where i: "i < length os" "t = os ! i" by (auto simp: in_set_conv_nth)
    have "length os = length (strt_hash g ! k)" using fs by (metis length_map)
    then show "\<exists>t0 \<in> set (strt_hash g ! k). ts_hash t0 = ts_hash t \<and> ts_str t0 = ts_str t"
      using i fs by (metis nth_map nth_mem)
  qed
  then have "\<forall>t \<in> set os. in_chain (strt_size g) k t"
    using inv k unfolding strt_inv_def chained_def in_chain_def by metis
  then have "chained (strt_size g) (strt_hash g')"
    using inv by (simp add: g'_def strt_inv_def chained_update)
  with inv m s show "strt_inv g'" by (simp add: strt_inv_def)
  show "idents g' = idents g" unfolding idents_def using m by (rule idents_map)
  from fs obtain t0 where t0: "t0 \<in> set (strt_hash g ! k)" "ts_str t0 = str" "ts_addr t0 = ts_addr ts" by blast
  have "strt_hash g ! k \<in> set (strt_hash g)" using k by (simp add: strt_size_def)
  with t0(1) have t: "t0 \<in> set (all_strings g)" by (auto simp: all_strings_def)
  have "(str, ts_addr ts) = (ts_str t0, ts_addr t0)" by (simp only: t0)
  then show "(str, ts_addr ts) \<in> idents g" unfolding idents_def using t by (rule image_eqI)
  have "strt_hash g' ! k = os" "k < length (strt_hash g')" using k by (simp_all add: g'_def strt_size_def)
  then have "os \<in> set (strt_hash g')" by (metis nth_mem)
  then show "ts \<in> set (all_strings g')" using fs by (auto simp: all_strings_def)
qed

text \<open>New objects.\<close>

lemma newlstr_new:
  assumes inv: "strt_inv g" and new: "\<forall>ts \<in> set (all_strings g). ts_str ts \<noteq> str"
    and fresh: "\<And>n a. A n = Some a \<Longrightarrow> a \<notin> ts_addr ` set (all_strings g)"
    and r: "newlstr A str (str_hash str) g = Inr (ts, g')"
  shows "strt_inv g' \<and> ts_str ts = str \<and> ts \<in> set (all_strings g') \<and> idents g' = insert (str, ts_addr ts) (idents g)"
proof -
  let ?k = "lmod (str_hash str) (strt_size g)"
  let ?g = "g\<lparr>strt_hash := (strt_hash g)[?k := ts # strt_hash g ! ?k], strt_nuse := strt_nuse g + 1\<rparr>"
  obtain n where n: "strt_size g = 2 ^ n" using inv by (auto simp: strt_inv_def)
  have k: "?k < strt_size g" by (rule lmod_less) (simp add: n)
  have ts: "ts_str ts = str" "ts_hash ts = str_hash str" and "\<exists>n. A n = Some (ts_addr ts)"
    and g': "g' = ?g \<or> luaS_resize A (strt_size g * 2) ?g = Inr g'"
    using r by (auto simp: newlstr_def Let_def bindE_eq_Inr strt_size_def split: if_splits option.splits)
  then have ta: "ts_addr ts \<notin> ts_addr ` set (all_strings g)" using fresh by blast
  have m: "mset (all_strings ?g) = add_mset ts (mset (all_strings g))"
    using k by (simp add: all_strings_def strt_size_def mset_concat_update)
  have d: "distinct (map f (all_strings ?g)) \<longleftrightarrow> distinct (map f (ts # all_strings g))" for f :: "TString \<Rightarrow> 'x"
    using m by (intro mset_eq_imp_distinct_iff) (metis mset.simps(2) mset_map)
  have "chained (strt_size g) (strt_hash ?g)"
    using inv k ts(1,2) by (auto simp: strt_inv_def in_chain_def intro!: chained_Cons)
  then have i: "strt_inv ?g"
    using inv ts ta new by (simp add: strt_inv_def d [of ts_str] d [of ts_addr]) (auto simp: strt_size_def)
  have id: "idents ?g = insert (str, ts_addr ts) (idents g)" "ts \<in> set (all_strings ?g)"
    using arg_cong [OF m, of set_mset] ts(1) by (simp_all add: idents_def)
  from g' show ?thesis
  proof
    assume "luaS_resize A (strt_size g * 2) ?g = Inr g'"
    then have "luaS_resize A (2 ^ Suc n) ?g = Inr g'" by (simp add: n mult.commute)
    from luaS_resize_sound [OF i this] have "strt_inv g'" "mset (all_strings g') = mset (all_strings ?g)" by auto
    then show ?thesis using ts(1) id idents_mset by (metis set_mset_mset)
  qed (use i id ts(1) in auto)
qed

text \<open>
  C20: strings are interned. Looking up or creating a string in a sound table leaves the table sound
  (each content once, in the chain of its hash, also after the table has grown), returns an object
  with these contents that is in the table, keeps the address of every other string, and returns the
  object that already had these contents, if there was one; so two strings are equal exactly when
  their addresses are.
\<close>

theorem strings_interned:
  assumes "strt_inv g" and "\<And>n a. A n = Some a \<Longrightarrow> a \<notin> ts_addr ` set (all_strings g)"
    and "luaS_newlstr A str g = Inr (ts, g')"
  shows "strt_inv g' \<and> ts_str ts = str \<and> ts \<in> set (all_strings g')
    \<and> idents g' = insert (str, ts_addr ts) (idents g)
    \<and> (\<forall>t1 \<in> set (all_strings g'). \<forall>t2 \<in> set (all_strings g'). ts_str t1 = ts_str t2 \<longleftrightarrow> ts_addr t1 = ts_addr t2)"
proof -
  let ?k = "lmod (str_hash str) (strt_size g)"
  have k: "?k < strt_size g" using assms(1) by (auto simp: strt_inv_def intro!: lmod_less)
  have main: "strt_inv g' \<and> ts_str ts = str \<and> ts \<in> set (all_strings g') \<and> idents g' = insert (str, ts_addr ts) (idents g)"
  proof (cases "find_string g str (strt_hash g ! ?k)")
    case None
    have "ts_str t \<noteq> str" if t: "t \<in> set (all_strings g)" for t
    proof
      assume a: "ts_str t = str"
      obtain i where i: "i < strt_size g" "t \<in> set (strt_hash g ! i)"
        using t unfolding all_strings_def strt_size_def by simp (metis in_set_conv_nth)
      then have "i = ?k" using assms(1) a unfolding strt_inv_def chained_def in_chain_def by metis
      then show False using None i(2) a by (auto simp: find_string_None)
    qed
    moreover have "newlstr A str (str_hash str) g = Inr (ts, g')"
      using assms(3) None by (simp add: luaS_newlstr_def Let_def)
    ultimately show ?thesis using newlstr_new [OF assms(1)] assms(2) by blast
  next
    case (Some p)
    then have "find_string g str (strt_hash g ! ?k) = Some (ts, snd p)"
      and "g' = g\<lparr>strt_hash := (strt_hash g)[?k := snd p]\<rparr>"
      using assms(3) by (auto simp: luaS_newlstr_def Let_def split: prod.splits)
    then show ?thesis using newlstr_found [OF assms(1) _ k] find_string_Some by (metis insert_absorb)
  qed
  moreover have "ts_str t1 = ts_str t2 \<longleftrightarrow> ts_addr t1 = ts_addr t2"
    if "t1 \<in> set (all_strings g')" "t2 \<in> set (all_strings g')" for t1 t2
    using main that unfolding strt_inv_def distinct_map by (metis inj_onD)
  ultimately show ?thesis by blast
qed

definition demo_strings :: strings where
  "demo_strings = \<lparr>strt_hash = [[]], strt_nuse = 0, currentwhite = 1, sweepstring = False\<rparr>"

theorem strings_interned_witness:
  "\<exists>ts g'. luaS_newlstr (\<lambda>n. Some 64) [104, 105] demo_strings = Inr (ts, g') \<and> strt_inv g'
     \<and> idents g' = {([104, 105], 64)}"
proof -
  have i: "strt_inv demo_strings"
    by (auto simp: strt_inv_def demo_strings_def strt_size_def chained_def all_strings_def intro: exI [of _ 0])
  obtain ts g' where r: "luaS_newlstr (\<lambda>n. Some 64) [104, 105] demo_strings = Inr (ts, g')" and a: "ts_addr ts = 64"
    by (auto simp: luaS_newlstr_def newlstr_def demo_strings_def strt_size_def lmod_def MAX_SIZET_def sizeof_TString_def
        MAX_INT_def INT_MAX_def Let_def)
  have "idents demo_strings = {}" by (simp add: idents_def all_strings_def demo_strings_def)
  then show ?thesis
    using strings_interned [OF i _ r] r a by (simp add: all_strings_def demo_strings_def)
qed

end
