(* ===== verification/LuaTable.thy ===== *)
theory LuaTable
  imports LuaString
begin

text \<open>
  Lua tables (\<open>src/lua/src/ltable.c\<close>, \<open>ltable.h\<close>, the table types of \<open>lobject.h\<close>): an array part for
  the keys 1 to \<open>sizearray\<close>, and a hash part in which colliding nodes are chained through the node
  vector itself (Brent's variation of chained scatter tables). A pointer to a node is its index, a
  pointer to a value that the operations return is a \<open>slot\<close>. Mark bits and write barriers of the
  collector are left out.
\<close>

section \<open>State\<close>

record Node =
  i_val :: TValue
  i_key :: TValue
  i_next :: "nat option"

text \<open>\<open>t_dummy\<close> says that \<open>t->node\<close> is the shared \<open>dummynode\<close>; \<open>lastfree\<close> is the offset from \<open>t->node\<close>.\<close>

record Table =
  t_flags :: byte
  lsizenode :: nat
  t_metatable :: "nat option"
  t_array :: "TValue list"
  t_node :: "Node list"
  t_dummy :: bool
  lastfree :: int

datatype slot = SArray nat | SNode nat | SNil

definition MAXBITS :: nat where "MAXBITS = 26"
definition MAXASIZE :: nat where "MAXASIZE = 2 ^ MAXBITS"

definition twoto :: "nat \<Rightarrow> nat" where "twoto x = 2 ^ x"
definition sizenode :: "Table \<Rightarrow> nat" where "sizenode t = twoto (lsizenode t)"

definition free_node :: Node where "free_node = \<lparr>i_val = TNil, i_key = TNil, i_next = None\<rparr>"
definition dummynode :: "Node list" where "dummynode = [free_node]"

text \<open>
  Reading and writing through a returned pointer. \<open>slot_in\<close> says that it points into the table; a write
  anywhere else, also to the shared \<open>luaO_nilobject\<close> (\<open>SNil\<close>), is an error.
\<close>

definition slot_in :: "Table \<Rightarrow> slot \<Rightarrow> bool" where
  "slot_in t p = (case p of SArray i \<Rightarrow> i < length (t_array t) | SNode i \<Rightarrow> i < length (t_node t) | SNil \<Rightarrow> False)"

definition slot_val :: "Table \<Rightarrow> slot \<Rightarrow> TValue" where
  "slot_val t p = (case p of SArray i \<Rightarrow> t_array t ! i | SNode i \<Rightarrow> i_val (t_node t ! i) | SNil \<Rightarrow> TNil)"

definition upd_node :: "nat \<Rightarrow> (Node \<Rightarrow> Node) \<Rightarrow> Table \<Rightarrow> Table" where
  "upd_node i f t = t\<lparr>t_node := (t_node t)[i := f (t_node t ! i)]\<rparr>"

definition write_slot :: "slot \<Rightarrow> TValue \<Rightarrow> Table \<Rightarrow> Table" where
  "write_slot p v t =
     (case p of SArray i \<Rightarrow> t\<lparr>t_array := (t_array t)[i := v]\<rparr>
              | SNode i \<Rightarrow> upd_node i (\<lambda>n. n\<lparr>i_val := v\<rparr>) t
              | SNil \<Rightarrow> t)"

definition setobj :: "slot \<Rightarrow> TValue \<Rightarrow> Table \<Rightarrow> Table lres" where
  "setobj p v t = (if slot_in t p then Inr (write_slot p v t) else Inl (ErrUB OutOfBounds))"

definition getobj :: "Table \<Rightarrow> slot \<Rightarrow> TValue res" where
  "getobj t p = (if p = SNil \<or> slot_in t p then Inr (slot_val t p) else Inl OutOfBounds)"

section \<open>Hashing\<close>

definition IntPoint :: "nat \<Rightarrow> 32 word" where "IntPoint p = word_of_nat p"

definition hashpow2 :: "Table \<Rightarrow> 32 word \<Rightarrow> nat" where "hashpow2 t n = lmod n (sizenode t)"
definition hashstr :: "Table \<Rightarrow> byte list \<Rightarrow> nat" where "hashstr t str = hashpow2 t (str_hash str)"
definition hashboolean :: "Table \<Rightarrow> bool \<Rightarrow> nat" where "hashboolean t p = hashpow2 t (if p then 1 else 0)"
definition hashmod :: "Table \<Rightarrow> 32 word \<Rightarrow> nat" where "hashmod t n = unat n mod ((sizenode t - 1) OR 1)"
definition hashpointer :: "Table \<Rightarrow> nat \<Rightarrow> nat" where "hashpointer t p = hashmod t (IntPoint p)"

definition hashnum :: "Table \<Rightarrow> lua_Number \<Rightarrow> nat" where
  "hashnum t n =
     (if luai_numeq n 0 then 0
      else hashmod t (ucast n + ucast (drop_bit 32 n)))"

definition mainposition :: "Table \<Rightarrow> TValue \<Rightarrow> nat" where
  "mainposition t key =
     (case key of
        TNumber n \<Rightarrow> hashnum t n
      | TString str \<Rightarrow> hashstr t str
      | TBoolean b \<Rightarrow> hashboolean t b
      | TLightUserData p \<Rightarrow> hashpointer t p
      | TTable p \<Rightarrow> hashpointer t p | TFunction p \<Rightarrow> hashpointer t p | TUserData p \<Rightarrow> hashpointer t p
      | TThread p \<Rightarrow> hashpointer t p | TDeadKey p \<Rightarrow> hashpointer t p
      | TNil \<Rightarrow> hashpointer t 0)"

definition arrayindex :: "TValue \<Rightarrow> int" where
  "arrayindex key =
     (case key of
        TNumber n \<Rightarrow> (let k = lua_number2int n in if luai_numeq (cast_num k) n then k else -1)
      | _ \<Rightarrow> -1)"

section \<open>Search\<close>

text \<open>
  The loops \<open>do { if (found(n)) ...; else n = gnext(n); } while (n)\<close>, started at a node. A chain visits
  a node at most once, so the number of nodes bounds the iterations.
\<close>

fun search :: "nat \<Rightarrow> (Node \<Rightarrow> bool) \<Rightarrow> Node list \<Rightarrow> nat option \<Rightarrow> nat option res" where
  "search f P ns None = Inr None"
| "search 0 P ns (Some i) = Inl Diverges"
| "search (Suc f) P ns (Some i) =
     (if length ns \<le> i then Inl OutOfBounds
      else if P (ns ! i) then Inr (Some i)
      else search f P ns (i_next (ns ! i)))"

definition chain_search :: "(Node \<Rightarrow> bool) \<Rightarrow> Table \<Rightarrow> nat \<Rightarrow> slot res" where
  "chain_search P t i =
     bindE (search (length (t_node t)) P (t_node t) (Some i))
       (\<lambda>r. Inr (case r of None \<Rightarrow> SNil | Some j \<Rightarrow> SNode j))"

definition luaH_getnum :: "Table \<Rightarrow> int \<Rightarrow> slot res" where
  "luaH_getnum t key =
     bindE (c_int (key - 1)) (\<lambda>k.
       if (word_of_int k :: 32 word) < word_of_nat (length (t_array t)) then Inr (SArray (nat k))
       else let nk = cast_num key
            in chain_search (\<lambda>n. case i_key n of TNumber m \<Rightarrow> luai_numeq m nk | _ \<Rightarrow> False) t (hashnum t nk))"

definition luaH_getstr :: "Table \<Rightarrow> byte list \<Rightarrow> slot res" where
  "luaH_getstr t key = chain_search (\<lambda>n. i_key n = TString key) t (hashstr t key)"

definition luaH_get :: "Table \<Rightarrow> TValue \<Rightarrow> slot res" where
  "luaH_get t key =
     (let deflt = chain_search (\<lambda>n. luaO_rawequalObj (i_key n) key) t (mainposition t key)
      in case key of
           TNil \<Rightarrow> Inr SNil
         | TString str \<Rightarrow> luaH_getstr t str
         | TNumber n \<Rightarrow> (let k = lua_number2int n in if luai_numeq (cast_num k) n then luaH_getnum t k else deflt)
         | _ \<Rightarrow> deflt)"

section \<open>Traversal\<close>

text \<open>
  \<open>gcvalue\<close> is the address of a collectable value; the address of a string comes from the string
  table, here the function \<open>sa\<close>.
\<close>

definition gcvalue :: "(byte list \<Rightarrow> nat) \<Rightarrow> TValue \<Rightarrow> nat" where
  "gcvalue sa v = (case v of TString s \<Rightarrow> sa s | TTable p \<Rightarrow> p | TFunction p \<Rightarrow> p | TUserData p \<Rightarrow> p
                           | TThread p \<Rightarrow> p | TDeadKey p \<Rightarrow> p | _ \<Rightarrow> 0)"

definition findindex :: "(byte list \<Rightarrow> nat) \<Rightarrow> Table \<Rightarrow> TValue \<Rightarrow> int lres" where
  "findindex sa t key =
     (if key = TNil then Inr (-1)
      else let i = arrayindex key
           in if 0 < i \<and> i \<le> int (length (t_array t)) then Inr (i - 1)
              else case chain_search (\<lambda>n. luaO_rawequalObj (i_key n) key
                          \<or> ttype (i_key n) = 11 \<and> iscollectable key \<and> gcvalue sa (i_key n) = gcvalue sa key)
                        t (mainposition t key) of
                     Inl u \<Rightarrow> Inl (ErrUB u)
                   | Inr (SNode j) \<Rightarrow> Inr (int j + int (length (t_array t)))
                   | Inr _ \<Rightarrow> Inl (ErrRun ''invalid key to 'next' ''))"

text \<open>The two loops of \<open>luaH_next\<close>, from index \<open>i\<close> of the array part or of the hash part.\<close>

function next_array :: "Table \<Rightarrow> nat \<Rightarrow> (TValue \<times> TValue) option" where
  "next_array t i =
     (if i < length (t_array t)
      then if t_array t ! i \<noteq> TNil then Some (TNumber (cast_num (int i + 1)), t_array t ! i) else next_array t (i + 1)
      else None)"
  by auto
termination by (relation "measure (\<lambda>(t, i). length (t_array t) - i)") auto

function next_node :: "Table \<Rightarrow> nat \<Rightarrow> (TValue \<times> TValue) option" where
  "next_node t i =
     (if i < length (t_node t)
      then if i_val (t_node t ! i) \<noteq> TNil then Some (i_key (t_node t ! i), i_val (t_node t ! i)) else next_node t (i + 1)
      else None)"
  by auto
termination by (relation "measure (\<lambda>(t, i). length (t_node t) - i)") auto

declare next_array.simps [simp del] next_node.simps [simp del]

definition luaH_next :: "(byte list \<Rightarrow> nat) \<Rightarrow> Table \<Rightarrow> TValue \<Rightarrow> (TValue \<times> TValue) option lres" where
  "luaH_next sa t key =
     bindE (findindex sa t key) (\<lambda>i.
       let i = nat (i + 1)
       in Inr (case next_array t i of
                 Some kv \<Rightarrow> Some kv
               | None \<Rightarrow> next_node t (i - length (t_array t))))"

section \<open>Rehash: counting\<close>

text \<open>
  \<open>computesizes\<close>: the loop over the slices; \<open>nums\<close> is the rest of the array from index \<open>i\<close> on. The
  result is the size of the array part and the number of keys that go there.
\<close>

fun computesizes_loop :: "nat list \<Rightarrow> nat \<Rightarrow> nat \<Rightarrow> nat \<Rightarrow> nat \<Rightarrow> nat \<Rightarrow> (nat \<times> nat) res" where
  "computesizes_loop [] twotoi a na n narray =
     (if twotoi div 2 < narray then Inl OutOfBounds else Inr (n, na))"
| "computesizes_loop (x # nums) twotoi a na n narray =
     (if twotoi div 2 < narray
      then let a' = (if x > 0 then a + x else a);
               (n', na') = (if x > 0 \<and> a' > twotoi div 2 then (twotoi, a') else (n, na))
           in if a' = narray then Inr (n', na')
              else computesizes_loop nums (twotoi * 2) a' na' n' narray
      else Inr (n, na))"

definition computesizes :: "nat list \<Rightarrow> nat \<Rightarrow> (nat \<times> nat) res" where
  "computesizes nums narray = computesizes_loop nums 1 0 0 0 narray"

text \<open>\<open>nums[c] += n\<close>\<close>

definition add_count :: "nat \<Rightarrow> nat \<Rightarrow> nat list \<Rightarrow> nat list res" where
  "add_count c n nums = (if c < length nums then Inr (nums[c := nums ! c + n]) else Inl OutOfBounds)"

definition countint :: "TValue \<Rightarrow> nat list \<Rightarrow> (nat \<times> nat list) res" where
  "countint key nums =
     (let k = arrayindex key
      in if 0 < k \<and> k \<le> int MAXASIZE
         then bindE (add_count (nat (ceillog2 (word_of_int k))) 1 nums) (\<lambda>nums. Inr (1, nums))
         else Inr (0, nums))"

text \<open>\<open>numusearray\<close>: one iteration counts the non-nil values at the indices from \<open>i\<close> to \<open>lim\<close>.\<close>

function numusearray_loop :: "TValue list \<Rightarrow> nat \<Rightarrow> nat \<Rightarrow> nat \<Rightarrow> nat \<Rightarrow> nat list \<Rightarrow> (nat \<times> nat list) res" where
  "numusearray_loop arr lg ttlg i ause nums =
     (if lg \<le> MAXBITS
      then let lim = (if ttlg > length arr then length arr else ttlg)
           in if ttlg > length arr \<and> i > lim then Inr (ause, nums)
              else let lc = length (filter (\<lambda>v. v \<noteq> TNil) (seg (i - 1) (lim + 1 - i) arr))
                   in bindE (add_count lg lc nums) (numusearray_loop arr (lg + 1) (ttlg * 2) (max i (lim + 1)) (ause + lc))
      else Inr (ause, nums))"
  by auto
termination by (relation "measure (\<lambda>(arr, lg, ttlg, i, ause, nums). Suc MAXBITS - lg)") (auto simp: Let_def)

declare numusearray_loop.simps [simp del]

definition numusearray :: "Table \<Rightarrow> nat list \<Rightarrow> (nat \<times> nat list) res" where
  "numusearray t nums = numusearray_loop (t_array t) 0 1 1 0 nums"

text \<open>\<open>numusehash\<close> gives the number of entries, the counts, and the number of candidates for the array.\<close>

fun numusehash_loop :: "Node list \<Rightarrow> nat \<Rightarrow> nat list \<Rightarrow> nat \<Rightarrow> (nat \<times> nat list \<times> nat) res" where
  "numusehash_loop [] totaluse nums na = Inr (totaluse, nums, na)"
| "numusehash_loop (n # ns) totaluse nums na =
     (if i_val n \<noteq> TNil
      then bindE (countint (i_key n) nums) (\<lambda>(c, nums). numusehash_loop ns (totaluse + 1) nums (na + c))
      else numusehash_loop ns totaluse nums na)"

definition numusehash :: "Table \<Rightarrow> nat list \<Rightarrow> nat \<Rightarrow> (nat \<times> nat list \<times> nat) res" where
  "numusehash t nums nasize = numusehash_loop (rev (t_node t)) 0 nums nasize"

section \<open>Rehash: moving\<close>

definition mem_ok :: "allocator \<Rightarrow> nat \<Rightarrow> bool" where
  "mem_ok A n \<longleftrightarrow> n = 0 \<or> A n \<noteq> None"

definition setarrayvector :: "allocator \<Rightarrow> nat \<Rightarrow> Table \<Rightarrow> Table lres" where
  "setarrayvector A n t =
     (if mem_ok A (n * 16)
      then Inr (t\<lparr>t_array := take n (t_array t) @ replicate (n - length (t_array t)) TNil\<rparr>)
      else Inl ErrMem)"

definition setnodevector :: "allocator \<Rightarrow> nat \<Rightarrow> Table \<Rightarrow> Table lres" where
  "setnodevector A n t =
     (if n = 0 then Inr (t\<lparr>t_node := dummynode, t_dummy := True, lsizenode := 0, lastfree := 0\<rparr>)
      else let lsize = nat (ceillog2 (word_of_nat n))
           in if lsize > MAXBITS then Inl (ErrRun ''table overflow'')
              else if \<not> mem_ok A (twoto lsize * 40) then Inl ErrMem
              else Inr (t\<lparr>t_node := replicate (twoto lsize) free_node, t_dummy := False, lsizenode := lsize,
                          lastfree := int (twoto lsize)\<rparr>))"

definition lift_ub :: "'a res \<Rightarrow> 'a lres" where
  "lift_ub r = (case r of Inl u \<Rightarrow> Inl (ErrUB u) | Inr x \<Rightarrow> Inr x)"

text \<open>
  \<open>newkey\<close> and the functions from \<open>luaH_set\<close> to \<open>rehash\<close> call one another; those that end in a call
  of \<open>newkey\<close> take it as the argument \<open>nk\<close>.
\<close>

type_synonym inserter = "TValue \<Rightarrow> Table \<Rightarrow> (slot \<times> Table) lres"

definition luaH_set :: "inserter \<Rightarrow> inserter" where
  "luaH_set nk key t =
     bindE (lift_ub (luaH_get t key)) (\<lambda>p.
       let t = t\<lparr>t_flags := 0\<rparr>
       in if p \<noteq> SNil then Inr (p, t)
          else case key of
                 TNil \<Rightarrow> Inl (ErrRun ''table index is nil'')
               | TNumber n \<Rightarrow> if luai_numisnan n then Inl (ErrRun ''table index is NaN'') else nk key t
               | _ \<Rightarrow> nk key t)"

definition luaH_setnum :: "inserter \<Rightarrow> int \<Rightarrow> Table \<Rightarrow> (slot \<times> Table) lres" where
  "luaH_setnum nk key t =
     bindE (lift_ub (luaH_getnum t key)) (\<lambda>p.
       if p \<noteq> SNil then Inr (p, t) else nk (TNumber (cast_num key)) t)"

definition luaH_setstr :: "inserter \<Rightarrow> byte list \<Rightarrow> Table \<Rightarrow> (slot \<times> Table) lres" where
  "luaH_setstr nk key t =
     bindE (lift_ub (luaH_getstr t key)) (\<lambda>p.
       if p \<noteq> SNil then Inr (p, t) else nk (TString key) t)"

text \<open>The two loops of \<open>resize\<close> that insert the elements again.\<close>

fun reinsert_array :: "inserter \<Rightarrow> nat \<Rightarrow> TValue list \<Rightarrow> Table \<Rightarrow> Table lres" where
  "reinsert_array nk i [] t = Inr t"
| "reinsert_array nk i (v # vs) t =
     bindE (if v \<noteq> TNil then bindE (luaH_setnum nk (int i + 1) t) (\<lambda>(p, t). setobj p v t) else Inr t)
       (reinsert_array nk (i + 1) vs)"

fun reinsert_hash :: "inserter \<Rightarrow> Node list \<Rightarrow> Table \<Rightarrow> Table lres" where
  "reinsert_hash nk [] t = Inr t"
| "reinsert_hash nk (old # ns) t =
     bindE (if i_val old \<noteq> TNil then bindE (luaH_set nk (i_key old) t) (\<lambda>(p, t). setobj p (i_val old) t) else Inr t)
       (reinsert_hash nk ns)"

definition resize :: "allocator \<Rightarrow> inserter \<Rightarrow> nat \<Rightarrow> nat \<Rightarrow> Table \<Rightarrow> Table lres" where
  "resize A nk nasize nhsize t =
     (let oldasize = length (t_array t); nold = t_node t
      in bindE (if nasize > oldasize then setarrayvector A nasize t else Inr t) (\<lambda>t.
         bindE (setnodevector A nhsize t) (\<lambda>t.
         bindE (if nasize < oldasize
                then reinsert_array nk nasize (drop nasize (t_array t)) (t\<lparr>t_array := take nasize (t_array t)\<rparr>)
                else Inr t)
           (reinsert_hash nk (rev nold)))))"

definition rehash :: "allocator \<Rightarrow> inserter \<Rightarrow> TValue \<Rightarrow> Table \<Rightarrow> Table lres" where
  "rehash A nk ek t =
     bindE (lift_ub (numusearray t (replicate (MAXBITS + 1) 0))) (\<lambda>(nasize, nums).
     let totaluse = nasize in
     bindE (lift_ub (numusehash t nums nasize)) (\<lambda>(use, nums, nasize).
     let totaluse = totaluse + use in
     bindE (lift_ub (countint ek nums)) (\<lambda>(c, nums).
     let nasize = nasize + c; totaluse = totaluse + 1 in
     bindE (lift_ub (computesizes nums nasize)) (\<lambda>(nasize, na). resize A nk nasize (totaluse - na) t))))"

section \<open>Inserting keys\<close>

function getfreepos :: "Table \<Rightarrow> (nat option \<times> Table) res" where
  "getfreepos t =
     (let t' = t\<lparr>lastfree := lastfree t - 1\<rparr>
      in if lastfree t > 0
         then if length (t_node t') \<le> nat (lastfree t') then Inl OutOfBounds
              else if i_key (t_node t' ! nat (lastfree t')) = TNil then Inr (Some (nat (lastfree t')), t') else getfreepos t'
         else Inr (None, t'))"
  by auto
termination by (relation "measure (\<lambda>t. nat (lastfree t))") auto

declare getfreepos.simps [simp del]

text \<open>\<open>while (gnext(othern) != mp) othern = gnext(othern)\<close>\<close>

fun find_prev :: "nat \<Rightarrow> Node list \<Rightarrow> nat \<Rightarrow> nat \<Rightarrow> nat res" where
  "find_prev 0 ns othern mp = Inl Diverges"
| "find_prev (Suc f) ns othern mp =
     (if length ns \<le> othern then Inl OutOfBounds
      else case i_next (ns ! othern) of
             None \<Rightarrow> Inl NullDeref
           | Some x \<Rightarrow> if x = mp then Inr othern else find_prev f ns x mp)"

definition put_key :: "nat \<Rightarrow> TValue \<Rightarrow> Table \<Rightarrow> slot \<times> Table" where
  "put_key mp key t = (SNode mp, upd_node mp (\<lambda>n. n\<lparr>i_key := key\<rparr>) t)"

text \<open>
  The body of \<open>newkey\<close>; \<open>grow\<close> is the branch in which there is no free place. The nodes it writes to are the
  main position, the free node and the node that \<open>find_prev\<close> has read.
\<close>

definition newkey_step :: "inserter \<Rightarrow> inserter" where
  "newkey_step grow key t =
     (let mp = mainposition t key
      in if length (t_node t) \<le> mp then Inl (ErrUB OutOfBounds)
         else if i_val (t_node t ! mp) \<noteq> TNil \<or> t_dummy t
         then bindE (lift_ub (getfreepos t)) (\<lambda>(free, t).
              case free of
                None \<Rightarrow> grow key t
              | Some n \<Rightarrow>
                  (let othern = mainposition t (i_key (t_node t ! mp))
                   in if othern \<noteq> mp
                      then bindE (lift_ub (find_prev (length (t_node t)) (t_node t) othern mp)) (\<lambda>othern.
                             let t = upd_node othern (\<lambda>x. x\<lparr>i_next := Some n\<rparr>) t;
                                 t = upd_node n (\<lambda>_. t_node t ! mp) t;
                                 t = upd_node mp (\<lambda>x. x\<lparr>i_next := None, i_val := TNil\<rparr>) t
                             in Inr (put_key mp key t))
                      else let t = upd_node n (\<lambda>x. x\<lparr>i_next := i_next (t_node t ! mp)\<rparr>) t;
                               t = upd_node mp (\<lambda>x. x\<lparr>i_next := Some n\<rparr>) t
                           in Inr (put_key n key t)))
         else Inr (put_key mp key t))"

text \<open>
  A rehash inserts keys in turn; the first argument bounds how deep such calls may nest. The tables
  below show that a depth of one is never exceeded.
\<close>

fun newkey :: "nat \<Rightarrow> allocator \<Rightarrow> inserter" where
  "newkey 0 A = newkey_step (\<lambda>key t. Inl (ErrUB Diverges))"
| "newkey (Suc d) A =
     newkey_step (\<lambda>key t. bindE (rehash A (newkey d A) key t) (luaH_set (newkey d A) key))"

definition luaH_resizearray :: "nat \<Rightarrow> allocator \<Rightarrow> nat \<Rightarrow> Table \<Rightarrow> Table lres" where
  "luaH_resizearray d A nasize t =
     (let nsize = (if t_dummy t then 0 else sizenode t) in resize A (newkey d A) nasize nsize t)"

definition luaH_new :: "allocator \<Rightarrow> nat \<Rightarrow> nat \<Rightarrow> Table lres" where
  "luaH_new A narray nhash =
     (if mem_ok A 64
      then bindE (setarrayvector A narray
                    \<lparr>t_flags = -1, lsizenode = 0, t_metatable = None, t_array = [], t_node = dummynode,
                     t_dummy = True, lastfree = 0\<rparr>)
             (setnodevector A nhash)
      else Inl ErrMem)"

section \<open>Length\<close>

text \<open>The linear search of \<open>unbound_search\<close>; a table has fewer keys than \<open>f\<close>.\<close>

definition getnum_nil :: "Table \<Rightarrow> nat \<Rightarrow> bool res" where
  "getnum_nil t j = bindE (luaH_getnum t (int j)) (\<lambda>p. bindE (getobj t p) (\<lambda>v. Inr (v = TNil)))"

definition array_nil :: "Table \<Rightarrow> nat \<Rightarrow> bool res" where
  "array_nil t m =
     (if 0 < m \<and> m \<le> length (t_array t) then Inr (t_array t ! (m - 1) = TNil) else Inl OutOfBounds)"

fun linear_search :: "nat \<Rightarrow> Table \<Rightarrow> nat \<Rightarrow> nat res" where
  "linear_search 0 t i = Inl Diverges"
| "linear_search (Suc f) t i =
     bindE (getnum_nil t i) (\<lambda>b. if b then Inr (i - 1) else linear_search f t (i + 1))"

text \<open>The binary search between a present index \<open>i\<close> and an absent index \<open>j\<close>.\<close>

function binary_search :: "(nat \<Rightarrow> bool res) \<Rightarrow> nat \<Rightarrow> nat \<Rightarrow> nat res" where
  "binary_search isnil i j =
     (if j - i > 1
      then let m = (i + j) div 2
           in bindE (isnil m) (\<lambda>b. if b then binary_search isnil i m else binary_search isnil m j)
      else Inr i)"
  by auto
termination by (relation "measure (\<lambda>(p, i, j). j - i)") auto

declare binary_search.simps [simp del]

text \<open>
  The doubling loop of \<open>unbound_search\<close>; it starts above 0, and at 0 the doubling would make no progress.
\<close>

function unbound_loop :: "Table \<Rightarrow> nat \<Rightarrow> nat \<Rightarrow> nat res" where
  "unbound_loop t i j =
     bindE (getnum_nil t j) (\<lambda>b.
       if b \<or> j = 0 then binary_search (getnum_nil t) i j
       else if int (j * 2) > MAX_INT then linear_search (length (t_array t) + length (t_node t) + 2) t 1
       else unbound_loop t j (j * 2))"
  by auto
termination by (relation "measure (\<lambda>(t, i, j). nat MAX_INT + 1 - j)") (auto simp: MAX_INT_def INT_MAX_def)

declare unbound_loop.simps [simp del]

definition unbound_search :: "Table \<Rightarrow> nat \<Rightarrow> nat res" where
  "unbound_search t j = unbound_loop t j (j + 1)"

definition luaH_getn :: "Table \<Rightarrow> nat res" where
  "luaH_getn t =
     (let j = length (t_array t)
      in if j > 0 \<and> t_array t ! (j - 1) = TNil
         then binary_search (array_nil t) 0 j
         else if t_dummy t then Inr j
         else unbound_search t j)"

end
