(* ===== verification/LuaTableInv.thy ===== *)
theory LuaTableInv
  imports LuaTable
begin

text \<open>
  Correctness of Lua tables: the invariant of the node vector (chains are acyclic and disjoint, every
  key is reachable from its main position, a node that is not in its main position never occupies the
  main position of another key), that every operation keeps it, and that a table is a finite map.
\<close>

section \<open>Keys\<close>

definition live_key :: "TValue \<Rightarrow> bool" where
  "live_key k \<longleftrightarrow> k \<noteq> TNil \<and> (\<forall>p. k \<noteq> TDeadKey p)"

text \<open>
  The keys a program can use: not nil, not NaN, and not the number \<open>-2^31\<close>, for which
  \<open>luaH_getnum\<close> computes \<open>key - 1\<close> outside the range of \<open>int\<close>.
\<close>

definition key_ok :: "TValue \<Rightarrow> bool" where
  "key_ok k \<longleftrightarrow> live_key k \<and> (\<forall>n. k = TNumber n \<longrightarrow> \<not> luai_numisnan n \<and> \<not> luai_numeq n (cast_num INT_MIN))"

lemma rawequal_iff:
  "luaO_rawequalObj a b \<longleftrightarrow> (case (a, b) of (TNumber x, TNumber y) \<Rightarrow> luai_numeq x y | _ \<Rightarrow> a = b)"
  by (cases a; cases b) auto

declare luaO_rawequalObj.simps [simp del]

lemma rawequal_refl: "key_ok k \<Longrightarrow> luaO_rawequalObj k k"
  by (auto simp: rawequal_iff key_ok_def split: TValue.splits)

lemma rawequal_sym: "luaO_rawequalObj a b \<Longrightarrow> luaO_rawequalObj b a"
  by (auto simp: rawequal_iff luai_numeq_sym split: TValue.splits)

lemma rawequal_trans: "luaO_rawequalObj a b \<Longrightarrow> luaO_rawequalObj b c \<Longrightarrow> luaO_rawequalObj a c"
  by (auto simp: rawequal_iff intro: luai_numeq_trans split: TValue.splits)

lemma rawequal_live: "luaO_rawequalObj a b \<Longrightarrow> live_key a \<longleftrightarrow> live_key b"
  by (auto simp: rawequal_iff live_key_def split: TValue.splits)

lemma rawequal_cong: "luaO_rawequalObj a b \<Longrightarrow> luaO_rawequalObj x a \<longleftrightarrow> luaO_rawequalObj x b"
  using rawequal_sym rawequal_trans by blast

lemma number2int_zero: "luai_numeq x 0 \<Longrightarrow> lua_number2int x = 0"
proof -
  assume "luai_numeq x 0"
  then have "unat x mod 2 ^ 63 = 0" by (simp only: luai_numeq_0)
  then obtain c where "unat x = 2 ^ 52 * (2048 * c)" by (auto simp: mod_eq_0_iff_dvd)
  then have "dbl_exp x = 0" by (simp add: dbl_exp_def)
  then show ?thesis by (simp add: lua_number2int_def Let_def in_int_numeral_bounds)
qed

lemma rawequal_arrayindex: "luaO_rawequalObj a b \<Longrightarrow> arrayindex a = arrayindex b"
proof -
  assume r: "luaO_rawequalObj a b"
  have "arrayindex (TNumber x) = arrayindex (TNumber y)" if xy: "luai_numeq x y" for x y
  proof -
    from luai_numeq_cases [OF xy] show ?thesis
    proof
      assume z: "luai_numeq x 0 \<and> luai_numeq y 0"
      then show ?thesis using number2int_zero [of x] number2int_zero [of y]
        by (auto simp: arrayindex_def Let_def luai_numeq_sym [of 0])
    qed simp
  qed
  with r show ?thesis by (auto simp: rawequal_iff split: TValue.splits)
qed

lemma arrayindex_cast_num [simp]: "in_int i \<Longrightarrow> arrayindex (TNumber (cast_num i)) = i"
  by (simp add: arrayindex_def Let_def)

lemma arrayindex_pos:
  assumes "0 < arrayindex k"
  shows "luaO_rawequalObj k (TNumber (cast_num (arrayindex k)))"
  using assms by (auto simp: arrayindex_def rawequal_iff Let_def luai_numeq_sym split: TValue.splits if_splits)

lemma number2int_range: "in_int (lua_number2int n)"
  by (simp add: lua_number2int_def Let_def in_int_numeral_bounds INT_MIN_def)

lemma arrayindex_range: "in_int (arrayindex k)"
  using number2int_range by (auto simp: arrayindex_def Let_def in_int_numeral_bounds split: TValue.splits)

section \<open>Main positions\<close>

text \<open>
  What the node vector needs of its hash function: positions within the vector, equal for keys that
  compare equal.
\<close>

locale hashing =
  fixes M :: "TValue \<Rightarrow> nat" and N :: nat
  assumes M_less: "M k < N"
    and M_eq: "luaO_rawequalObj a b \<Longrightarrow> M a = M b"

lemma sizenode_pos [simp]: "0 < sizenode t"
  by (simp add: sizenode_def twoto_def)

lemma hashmod_less: "hashmod t n < sizenode t"
proof -
  have "(sizenode t - 1) OR 1 \<le> sizenode t \<and> 0 < (sizenode t - 1) OR 1 \<and> (sizenode t = 1 \<or> (sizenode t - 1) OR 1 < sizenode t)"
  proof (cases "lsizenode t")
    case 0
    then show ?thesis by (simp add: sizenode_def twoto_def)
  next
    case (Suc k)
    have "odd ((2 :: nat) ^ Suc k - 1)" by simp
    then have "((2 :: nat) ^ Suc k - 1) OR 1 = 2 ^ Suc k - 1"
      by (simp only: or_one_eq) simp
    moreover have "(2 :: nat) ^ Suc k - 1 < 2 ^ Suc k" "0 < (2 :: nat) ^ Suc k - 1"
      by (simp_all add: Suc_lessD) (metis One_nat_def Suc_lessI one_less_power zero_less_Suc zero_less_diff lessI nat_neq_iff numeral_2_eq_2 power_Suc)
    ultimately show ?thesis using Suc by (simp add: sizenode_def twoto_def)
  qed
  then show ?thesis unfolding hashmod_def by (metis less_one mod_less_divisor mod_less_eq_dividend nat_less_le order_less_le_trans)
qed

lemma mainposition_less: "mainposition t k < sizenode t"
  by (auto simp: mainposition_def hashnum_def hashstr_def hashpow2_def hashboolean_def hashpointer_def
      hashmod_less lmod_less split: TValue.split)

lemma mainposition_eq: "luaO_rawequalObj a b \<Longrightarrow> mainposition t a = mainposition t b"
proof -
  assume "luaO_rawequalObj a b"
  moreover have "hashnum t x = hashnum t y" if "luai_numeq x y" for x y
    using luai_numeq_cases [OF that] by (auto simp: hashnum_def)
  ultimately show ?thesis by (auto simp: rawequal_iff mainposition_def split: TValue.splits)
qed

interpretation mainpos: hashing "mainposition t" "sizenode t" for t
  by unfold_locales (rule mainposition_less, rule mainposition_eq)

section \<open>The node vector\<close>

definition edge :: "Node list \<Rightarrow> (nat \<times> nat) set" where
  "edge ns = {(i, j). i < length ns \<and> i_next (ns ! i) = Some j}"

text \<open>
  \<open>chains_ok\<close>: links stay in the vector and lead to used nodes, no two nodes have the same successor, and
  some rank grows along every link. \<open>keys_reach\<close>: every key is on the chain of its main position, and
  that position holds a key of its own (or a dead one).
\<close>

definition chains_ok :: "Node list \<Rightarrow> bool" where
  "chains_ok ns \<longleftrightarrow>
     (\<forall>i j. (i, j) \<in> edge ns \<longrightarrow> j < length ns \<and> i_key (ns ! j) \<noteq> TNil)
     \<and> (\<forall>i < length ns. i_key (ns ! i) = TNil \<longrightarrow> i_next (ns ! i) = None)
     \<and> (\<forall>i i' j. (i, j) \<in> edge ns \<longrightarrow> (i', j) \<in> edge ns \<longrightarrow> i = i')
     \<and> (\<exists>r :: nat \<Rightarrow> nat. \<forall>i j. (i, j) \<in> edge ns \<longrightarrow> r i < r j)"

definition keys_reach :: "(TValue \<Rightarrow> nat) \<Rightarrow> Node list \<Rightarrow> bool" where
  "keys_reach M ns \<longleftrightarrow>
     (\<forall>i < length ns. live_key (i_key (ns ! i)) \<longrightarrow>
        (let p = M (i_key (ns ! i))
         in (p, i) \<in> (edge ns)\<^sup>* \<and> i_key (ns ! p) \<noteq> TNil
            \<and> (live_key (i_key (ns ! p)) \<longrightarrow> M (i_key (ns ! p)) = p)))"

definition keys_distinct :: "Node list \<Rightarrow> bool" where
  "keys_distinct ns \<longleftrightarrow>
     (\<forall>i < length ns. \<forall>j < length ns. live_key (i_key (ns ! i)) \<longrightarrow>
        luaO_rawequalObj (i_key (ns ! i)) (i_key (ns ! j)) \<longrightarrow> i = j)"

definition vals_ok :: "Node list \<Rightarrow> bool" where
  "vals_ok ns \<longleftrightarrow> (\<forall>n \<in> set ns. \<not> live_key (i_key n) \<longrightarrow> i_val n = TNil)"

definition node_inv :: "(TValue \<Rightarrow> nat) \<Rightarrow> Node list \<Rightarrow> bool" where
  "node_inv M ns \<longleftrightarrow> chains_ok ns \<and> keys_reach M ns \<and> keys_distinct ns \<and> vals_ok ns"

text \<open>The node that holds a key, and the value it maps to.\<close>

definition holds :: "Node list \<Rightarrow> TValue \<Rightarrow> nat \<Rightarrow> bool" where
  "holds ns k i \<longleftrightarrow> i < length ns \<and> luaO_rawequalObj (i_key (ns ! i)) k"

definition nval :: "Node list \<Rightarrow> TValue \<Rightarrow> TValue" where
  "nval ns k = (case find (\<lambda>n. luaO_rawequalObj (i_key n) k) ns of Some n \<Rightarrow> i_val n | None \<Rightarrow> TNil)"

lemma holds_unique: "keys_distinct ns \<Longrightarrow> live_key k \<Longrightarrow> holds ns k i \<Longrightarrow> holds ns k j \<Longrightarrow> i = j"
  unfolding holds_def keys_distinct_def using rawequal_live rawequal_sym rawequal_trans by metis

lemma nval_holds:
  assumes "keys_distinct ns" "live_key k" "holds ns k i"
  shows "nval ns k = i_val (ns ! i)"
proof (cases "find (\<lambda>n. luaO_rawequalObj (i_key n) k) ns")
  case None
  with assms(3) show ?thesis by (auto simp: find_None_iff holds_def)
next
  case (Some n)
  then obtain j where j: "j < length ns" "luaO_rawequalObj (i_key (ns ! j)) k" "n = ns ! j" by (auto simp: find_Some_iff)
  then have "j = i" using holds_unique assms by (metis holds_def)
  with j Some show ?thesis by (simp add: nval_def)
qed

lemma nval_not_holds: "(\<And>i. \<not> holds ns k i) \<Longrightarrow> nval ns k = TNil"
  unfolding nval_def holds_def by (auto simp: find_None_iff in_set_conv_nth split: option.splits) (metis find_Some_iff)

text \<open>
  Two node vectors give the same values when the non-nil entries of each are in the other.
\<close>

definition entries_eq :: "Node list \<Rightarrow> Node list \<Rightarrow> bool" where
  "entries_eq ns ms \<longleftrightarrow>
     (\<forall>i < length ns. i_val (ns ! i) \<noteq> TNil \<longrightarrow> (\<exists>j < length ms. i_key (ms ! j) = i_key (ns ! i) \<and> i_val (ms ! j) = i_val (ns ! i)))"

lemma entries_eqI:
  "(\<And>i. i < length ns \<Longrightarrow> i_val (ns ! i) \<noteq> TNil \<Longrightarrow>
      f i < length ms \<and> i_key (ms ! f i) = i_key (ns ! i) \<and> i_val (ms ! f i) = i_val (ns ! i)) \<Longrightarrow> entries_eq ns ms"
  unfolding entries_eq_def by blast

lemma nval_mono:
  assumes "keys_distinct ns" "keys_distinct ms" "live_key k" "entries_eq ns ms" "nval ns k \<noteq> TNil"
  shows "nval ms k = nval ns k"
proof -
  obtain i where i: "holds ns k i" using assms(5) nval_not_holds by blast
  then have v: "nval ns k = i_val (ns ! i)" using assms nval_holds by blast
  then obtain j where "j < length ms" "i_key (ms ! j) = i_key (ns ! i)" "i_val (ms ! j) = i_val (ns ! i)"
    using assms(4,5) i by (auto simp: entries_eq_def holds_def)
  then show ?thesis using i v nval_holds [OF assms(2,3), of j] by (auto simp: holds_def)
qed

lemma nval_eq:
  assumes "keys_distinct ns" "keys_distinct ms" "live_key k" "entries_eq ns ms" "entries_eq ms ns"
  shows "nval ms k = nval ns k"
  using nval_mono assms by metis

subsection \<open>Search\<close>

lemma edge_less: "(i, j) \<in> edge ns \<Longrightarrow> i < length ns"
  by (simp add: edge_def)

lemma reach_less:
  assumes "chains_ok ns" and "(i, j) \<in> (edge ns)\<^sup>*" and "i < length ns"
  shows "j < length ns"
  using assms(2,3,1) by (induction rule: rtrancl_induct) (auto simp: chains_ok_def)

text \<open>Every chain ends within as many steps as there are nodes.\<close>

lemma search_ok:
  assumes c: "chains_ok ns" and r: "\<And>i j. (i, j) \<in> edge ns \<Longrightarrow> r i < (r j :: nat)"
    and i: "i < length ns" and f: "card {j. j < length ns \<and> r i \<le> r j} \<le> f"
  shows "\<exists>q. search f P ns (Some i) = Inr q
     \<and> (\<forall>j. q = Some j \<longrightarrow> P (ns ! j) \<and> (i, j) \<in> (edge ns)\<^sup>*)
     \<and> (q = None \<longrightarrow> (\<forall>j. (i, j) \<in> (edge ns)\<^sup>* \<longrightarrow> \<not> P (ns ! j)))"
  using i f
proof (induction f arbitrary: i)
  case 0
  then have "{j. j < length ns \<and> r i \<le> r j} = {}" by simp
  with 0(1) show ?case by auto
next
  case (Suc f)
  show ?case
  proof (cases "P (ns ! i)")
    case True
    with Suc.prems show ?thesis by (intro exI [of _ "Some i"]) auto
  next
    case False
    show ?thesis
    proof (cases "i_next (ns ! i)")
      case None
      then have "(i, j) \<in> (edge ns)\<^sup>* \<Longrightarrow> j = i" for j by (auto simp: edge_def elim: converse_rtranclE)
      with False None Suc.prems show ?thesis by (intro exI [of _ None]) auto
    next
      case (Some n)
      then have e: "(i, n) \<in> edge ns" using Suc.prems by (simp add: edge_def)
      have "{j. j < length ns \<and> r n \<le> r j} \<subset> {j. j < length ns \<and> r i \<le> r j}"
      proof (rule psubsetI)
        show "{j. j < length ns \<and> r n \<le> r j} \<subseteq> {j. j < length ns \<and> r i \<le> r j}" using r [OF e] by auto
        have "i \<in> {j. j < length ns \<and> r i \<le> r j}" "i \<notin> {j. j < length ns \<and> r n \<le> r j}"
          using r [OF e] Suc.prems(1) by auto
        then show "{j. j < length ns \<and> r n \<le> r j} \<noteq> {j. j < length ns \<and> r i \<le> r j}" by blast
      qed
      then have "card {j. j < length ns \<and> r n \<le> r j} < card {j. j < length ns \<and> r i \<le> r j}"
        by (intro psubset_card_mono) auto
      then have "card {j. j < length ns \<and> r n \<le> r j} \<le> f" using Suc.prems(2) by linarith
      moreover have "n < length ns" using e c by (auto simp: chains_ok_def)
      ultimately obtain q where q: "search f P ns (Some n) = Inr q"
        "\<forall>j. q = Some j \<longrightarrow> P (ns ! j) \<and> (n, j) \<in> (edge ns)\<^sup>*"
        "q = None \<longrightarrow> (\<forall>j. (n, j) \<in> (edge ns)\<^sup>* \<longrightarrow> \<not> P (ns ! j))" using Suc.IH by blast
      have stp: "(i, j) \<in> (edge ns)\<^sup>* \<Longrightarrow> j = i \<or> (n, j) \<in> (edge ns)\<^sup>*" for j
        using Some by (auto simp: edge_def elim: converse_rtranclE)
      have "search (Suc f) P ns (Some i) = Inr q" using Suc.prems False Some q(1) by simp
      moreover have "P (ns ! j) \<and> (i, j) \<in> (edge ns)\<^sup>*" if "q = Some j" for j
        using q(2) that e by (auto intro: converse_rtrancl_into_rtrancl)
      moreover have "\<not> P (ns ! j)" if "q = None" "(i, j) \<in> (edge ns)\<^sup>*" for j
        using stp [OF that(2)] q(3) that(1) False by blast
      ultimately show ?thesis by blast
    qed
  qed
qed

lemma search_chain:
  assumes c: "chains_ok ns" and i: "i < length ns"
  obtains q where "search (length ns) P ns (Some i) = Inr q"
    and "\<And>j. q = Some j \<Longrightarrow> P (ns ! j) \<and> (i, j) \<in> (edge ns)\<^sup>*"
    and "\<And>j. q = None \<Longrightarrow> (i, j) \<in> (edge ns)\<^sup>* \<Longrightarrow> \<not> P (ns ! j)"
proof -
  obtain r :: "nat \<Rightarrow> nat" where r: "\<And>i j. (i, j) \<in> edge ns \<Longrightarrow> r i < r j" using c by (auto simp: chains_ok_def)
  have "card {j. j < length ns \<and> r i \<le> r j} \<le> card {..< length ns}" by (intro card_mono) auto
  then have f: "card {j. j < length ns \<and> r i \<le> r j} \<le> length ns" by simp
  from search_ok [OF c r i f, where P = P] show thesis using that by blast
qed

text \<open>A search stops at the first node of the chain that it is looking for.\<close>

lemma search_first:
  assumes c: "chains_ok ns"
  shows "search f P ns (Some i) = Inr (Some j) \<Longrightarrow> (i, l) \<in> (edge ns)\<^sup>* \<Longrightarrow> (l, j) \<in> (edge ns)\<^sup>+ \<Longrightarrow> \<not> P (ns ! l)"
proof (induction f arbitrary: i)
  case (Suc f)
  obtain r :: "nat \<Rightarrow> nat" where r: "\<And>i j. (i, j) \<in> edge ns \<Longrightarrow> r i < r j" using c by (auto simp: chains_ok_def)
  have rt: "r x < r y" if "(x, y) \<in> (edge ns)\<^sup>+" for x y using that by (induction rule: trancl_induct) (auto dest: r)
  show ?case
  proof (cases "P (ns ! i)")
    case True
    then have "j = i" using Suc.prems(1) by (auto split: if_splits)
    then have "(l, l) \<in> (edge ns)\<^sup>+" using Suc.prems(2,3) by auto
    then show ?thesis using rt by blast
  next
    case False
    then obtain x where x: "i_next (ns ! i) = Some x" "search f P ns (Some x) = Inr (Some j)"
      using Suc.prems(1) by (cases "i_next (ns ! i)") (auto split: if_splits)
    have "l = i \<or> (x, l) \<in> (edge ns)\<^sup>*" using Suc.prems(2) x(1) by (auto simp: edge_def elim: converse_rtranclE)
    then show ?thesis using Suc.IH [OF x(2) _ Suc.prems(3)] False by blast
  qed
qed simp

lemma reach_linear: "(p, i) \<in> (edge ns)\<^sup>* \<Longrightarrow> (p, j) \<in> (edge ns)\<^sup>* \<Longrightarrow> (i, j) \<in> (edge ns)\<^sup>* \<or> (j, i) \<in> (edge ns)\<^sup>*"
proof (induction rule: rtrancl_induct)
  case (step x y)
  from step.IH [OF step.prems] show ?case
  proof
    assume "(x, j) \<in> (edge ns)\<^sup>*"
    then have "x = j \<or> (\<exists>z. (x, z) \<in> edge ns \<and> (z, j) \<in> (edge ns)\<^sup>*)" by (meson converse_rtranclE)
    then show ?thesis using step(2) by (auto simp: edge_def)
  next
    assume "(j, x) \<in> (edge ns)\<^sup>*"
    with step(2) show ?thesis by (meson rtrancl_into_rtrancl)
  qed
qed simp

text \<open>The search from the main position of a key finds the node that holds it.\<close>

context hashing
begin

lemma search_key:
  assumes inv: "node_inv M ns" and N: "length ns = N" and k: "live_key k"
  shows "search (length ns) (\<lambda>n. luaO_rawequalObj (i_key n) k) ns (Some (M k)) = Inr (Some i) \<longleftrightarrow> holds ns k i"
    and "search (length ns) (\<lambda>n. luaO_rawequalObj (i_key n) k) ns (Some (M k)) = Inr None \<longleftrightarrow> (\<forall>i. \<not> holds ns k i)"
    and "\<exists>q. search (length ns) (\<lambda>n. luaO_rawequalObj (i_key n) k) ns (Some (M k)) = Inr q"
proof -
  have c: "chains_ok ns" and d: "keys_distinct ns" and kr: "keys_reach M ns" using inv by (auto simp: node_inv_def)
  have m: "M k < length ns" using M_less N by simp
  obtain q where q: "search (length ns) (\<lambda>n. luaO_rawequalObj (i_key n) k) ns (Some (M k)) = Inr q"
    and q1: "\<And>j. q = Some j \<Longrightarrow> luaO_rawequalObj (i_key (ns ! j)) k \<and> (M k, j) \<in> (edge ns)\<^sup>*"
    and q0: "\<And>j. q = None \<Longrightarrow> (M k, j) \<in> (edge ns)\<^sup>* \<Longrightarrow> \<not> luaO_rawequalObj (i_key (ns ! j)) k"
    using search_chain [OF c m] by blast
  have reach: "(M k, j) \<in> (edge ns)\<^sup>*" if "holds ns k j" for j
  proof -
    have "live_key (i_key (ns ! j))" "M (i_key (ns ! j)) = M k" "j < length ns"
      using that k rawequal_live M_eq by (auto simp: holds_def)
    then show ?thesis using kr unfolding keys_reach_def Let_def by metis
  qed
  have some: "holds ns k j" if "q = Some j" for j
    using q1 [OF that] reach_less [OF c _ m] by (simp add: holds_def)
  have none: "\<not> holds ns k j" if "q = None" for j
    using q0 [OF that reach] by (auto simp: holds_def)
  show "search (length ns) (\<lambda>n. luaO_rawequalObj (i_key n) k) ns (Some (M k)) = Inr (Some i) \<longleftrightarrow> holds ns k i"
    unfolding q using some none holds_unique [OF d k] by (cases q) auto
  show "search (length ns) (\<lambda>n. luaO_rawequalObj (i_key n) k) ns (Some (M k)) = Inr None \<longleftrightarrow> (\<forall>i. \<not> holds ns k i)"
    unfolding q using some none by (cases q) auto
  show "\<exists>q. search (length ns) (\<lambda>n. luaO_rawequalObj (i_key n) k) ns (Some (M k)) = Inr q"
    using q by blast
qed

end

subsection \<open>Inserting a key\<close>

text \<open>Facts about a free node and about links that the three ways of inserting share.\<close>

lemma chainsD:
  assumes "chains_ok ns"
  shows "(i, j) \<in> edge ns \<Longrightarrow> j < length ns" and "(i, j) \<in> edge ns \<Longrightarrow> i_key (ns ! j) \<noteq> TNil"
    and "i < length ns \<Longrightarrow> i_key (ns ! i) = TNil \<Longrightarrow> i_next (ns ! i) = None"
    and "(i, j) \<in> edge ns \<Longrightarrow> (i', j) \<in> edge ns \<Longrightarrow> i = i'"
  using assms unfolding chains_ok_def by blast+

lemma chains_irrefl: "chains_ok ns \<Longrightarrow> (i, i) \<notin> edge ns"
  unfolding chains_ok_def by blast

lemma keys_reachD:
  assumes "keys_reach M ns" "i < length ns" "live_key (i_key (ns ! i))"
  shows "(M (i_key (ns ! i)), i) \<in> (edge ns)\<^sup>*" and "i_key (ns ! M (i_key (ns ! i))) \<noteq> TNil"
    and "live_key (i_key (ns ! M (i_key (ns ! i)))) \<Longrightarrow> M (i_key (ns ! M (i_key (ns ! i)))) = M (i_key (ns ! i))"
  using assms unfolding keys_reach_def Let_def by blast+

lemma keys_distinct_insert:
  assumes "keys_distinct ns" and "\<And>j. \<not> holds ns k j" and "length ms = length ns" and "live_key k"
    and "\<And>i. i < length ns \<Longrightarrow> i_key (ms ! i) = k \<and> i = p \<or> (\<exists>j < length ns. i_key (ms ! i) = i_key (ns ! j) \<and> f i = j)"
    and "inj_on f {i. i < length ns \<and> i \<noteq> p}" and "i_key (ms ! p) = k"
  shows "keys_distinct ms"
  unfolding keys_distinct_def
proof (intro allI impI)
  fix i j assume a: "i < length ms" "j < length ms" "live_key (i_key (ms ! i))" "luaO_rawequalObj (i_key (ms ! i)) (i_key (ms ! j))"
  have new: "\<not> luaO_rawequalObj (i_key (ns ! x)) k" "\<not> luaO_rawequalObj k (i_key (ns ! x))" if "x < length ns" for x
    using assms(2) [of x] that rawequal_sym by (auto simp: holds_def)
  have old: "\<exists>j < length ns. i_key (ms ! i) = i_key (ns ! j) \<and> f i = j" if "i < length ns" "i \<noteq> p" for i
    using assms(5) [OF that(1)] that(2) by blast
  show "i = j"
  proof (cases "i = p \<or> j = p")
    case True
    then show ?thesis using old [of i] old [of j] new a assms(3,7) by metis
  next
    case False
    then obtain x y where "x < length ns" "y < length ns" "i_key (ms ! i) = i_key (ns ! x)" "f i = x"
      "i_key (ms ! j) = i_key (ns ! y)" "f j = y" using old [of i] old [of j] a(1,2) assms(3) by auto
    moreover from this have "x = y" using a(3,4) assms(1) unfolding keys_distinct_def by metis
    ultimately show ?thesis using False a(1,2) assms(3,6) by (auto dest: inj_onD)
  qed
qed

context hashing
begin

text \<open>The main position has no value: the key takes its place in the chain.\<close>

lemma insert_replace:
  assumes inv: "node_inv M ns" and N: "length ns = N" and k: "live_key k" and new: "\<And>j. \<not> holds ns k j"
    and v: "i_val (ns ! M k) = TNil"
  defines "ms \<equiv> ns[M k := (ns ! M k)\<lparr>i_key := k\<rparr>]"
  shows "node_inv M ms" "entries_eq ns ms" "entries_eq ms ns" "i_val (ms ! M k) = TNil" "i_key (ms ! M k) = k"
proof -
  have c: "chains_ok ns" and d: "keys_distinct ns" and kr: "keys_reach M ns" and vo: "vals_ok ns"
    using inv by (auto simp: node_inv_def)
  have m: "M k < length ns" using M_less N by simp
  have l: "length ms = length ns" by (simp add: ms_def)
  have at: "ms ! M k = (ns ! M k)\<lparr>i_key := k\<rparr>" and other: "\<And>i. i \<noteq> M k \<Longrightarrow> ms ! i = ns ! i"
    using m by (simp_all add: ms_def)
  have nx: "i_next (ms ! i) = i_next (ns ! i)" for i using at other by (cases "i = M k") auto
  have vl: "i_val (ms ! i) = i_val (ns ! i)" for i using at other by (cases "i = M k") auto
  have e: "edge ms = edge ns" by (simp add: edge_def l nx)
  have k0: "k \<noteq> TNil" using k by (simp add: live_key_def)
  have key: "i_key (ms ! i) = (if i = M k then k else i_key (ns ! i))" for i using at other by simp
  have "chains_ok ms"
    using c k0 unfolding chains_ok_def e l nx key by simp
  moreover have "keys_reach M ms" unfolding keys_reach_def e l Let_def
  proof (intro allI impI)
    fix i assume i: "i < length ns" "live_key (i_key (ms ! i))"
    show "(M (i_key (ms ! i)), i) \<in> (edge ns)\<^sup>* \<and> i_key (ms ! M (i_key (ms ! i))) \<noteq> TNil
      \<and> (live_key (i_key (ms ! M (i_key (ms ! i)))) \<longrightarrow> M (i_key (ms ! M (i_key (ms ! i)))) = M (i_key (ms ! i)))"
    proof (cases "i = M k")
      case True
      then show ?thesis using k0 by (simp add: key)
    next
      case False
      then show ?thesis using i keys_reachD [OF kr i(1)] k0 by (auto simp: key)
    qed
  qed
  moreover have "keys_distinct ms"
    by (rule keys_distinct_insert [OF d new l k, of "M k" id]) (auto simp: key)
  moreover have "vals_ok ms" unfolding vals_ok_def all_set_conv_all_nth l
    using vo v k by (simp add: vl key vals_ok_def all_set_conv_all_nth)
  ultimately show "node_inv M ms" by (simp add: node_inv_def)
  show "entries_eq ns ms" "entries_eq ms ns" "i_val (ms ! M k) = TNil" "i_key (ms ! M k) = k"
    using v by (auto simp: l vl key intro!: entries_eqI [where f = id])
qed

text \<open>The main position holds a key of its own: the new key goes into the free node, chained after it.\<close>

lemma insert_chain:
  assumes inv: "node_inv M ns" and N: "length ns = N" and k: "live_key k" and new: "\<And>j. \<not> holds ns k j"
    and v: "i_val (ns ! M k) \<noteq> TNil" and own: "M (i_key (ns ! M k)) = M k"
    and n: "n < length ns" "i_key (ns ! n) = TNil"
  defines "ms \<equiv> ns[n := (ns ! n)\<lparr>i_next := i_next (ns ! M k), i_key := k\<rparr>, M k := (ns ! M k)\<lparr>i_next := Some n\<rparr>]"
  shows "node_inv M ms" "entries_eq ns ms" "entries_eq ms ns" "i_val (ms ! n) = TNil" "i_key (ms ! n) = k"
proof -
  let ?m = "M k"
  have c: "chains_ok ns" and d: "keys_distinct ns" and kr: "keys_reach M ns" and vo: "vals_ok ns"
    using inv by (auto simp: node_inv_def)
  have m: "?m < length ns" using M_less N by simp
  have l: "length ms = length ns" by (simp add: ms_def)
  have mk: "live_key (i_key (ns ! ?m))" using vo v m by (auto simp: vals_ok_def)
  have nm: "n \<noteq> ?m" using mk n by (auto simp: live_key_def)
  have k0: "k \<noteq> TNil" using k by (simp add: live_key_def)
  have vn: "i_val (ns ! n) = TNil" using vo n by (auto simp: vals_ok_def live_key_def)
  have key: "i_key (ms ! i) = (if i = n then k else i_key (ns ! i))" for i
    using m n nm by (auto simp: ms_def nth_list_update)
  have vl: "i_val (ms ! i) = i_val (ns ! i)" for i
    using m n nm by (auto simp: ms_def nth_list_update)
  have e: "(i, j) \<in> edge ms \<longleftrightarrow> (if i = ?m then j = n else if i = n then (?m, j) \<in> edge ns else (i, j) \<in> edge ns)" for i j
    using m n nm by (auto simp: ms_def edge_def nth_list_update)
  have nn: "(i, n) \<notin> edge ns" "(n, j) \<notin> edge ns" for i j
    using chainsD(2,3) [OF c] n by (auto simp: edge_def)
  have "chains_ok ms"
  proof -
    obtain r :: "nat \<Rightarrow> nat" where r: "\<And>i j. (i, j) \<in> edge ns \<Longrightarrow> r i < r j" using c by (auto simp: chains_ok_def)
    define r' where "r' = (\<lambda>x. if x = n then 2 * r ?m + 1 else 2 * r x)"
    have "r' i < r' j" if "(i, j) \<in> edge ms" for i j
      using that nn nm r [of ?m j] r [of i j] by (auto simp: e r'_def split: if_splits)
    moreover have "j < length ms \<and> i_key (ms ! j) \<noteq> TNil" if "(i, j) \<in> edge ms" for i j
      using that chainsD(1,2) [OF c] n k0 by (auto simp: e key l split: if_splits)
    moreover have "i_next (ms ! i) = None" if "i < length ms" "i_key (ms ! i) = TNil" for i
    proof -
      have "i \<noteq> n" "i \<noteq> ?m" using that k0 mk nm by (auto simp: key live_key_def split: if_splits)
      then show ?thesis using that chainsD(3) [OF c, of i] by (simp add: key l) (simp add: ms_def)
    qed
    moreover have "i = i'" if "(i, j) \<in> edge ms" "(i', j) \<in> edge ms" for i i' j
      using that nn chainsD(4) [OF c] nm by (auto simp: e split: if_splits)
    ultimately show ?thesis unfolding chains_ok_def by blast
  qed
  moreover have "keys_reach M ms"
  proof -
    have "(i, j) \<in> (edge ms)\<^sup>*" if "(i, j) \<in> edge ns" for i j
    proof (cases "i = ?m")
      case True
      then have "(i, n) \<in> edge ms" "(n, j) \<in> edge ms" using that nm by (simp_all add: e)
      then show ?thesis by (meson r_into_rtrancl rtrancl_trans)
    next
      case False
      then have "(i, j) \<in> edge ms" using that nn by (auto simp: e)
      then show ?thesis by blast
    qed
    then have "(edge ns)\<^sup>* \<subseteq> (edge ms)\<^sup>*" by (intro rtrancl_subset_rtrancl) auto
    moreover have "(?m, n) \<in> (edge ms)\<^sup>*" by (intro r_into_rtrancl) (simp add: e)
    ultimately show ?thesis unfolding keys_reach_def Let_def l
      using keys_reachD [OF kr] own mk nm n(2) by (auto simp: key live_key_def)
  qed
  moreover have "keys_distinct ms"
    by (rule keys_distinct_insert [OF d new l k, of n id]) (auto simp: key)
  moreover have "vals_ok ms" unfolding vals_ok_def all_set_conv_all_nth l
    using vo k vn by (simp add: vl key vals_ok_def all_set_conv_all_nth)
  ultimately show "node_inv M ms" by (simp add: node_inv_def)
  show "entries_eq ns ms" "entries_eq ms ns" "i_val (ms ! n) = TNil" "i_key (ms ! n) = k"
    using vn by (auto simp: l vl key intro!: entries_eqI [where f = id])
qed

text \<open>The walk along a chain to the node before a given one.\<close>

lemma find_prev_ok:
  assumes r: "\<And>i j. (i, j) \<in> edge ns \<Longrightarrow> r i < (r j :: nat)" and c: "chains_ok ns"
    and "(i, p) \<in> (edge ns)\<^sup>+" "card {j. j < length ns \<and> r i \<le> r j} \<le> f"
  shows "\<exists>q. find_prev f ns i p = Inr q \<and> (q, p) \<in> edge ns"
  using assms(3,4)
proof (induction f arbitrary: i)
  case 0
  then have "i < length ns" by (auto dest!: tranclD edge_less)
  with 0(2) show ?case by auto
next
  case (Suc f)
  from Suc.prems(1) obtain x where x: "(i, x) \<in> edge ns" "(x, p) \<in> (edge ns)\<^sup>*" by (auto dest: tranclD)
  then have nx: "i_next (ns ! i) = Some x" and i: "i < length ns" by (simp_all add: edge_def)
  show ?case
  proof (cases "x = p")
    case False
    have "{j. j < length ns \<and> r x \<le> r j} \<subseteq> {j. j < length ns \<and> r i \<le> r j} - {i}" using r [OF x(1)] by auto
    then have "card {j. j < length ns \<and> r x \<le> r j} \<le> card ({j. j < length ns \<and> r i \<le> r j} - {i})"
      by (intro card_mono) auto
    also have "\<dots> \<le> f" using Suc.prems(2) i by simp
    finally have "\<exists>q. find_prev f ns x p = Inr q \<and> (q, p) \<in> edge ns"
      using Suc.IH x(2) False by (metis rtranclD)
    then show ?thesis using nx False i by simp
  qed (use nx x i in auto)
qed

lemma find_prev_chain:
  assumes c: "chains_ok ns" and p: "(i, p) \<in> (edge ns)\<^sup>*" "i \<noteq> p"
  obtains q where "find_prev (length ns) ns i p = Inr q" and "(q, p) \<in> edge ns"
proof -
  obtain r :: "nat \<Rightarrow> nat" where r: "\<And>i j. (i, j) \<in> edge ns \<Longrightarrow> r i < r j" using c by (auto simp: chains_ok_def)
  have "card {j. j < length ns \<and> r i \<le> r j} \<le> card {..< length ns}" by (intro card_mono) auto
  then have f: "card {j. j < length ns \<and> r i \<le> r j} \<le> length ns" by simp
  have "(i, p) \<in> (edge ns)\<^sup>+" using p by (metis rtranclD)
  from find_prev_ok [OF r c this f] show thesis using that by blast
qed

text \<open>
  The main position holds a key that is elsewhere at home: that key moves to the free node, and the
  new one takes its place.
\<close>

lemma insert_move:
  assumes inv: "node_inv M ns" and N: "length ns = N" and k: "live_key k" and new: "\<And>j. \<not> holds ns k j"
    and v: "i_val (ns ! M k) \<noteq> TNil" and own: "M (i_key (ns ! M k)) \<noteq> M k" and q: "(q, M k) \<in> edge ns"
    and n: "n < length ns" "i_key (ns ! n) = TNil"
  defines "ms \<equiv> ns[q := (ns ! q)\<lparr>i_next := Some n\<rparr>, n := ns ! M k,
                   M k := (ns ! M k)\<lparr>i_next := None, i_val := TNil, i_key := k\<rparr>]"
  shows "node_inv M ms" "entries_eq ns ms" "entries_eq ms ns" "i_val (ms ! M k) = TNil" "i_key (ms ! M k) = k"
proof -
  let ?m = "M k"
  have c: "chains_ok ns" and d: "keys_distinct ns" and kr: "keys_reach M ns" and vo: "vals_ok ns"
    using inv by (auto simp: node_inv_def)
  have m: "?m < length ns" using M_less N by simp
  have l: "length ms = length ns" by (simp add: ms_def)
  have mk: "live_key (i_key (ns ! ?m))" using vo v m by (auto simp: vals_ok_def)
  have k0: "k \<noteq> TNil" using k by (simp add: live_key_def)
  have vn: "i_val (ns ! n) = TNil" using vo n by (auto simp: vals_ok_def live_key_def)
  have nn: "(i, n) \<notin> edge ns" "(n, j) \<notin> edge ns" for i j
    using chainsD(2,3) [OF c] n by (auto simp: edge_def)
  have ne: "n \<noteq> ?m" "q \<noteq> ?m" "q \<noteq> n"
    using mk n(2) q nn chains_irrefl [OF c] by (auto simp: live_key_def)
  have ql: "q < length ns" using q by (rule edge_less)
  have key: "i_key (ms ! i) = (if i = ?m then k else if i = n then i_key (ns ! ?m) else i_key (ns ! i))" for i
    using m n ne ql by (auto simp: ms_def nth_list_update)
  have vl: "i_val (ms ! i) = (if i = ?m then TNil else if i = n then i_val (ns ! ?m) else i_val (ns ! i))" for i
    using m n ne ql by (auto simp: ms_def nth_list_update)
  have e: "(i, j) \<in> edge ms \<longleftrightarrow>
      (if i = q then j = n else if i = n then (?m, j) \<in> edge ns else i \<noteq> ?m \<and> (i, j) \<in> edge ns)" for i j
    using m n ne ql by (auto simp: ms_def edge_def nth_list_update)
  have qs: "(q, j) \<in> edge ns \<longleftrightarrow> j = ?m" for j using q by (auto simp: edge_def)
  have "chains_ok ms"
  proof -
    obtain r :: "nat \<Rightarrow> nat" where r: "\<And>i j. (i, j) \<in> edge ns \<Longrightarrow> r i < r j" using c by (auto simp: chains_ok_def)
    define r' where "r' = (\<lambda>x. if x = n then r ?m else r x)"
    have "r' i < r' j" if "(i, j) \<in> edge ms" for i j
      using that nn ne r [OF q] r [of ?m j] r [of i j] by (auto simp: e r'_def split: if_splits)
    moreover have "j < length ms \<and> i_key (ms ! j) \<noteq> TNil" if "(i, j) \<in> edge ms" for i j
      using that chainsD(1,2) [OF c] n k0 mk by (auto simp: e key l live_key_def split: if_splits)
    moreover have "i_next (ms ! i) = None" if "i < length ms" "i_key (ms ! i) = TNil" for i
    proof -
      have i: "i \<noteq> n" "i \<noteq> ?m" using that k0 mk ne by (auto simp: key live_key_def split: if_splits)
      then have "i_next (ns ! i) = None" using that chainsD(3) [OF c, of i] by (simp add: key l)
      moreover have "i \<noteq> q" using calculation q by (auto simp: edge_def)
      ultimately show ?thesis using i by (simp add: ms_def)
    qed
    moreover have "i = i'" if "(i, j) \<in> edge ms" "(i', j) \<in> edge ms" for i i' j
      using that nn chainsD(4) [OF c] ne q by (auto simp: e split: if_splits)
    ultimately show ?thesis unfolding chains_ok_def by blast
  qed
  moreover have "keys_reach M ms"
  proof -
    define f where "f = (\<lambda>x. if x = ?m then n else x)"
    have step: "(f i, f j) \<in> edge ms" if "(i, j) \<in> edge ns" for i j
    proof (cases "i = ?m")
      case True
      then have "j \<noteq> ?m" using that chains_irrefl [OF c] by auto
      then show ?thesis using True that ne by (auto simp: f_def e)
    next
      case False
      then have "j = ?m \<longleftrightarrow> i = q" using that q chainsD(4) [OF c] qs by blast
      then show ?thesis using False that nn ne by (auto simp: f_def e)
    qed
    have reach: "(f i, f j) \<in> (edge ms)\<^sup>*" if "(i, j) \<in> (edge ns)\<^sup>*" for i j
      using that by (induction rule: rtrancl_induct) (auto intro: step rtrancl_into_rtrancl)
    have nm: "M (i_key (ns ! i)) \<noteq> ?m" if "i < length ns" "live_key (i_key (ns ! i))" for i
      using keys_reachD(3) [OF kr that] own mk by metis
    have nf: "M (i_key (ns ! i)) \<noteq> n" if "i < length ns" "live_key (i_key (ns ! i))" for i
      using keys_reachD(2) [OF kr that] n(2) by metis
    have old: "(M (i_key (ns ! i)), f i) \<in> (edge ms)\<^sup>*
        \<and> i_key (ms ! M (i_key (ns ! i))) = i_key (ns ! M (i_key (ns ! i)))"
      if "i < length ns" "live_key (i_key (ns ! i))" for i
      using reach [OF keys_reachD(1) [OF kr that]] nm [OF that] nf [OF that] by (simp add: f_def key)
    show ?thesis unfolding keys_reach_def Let_def l
    proof (intro allI impI)
      fix i assume i: "i < length ns" "live_key (i_key (ms ! i))"
      show "(M (i_key (ms ! i)), i) \<in> (edge ms)\<^sup>* \<and> i_key (ms ! M (i_key (ms ! i))) \<noteq> TNil
        \<and> (live_key (i_key (ms ! M (i_key (ms ! i)))) \<longrightarrow> M (i_key (ms ! M (i_key (ms ! i)))) = M (i_key (ms ! i)))"
      proof (cases "i = ?m")
        case True
        then show ?thesis using k0 by (simp add: key)
      next
        case False
        define x where "x = (if i = n then ?m else i)"
        have x: "x < length ns" "live_key (i_key (ns ! x))" "i_key (ms ! i) = i_key (ns ! x)" "f x = i"
          using False i m ne by (auto simp: x_def key f_def split: if_splits)
        then show ?thesis using old [OF x(1,2)] keys_reachD [OF kr x(1,2)] by simp
      qed
    qed
  qed
  moreover have "keys_distinct ms"
    by (rule keys_distinct_insert [OF d new l k, of ?m "\<lambda>i. if i = n then ?m else i"])
       (use m n in \<open>auto simp: key inj_on_def\<close>)
  moreover have "vals_ok ms" unfolding vals_ok_def all_set_conv_all_nth l
    using vo k mk by (simp add: vl key vals_ok_def all_set_conv_all_nth)
  ultimately show "node_inv M ms" by (simp add: node_inv_def)
  show "entries_eq ns ms" using m n ne vn by (auto simp: l vl key intro!: entries_eqI [where f = "\<lambda>i. if i = ?m then n else i"])
  show "entries_eq ms ns" using m n ne by (auto simp: l vl key intro!: entries_eqI [where f = "\<lambda>i. if i = n then ?m else i"])
  show "i_val (ms ! ?m) = TNil" "i_key (ms ! ?m) = k" by (simp_all add: vl key)
qed

end

end
