(* ===== verification/LuaTableMap.thy ===== *)
theory LuaTableMap
  imports LuaTableInv
begin

text \<open>
  Tables as finite maps: what a lookup returns, that inserting a key changes no other, that a rehash
  keeps every entry and leaves room for the new key, and that any sequence of assignments implements
  the updates of a map.
\<close>

section \<open>The invariant of tables\<close>

definition in_array :: "nat \<Rightarrow> TValue \<Rightarrow> bool" where
  "in_array n k \<longleftrightarrow> 0 < arrayindex k \<and> arrayindex k \<le> int n"

definition free_count :: "Node list \<Rightarrow> nat" where
  "free_count ns = length (filter (\<lambda>k. k = TNil) (map i_key ns))"

definition room :: "Table \<Rightarrow> nat" where
  "room t = (if t_dummy t then 0 else free_count (t_node t))"

definition free_ok :: "Table \<Rightarrow> bool" where
  "free_ok t \<longleftrightarrow>
     (if t_dummy t then t_node t = dummynode \<and> lastfree t \<le> 0
      else lastfree t \<le> int (length (t_node t)) \<and> (\<forall>i < length (t_node t). i_key (t_node t ! i) = TNil \<longrightarrow> int i < lastfree t))"

definition keys_hashed :: "nat \<Rightarrow> Node list \<Rightarrow> bool" where
  "keys_hashed a ns \<longleftrightarrow> (\<forall>n \<in> set ns. live_key (i_key n) \<longrightarrow> key_ok (i_key n) \<and> \<not> in_array a (i_key n))"

definition table_inv :: "Table \<Rightarrow> bool" where
  "table_inv t \<longleftrightarrow>
     length (t_node t) = sizenode t \<and> lsizenode t \<le> MAXBITS \<and> length (t_array t) \<le> MAXASIZE
     \<and> node_inv (mainposition t) (t_node t) \<and> keys_hashed (length (t_array t)) (t_node t) \<and> free_ok t"

text \<open>The value of a key in a table, read off its two parts.\<close>

definition tval :: "Table \<Rightarrow> TValue \<Rightarrow> TValue" where
  "tval t k = (if in_array (length (t_array t)) k then t_array t ! (nat (arrayindex k) - 1) else nval (t_node t) k)"

lemma key_ok_live: "key_ok k \<Longrightarrow> live_key k"
  by (simp add: key_ok_def)

lemma key_ok_cong: "luaO_rawequalObj a b \<Longrightarrow> key_ok a \<longleftrightarrow> key_ok b"
proof -
  assume r: "luaO_rawequalObj a b"
  have "luai_numisnan x = luai_numisnan y \<and> luai_numeq x z = luai_numeq y z" if "luai_numeq x y" for x y z
    using that luai_numeq_trans luai_numeq_sym by (auto simp: luai_numeq_def)
  then show ?thesis using r rawequal_live [OF r] unfolding key_ok_def rawequal_iff
    by (auto split: TValue.splits)
qed

lemma in_array_cong: "luaO_rawequalObj a b \<Longrightarrow> in_array n a \<longleftrightarrow> in_array n b"
  by (simp add: in_array_def rawequal_arrayindex)

lemma nval_cong: "luaO_rawequalObj a b \<Longrightarrow> nval ns a = nval ns b"
  unfolding nval_def by (simp add: rawequal_cong [of a b])

lemma tval_cong: "luaO_rawequalObj a b \<Longrightarrow> tval t a = tval t b"
  by (simp add: tval_def in_array_cong [of a b] nval_cong [of a b] rawequal_arrayindex [of a b])

lemma key_ok_number: "in_int i \<Longrightarrow> i \<noteq> INT_MIN \<Longrightarrow> key_ok (TNumber (cast_num i))"
  by (auto simp: key_ok_def live_key_def luai_numeq_cast_num in_int_numeral_bounds INT_MIN_def)

section \<open>Lookup\<close>

definition find_slot :: "Table \<Rightarrow> TValue \<Rightarrow> slot res" where
  "find_slot t k =
     (if in_array (length (t_array t)) k then Inr (SArray (nat (arrayindex k) - 1))
      else chain_search (\<lambda>n. luaO_rawequalObj (i_key n) k) t (mainposition t k))"

lemma array_bounds_check:
  assumes "in_int j" and "n \<le> MAXASIZE"
  shows "(word_of_int j :: 32 word) < word_of_nat n \<longleftrightarrow> 0 \<le> j \<and> j < int n"
proof -
  have n: "n \<le> 67108864" using assms(2) by (simp add: MAXASIZE_def MAXBITS_def)
  then have w: "uint (word_of_nat n :: 32 word) = int n" by (simp add: unsigned_of_nat take_bit_nat_eq_self)
  have "uint (word_of_int j :: 32 word) = j mod 4294967296" by (simp add: unsigned_of_int take_bit_int_def)
  moreover have "j mod 4294967296 = (if 0 \<le> j then j else j + 4294967296)"
  proof (cases "0 \<le> j")
    case False
    then have "(j + 4294967296) mod 4294967296 = j + 4294967296"
      using assms(1) by (intro mod_pos_pos_trivial) (auto simp: in_int_numeral_bounds)
    with False show ?thesis by simp
  qed (use assms(1) in \<open>simp add: in_int_numeral_bounds\<close>)
  ultimately show ?thesis using w n assms(1) by (auto simp: word_less_def in_int_numeral_bounds)
qed

lemma getnum_find_slot:
  assumes "length (t_array t) \<le> MAXASIZE" and "in_int k" and "k \<noteq> INT_MIN"
  shows "luaH_getnum t k = find_slot t (TNumber (cast_num k))"
proof -
  have i: "in_int (k - 1)" using assms(2,3) by (auto simp: in_int_numeral_bounds INT_MIN_def)
  have p: "(\<lambda>n. case i_key n of TNumber m \<Rightarrow> luai_numeq m (cast_num k) | _ \<Rightarrow> False)
      = (\<lambda>n. luaO_rawequalObj (i_key n) (TNumber (cast_num k)))"
    by (auto simp: rawequal_iff fun_eq_iff split: TValue.split)
  have n: "nat (k - 1) = nat k - 1" by simp
  show ?thesis unfolding luaH_getnum_def find_slot_def Let_def c_int_ok [OF i] bindE_Inr
      array_bounds_check [OF i assms(1)] p in_array_def arrayindex_cast_num [OF assms(2)] n
    by (auto simp: mainposition_def)
qed

lemma get_find_slot:
  assumes "length (t_array t) \<le> MAXASIZE" and k: "key_ok k"
  shows "luaH_get t k = find_slot t k"
proof -
  have other: "\<not> in_array n k" if "\<And>m. k \<noteq> TNumber m" for n
    using that by (auto simp: in_array_def arrayindex_def split: TValue.splits)
  show ?thesis
  proof (cases k)
    case (TNumber m)
    show ?thesis
    proof (cases "luai_numeq (cast_num (lua_number2int m)) m")
      case True
      let ?k = "lua_number2int m"
      have r: "luaO_rawequalObj (TNumber (cast_num ?k)) k" using True TNumber by (simp add: rawequal_iff)
      have "?k \<noteq> INT_MIN" using k True TNumber by (auto simp: key_ok_def luai_numeq_sym)
      then have "luaH_get t k = find_slot t (TNumber (cast_num ?k))"
        using getnum_find_slot [OF assms(1) number2int_range] TNumber True by (simp add: luaH_get_def)
      also have "\<dots> = find_slot t k"
        unfolding find_slot_def using r
        by (simp add: in_array_cong [OF r] rawequal_arrayindex [OF r] mainposition_eq [OF r] rawequal_cong [OF r])
      finally show ?thesis .
    next
      case False
      then show ?thesis using TNumber by (simp add: luaH_get_def find_slot_def in_array_def arrayindex_def Let_def)
    qed
  next
    case (TString str)
    have p: "luaO_rawequalObj x k \<longleftrightarrow> x = TString str" for x using TString by (cases x) (auto simp: rawequal_iff)
    have "\<not> in_array n k" for n using other TString by simp
    then have "find_slot t k = chain_search (\<lambda>n. i_key n = TString str) t (mainposition t k)"
      by (simp add: find_slot_def p)
    then show ?thesis using TString by (simp add: luaH_get_def luaH_getstr_def mainposition_def)
  qed (use k other in \<open>auto simp: luaH_get_def find_slot_def key_ok_def live_key_def\<close>)
qed

lemma find_slot_ok:
  assumes inv: "table_inv t" and k: "key_ok k"
  obtains p where "find_slot t k = Inr p" and "slot_val t p = tval t k"
    and "\<And>i. p = SArray i \<longleftrightarrow> in_array (length (t_array t)) k \<and> i = nat (arrayindex k) - 1"
    and "\<And>i. p = SNode i \<longleftrightarrow> \<not> in_array (length (t_array t)) k \<and> holds (t_node t) k i"
    and "p = SNil \<longleftrightarrow> \<not> in_array (length (t_array t)) k \<and> (\<forall>i. \<not> holds (t_node t) k i)"
proof (cases "in_array (length (t_array t)) k")
  case True
  then show thesis using that [of "SArray (nat (arrayindex k) - 1)"]
    by (auto simp: find_slot_def slot_val_def tval_def)
next
  case False
  have n: "node_inv (mainposition t) (t_node t)" "length (t_node t) = sizenode t" using inv by (auto simp: table_inv_def)
  note sk = mainpos.search_key [OF n key_ok_live [OF k]]
  obtain q where q: "search (length (t_node t)) (\<lambda>n. luaO_rawequalObj (i_key n) k) (t_node t) (Some (mainposition t k)) = Inr q"
    using sk(3) by blast
  have d: "keys_distinct (t_node t)" using n by (simp add: node_inv_def)
  let ?p = "case q of None \<Rightarrow> SNil | Some j \<Rightarrow> SNode j"
  have f: "find_slot t k = Inr ?p" using q False by (simp add: find_slot_def chain_search_def)
  show thesis
  proof (cases q)
    case None
    then show thesis using that [OF f] q sk(1,2) False nval_not_holds by (simp add: slot_val_def tval_def)
  next
    case (Some j)
    then have h: "holds (t_node t) k i \<longleftrightarrow> i = j" for i using sk(1) [of i] q by auto
    then show thesis using that [OF f] Some False nval_holds [OF d key_ok_live [OF k]] by (auto simp: slot_val_def tval_def)
  qed
qed

text \<open>The pointer that a search returns can be read.\<close>

lemma find_slot_getobj:
  assumes inv: "table_inv t" and k: "key_ok k"
  obtains p where "find_slot t k = Inr p" and "slot_val t p = tval t k" and "getobj t p = Inr (slot_val t p)"
proof (rule find_slot_ok [OF assms])
  fix p
  assume p: "find_slot t k = Inr p" "slot_val t p = tval t k"
    "\<And>i. p = SArray i \<longleftrightarrow> in_array (length (t_array t)) k \<and> i = nat (arrayindex k) - 1"
    "\<And>i. p = SNode i \<longleftrightarrow> \<not> in_array (length (t_array t)) k \<and> holds (t_node t) k i"
  have "p = SNil \<or> slot_in t p"
  proof (cases p)
    case (SArray i)
    with p(3) [of i] show ?thesis by (auto simp: slot_in_def in_array_def)
  next
    case (SNode i)
    with p(4) [of i] show ?thesis by (simp add: slot_in_def holds_def)
  qed simp
  with p(1,2) that show thesis by (simp add: getobj_def)
qed

section \<open>Storing into a slot\<close>

lemma free_count_map: "map i_key ms = map i_key ns \<Longrightarrow> free_count ms = free_count ns"
  by (simp only: free_count_def)

lemma free_count_update:
  "i < length ns \<Longrightarrow> free_count ns \<le> free_count (ns[i := n]) + (if i_key (ns ! i) = TNil then 1 else 0)"
proof (induction ns arbitrary: i)
  case (Cons a ns)
  show ?case
  proof (cases i)
    case (Suc j)
    then show ?thesis using Cons.IH [of j] Cons.prems by (auto simp: free_count_def split: if_splits)
  qed (simp add: free_count_def)
qed simp

lemma node_inv_values:
  assumes "node_inv M ns" and l: "length ms = length ns" and k: "\<And>i. i_key (ms ! i) = i_key (ns ! i)"
    and n: "\<And>i. i_next (ms ! i) = i_next (ns ! i)" and "vals_ok ms"
  shows "node_inv M ms"
proof -
  have "edge ms = edge ns" by (simp add: edge_def l n)
  then show ?thesis using assms by (simp add: node_inv_def chains_ok_def keys_reach_def keys_distinct_def)
qed

text \<open>What a completed assignment of \<open>v\<close> to \<open>k\<close> leaves behind.\<close>

definition same_shape :: "Table \<Rightarrow> Table \<Rightarrow> bool" where
  "same_shape t t' \<longleftrightarrow> length (t_array t') = length (t_array t) \<and> lsizenode t' = lsizenode t \<and> t_dummy t' = t_dummy t"

definition put_post :: "TValue \<Rightarrow> TValue \<Rightarrow> Table \<Rightarrow> Table \<Rightarrow> bool" where
  "put_post k v t t' \<longleftrightarrow>
     table_inv t' \<and> same_shape t t'
     \<and> (\<forall>k'. key_ok k' \<longrightarrow> tval t' k' = (if luaO_rawequalObj k' k then v else tval t k'))
     \<and> room t \<le> room t' + (if in_array (length (t_array t)) k then 0 else 1)"

lemma mainposition_cong: "lsizenode t' = lsizenode t \<Longrightarrow> mainposition t' = mainposition t"
  by (auto simp: fun_eq_iff mainposition_def hashnum_def hashstr_def hashpow2_def hashboolean_def hashpointer_def
      hashmod_def sizenode_def split: TValue.split)

lemma store_array:
  assumes inv: "table_inv t" and k: "key_ok k" and a: "in_array (length (t_array t)) k" and ix: "i = nat (arrayindex k) - 1"
  shows "put_post k v t (write_slot (SArray i) v t)" (is "put_post k v t ?t")
proof -
  have i: "i < length (t_array t)" using a ix by (auto simp: in_array_def)
  have t: "?t = t\<lparr>t_array := (t_array t)[i := v]\<rparr>" by (simp add: write_slot_def)
  have "mainposition ?t = mainposition t" by (rule mainposition_cong) (simp add: t)
  moreover have "free_ok ?t \<longleftrightarrow> free_ok t" by (simp add: free_ok_def t)
  ultimately have "table_inv ?t" using inv by (simp add: table_inv_def t sizenode_def)
  moreover have "tval ?t k' = (if luaO_rawequalObj k' k then v else tval t k')" if k': "key_ok k'" for k'
  proof (cases "luaO_rawequalObj k' k")
    case True
    then have "nat (arrayindex k') - 1 = i" using ix rawequal_arrayindex by simp
    then show ?thesis using True a i in_array_cong [OF True] by (simp add: tval_def t del: One_nat_def)
  next
    case False
    have "nat (arrayindex k') - 1 \<noteq> i" if "in_array (length (t_array t)) k'"
    proof
      assume "nat (arrayindex k') - 1 = i"
      then have "arrayindex k' = arrayindex k" using that a ix by (auto simp: in_array_def)
      then have "luaO_rawequalObj k' k"
        using arrayindex_pos [of k'] arrayindex_pos [of k] that a rawequal_sym rawequal_trans
        by (metis in_array_def)
      with False show False ..
    qed
    then show ?thesis using False by (auto simp: tval_def t)
  qed
  ultimately show ?thesis using a by (simp add: put_post_def same_shape_def room_def t)
qed

lemma store_node:
  assumes inv: "table_inv t" and k: "key_ok k" and a: "\<not> in_array (length (t_array t)) k" and h: "holds (t_node t) k i"
  shows "put_post k v t (write_slot (SNode i) v t)" (is "put_post k v t ?t")
proof -
  let ?ns = "(t_node t)[i := (t_node t ! i)\<lparr>i_val := v\<rparr>]"
  have t: "?t = t\<lparr>t_node := ?ns\<rparr>" by (simp add: write_slot_def upd_node_def)
  have i: "i < length (t_node t)" "live_key (i_key (t_node t ! i))"
    using h rawequal_live key_ok_live [OF k] by (auto simp: holds_def)
  have key: "i_key (?ns ! j) = i_key (t_node t ! j)" for j using i by (cases "j = i") auto
  have nx: "i_next (?ns ! j) = i_next (t_node t ! j)" for j using i by (cases "j = i") auto
  have vl: "i_val (?ns ! j) = (if j = i then v else i_val (t_node t ! j))" for j using i by simp
  have kn: "map i_key ?ns = map i_key (t_node t)" by (rule nth_equalityI) (simp_all add: key)
  have "vals_ok ?ns" unfolding vals_ok_def
  proof
    fix n assume "n \<in> set ?ns"
    then have "n \<in> set (t_node t) \<or> n = (t_node t ! i)\<lparr>i_val := v\<rparr>"
      by (auto dest!: set_update_subset_insert [THEN subsetD])
    then show "\<not> live_key (i_key n) \<longrightarrow> i_val n = TNil"
      using i(2) inv by (auto simp: table_inv_def node_inv_def vals_ok_def)
  qed
  moreover have "node_inv (mainposition t) (t_node t)" using inv by (simp add: table_inv_def)
  ultimately have n: "node_inv (mainposition t) ?ns"
    using node_inv_values [of "mainposition t" "t_node t" ?ns] key nx by simp
  have m: "mainposition ?t = mainposition t" by (rule mainposition_cong) (simp add: t)
  have "keys_hashed (length (t_array t)) ?ns"
    using inv unfolding table_inv_def keys_hashed_def all_set_conv_all_nth by (simp add: key)
  moreover have "free_ok ?t"
  proof -
    have "t_node t \<noteq> dummynode" using i by (auto simp: dummynode_def free_node_def live_key_def)
    then have "\<not> t_dummy t" using inv by (auto simp: table_inv_def free_ok_def)
    then show ?thesis using inv by (simp add: table_inv_def free_ok_def t key)
  qed
  ultimately have ti: "table_inv ?t" using inv n m by (simp add: table_inv_def t sizenode_def)
  have d: "keys_distinct (t_node t)" "keys_distinct ?ns" using inv n by (auto simp: table_inv_def node_inv_def)
  have hs: "holds ?ns k' j \<longleftrightarrow> holds (t_node t) k' j" for k' j by (simp add: holds_def key)
  have "nval ?ns k' = (if luaO_rawequalObj k' k then v else nval (t_node t) k')" if k': "key_ok k'" for k'
  proof (cases "\<exists>j. holds (t_node t) k' j")
    case True
    then obtain j where j: "holds (t_node t) k' j" by blast
    have "luaO_rawequalObj k' k \<longleftrightarrow> j = i"
      using j h holds_unique [OF d(1) key_ok_live [OF k]] rawequal_sym rawequal_trans unfolding holds_def by meson
    then show ?thesis using nval_holds [OF d(1) key_ok_live [OF k'] j] nval_holds [OF d(2) key_ok_live [OF k'], of j] j
      by (simp add: hs vl)
  next
    case False
    moreover have "\<not> luaO_rawequalObj k' k" using False h rawequal_sym rawequal_trans unfolding holds_def by meson
    ultimately show ?thesis using nval_not_holds [of ?ns k'] nval_not_holds [of "t_node t" k'] hs by auto
  qed
  then have "tval ?t k' = (if luaO_rawequalObj k' k then v else tval t k')" if "key_ok k'" for k'
    using that a in_array_cong [of k' k] by (auto simp: tval_def t)
  then show ?thesis using ti a by (simp add: put_post_def same_shape_def room_def t free_count_map [OF kn])
qed

section \<open>Inserting a key into a table\<close>

lemma getfreepos_ok:
  "free_ok t \<Longrightarrow>
   (case getfreepos t of
      Inl _ \<Rightarrow> False
    | Inr (None, t') \<Rightarrow> room t = 0 \<and> (\<exists>l. t' = t\<lparr>lastfree := l\<rparr>) \<and> free_ok t'
    | Inr (Some n, t') \<Rightarrow> \<not> t_dummy t \<and> n < length (t_node t) \<and> i_key (t_node t ! n) = TNil \<and> t' = t\<lparr>lastfree := int n\<rparr>
        \<and> (\<forall>i < length (t_node t). i \<noteq> n \<longrightarrow> i_key (t_node t ! i) = TNil \<longrightarrow> i < n))"
proof (induction t rule: getfreepos.induct)
  case (1 t)
  let ?t = "t\<lparr>lastfree := lastfree t - 1\<rparr>"
  show ?case
  proof (cases "lastfree t > 0")
    case False
    have "room t = 0"
    proof (cases "t_dummy t")
      case False
      then have "\<forall>n \<in> set (t_node t). i_key n \<noteq> TNil"
        using 1(2) \<open>\<not> lastfree t > 0\<close> by (fastforce simp: free_ok_def in_set_conv_nth)
      then show ?thesis by (simp add: room_def free_count_def)
    qed (simp add: room_def)
    moreover have "free_ok ?t" using 1(2) False by (fastforce simp: free_ok_def)
    ultimately show ?thesis using False by (subst getfreepos.simps) auto
  next
    case True
    then have nd: "\<not> t_dummy t" "lastfree t \<le> int (length (t_node t))" using 1(2) by (auto simp: free_ok_def split: if_splits)
    have fr: "\<And>i. i < length (t_node t) \<Longrightarrow> i_key (t_node t ! i) = TNil \<Longrightarrow> int i < lastfree t"
      using 1(2) nd by (simp add: free_ok_def)
    have inside: "\<not> length (t_node t) \<le> nat (lastfree t - 1)" using True nd(2) by linarith
    show ?thesis
    proof (cases "i_key (t_node t ! nat (lastfree t - 1)) = TNil")
      case tr: True
      then have "getfreepos t = Inr (Some (nat (lastfree t - 1)), ?t)"
        using True inside by (subst getfreepos.simps) simp
      moreover have "i < nat (lastfree t - 1)"
        if "i < length (t_node t)" "i \<noteq> nat (lastfree t - 1)" "i_key (t_node t ! i) = TNil" for i
        using fr [OF that(1,3)] that(2) True by linarith
      ultimately show ?thesis using nd tr True by auto
    next
      case fa: False
      have "free_ok ?t"
      proof -
        have "int i < lastfree t - 1" if "i < length (t_node t)" "i_key (t_node t ! i) = TNil" for i
        proof -
          have "nat (lastfree t - 1) \<noteq> i" using that(2) fa by metis
          then show ?thesis using fr [OF that] by linarith
        qed
        then show ?thesis using nd by (simp add: free_ok_def)
      qed
      moreover have "getfreepos t = getfreepos ?t" using True fa inside by (subst getfreepos.simps) simp
      moreover have "room ?t = room t" by (simp add: room_def)
      ultimately show ?thesis using 1(1) [OF refl True] fa inside by (auto split: sum.splits prod.splits option.splits)
    qed
  qed
qed

text \<open>What the insertion of a new key with no value yet leaves behind.\<close>

definition ins_post :: "TValue \<Rightarrow> Table \<Rightarrow> nat \<Rightarrow> Table \<Rightarrow> bool" where
  "ins_post k t i t' \<longleftrightarrow>
     table_inv t' \<and> same_shape t t' \<and> holds (t_node t') k i
     \<and> (\<forall>k'. key_ok k' \<longrightarrow> tval t' k' = tval t k') \<and> room t \<le> room t' + 1"

lemma ins_postI:
  assumes inv: "table_inv t" and k: "key_ok k" "\<not> in_array (length (t_array t)) k" and nd: "\<not> t_dummy t"
    and ni: "node_inv (mainposition t) ms" and e: "entries_eq (t_node t) ms" "entries_eq ms (t_node t)"
    and l: "length ms = length (t_node t)" and i: "i < length ms" "i_key (ms ! i) = k"
    and ks: "\<And>j. j < length ms \<Longrightarrow> i_key (ms ! j) = k \<or> (\<exists>n \<in> set (t_node t). i_key (ms ! j) = i_key n)"
    and lf: "lf \<le> int (length ms)" "\<And>j. j < length ms \<Longrightarrow> i_key (ms ! j) = TNil \<Longrightarrow> int j < lf"
    and fc: "free_count (t_node t) \<le> free_count ms + 1"
  shows "ins_post k t i (t\<lparr>t_node := ms, lastfree := lf\<rparr>)" (is "ins_post k t i ?t")
proof -
  have m: "mainposition ?t = mainposition t" by (rule mainposition_cong) simp
  have "keys_hashed (length (t_array t)) ms"
    unfolding keys_hashed_def all_set_conv_all_nth
  proof (intro allI impI)
    fix j assume "j < length ms" "live_key (i_key (ms ! j))"
    then show "key_ok (i_key (ms ! j)) \<and> \<not> in_array (length (t_array t)) (i_key (ms ! j))"
      using ks [of j] k inv by (auto simp: table_inv_def keys_hashed_def)
  qed
  then have "table_inv ?t" using inv ni m l lf nd by (simp add: table_inv_def sizenode_def free_ok_def)
  moreover have "nval ms k' = nval (t_node t) k'" if "key_ok k'" for k'
    using nval_eq [OF _ _ key_ok_live [OF that] e] inv ni by (simp add: table_inv_def node_inv_def)
  then have "tval ?t k' = tval t k'" if "key_ok k'" for k' using that by (simp add: tval_def)
  ultimately show ?thesis using i l nd fc rawequal_refl [OF k(1)]
    by (simp add: ins_post_def same_shape_def holds_def room_def)
qed

lemma newkey_chain:
  assumes inv: "table_inv t" and k: "key_ok k" "\<not> in_array (length (t_array t)) k" and new: "\<And>i. \<not> holds (t_node t) k i"
    and nd: "\<not> t_dummy t" and n: "n < length (t_node t)" "i_key (t_node t ! n) = TNil"
    and free: "\<forall>i < length (t_node t). i \<noteq> n \<longrightarrow> i_key (t_node t ! i) = TNil \<longrightarrow> i < n"
    and v: "i_val (t_node t ! mainposition t k) \<noteq> TNil"
    and own: "mainposition t (i_key (t_node t ! mainposition t k)) = mainposition t k"
  defines "ms \<equiv> (t_node t)[n := (t_node t ! n)\<lparr>i_next := i_next (t_node t ! mainposition t k), i_key := k\<rparr>,
                  mainposition t k := (t_node t ! mainposition t k)\<lparr>i_next := Some n\<rparr>]"
  shows "ins_post k t n (t\<lparr>t_node := ms, lastfree := int n\<rparr>)"
proof -
  let ?m = "mainposition t k" and ?ns = "t_node t"
  have ni: "node_inv (mainposition t) ?ns" and N: "length ?ns = sizenode t" using inv by (auto simp: table_inv_def)
  have m: "?m < length ?ns" using N mainposition_less by simp
  have mk: "live_key (i_key (?ns ! ?m))" using ni m v by (auto simp: node_inv_def vals_ok_def)
  have nm: "n \<noteq> ?m" using n(2) mk by (auto simp: live_key_def)
  have k0: "k \<noteq> TNil" using k by (simp add: key_ok_def live_key_def)
  have l: "length ms = length ?ns" by (simp add: ms_def)
  note ic = mainpos.insert_chain [OF ni N key_ok_live [OF k(1)] new v own n, folded ms_def]
  have key: "i_key (ms ! j) = (if j = n then k else i_key (?ns ! j))" for j
    using m n nm by (auto simp: ms_def nth_list_update)
  show ?thesis
  proof (rule ins_postI [OF inv k nd])
    show "int j < int n" if "j < length ms" "i_key (ms ! j) = TNil" for j
      using that free k0 by (auto simp: key l split: if_splits)
    have "free_count ?ns \<le> free_count (?ns[n := (?ns ! n)\<lparr>i_next := i_next (?ns ! ?m), i_key := k\<rparr>]) + 1"
      using free_count_update [OF n(1)] n(2) by simp
    also have "\<dots> \<le> free_count ms + 1"
      using free_count_update [of ?m "?ns[n := (?ns ! n)\<lparr>i_next := i_next (?ns ! ?m), i_key := k\<rparr>]"] m nm mk
      by (simp add: ms_def live_key_def)
    finally show "free_count ?ns \<le> free_count ms + 1" .
  qed (use ic n m in \<open>auto simp: ms_def nth_list_update\<close>)
qed

lemma newkey_move:
  assumes inv: "table_inv t" and k: "key_ok k" "\<not> in_array (length (t_array t)) k" and new: "\<And>i. \<not> holds (t_node t) k i"
    and nd: "\<not> t_dummy t" and n: "n < length (t_node t)" "i_key (t_node t ! n) = TNil"
    and free: "\<forall>i < length (t_node t). i \<noteq> n \<longrightarrow> i_key (t_node t ! i) = TNil \<longrightarrow> i < n"
    and v: "i_val (t_node t ! mainposition t k) \<noteq> TNil"
    and own: "mainposition t (i_key (t_node t ! mainposition t k)) \<noteq> mainposition t k"
    and q: "(q, mainposition t k) \<in> edge (t_node t)"
  defines "ms \<equiv> (t_node t)[q := (t_node t ! q)\<lparr>i_next := Some n\<rparr>, n := t_node t ! mainposition t k,
                  mainposition t k := (t_node t ! mainposition t k)\<lparr>i_next := None, i_val := TNil, i_key := k\<rparr>]"
  shows "q \<noteq> n" "n \<noteq> mainposition t k" "q \<noteq> mainposition t k" "ins_post k t (mainposition t k) (t\<lparr>t_node := ms, lastfree := int n\<rparr>)"
proof -
  let ?m = "mainposition t k" and ?ns = "t_node t"
  have ni: "node_inv (mainposition t) ?ns" and N: "length ?ns = sizenode t" using inv by (auto simp: table_inv_def)
  have c: "chains_ok ?ns" using ni by (simp add: node_inv_def)
  have m: "?m < length ?ns" using N mainposition_less by simp
  have mk: "live_key (i_key (?ns ! ?m))" using ni m v by (auto simp: node_inv_def vals_ok_def)
  show nm: "n \<noteq> ?m" using n(2) mk by (auto simp: live_key_def)
  have ql: "q < length ?ns" using q by (rule edge_less)
  have qk: "i_key (?ns ! q) \<noteq> TNil" using chainsD(3) [OF c ql] q by (auto simp: edge_def)
  then show qn: "q \<noteq> n" using n(2) by auto
  show qm: "q \<noteq> ?m" using chains_irrefl [OF c] q by auto
  have k0: "k \<noteq> TNil" using k by (simp add: key_ok_def live_key_def)
  have l: "length ms = length ?ns" by (simp add: ms_def)
  note im = mainpos.insert_move [OF ni N key_ok_live [OF k(1)] new v own q n, folded ms_def]
  have key: "i_key (ms ! j) = (if j = ?m then k else if j = n then i_key (?ns ! ?m) else i_key (?ns ! j))" for j
    using m n nm ql qn qm by (auto simp: ms_def nth_list_update)
  show "ins_post k t ?m (t\<lparr>t_node := ms, lastfree := int n\<rparr>)"
  proof (rule ins_postI [OF inv k nd])
    show "int j < int n" if "j < length ms" "i_key (ms ! j) = TNil" for j
      using that free k0 mk by (auto simp: key l live_key_def split: if_splits)
    let ?a = "?ns[q := (?ns ! q)\<lparr>i_next := Some n\<rparr>]"
    have "free_count ?ns \<le> free_count ?a" using free_count_update [OF ql] qk by simp
    also have "\<dots> \<le> free_count (?a[n := ?ns ! ?m]) + 1" using free_count_update [of n ?a] n qn by simp
    also have "\<dots> \<le> free_count ms + 1"
      using free_count_update [of ?m "?a[n := ?ns ! ?m]"] m nm qm mk by (simp add: ms_def live_key_def)
    finally show "free_count ?ns \<le> free_count ms + 1" .
    show "i_key (ms ! j) = k \<or> (\<exists>x \<in> set ?ns. i_key (ms ! j) = i_key x)" if "j < length ms" for j
      using that m by (auto simp: key l)
  qed (use im n m in \<open>auto simp: ms_def nth_list_update\<close>)
qed

lemma move_nodes:
  assumes "q \<noteq> n" "n \<noteq> m" "q \<noteq> m" "m < length (t_node t)"
  shows "upd_node m (\<lambda>x. x\<lparr>i_key := k\<rparr>) (upd_node m (\<lambda>x. x\<lparr>i_next := None, i_val := TNil\<rparr>)
     (upd_node n (\<lambda>_. t_node (upd_node q (\<lambda>x. x\<lparr>i_next := Some n\<rparr>) t) ! m) (upd_node q (\<lambda>x. x\<lparr>i_next := Some n\<rparr>) t)))
    = t\<lparr>t_node := (t_node t)[q := (t_node t ! q)\<lparr>i_next := Some n\<rparr>, n := t_node t ! m,
          m := (t_node t ! m)\<lparr>i_next := None, i_val := TNil, i_key := k\<rparr>]\<rparr>"
  using assms by (simp add: upd_node_def)

lemma newkey_step_ok:
  assumes inv: "table_inv t" and k: "key_ok k" "\<not> in_array (length (t_array t)) k" and new: "\<And>i. \<not> holds (t_node t) k i"
  shows "(\<exists>i t'. newkey_step grow k t = Inr (SNode i, t') \<and> ins_post k t i t')
     \<or> room t = 0 \<and> (\<exists>l. table_inv (t\<lparr>lastfree := l\<rparr>) \<and> newkey_step grow k t = grow k (t\<lparr>lastfree := l\<rparr>))"
proof -
  let ?m = "mainposition t k" and ?ns = "t_node t"
  have ni: "node_inv (mainposition t) ?ns" and N: "length ?ns = sizenode t" and fo: "free_ok t"
    using inv by (auto simp: table_inv_def)
  have m: "?m < length ?ns" using N mainposition_less by simp
  have lk: "live_key k" using k(1) by (rule key_ok_live)
  then have k0: "k \<noteq> TNil" by (simp add: live_key_def)
  show ?thesis
  proof (cases "i_val (?ns ! ?m) \<noteq> TNil \<or> t_dummy t")
    case False
    let ?ms = "?ns[?m := (?ns ! ?m)\<lparr>i_key := k\<rparr>]"
    note ir = mainpos.insert_replace [OF ni N lk new]
    have "ins_post k t ?m (t\<lparr>t_node := ?ms, lastfree := lastfree t\<rparr>)"
    proof (rule ins_postI [OF inv k])
      show "int j < lastfree t" if "j < length ?ms" "i_key (?ms ! j) = TNil" for j
        using that fo False k0 m by (auto simp: free_ok_def nth_list_update split: if_splits)
      show "free_count ?ns \<le> free_count ?ms + 1" using free_count_update [OF m, of "(?ns ! ?m)\<lparr>i_key := k\<rparr>"] by (auto split: if_splits)
    qed (use False ir fo m in \<open>auto simp: free_ok_def nth_list_update\<close>)
    moreover have "newkey_step grow k t = Inr (SNode ?m, t\<lparr>t_node := ?ms, lastfree := lastfree t\<rparr>)"
      using False m by (simp add: newkey_step_def put_key_def upd_node_def Let_def)
    ultimately show ?thesis by blast
  next
    case True
    show ?thesis
    proof (cases "getfreepos t")
      case (Inl u)
      with getfreepos_ok [OF fo] show ?thesis by simp
    next
      case (Inr r)
      obtain o1 t' where Pair: "getfreepos t = Inr (o1, t')" using Inr by (cases r) auto
      show ?thesis
      proof (cases o1)
        case None
        with getfreepos_ok [OF fo] Pair obtain l where l: "room t = 0" "t' = t\<lparr>lastfree := l\<rparr>" "free_ok t'" by auto
        have "mainposition t' = mainposition t" by (rule mainposition_cong) (simp add: l)
        then have "table_inv t'" using inv l by (simp add: table_inv_def sizenode_def)
        moreover have "newkey_step grow k t = grow k t'" using True Pair None m by (simp add: newkey_step_def Let_def lift_ub_def)
        ultimately show ?thesis using l by blast
      next
        case (Some n)
        have n: "\<not> t_dummy t" "n < length ?ns" "i_key (?ns ! n) = TNil" "t' = t\<lparr>lastfree := int n\<rparr>"
          "\<forall>i < length ?ns. i \<noteq> n \<longrightarrow> i_key (?ns ! i) = TNil \<longrightarrow> i < n"
          using getfreepos_ok [OF fo] Pair Some by auto
        have v: "i_val (?ns ! ?m) \<noteq> TNil" using True n(1) by simp
        then have mk: "live_key (i_key (?ns ! ?m))" using ni m by (auto simp: node_inv_def vals_ok_def)
        have nm: "n \<noteq> ?m" using n(3) mk by (auto simp: live_key_def)
        have mt: "mainposition t' = mainposition t" by (rule mainposition_cong) (simp add: n)
        show ?thesis
        proof (cases "mainposition t (i_key (?ns ! ?m)) = ?m")
          case own: True
          let ?ms = "?ns[n := (?ns ! n)\<lparr>i_next := i_next (?ns ! ?m), i_key := k\<rparr>, ?m := (?ns ! ?m)\<lparr>i_next := Some n\<rparr>]"
          have "newkey_step grow k t = Inr (SNode n, t\<lparr>t_node := ?ms, lastfree := int n\<rparr>)"
            using True Pair Some own n(2,4) nm m mt
            by (simp add: newkey_step_def Let_def put_key_def upd_node_def list_update_swap lift_ub_def)
          then show ?thesis using newkey_chain [OF inv k new n(1,2,3,5) v own] by blast
        next
          case own: False
          have "(mainposition t (i_key (?ns ! ?m)), ?m) \<in> (edge ?ns)\<^sup>*" "chains_ok ?ns"
            using ni keys_reachD(1) [OF _ m mk] by (auto simp: node_inv_def)
          then obtain q where q: "find_prev (length ?ns) ?ns (mainposition t (i_key (?ns ! ?m))) ?m = Inr q"
            "(q, ?m) \<in> edge ?ns" using own mainpos.find_prev_chain by metis
          let ?ms = "?ns[q := (?ns ! q)\<lparr>i_next := Some n\<rparr>, n := ?ns ! ?m,
                  ?m := (?ns ! ?m)\<lparr>i_next := None, i_val := TNil, i_key := k\<rparr>]"
          note mv = newkey_move [OF inv k new n(1,2,3,5) v own q(2)]
          have tn: "t_node t' = ?ns" and tl: "\<And>x. t'\<lparr>t_node := x\<rparr> = t\<lparr>t_node := x, lastfree := int n\<rparr>" by (simp_all add: n(4))
          note u = move_nodes [OF mv(1-3), of t' k, unfolded tn tl, OF m]
          have "newkey_step grow k t = Inr (SNode ?m, t\<lparr>t_node := ?ms, lastfree := int n\<rparr>)"
            unfolding newkey_step_def Let_def Pair Some using True own m
            by (simp add: mt tn q(1) lift_ub_def put_key_def u del: list_update_overwrite)
          then show ?thesis using mv(4) by blast
        qed
      qed
    qed
  qed
qed

section \<open>Assignment when there is room\<close>

definition put :: "inserter \<Rightarrow> TValue \<Rightarrow> TValue \<Rightarrow> Table \<Rightarrow> Table lres" where
  "put nk k v t = bindE (luaH_set nk k t) (\<lambda>(p, t). setobj p v t)"

definition putnum :: "inserter \<Rightarrow> int \<Rightarrow> TValue \<Rightarrow> Table \<Rightarrow> Table lres" where
  "putnum nk i v t = bindE (luaH_setnum nk i t) (\<lambda>(p, t). setobj p v t)"

lemma flags_inv [simp]:
  "table_inv (t\<lparr>t_flags := f\<rparr>) = table_inv t" "tval (t\<lparr>t_flags := f\<rparr>) = tval t" "room (t\<lparr>t_flags := f\<rparr>) = room t"
proof -
  have "mainposition (t\<lparr>t_flags := f\<rparr>) = mainposition t" by (rule mainposition_cong) simp
  then show "table_inv (t\<lparr>t_flags := f\<rparr>) = table_inv t" by (simp add: table_inv_def sizenode_def free_ok_def)
qed (simp_all add: fun_eq_iff tval_def room_def)

lemma room_write: "room (write_slot p v t) = room t"
proof -
  have "map i_key (ns[i := (ns ! i)\<lparr>i_val := v\<rparr>]) = map i_key ns" for ns i
    by (cases "i < length ns") (auto simp: map_update list_update_same_conv list_update_beyond)
  from free_count_map [OF this] show ?thesis
    by (cases p) (simp_all add: write_slot_def upd_node_def room_def)
qed

lemma setobj_write: "slot_in t p \<Longrightarrow> setobj p v t = Inr (write_slot p v t)"
  by (simp add: setobj_def)

lemma put_post_ins:
  assumes "ins_post k t i t'" and k: "key_ok k" "\<not> in_array (length (t_array t)) k"
  shows "put_post k v t (write_slot (SNode i) v t')" "slot_in t' (SNode i)"
proof -
  have h: "holds (t_node t') k i" using assms by (simp add: ins_post_def)
  then show "slot_in t' (SNode i)" by (simp add: slot_in_def holds_def)
  have "put_post k v t' (write_slot (SNode i) v t')"
    using assms by (intro store_node) (auto simp: ins_post_def same_shape_def)
  then show "put_post k v t (write_slot (SNode i) v t')"
    using assms unfolding put_post_def ins_post_def same_shape_def room_write by auto
qed

lemma put_post_flags: "put_post k v (t\<lparr>t_flags := f\<rparr>) t' \<longleftrightarrow> put_post k v t t'"
  by (simp add: put_post_def same_shape_def)

text \<open>The common part of \<open>luaH_set\<close> and \<open>luaH_setnum\<close>: use the slot found, or insert the key.\<close>

lemma store_found:
  assumes inv: "table_inv t" and k: "key_ok k" and f: "find_slot t k = Inr p" and p: "p \<noteq> SNil"
  shows "put_post k v t (write_slot p v t) \<and> slot_in t p"
proof -
  obtain p' where p': "find_slot t k = Inr p'"
    "\<And>i. p' = SArray i \<longleftrightarrow> in_array (length (t_array t)) k \<and> i = nat (arrayindex k) - 1"
    "\<And>i. p' = SNode i \<longleftrightarrow> \<not> in_array (length (t_array t)) k \<and> holds (t_node t) k i"
    by (rule find_slot_ok [OF inv k]) blast
  have e: "p' = p" using f p'(1) by simp
  show ?thesis
  proof (cases p)
    case (SArray i)
    then show ?thesis using p'(2) [of i] e store_array [OF inv k, of i] by (auto simp: slot_in_def in_array_def)
  next
    case (SNode i)
    then show ?thesis using p'(3) [of i] e store_node [OF inv k, of i] by (simp add: slot_in_def holds_def)
  qed (use p in simp)
qed

lemma find_slot_nil:
  assumes "table_inv t" "key_ok k"
  shows "find_slot t k = Inr SNil \<longleftrightarrow> \<not> in_array (length (t_array t)) k \<and> (\<forall>i. \<not> holds (t_node t) k i)"
  by (rule find_slot_ok [OF assms]) auto

lemma newkey_is_step: "\<exists>g. newkey d A = newkey_step g"
  by (cases d) auto

lemma newkey_room:
  assumes "table_inv t" "key_ok k" "find_slot t k = Inr SNil" "0 < room t"
  obtains i t' where "newkey d A k t = Inr (SNode i, t')" "ins_post k t i t'"
proof -
  obtain g where g: "newkey d A = newkey_step g" using newkey_is_step by blast
  have "\<not> in_array (length (t_array t)) k" "\<And>i. \<not> holds (t_node t) k i" using assms find_slot_nil by auto
  from newkey_step_ok [OF assms(1,2) this, of g] assms(4) show thesis using that g by auto
qed

lemma luaH_set_eq:
  assumes "table_inv t" "key_ok k"
  shows "luaH_set nk k t = bindE (lift_ub (find_slot t k))
     (\<lambda>p. if p \<noteq> SNil then Inr (p, t\<lparr>t_flags := 0\<rparr>) else nk k (t\<lparr>t_flags := 0\<rparr>))"
proof -
  have "length (t_array t) \<le> MAXASIZE" using assms by (simp add: table_inv_def)
  from get_find_slot [OF this assms(2)] show ?thesis using assms(2)
    by (auto simp: luaH_set_def Let_def key_ok_def live_key_def intro!: bindE_cong split: TValue.split)
qed

lemma find_slot_flags: "find_slot (t\<lparr>t_flags := f\<rparr>) k = find_slot t k"
proof -
  have "mainposition (t\<lparr>t_flags := f\<rparr>) = mainposition t" by (rule mainposition_cong) simp
  then show ?thesis by (simp add: find_slot_def chain_search_def)
qed

definition has_room :: "Table \<Rightarrow> TValue \<Rightarrow> bool" where
  "has_room t k \<longleftrightarrow> in_array (length (t_array t)) k \<or> (\<exists>i. holds (t_node t) k i) \<or> 0 < room t"

lemma put_ok:
  assumes inv: "table_inv t" and k: "key_ok k" and r: "has_room t k"
  obtains t' where "put (newkey d A) k v t = Inr t'" "put_post k v t t'"
proof -
  let ?t = "t\<lparr>t_flags := 0\<rparr>"
  obtain p where p: "find_slot t k = Inr p" by (rule find_slot_ok [OF inv k])
  have inv': "table_inv ?t" and p': "find_slot ?t k = Inr p" using inv p by (simp_all add: find_slot_flags)
  show thesis
  proof (cases "p = SNil")
    case False
    note sf = store_found [OF inv' k p' False]
    have "put (newkey d A) k v t = Inr (write_slot p v ?t)"
      using p False sf by (simp add: put_def luaH_set_eq [OF inv k] lift_ub_def setobj_def)
    with sf that show thesis by (simp add: put_post_flags)
  next
    case True
    have a: "\<not> in_array (length (t_array t)) k" "0 < room ?t" using r p True find_slot_nil [OF inv k] by (auto simp: has_room_def)
    obtain i t' where i: "newkey d A k ?t = Inr (SNode i, t')" "ins_post k ?t i t'"
      by (rule newkey_room [OF inv' k _ a(2)]) (use p' True in auto)
    have a': "\<not> in_array (length (t_array ?t)) k" using a by simp
    note pp = put_post_ins [OF i(2) k a']
    have "put (newkey d A) k v t = Inr (write_slot (SNode i) v t')"
      using p True i pp(2) by (simp add: put_def luaH_set_eq [OF inv k] lift_ub_def setobj_def)
    with pp(1) that show thesis by (simp add: put_post_flags)
  qed
qed

lemma putnum_ok:
  assumes inv: "table_inv t" and i: "in_int i" "i \<noteq> INT_MIN" and r: "has_room t (TNumber (cast_num i))"
  obtains t' where "putnum (newkey d A) i v t = Inr t'" "put_post (TNumber (cast_num i)) v t t'"
proof -
  let ?k = "TNumber (cast_num i)"
  have k: "key_ok ?k" using i by (rule key_ok_number)
  obtain p where p: "find_slot t ?k = Inr p" by (rule find_slot_ok [OF inv k])
  have g: "luaH_getnum t i = Inr p" using getnum_find_slot i inv p by (simp add: table_inv_def)
  show thesis
  proof (cases "p = SNil")
    case False
    note sf = store_found [OF inv k p False]
    have "putnum (newkey d A) i v t = Inr (write_slot p v t)"
      using g False sf by (simp add: putnum_def luaH_setnum_def lift_ub_def setobj_def)
    with sf that show thesis by blast
  next
    case True
    have a: "\<not> in_array (length (t_array t)) ?k" "0 < room t" using r p True find_slot_nil [OF inv k] by (auto simp: has_room_def)
    obtain j t' where j: "newkey d A ?k t = Inr (SNode j, t')" "ins_post ?k t j t'"
      by (rule newkey_room [OF inv k _ a(2)]) (use p True in auto)
    note pp = put_post_ins [OF j(2) k a(1)]
    have "putnum (newkey d A) i v t = Inr (write_slot (SNode j) v t')"
      using g True j pp(2) by (simp add: putnum_def luaH_setnum_def lift_ub_def setobj_def)
    with pp(1) that show thesis by blast
  qed
qed

end
