(* ===== verification/LuaTableRehash.thy ===== *)
theory LuaTableRehash
  imports LuaTableMap
begin

text \<open>
  Rehashing: inserting the entries of a table into a new node vector gives the same map, the counts that
  choose the new sizes are right, the new vector has room for every entry and the key that is being
  inserted, and so an assignment to a table never needs a second rehash.
\<close>

section \<open>Sequences of assignments\<close>

definition upds :: "(TValue \<Rightarrow> TValue) \<Rightarrow> (TValue \<times> TValue) list \<Rightarrow> TValue \<Rightarrow> TValue" where
  "upds f kvs k = fold (\<lambda>(k', v') v. if luaO_rawequalObj k k' then v' else v) kvs (f k)"

lemma upds_cong: "f k = g k \<Longrightarrow> upds f kvs k = upds g kvs k"
  by (simp add: upds_def)

lemma upds_simps [simp]:
  "upds f [] k = f k"
  "upds f ((k', v') # kvs) k = upds (\<lambda>x. if luaO_rawequalObj x k' then v' else f x) kvs k"
  by (simp_all add: upds_def)

lemma upds_append: "upds f (xs @ ys) k = upds (upds f xs) ys k"
  by (simp add: upds_def)

lemma upds_val:
  assumes "\<And>k' v'. (k', v') \<in> set kvs \<Longrightarrow> luaO_rawequalObj k k' \<Longrightarrow> v' = v"
  shows "upds f kvs k = (if \<exists>(k', v') \<in> set kvs. luaO_rawequalObj k k' then v else f k)"
  using assms
proof (induction kvs arbitrary: f)
  case (Cons kv kvs)
  have "upds g kvs k = (if \<exists>(k', v') \<in> set kvs. luaO_rawequalObj k k' then v else g k)" for g
    by (rule Cons.IH) (rule Cons.prems, simp_all)
  then show ?case using Cons.prems [of "fst kv" "snd kv"] by (cases kv) (auto split: if_splits)
qed simp

text \<open>The entries of an array slice and of a node vector, and how many of them go to the hash part.\<close>

definition aents :: "nat \<Rightarrow> TValue list \<Rightarrow> (TValue \<times> TValue) list" where
  "aents i vs = map (\<lambda>(j, v). (TNumber (cast_num (int j + 1)), v)) (filter (\<lambda>(j, v). v \<noteq> TNil) (enumerate i vs))"

definition nents :: "Node list \<Rightarrow> (TValue \<times> TValue) list" where
  "nents ns = map (\<lambda>n. (i_key n, i_val n)) (filter (\<lambda>n. i_val n \<noteq> TNil) ns)"

definition hashed :: "nat \<Rightarrow> (TValue \<times> TValue) list \<Rightarrow> nat" where
  "hashed a kvs = length (filter (\<lambda>(k, v). \<not> in_array a k) kvs)"

lemma aents_simps [simp]:
  "aents i [] = []"
  "aents i (v # vs) = (if v \<noteq> TNil then [(TNumber (cast_num (int i + 1)), v)] else []) @ aents (i + 1) vs"
  by (simp_all add: aents_def)

lemma nents_simps [simp]:
  "nents [] = []" "nents (n # ns) = (if i_val n \<noteq> TNil then [(i_key n, i_val n)] else []) @ nents ns"
  by (simp_all add: nents_def)

lemma hashed_simps [simp]:
  "hashed a [] = 0" "hashed a (kv # kvs) = (if in_array a (fst kv) then 0 else 1) + hashed a kvs"
  "hashed a (xs @ ys) = hashed a xs + hashed a ys"
  by (auto simp: hashed_def split: prod.splits)

lemma in_aents:
  "(k, v) \<in> set (aents i vs) \<longleftrightarrow>
     (\<exists>j. i \<le> j \<and> j < i + length vs \<and> k = TNumber (cast_num (int j + 1)) \<and> v = vs ! (j - i) \<and> v \<noteq> TNil)"
  unfolding aents_def by (auto simp: in_set_enumerate_eq image_iff)

lemma in_nents: "(k, v) \<in> set (nents ns) \<longleftrightarrow> (\<exists>n \<in> set ns. k = i_key n \<and> v = i_val n \<and> v \<noteq> TNil)"
  by (auto simp: nents_def)

text \<open>What a sequence of assignments leaves behind.\<close>

definition puts_post :: "(TValue \<times> TValue) list \<Rightarrow> Table \<Rightarrow> Table \<Rightarrow> bool" where
  "puts_post kvs t t' \<longleftrightarrow>
     table_inv t' \<and> same_shape t t' \<and> (\<forall>k. key_ok k \<longrightarrow> tval t' k = upds (tval t) kvs k)
     \<and> room t \<le> room t' + hashed (length (t_array t)) kvs"

lemma puts_post_Nil: "table_inv t \<Longrightarrow> puts_post [] t t"
  by (simp add: puts_post_def same_shape_def)

lemma puts_post_append:
  assumes a: "puts_post xs t t'" and b: "puts_post ys t' t''"
  shows "puts_post (xs @ ys) t t''"
proof -
  have s: "same_shape t t'" "same_shape t' t''" using a b by (simp_all add: puts_post_def)
  have "tval t'' k = upds (tval t) (xs @ ys) k" if "key_ok k" for k
  proof -
    have "tval t'' k = upds (tval t') ys k" using b that by (simp add: puts_post_def)
    also have "\<dots> = upds (upds (tval t) xs) ys k" using a that by (intro upds_cong) (simp add: puts_post_def)
    finally show ?thesis by (simp add: upds_append)
  qed
  then show ?thesis using a b s by (simp add: puts_post_def same_shape_def)
qed

lemma puts_post_one: "put_post k v t t' \<Longrightarrow> puts_post [(k, v)] t t'"
  by (simp add: puts_post_def put_post_def)

lemma puts_room:
  assumes "puts_post xs t t'" and "hashed (length (t_array t)) (xs @ ys) \<le> room t"
  shows "hashed (length (t_array t')) ys \<le> room t'"
  using assms by (simp add: puts_post_def same_shape_def)

lemma reinsert_hash_ok:
  "table_inv t \<Longrightarrow> \<forall>n \<in> set ns. i_val n \<noteq> TNil \<longrightarrow> key_ok (i_key n) \<Longrightarrow> hashed (length (t_array t)) (nents ns) \<le> room t \<Longrightarrow>
   \<exists>t'. reinsert_hash (newkey d A) ns t = Inr t' \<and> puts_post (nents ns) t t'"
proof (induction ns arbitrary: t)
  case Nil
  then show ?case by (simp add: puts_post_Nil)
next
  case (Cons n ns)
  show ?case
  proof (cases "i_val n = TNil")
    case True
    then show ?thesis using Cons by simp
  next
    case False
    have k: "key_ok (i_key n)" using Cons.prems(2) False by simp
    have "has_room t (i_key n)" using Cons.prems(3) False by (auto simp: has_room_def split: if_splits)
    from put_ok [OF Cons.prems(1) k this]
    obtain t1 where t1: "put (newkey d A) (i_key n) (i_val n) t = Inr t1" "put_post (i_key n) (i_val n) t t1" by metis
    note p1 = puts_post_one [OF t1(2)]
    have "table_inv t1" using t1(2) by (simp add: put_post_def)
    moreover have "hashed (length (t_array t1)) (nents ns) \<le> room t1"
      using puts_room [OF p1] Cons.prems(3) False by simp
    ultimately obtain t2 where t2: "reinsert_hash (newkey d A) ns t1 = Inr t2" "puts_post (nents ns) t1 t2"
      using Cons.IH [of t1] Cons.prems(2) by auto
    then show ?thesis using t1(1) puts_post_append [OF p1 t2(2)] False by (simp add: put_def)
  qed
qed

lemma reinsert_array_ok:
  "table_inv t \<Longrightarrow> int (i + length vs) < INT_MAX \<Longrightarrow> hashed (length (t_array t)) (aents i vs) \<le> room t \<Longrightarrow>
   \<exists>t'. reinsert_array (newkey d A) i vs t = Inr t' \<and> puts_post (aents i vs) t t'"
proof (induction vs arbitrary: t i)
  case Nil
  then show ?case by (simp add: puts_post_Nil)
next
  case (Cons v vs)
  show ?case
  proof (cases "v = TNil")
    case True
    then show ?thesis using Cons by simp
  next
    case False
    let ?k = "TNumber (cast_num (int i + 1))"
    have k: "in_int (int i + 1)" "int i + 1 \<noteq> INT_MIN"
      using Cons.prems(2) by (auto simp: in_int_numeral_bounds INT_MAX_def INT_MIN_def)
    have "has_room t ?k" using Cons.prems(3) False by (auto simp: has_room_def split: if_splits)
    from putnum_ok [OF Cons.prems(1) k this]
    obtain t1 where t1: "putnum (newkey d A) (int i + 1) v t = Inr t1" "put_post ?k v t t1" by metis
    note p1 = puts_post_one [OF t1(2)]
    have "table_inv t1" using t1(2) by (simp add: put_post_def)
    moreover have "hashed (length (t_array t1)) (aents (i + 1) vs) \<le> room t1"
      using puts_room [OF p1] Cons.prems(3) False by simp
    ultimately obtain t2 where t2: "reinsert_array (newkey d A) (i + 1) vs t1 = Inr t2" "puts_post (aents (i + 1) vs) t1 t2"
      using Cons.IH [of t1 "i + 1"] Cons.prems(2) by auto
    then show ?thesis using t1(1) puts_post_append [OF p1 t2(2)] False by (simp add: putnum_def)
  qed
qed

section \<open>New vectors\<close>

lemma ceillog2_bound:
  assumes "0 < n" "n < 2 ^ 31"
  shows "n \<le> 2 ^ nat (ceillog2 (word_of_nat n))"
proof (cases "n = 1")
  case False
  obtain m where m: "n = Suc m" using assms(1) gr0_implies_Suc by blast
  have "unat (word_of_nat m :: 32 word) = m" using assms m by (simp add: unsigned_of_nat take_bit_nat_eq_self)
  then have u: "unat (word_of_nat n - 1 :: 32 word) = n - 1" by (simp add: m)
  have "0 < (word_of_nat n - 1 :: 32 word)" using u False assms by (simp add: word_less_nat_alt)
  from log2_correct_lemma [OF this] obtain l where l: "luaO_log2 (word_of_nat n - 1) = int l" "n - 1 < 2 ^ Suc l" unfolding u by blast
  then have "nat (ceillog2 (word_of_nat n)) = Suc l" by (simp add: ceillog2_def)
  with l(2) show ?thesis by simp
qed simp

lemma node_inv_free:
  assumes "\<And>x. x \<in> set ns \<Longrightarrow> x = free_node"
  shows "node_inv M ns"
proof -
  have f: "i_key (ns ! i) = TNil \<and> i_next (ns ! i) = None" if "i < length ns" for i
    using assms [of "ns ! i"] that by (simp add: free_node_def)
  then have "edge ns = {}" by (auto simp: edge_def)
  moreover have "vals_ok ns" unfolding vals_ok_def using assms by (metis free_node_def Node.select_convs(1))
  ultimately show ?thesis using f
    by (simp add: node_inv_def chains_ok_def keys_reach_def keys_distinct_def live_key_def)
qed

lemma setnodevector_ok:
  assumes a: "length (t_array t) \<le> MAXASIZE" and n: "n < 2 ^ 31" and r: "setnodevector A n t = Inr t'"
  shows "table_inv t'" "t_array t' = t_array t" "n \<le> room t'"
    and "\<not> in_array (length (t_array t)) k \<Longrightarrow> live_key k \<Longrightarrow> tval t' k = TNil"
proof -
  have free: "x = free_node" if "x \<in> set (t_node t')" for x
    using that r by (auto simp: setnodevector_def dummynode_def Let_def split: if_splits)
  have nk: "i_key x = TNil" if "x \<in> set (t_node t')" for x using free [OF that] by (simp add: free_node_def)
  have nv: "nval (t_node t') k = TNil" if "live_key k" for k
  proof (rule nval_not_holds)
    fix i show "\<not> holds (t_node t') k i"
      using that nk [of "t_node t' ! i"] rawequal_live [of TNil k] by (auto simp: holds_def live_key_def)
  qed
  have kh: "keys_hashed m (t_node t')" for m using nk by (simp add: keys_hashed_def live_key_def)
  show t: "t_array t' = t_array t" using r by (auto simp: setnodevector_def Let_def split: if_splits)
  have "length (t_node t') = sizenode t'" "lsizenode t' \<le> MAXBITS" "free_ok t'"
    using r by (auto simp: setnodevector_def dummynode_def Let_def sizenode_def twoto_def free_ok_def split: if_splits)
  then show "table_inv t'" using a t kh free by (simp add: table_inv_def node_inv_free)
  show "n \<le> room t'"
  proof (cases "n = 0")
    case False
    have "free_count (replicate m free_node) = m" for m
      by (induction m) (simp_all add: free_count_def free_node_def)
    then have "room t' = 2 ^ nat (ceillog2 (word_of_nat n))"
      using r False by (auto simp: setnodevector_def Let_def room_def twoto_def split: if_splits)
    then show ?thesis using ceillog2_bound n False by simp
  qed simp
  show "\<not> in_array (length (t_array t)) k \<Longrightarrow> live_key k \<Longrightarrow> tval t' k = TNil"
    using nv t by (simp add: tval_def)
qed

section \<open>Resizing\<close>

text \<open>The entries that a resize inserts again.\<close>

definition moved :: "nat \<Rightarrow> Table \<Rightarrow> (TValue \<times> TValue) list" where
  "moved nasize t = aents nasize (drop nasize (t_array t)) @ nents (rev (t_node t))"

lemma table_array_index:
  assumes "table_inv t" "j < length (t_array t)"
  shows "in_int (int j + 1)" "in_array (length (t_array t)) (TNumber (cast_num (int j + 1)))"
    "tval t (TNumber (cast_num (int j + 1))) = t_array t ! j"
proof -
  have "length (t_array t) \<le> 67108864" using assms(1) by (simp add: table_inv_def MAXASIZE_def MAXBITS_def)
  then show i: "in_int (int j + 1)" using assms(2) by (simp add: in_int_numeral_bounds)
  then show a: "in_array (length (t_array t)) (TNumber (cast_num (int j + 1)))" using assms(2) by (simp add: in_array_def)
  show "tval t (TNumber (cast_num (int j + 1))) = t_array t ! j"
    using i a by (simp add: tval_def nat_add_distrib)
qed

lemma table_node_entry:
  assumes "table_inv t" "n \<in> set (t_node t)" "i_val n \<noteq> TNil"
  shows "key_ok (i_key n)" "\<not> in_array (length (t_array t)) (i_key n)" "tval t (i_key n) = i_val n"
proof -
  have l: "live_key (i_key n)" using assms by (auto simp: table_inv_def node_inv_def vals_ok_def)
  then show k: "key_ok (i_key n)" and a: "\<not> in_array (length (t_array t)) (i_key n)"
    using assms by (auto simp: table_inv_def keys_hashed_def)
  obtain i where i: "i < length (t_node t)" "n = t_node t ! i" using assms(2) by (auto simp: in_set_conv_nth)
  have "holds (t_node t) (i_key n) i" using i rawequal_refl [OF k] by (simp add: holds_def)
  then show "tval t (i_key n) = i_val n"
    using nval_holds [OF _ l, of "t_node t" i] assms(1) a i by (simp add: tval_def table_inv_def node_inv_def)
qed

lemma moved_val:
  assumes inv: "table_inv t" and m: "(k', v) \<in> set (moved nasize t)" and r: "luaO_rawequalObj k k'"
  shows "v = tval t k"
proof -
  have "v = tval t k'"
  proof (cases "(k', v) \<in> set (aents nasize (drop nasize (t_array t)))")
    case True
    then obtain j where "nasize \<le> j" "j < length (t_array t)" "k' = TNumber (cast_num (int j + 1))" "v = t_array t ! j"
      by (auto simp: in_aents)
    then show ?thesis using table_array_index [OF inv] by simp
  next
    case False
    then obtain n where "n \<in> set (t_node t)" "k' = i_key n" "v = i_val n" "v \<noteq> TNil"
      using m by (auto simp: moved_def in_nents)
    then show ?thesis using table_node_entry [OF inv] by simp
  qed
  then show ?thesis using tval_cong [OF r] by simp
qed

lemma moved_complete:
  assumes inv: "table_inv t" and k: "key_ok k" and v: "tval t k \<noteq> TNil"
    and a: "\<not> in_array (min nasize (length (t_array t))) k"
  shows "\<exists>(k', v') \<in> set (moved nasize t). luaO_rawequalObj k k'"
proof (cases "in_array (length (t_array t)) k")
  case True
  define j where "j = nat (arrayindex k) - 1"
  have j: "nasize \<le> j" "j < length (t_array t)" "arrayindex k = int j + 1"
    using True a by (auto simp: in_array_def j_def)
  have "tval t k = t_array t ! j" using True by (simp add: tval_def j_def)
  then have "(TNumber (cast_num (int j + 1)), t_array t ! j) \<in> set (moved nasize t)"
    using j v by (auto simp: moved_def in_aents intro!: exI [of _ j])
  moreover have "luaO_rawequalObj k (TNumber (cast_num (int j + 1)))"
    using arrayindex_pos [of k] j(3) by simp
  ultimately show ?thesis by blast
next
  case False
  then have "nval (t_node t) k \<noteq> TNil" using v by (simp add: tval_def)
  then obtain i where i: "holds (t_node t) k i" using nval_not_holds by blast
  have "nval (t_node t) k = i_val (t_node t ! i)"
    using nval_holds [OF _ key_ok_live [OF k] i] inv by (simp add: table_inv_def node_inv_def)
  then have "(i_key (t_node t ! i), i_val (t_node t ! i)) \<in> set (moved nasize t)"
    using i v False by (auto simp: moved_def in_nents holds_def tval_def)
  moreover have "luaO_rawequalObj k (i_key (t_node t ! i))" using i rawequal_sym by (auto simp: holds_def)
  ultimately show ?thesis by blast
qed

definition rehash_error :: "lua_error \<Rightarrow> bool" where
  "rehash_error e \<longleftrightarrow> e = ErrMem \<or> e = ErrRun ''table overflow''"

lemma setnodevector_error: "setnodevector A n t = Inl e \<Longrightarrow> rehash_error e"
  by (auto simp: setnodevector_def rehash_error_def Let_def split: if_splits)

lemma setarrayvector_error: "setarrayvector A n t = Inl e \<Longrightarrow> rehash_error e"
  by (auto simp: setarrayvector_def rehash_error_def split: if_splits)

text \<open>Resizing with enough room keeps every entry.\<close>

definition resize_post :: "nat \<Rightarrow> nat \<Rightarrow> Table \<Rightarrow> Table \<Rightarrow> bool" where
  "resize_post nasize nhsize t t' \<longleftrightarrow>
     table_inv t' \<and> length (t_array t') = nasize \<and> (\<forall>k. key_ok k \<longrightarrow> tval t' k = tval t k)
     \<and> nhsize \<le> room t' + hashed nasize (moved nasize t)"

text \<open>The table between the creation of the new vectors and the first insertion.\<close>

definition emptied :: "nat \<Rightarrow> Table \<Rightarrow> Table \<Rightarrow> bool" where
  "emptied nasize t t0 \<longleftrightarrow>
     table_inv t0 \<and> length (t_array t0) = nasize
     \<and> (\<forall>k. key_ok k \<longrightarrow> tval t0 k = (if in_array (min nasize (length (t_array t))) k then tval t k else TNil))"

lemma resize_emptied:
  assumes inv: "table_inv t" and e: "emptied nasize t t0" and p: "puts_post (moved nasize t) t0 t'" and n: "nhsize \<le> room t0"
  shows "resize_post nasize nhsize t t'"
proof -
  have "tval t' k = tval t k" if k: "key_ok k" for k
  proof -
    have "tval t' k = upds (tval t0) (moved nasize t) k" using p k by (simp add: puts_post_def)
    also have "\<dots> = (if \<exists>(k', v') \<in> set (moved nasize t). luaO_rawequalObj k k' then tval t k else tval t0 k)"
      by (rule upds_val) (rule moved_val [OF inv])
    also have "\<dots> = tval t k"
      using e k moved_complete [OF inv k, of nasize] by (simp add: emptied_def) (metis (no_types, lifting))
    finally show ?thesis .
  qed
  then show ?thesis using p n e by (simp add: resize_post_def puts_post_def same_shape_def emptied_def)
qed

lemma emptied_grow:
  assumes inv: "table_inv t" and "length (t_array t) \<le> nasize" "nasize \<le> MAXASIZE" "nhsize < 2 ^ 31"
    and a: "if nasize > length (t_array t) then setarrayvector A nasize t = Inr t1 else t1 = t"
    and s: "setnodevector A nhsize t1 = Inr t0"
  shows "emptied nasize t t0" "nhsize \<le> room t0"
proof -
  have ar: "t_array t1 = t_array t @ replicate (nasize - length (t_array t)) TNil"
    using a assms(2) by (auto simp: setarrayvector_def split: if_splits)
  then have l: "length (t_array t1) = nasize" using assms(2) by simp
  note sn = setnodevector_ok [OF _ assms(4) s, unfolded l, OF assms(3)]
  show "nhsize \<le> room t0" by (rule sn(3))
  have "tval t0 k = (if in_array (length (t_array t)) k then tval t k else TNil)" if k: "key_ok k" for k
  proof (cases "in_array nasize k")
    case True
    then have "tval t0 k = t_array t1 ! (nat (arrayindex k) - 1)" using sn(2) l by (simp add: tval_def)
    then show ?thesis using True by (auto simp: ar nth_append tval_def in_array_def)
  next
    case False
    then have "tval t0 k = TNil" using sn(4) key_ok_live [OF k] by simp
    moreover have "\<not> in_array (length (t_array t)) k" using False assms(2) by (auto simp: in_array_def)
    ultimately show ?thesis by simp
  qed
  then show "emptied nasize t t0" using sn(1,2) l assms(2) by (simp add: emptied_def min_absorb2)
qed

lemma emptied_shrink:
  assumes inv: "table_inv t" and "nasize < length (t_array t)" "nhsize < 2 ^ 31"
    and s: "setnodevector A nhsize t = Inr t1"
  shows "emptied nasize t (t1\<lparr>t_array := take nasize (t_array t1)\<rparr>)" (is "emptied nasize t ?t0")
    and "nhsize \<le> room (t1\<lparr>t_array := take nasize (t_array t1)\<rparr>)" and "t_array t1 = t_array t"
proof -
  have m: "length (t_array t) \<le> MAXASIZE" using inv by (simp add: table_inv_def)
  have "setnodevector A nhsize (t\<lparr>t_array := take nasize (t_array t)\<rparr>) = Inr (t1\<lparr>t_array := take nasize (t_array t)\<rparr>)"
    using s by (auto simp: setnodevector_def Let_def split: if_splits)
  note sn = setnodevector_ok [OF _ assms(3) this]
  show ta: "t_array t1 = t_array t" using setnodevector_ok(2) [OF m assms(3) s] .
  have l: "length (take nasize (t_array t)) = nasize" "nasize \<le> MAXASIZE" using assms(2) m by simp_all
  show "nhsize \<le> room ?t0" using sn(3) l by (simp add: ta)
  have "tval ?t0 k = (if in_array nasize k then tval t k else TNil)" if k: "key_ok k" for k
  proof (cases "in_array nasize k")
    case True
    then have "in_array (length (t_array t)) k" using assms(2) by (auto simp: in_array_def)
    moreover have "nat (arrayindex k) - 1 < nasize" using True by (auto simp: in_array_def)
    ultimately show ?thesis using True l by (auto simp: tval_def ta)
  next
    case False
    then show ?thesis using sn(4) [of k] key_ok_live [OF k] l by (simp add: ta)
  qed
  then show "emptied nasize t ?t0" using sn(1) l assms(2) by (simp add: emptied_def ta min_absorb1)
qed

lemma resize_ok:
  assumes inv: "table_inv t" and na: "nasize \<le> MAXASIZE" and nh: "nhsize < 2 ^ 31"
    and room: "hashed nasize (moved nasize t) \<le> nhsize"
  shows "(\<exists>t'. resize A (newkey d A) nasize nhsize t = Inr t' \<and> resize_post nasize nhsize t t')
    \<or> (\<exists>e. resize A (newkey d A) nasize nhsize t = Inl e \<and> rehash_error e)"
proof (cases "nasize < length (t_array t)")
  case True
  show ?thesis
  proof (cases "setnodevector A nhsize t")
    case (Inl e)
    then show ?thesis using True setnodevector_error [OF Inl] by (simp add: resize_def Let_def)
  next
    case (Inr t1)
    note em = emptied_shrink [OF inv True nh Inr]
    let ?t0 = "t1\<lparr>t_array := take nasize (t_array t1)\<rparr>"
    have t0: "table_inv ?t0" "length (t_array ?t0) = nasize" using em(1) by (auto simp: emptied_def)
    have r: "hashed nasize (moved nasize t) \<le> room ?t0" using room em(2) by linarith
    have len: "int (nasize + length (drop nasize (t_array t))) < INT_MAX"
      using inv True by (auto simp: table_inv_def MAXASIZE_def MAXBITS_def INT_MAX_def)
    from reinsert_array_ok [OF t0(1) len, of d A] r t0(2)
    obtain t2 where t2: "reinsert_array (newkey d A) nasize (drop nasize (t_array t)) ?t0 = Inr t2"
      "puts_post (aents nasize (drop nasize (t_array t))) ?t0 t2" by (auto simp: moved_def)
    have "table_inv t2" using t2(2) by (simp add: puts_post_def)
    moreover have "hashed (length (t_array t2)) (nents (rev (t_node t))) \<le> room t2"
      using puts_room [OF t2(2), of "nents (rev (t_node t))"] r t0(2) by (simp add: moved_def)
    moreover have "\<forall>n \<in> set (rev (t_node t)). i_val n \<noteq> TNil \<longrightarrow> key_ok (i_key n)" using table_node_entry [OF inv] by auto
    ultimately obtain t3 where t3: "reinsert_hash (newkey d A) (rev (t_node t)) t2 = Inr t3"
      "puts_post (nents (rev (t_node t))) t2 t3" using reinsert_hash_ok by blast
    have "puts_post (moved nasize t) ?t0 t3" unfolding moved_def by (rule puts_post_append [OF t2(2) t3(2)])
    from resize_emptied [OF inv em(1) this em(2)] show ?thesis
      using True Inr t2(1) t3(1) em(3) by (simp add: resize_def Let_def)
  qed
next
  case False
  then have mv: "moved nasize t = nents (rev (t_node t))" by (simp add: moved_def)
  let ?a = "if nasize > length (t_array t) then setarrayvector A nasize t else Inr t"
  show ?thesis
  proof (cases ?a)
    case (Inl e)
    then show ?thesis using setarrayvector_error [of A nasize t e] by (auto simp: resize_def Let_def split: if_splits)
  next
    case t1: (Inr t1)
    show ?thesis
    proof (cases "setnodevector A nhsize t1")
      case (Inl e)
      then show ?thesis using t1 setnodevector_error [OF Inl] by (simp add: resize_def Let_def)
    next
      case (Inr t0)
      have a: "if nasize > length (t_array t) then setarrayvector A nasize t = Inr t1 else t1 = t" using t1 by (auto split: if_splits)
      note em = emptied_grow [OF inv _ na nh a Inr]
      have em: "emptied nasize t t0" "nhsize \<le> room t0" using em False by auto
      have "table_inv t0" "hashed (length (t_array t0)) (nents (rev (t_node t))) \<le> room t0"
        using em room by (auto simp: emptied_def mv)
      moreover have "\<forall>n \<in> set (rev (t_node t)). i_val n \<noteq> TNil \<longrightarrow> key_ok (i_key n)" using table_node_entry [OF inv] by auto
      ultimately obtain t3 where t3: "reinsert_hash (newkey d A) (rev (t_node t)) t0 = Inr t3"
        "puts_post (nents (rev (t_node t))) t0 t3" using reinsert_hash_ok by blast
      from resize_emptied [OF inv em(1) _ em(2)] t3 mv have "resize_post nasize nhsize t t3" by simp
      then show ?thesis using t1 Inr t3(1) False by (simp add: resize_def Let_def)
    qed
  qed
qed

end
