(* ===== verification/LuaTableIter.thy ===== *)
theory LuaTableIter
  imports LuaTableMain
begin

text \<open>
  Traversal with \<open>luaH_next\<close> and the length operator \<open>luaH_getn\<close>.
\<close>

section \<open>Traversal\<close>

text \<open>
  What a collection does to the nodes without value (\<open>removeentry\<close> in \<open>traversetable\<close>, \<open>lgc.c\<close>): a
  collectable key becomes a dead key, which keeps the address and may belong to no object any more.
\<close>

definition kill_key :: "(byte list \<Rightarrow> nat) \<Rightarrow> Node \<Rightarrow> Node" where
  "kill_key sa n =
     (if i_val n = TNil \<and> iscollectable (i_key n) then n\<lparr>i_key := TDeadKey (gcvalue sa (i_key n))\<rparr> else n)"

definition kill_keys :: "(byte list \<Rightarrow> nat) \<Rightarrow> Table \<Rightarrow> Table" where
  "kill_keys sa t = t\<lparr>t_node := map (kill_key sa) (t_node t)\<rparr>"

text \<open>
  \<open>for k, v in next, t\<close>: the pairs that repeated calls of \<open>luaH_next\<close> return, from \<open>key\<close> on, and the table
  afterwards. The body of the loop may clear the field it is at (when \<open>del k\<close>), and the collector may run
  after that (when \<open>gc k\<close>).
\<close>

fun traverse ::
    "nat \<Rightarrow> allocator \<Rightarrow> (byte list \<Rightarrow> nat) \<Rightarrow> (TValue \<Rightarrow> bool) \<Rightarrow> (TValue \<Rightarrow> bool) \<Rightarrow> Table \<Rightarrow> TValue \<Rightarrow>
     ((TValue \<times> TValue) list \<times> Table) lres" where
  "traverse 0 A sa del gc t key = Inl (ErrUB Diverges)"
| "traverse (Suc f) A sa del gc t key =
     bindE (luaH_next sa t key) (\<lambda>r. case r of
         None \<Rightarrow> Inr ([], t)
       | Some (k, v) \<Rightarrow>
           bindE (if del k then assign A k TNil t else Inr t) (\<lambda>t.
           bindE (traverse f A sa del gc (if gc k then kill_keys sa t else t) k) (\<lambda>(kvs, t). Inr ((k, v) # kvs, t))))"

definition entries :: "Table \<Rightarrow> (TValue \<times> TValue) list" where
  "entries t = aents 0 (t_array t) @ nents (t_node t)"

text \<open>The entries from an index of the traversal on.\<close>

definition entries_from :: "Table \<Rightarrow> nat \<Rightarrow> (TValue \<times> TValue) list" where
  "entries_from t i = aents i (drop i (t_array t)) @ nents (drop (i - length (t_array t)) (t_node t))"

lemma next_array_ok:
  "(next_array t i = None \<and> aents i (drop i (t_array t)) = [])
   \<or> (\<exists>j. i \<le> j \<and> j < length (t_array t) \<and> t_array t ! j \<noteq> TNil
        \<and> next_array t i = Some (TNumber (cast_num (int j + 1)), t_array t ! j)
        \<and> aents i (drop i (t_array t)) = (TNumber (cast_num (int j + 1)), t_array t ! j) # aents (j + 1) (drop (j + 1) (t_array t)))"
proof (induction t i rule: next_array.induct)
  case (1 t i)
  show ?case
  proof (cases "i < length (t_array t)")
    case True
    then have d: "drop i (t_array t) = t_array t ! i # drop (i + 1) (t_array t)" by (simp add: Cons_nth_drop_Suc)
    show ?thesis
    proof (cases "t_array t ! i = TNil")
      case nil: True
      then have "next_array t i = next_array t (i + 1)" "aents i (drop i (t_array t)) = aents (i + 1) (drop (i + 1) (t_array t))"
        using True d by (simp_all add: next_array.simps [of t i])
      then show ?thesis using 1 [OF True] nil by (metis Suc_leD Suc_eq_plus1)
    next
      case False
      then show ?thesis using True d by (intro disjI2 exI [of _ i]) (simp add: next_array.simps [of t i])
    qed
  qed (simp add: next_array.simps)
qed

lemma next_node_ok:
  "(next_node t i = None \<and> nents (drop i (t_node t)) = [])
   \<or> (\<exists>j. i \<le> j \<and> j < length (t_node t) \<and> i_val (t_node t ! j) \<noteq> TNil
        \<and> next_node t i = Some (i_key (t_node t ! j), i_val (t_node t ! j))
        \<and> nents (drop i (t_node t)) = (i_key (t_node t ! j), i_val (t_node t ! j)) # nents (drop (j + 1) (t_node t)))"
proof (induction t i rule: next_node.induct)
  case (1 t i)
  show ?case
  proof (cases "i < length (t_node t)")
    case True
    then have d: "drop i (t_node t) = t_node t ! i # drop (i + 1) (t_node t)" by (simp add: Cons_nth_drop_Suc)
    show ?thesis
    proof (cases "i_val (t_node t ! i) = TNil")
      case nil: True
      then have "next_node t i = next_node t (i + 1)" "nents (drop i (t_node t)) = nents (drop (i + 1) (t_node t))"
        using True d by (simp_all add: next_node.simps [of t i])
      then show ?thesis using 1 [OF True] nil by (metis Suc_leD Suc_eq_plus1)
    next
      case False
      then show ?thesis using True d by (intro disjI2 exI [of _ i]) (simp add: next_node.simps [of t i])
    qed
  qed (simp add: next_node.simps)
qed

subsection \<open>Dead keys\<close>

lemma ttype_dead: "ttype k = 11 \<longleftrightarrow> (\<exists>p. k = TDeadKey p)"
  by (cases k) auto

lemma iscollectable_dead [simp]: "iscollectable (TDeadKey p)"
  by (simp add: iscollectable_def)

text \<open>
  Addresses: the collectable keys of a table have different addresses, and a dead key whose address has
  been given to a new object, which then became a key, is not between that key and its main position
  (\<open>newkey\<close> puts a new key in front of the dead ones of its chain).
\<close>

definition addrs_ok :: "(byte list \<Rightarrow> nat) \<Rightarrow> Table \<Rightarrow> bool" where
  "addrs_ok sa t \<longleftrightarrow>
     (\<forall>i < length (t_node t). \<forall>j < length (t_node t).
        live_key (i_key (t_node t ! j)) \<longrightarrow> iscollectable (i_key (t_node t ! i)) \<longrightarrow> iscollectable (i_key (t_node t ! j)) \<longrightarrow>
        gcvalue sa (i_key (t_node t ! i)) = gcvalue sa (i_key (t_node t ! j)) \<longrightarrow>
        i = j \<or> \<not> live_key (i_key (t_node t ! i))
           \<and> \<not> ((mainposition t (i_key (t_node t ! j)), i) \<in> (edge (t_node t))\<^sup>* \<and> (i, j) \<in> (edge (t_node t))\<^sup>*))"

text \<open>What \<open>findindex\<close> looks for in the nodes.\<close>

definition same_key :: "(byte list \<Rightarrow> nat) \<Rightarrow> TValue \<Rightarrow> Node \<Rightarrow> bool" where
  "same_key sa key n \<longleftrightarrow> luaO_rawequalObj (i_key n) key
     \<or> ttype (i_key n) = 11 \<and> iscollectable key \<and> gcvalue sa (i_key n) = gcvalue sa key"

definition found :: "(byte list \<Rightarrow> nat) \<Rightarrow> Table \<Rightarrow> TValue \<Rightarrow> nat \<Rightarrow> bool" where
  "found sa t k j \<longleftrightarrow> search (length (t_node t)) (same_key sa k) (t_node t) (Some (mainposition t k)) = Inr (Some j)"

lemma findindex_found:
  assumes "found sa t k j" "k \<noteq> TNil" "\<not> in_array (length (t_array t)) k"
  shows "findindex sa t k = Inr (int j + int (length (t_array t)))"
proof -
  have "(\<lambda>n. luaO_rawequalObj (i_key n) k \<or> ttype (i_key n) = 11 \<and> iscollectable k \<and> gcvalue sa (i_key n) = gcvalue sa k)
      = same_key sa k" by (simp add: fun_eq_iff same_key_def)
  then show ?thesis using assms by (auto simp: findindex_def found_def chain_search_def in_array_def Let_def)
qed

lemma findindex_array:
  assumes "table_inv t" "j < length (t_array t)"
  shows "findindex sa t (TNumber (cast_num (int j + 1))) = Inr (int j)"
  using table_array_index(1) [OF assms] assms(2) by (simp add: findindex_def Let_def)

lemma found_live:
  assumes inv: "table_inv t" and ad: "addrs_ok sa t" and j: "j < length (t_node t)" "live_key (i_key (t_node t ! j))"
  shows "found sa t (i_key (t_node t ! j)) j"
proof -
  let ?k = "i_key (t_node t ! j)" and ?E = "(edge (t_node t))\<^sup>*"
  have c: "chains_ok (t_node t)" and d: "keys_distinct (t_node t)" and kr: "keys_reach (mainposition t) (t_node t)"
    and kh: "keys_hashed (length (t_array t)) (t_node t)"
    using inv by (auto simp: table_inv_def node_inv_def)
  have k: "key_ok ?k" using kh j by (simp add: keys_hashed_def)
  have m: "mainposition t ?k < length (t_node t)" using inv mainposition_less by (simp add: table_inv_def)
  have reach: "(mainposition t ?k, j) \<in> ?E" using kr j by (simp add: keys_reach_def Let_def)
  have sj: "same_key sa ?k (t_node t ! j)" using rawequal_refl [OF k] by (simp add: same_key_def)
  obtain q where q: "search (length (t_node t)) (same_key sa ?k) (t_node t) (Some (mainposition t ?k)) = Inr q"
    and q1: "\<And>i. q = Some i \<Longrightarrow> same_key sa ?k (t_node t ! i) \<and> (mainposition t ?k, i) \<in> ?E"
    and q0: "q = None \<Longrightarrow> \<not> same_key sa ?k (t_node t ! j)" using search_chain [OF c m] reach by metis
  then obtain i where i: "q = Some i" using sj by (cases q) auto
  have il: "i < length (t_node t)" using reach_less [OF c _ m] q1 [OF i] by blast
  have "i = j"
  proof (rule ccontr)
    assume ne: "i \<noteq> j"
    have "\<not> luaO_rawequalObj (i_key (t_node t ! i)) ?k"
      using d j il ne rawequal_sym unfolding keys_distinct_def by metis
    then have dead: "\<exists>p. i_key (t_node t ! i) = TDeadKey p" "iscollectable ?k"
      "gcvalue sa (i_key (t_node t ! i)) = gcvalue sa ?k"
      using q1 [OF i] by (auto simp: same_key_def ttype_dead)
    moreover have to: "(mainposition t ?k, i) \<in> ?E" using q1 [OF i] by blast
    ultimately have "iscollectable (i_key (t_node t ! i))" by auto
    then have "(i, j) \<notin> ?E" using ad ne j il to dead(2,3) unfolding addrs_ok_def by blast
    then have "(j, i) \<in> ?E" using reach_linear [OF reach to] by blast
    then have "(j, i) \<in> (edge (t_node t))\<^sup>+" using ne by (metis rtranclD)
    from search_first [OF c q [unfolded i] reach this] sj show False by simp
  qed
  then show ?thesis using q i by (simp add: found_def)
qed

text \<open>A collection leaves the table valid, its entries as they are and every key where it is found.\<close>

lemma kill_key_simps [simp]:
  "i_val (kill_key sa n) = i_val n" "i_next (kill_key sa n) = i_next n"
  "i_key (kill_key sa n) = TNil \<longleftrightarrow> i_key n = TNil" "live_key (i_key (kill_key sa n)) \<Longrightarrow> kill_key sa n = n"
  by (auto simp: kill_key_def iscollectable_def live_key_def split: if_splits)

lemma kill_keys_simps [simp]:
  "t_array (kill_keys sa t) = t_array t" "length (t_node (kill_keys sa t)) = length (t_node t)"
  "edge (t_node (kill_keys sa t)) = edge (t_node t)" "mainposition (kill_keys sa t) = mainposition t"
proof -
  show "mainposition (kill_keys sa t) = mainposition t" by (rule mainposition_cong) (simp add: kill_keys_def)
qed (auto simp: kill_keys_def edge_def)

lemma kill_keys_nth [simp]: "i < length (t_node t) \<Longrightarrow> t_node (kill_keys sa t) ! i = kill_key sa (t_node t ! i)"
  by (simp add: kill_keys_def)

lemma kill_keys_inv:
  assumes inv: "table_inv t"
  shows "table_inv (kill_keys sa t)"
proof -
  let ?ns = "t_node t" and ?ms = "t_node (kill_keys sa t)"
  have n: "chains_ok ?ns" "keys_reach (mainposition t) ?ns" "keys_distinct ?ns" "vals_ok ?ns" "keys_hashed (length (t_array t)) ?ns"
    using inv by (auto simp: table_inv_def node_inv_def)
  have "chains_ok ?ms" using n(1) unfolding chains_ok_def by simp
  moreover have "keys_reach (mainposition t) ?ms" unfolding keys_reach_def Let_def
  proof (intro allI impI)
    fix i assume i: "i < length ?ms" "live_key (i_key (?ms ! i))"
    then have e: "?ms ! i = ?ns ! i" by simp
    let ?p = "mainposition t (i_key (?ns ! i))"
    have p: "(?p, i) \<in> (edge ?ns)\<^sup>*" "i_key (?ns ! ?p) \<noteq> TNil" "live_key (i_key (?ns ! ?p)) \<Longrightarrow> mainposition t (i_key (?ns ! ?p)) = ?p"
      using n(2) i e by (auto simp: keys_reach_def Let_def)
    have "?p < length ?ns" using inv mainposition_less by (simp add: table_inv_def)
    then show "(mainposition t (i_key (?ms ! i)), i) \<in> (edge ?ms)\<^sup>* \<and> i_key (?ms ! mainposition t (i_key (?ms ! i))) \<noteq> TNil
        \<and> (live_key (i_key (?ms ! mainposition t (i_key (?ms ! i)))) \<longrightarrow>
             mainposition t (i_key (?ms ! mainposition t (i_key (?ms ! i)))) = mainposition t (i_key (?ms ! i)))"
      unfolding e using p by simp (metis kill_key_simps(4))
  qed
  moreover have "keys_distinct ?ms" unfolding keys_distinct_def
  proof (intro allI impI)
    fix i j assume ij: "i < length ?ms" "j < length ?ms" "live_key (i_key (?ms ! i))"
      "luaO_rawequalObj (i_key (?ms ! i)) (i_key (?ms ! j))"
    then have "live_key (i_key (?ms ! j))" using rawequal_live by blast
    then have "?ms ! i = ?ns ! i" "?ms ! j = ?ns ! j" using ij by simp_all
    then show "i = j" using n(3) ij unfolding keys_distinct_def by simp
  qed
  moreover have "vals_ok ?ms" using n(4) by (auto simp: vals_ok_def kill_keys_def kill_key_def)
  moreover have "keys_hashed (length (t_array t)) ?ms" using n(5)
    by (auto simp: keys_hashed_def kill_keys_def) (metis kill_key_simps(4))+
  moreover have "free_ok (kill_keys sa t)"
  proof (cases "t_dummy t")
    case True
    then have "?ns = dummynode" "lastfree t \<le> 0" using inv by (auto simp: table_inv_def free_ok_def)
    then show ?thesis using True by (simp add: free_ok_def kill_keys_def dummynode_def kill_key_def free_node_def iscollectable_def)
  next
    case False
    then show ?thesis using inv by (auto simp: table_inv_def free_ok_def kill_keys_def)
  qed
  ultimately show ?thesis using inv by (simp add: table_inv_def node_inv_def sizenode_def) (simp add: kill_keys_def)
qed

lemma kill_keys_addrs:
  assumes ad: "addrs_ok sa t"
  shows "addrs_ok sa (kill_keys sa t)"
  unfolding addrs_ok_def
proof (intro allI impI)
  let ?ns = "t_node t" and ?ms = "t_node (kill_keys sa t)"
  fix i j assume a: "i < length ?ms" "j < length ?ms" "live_key (i_key (?ms ! j))" "iscollectable (i_key (?ms ! i))"
    "iscollectable (i_key (?ms ! j))" "gcvalue sa (i_key (?ms ! i)) = gcvalue sa (i_key (?ms ! j))"
  have j: "?ms ! j = ?ns ! j" using a by simp
  have g: "gcvalue sa (i_key (kill_key sa n)) = gcvalue sa (i_key n)" "iscollectable (i_key (kill_key sa n)) = iscollectable (i_key n)" for n
    by (auto simp: kill_key_def gcvalue_def)
  let ?P = "\<lambda>k. (mainposition t k, i) \<in> (edge ?ns)\<^sup>* \<and> (i, j) \<in> (edge ?ns)\<^sup>*"
  have "i = j \<or> \<not> live_key (i_key (?ns ! i)) \<and> \<not> ?P (i_key (?ns ! j))"
    using ad a j g by (simp add: addrs_ok_def)
  moreover have "live_key (i_key (?ns ! i))" if l: "live_key (i_key (?ms ! i))"
  proof -
    have "?ms ! i = kill_key sa (?ns ! i)" using a(1) by simp
    with l kill_key_simps(4) [of sa "?ns ! i"] show ?thesis by metis
  qed
  ultimately show "i = j \<or> \<not> live_key (i_key (?ms ! i))
      \<and> \<not> ((mainposition (kill_keys sa t) (i_key (?ms ! j)), i) \<in> (edge ?ms)\<^sup>* \<and> (i, j) \<in> (edge ?ms)\<^sup>*)"
    unfolding j kill_keys_simps by satx
qed

lemma search_map:
  "(\<And>n. i_next (g n) = i_next n) \<Longrightarrow> search f P (map g ns) o1 = search f (\<lambda>n. P (g n)) ns o1"
  by (induction f P "map g ns" o1 rule: search.induct) auto

lemma search_cong: "(\<And>n. n \<in> set ns \<Longrightarrow> P n = Q n) \<Longrightarrow> search f P ns o1 = search f Q ns o1"
proof (induction f P ns o1 rule: search.induct)
  case (3 f P ns i)
  then show ?case by (cases "i < length ns") auto
qed auto

lemma found_kill:
  assumes inv: "table_inv t" and ad: "addrs_ok sa t" and j: "j < length (t_node t)" "live_key (i_key (t_node t ! j))"
  shows "found sa (kill_keys sa t) (i_key (t_node t ! j)) j"
proof -
  let ?k = "i_key (t_node t ! j)"
  have kd: "key_ok ?k" "keys_distinct (t_node t)" using inv j by (auto simp: table_inv_def node_inv_def keys_hashed_def)
  have "same_key sa ?k (kill_key sa n) = same_key sa ?k n" if n: "n \<in> set (t_node t)" for n
  proof (cases "kill_key sa n = n")
    case False
    then have n1: "iscollectable (i_key n)" "i_key (kill_key sa n) = TDeadKey (gcvalue sa (i_key n))"
      by (auto simp: kill_key_def split: if_splits)
    obtain i where i: "i < length (t_node t)" "n = t_node t ! i" using n by (auto simp: in_set_conv_nth)
    have nd: "\<not> luaO_rawequalObj (TDeadKey p) ?k" for p
      using rawequal_live [of "TDeadKey p" ?k] j(2) by (auto simp: live_key_def)
    have after: "same_key sa ?k (kill_key sa n) \<longleftrightarrow> iscollectable ?k \<and> gcvalue sa (i_key n) = gcvalue sa ?k"
      using nd by (simp add: same_key_def n1(2) gcvalue_def)
    show ?thesis
    proof (cases "live_key (i_key n)")
      case False
      then obtain p where "i_key n = TDeadKey p" using n1(1) by (auto simp: live_key_def iscollectable_def)
      then show ?thesis unfolding after using nd by (simp add: same_key_def)
    next
      case True
      then have bef: "same_key sa ?k n \<longleftrightarrow> i = j"
        using kd i j rawequal_refl [OF kd(1)] unfolding same_key_def keys_distinct_def ttype_dead
        by (auto simp: live_key_def)
      have "iscollectable ?k \<and> gcvalue sa (i_key n) = gcvalue sa ?k \<longleftrightarrow> i = j"
        using ad True i j n1(1) by (auto simp: addrs_ok_def)
      then show ?thesis by (simp add: after bef)
    qed
  qed simp
  then have "search f (\<lambda>n. same_key sa ?k (kill_key sa n)) (t_node t) o1 = search f (same_key sa ?k) (t_node t) o1" for f o1
    by (rule search_cong)
  then show ?thesis using found_live [OF assms] by (simp add: found_def kill_keys_def search_map) (simp add: kill_keys_def [symmetric])
qed

lemma kill_keys_tval:
  assumes inv: "table_inv t" and k: "key_ok k"
  shows "tval (kill_keys sa t) k = tval t k"
proof -
  have d: "keys_distinct (t_node t)" "keys_distinct (t_node (kill_keys sa t))" "vals_ok (t_node t)"
    using inv kill_keys_inv [OF inv, of sa] by (auto simp: table_inv_def node_inv_def)
  have same: "kill_key sa n = n" if "i_val n \<noteq> TNil" for n using that by (simp add: kill_key_def)
  have "entries_eq (t_node t) (t_node (kill_keys sa t))" "entries_eq (t_node (kill_keys sa t)) (t_node t)"
    by (auto simp: same intro!: entries_eqI [where f = id])
  from nval_eq [OF d(1,2) key_ok_live [OF k] this] show ?thesis by (simp add: tval_def)
qed

lemma nents_kill [simp]: "nents (map (kill_key sa) ns) = nents ns"
proof -
  have "map (kill_key sa) (filter (\<lambda>n. i_val n \<noteq> TNil) ns) = filter (\<lambda>n. i_val n \<noteq> TNil) ns"
    by (rule map_idI) (simp add: kill_key_def)
  then have "map (\<lambda>n. (i_key n, i_val n)) (map (kill_key sa) (filter (\<lambda>n. i_val n \<noteq> TNil) ns)) = nents ns"
    by (simp only: nents_def)
  then show ?thesis by (simp add: nents_def filter_map comp_def)
qed

lemma kill_keys_entries [simp]: "entries_from (kill_keys sa t) i = entries_from t i"
  by (simp add: entries_from_def kill_keys_def drop_map)

subsection \<open>Clearing a field\<close>

lemma write_slot_frame:
  "i_key (t_node (write_slot p v t) ! i) = i_key (t_node t ! i)" "i_next (t_node (write_slot p v t) ! i) = i_next (t_node t ! i)"
  "length (t_node (write_slot p v t)) = length (t_node t)" "length (t_array (write_slot p v t)) = length (t_array t)"
  "lsizenode (write_slot p v t) = lsizenode t"
proof -
  have u: "i_key (ns[l := (ns ! l)\<lparr>i_val := v\<rparr>] ! i) = i_key (ns ! i)" "i_next (ns[l := (ns ! l)\<lparr>i_val := v\<rparr>] ! i) = i_next (ns ! i)"
    for ns l by (cases "l < length ns"; auto simp: nth_list_update list_update_beyond)+
  show "i_key (t_node (write_slot p v t) ! i) = i_key (t_node t ! i)" "i_next (t_node (write_slot p v t) ! i) = i_next (t_node t ! i)"
    "length (t_node (write_slot p v t)) = length (t_node t)" "length (t_array (write_slot p v t)) = length (t_array t)"
    "lsizenode (write_slot p v t) = lsizenode t"
    by (cases p; simp add: write_slot_def upd_node_def u)+
qed

lemma assign_present:
  assumes inv: "table_inv t" and k: "key_ok k" and f: "find_slot t k = Inr p" and p: "p \<noteq> SNil"
  shows "assign A k v t = Inr (write_slot p v (t\<lparr>t_flags := 0\<rparr>))"
    and "put_post k v t (write_slot p v (t\<lparr>t_flags := 0\<rparr>))"
proof -
  let ?t = "t\<lparr>t_flags := 0\<rparr>"
  have "table_inv ?t" "find_slot ?t k = Inr p" using inv f by (simp_all add: find_slot_flags)
  note sf = store_found [OF this(1) k this(2) p]
  show "assign A k v t = Inr (write_slot p v ?t)"
    using sf f p by (simp add: assign_def put_def luaH_set_eq [OF inv k] lift_ub_def setobj_def)
  show "put_post k v t (write_slot p v ?t)" using sf by (simp add: put_post_flags)
qed

text \<open>The pair that the traversal is at, and where it is.\<close>

definition at_index :: "Table \<Rightarrow> nat \<Rightarrow> TValue \<Rightarrow> bool" where
  "at_index t j k \<longleftrightarrow>
     j < length (t_array t) \<and> k = TNumber (cast_num (int j + 1))
     \<or> length (t_array t) \<le> j \<and> j - length (t_array t) < length (t_node t) \<and> k = i_key (t_node t ! (j - length (t_array t)))
        \<and> key_ok k \<and> \<not> in_array (length (t_array t)) k"

lemma at_index_ok: "table_inv t \<Longrightarrow> at_index t j k \<Longrightarrow> key_ok k"
  using key_ok_number table_array_index(1) [of t j] by (auto simp: at_index_def INT_MIN_def)

lemma at_index_found:
  assumes inv: "table_inv t" and ad: "addrs_ok sa t" and k: "at_index t j k"
  shows "findindex sa t k = Inr (int j)" "findindex sa (kill_keys sa t) k = Inr (int j)"
proof -
  let ?l = "length (t_array t)"
  have "findindex sa t k = Inr (int j) \<and> findindex sa (kill_keys sa t) k = Inr (int j)"
  proof (cases "j < ?l")
    case True
    then have "k = TNumber (cast_num (int j + 1))" using k by (auto simp: at_index_def)
    then show ?thesis using True findindex_array [OF inv] findindex_array [OF kill_keys_inv [OF inv]] by simp
  next
    case False
    then have n: "j - ?l < length (t_node t)" "k = i_key (t_node t ! (j - ?l))" "key_ok k" "\<not> in_array ?l k"
      using k by (auto simp: at_index_def)
    then have l: "live_key (i_key (t_node t ! (j - ?l)))" using key_ok_live by simp
    have "k \<noteq> TNil" using n(3) by (auto simp: key_ok_def live_key_def)
    then show ?thesis
      using findindex_found [OF found_live [OF inv ad n(1) l]] findindex_found [OF found_kill [OF inv ad n(1) l]] n False by simp
  qed
  then show "findindex sa t k = Inr (int j)" "findindex sa (kill_keys sa t) k = Inr (int j)" by simp_all
qed

text \<open>Clearing the field at an index changes nothing that the rest of the traversal looks at.\<close>

lemma clear_field:
  assumes inv: "table_inv t" and ad: "addrs_ok sa t" and k: "at_index t j k"
  obtains t' where "assign A k v t = Inr t'" and "table_inv t'" and "addrs_ok sa t'" and "at_index t' j k"
    and "entries_from t' (j + 1) = entries_from t (j + 1)"
    and "\<And>k'. key_ok k' \<Longrightarrow> tval t' k' = (if luaO_rawequalObj k' k then v else tval t k')"
proof -
  let ?l = "length (t_array t)"
  have ok: "key_ok k" using at_index_ok [OF inv k] .
  obtain p where p: "find_slot t k = Inr p"
    "\<And>i. p = SArray i \<longleftrightarrow> in_array ?l k \<and> i = nat (arrayindex k) - 1"
    "\<And>i. p = SNode i \<longleftrightarrow> \<not> in_array ?l k \<and> holds (t_node t) k i" by (rule find_slot_ok [OF inv ok]) blast
  define p' where "p' = (if j < ?l then SArray j else SNode (j - ?l))"
  have pe: "p = p'"
  proof (cases "j < ?l")
    case True
    then have kk: "k = TNumber (cast_num (int j + 1))" using k by (auto simp: at_index_def)
    have "in_array ?l k" "nat (arrayindex k) - 1 = j" using table_array_index(1,2) [OF inv True] kk by simp_all
    with p(2) [of j] True show ?thesis by (simp add: p'_def)
  next
    case False
    then have "\<not> in_array ?l k" "holds (t_node t) k (j - ?l)"
      using k ok rawequal_refl [OF ok] by (auto simp: at_index_def holds_def)
    with p(3) [of "j - ?l"] False show ?thesis by (simp add: p'_def)
  qed
  let ?t = "write_slot p' v (t\<lparr>t_flags := 0\<rparr>)"
  have ne: "p' \<noteq> SNil" by (simp add: p'_def)
  have "find_slot t k = Inr p'" using p(1) pe by simp
  note a = assign_present(1) [OF inv ok this ne, of A v] assign_present(2) [OF inv ok this ne, of v]
  have keys: "i_key (t_node ?t ! i) = i_key (t_node t ! i)" "i_next (t_node ?t ! i) = i_next (t_node t ! i)"
    "length (t_node ?t) = length (t_node t)" "length (t_array ?t) = ?l" for i
    by (simp_all add: write_slot_frame)
  have e: "edge (t_node ?t) = edge (t_node t)" by (simp add: edge_def keys)
  have m: "mainposition ?t = mainposition t"
    by (rule mainposition_cong) (simp add: write_slot_frame)
  have post: "table_inv ?t" "\<And>k'. key_ok k' \<Longrightarrow> tval ?t k' = (if luaO_rawequalObj k' k then v else tval t k')"
    using a(2) by (auto simp: put_post_def)
  have "addrs_ok sa ?t" using ad unfolding addrs_ok_def keys e m .
  moreover have "at_index ?t j k" using k unfolding at_index_def keys .
  moreover have "entries_from ?t (j + 1) = entries_from t (j + 1)"
    by (auto simp: entries_from_def p'_def write_slot_def upd_node_def)
  ultimately show thesis using that [OF a(1) post(1)] post(2) by blast
qed

subsection \<open>The traversal\<close>

lemma next_at:
  assumes inv: "table_inv t" and ix: "findindex sa t key = Inr (int m - 1)"
  shows "luaH_next sa t key = Inr None \<and> entries_from t m = []
    \<or> (\<exists>j k v. m \<le> j \<and> luaH_next sa t key = Inr (Some (k, v)) \<and> at_index t j k
         \<and> entries_from t m = (k, v) # entries_from t (j + 1))"
proof -
  let ?l = "length (t_array t)"
  have nx: "luaH_next sa t key = Inr (case next_array t m of Some kv \<Rightarrow> Some kv | None \<Rightarrow> next_node t (m - ?l))"
    by (simp add: luaH_next_def ix)
  from next_array_ok [of t m] show ?thesis
  proof (elim disjE exE conjE)
    fix j assume "m \<le> j" "j < ?l" "next_array t m = Some (TNumber (cast_num (int j + 1)), t_array t ! j)"
      "aents m (drop m (t_array t)) = (TNumber (cast_num (int j + 1)), t_array t ! j) # aents (j + 1) (drop (j + 1) (t_array t))"
    then show ?thesis using nx
      by (intro disjI2 exI [of _ j] exI [of _ "TNumber (cast_num (int j + 1))"] exI [of _ "t_array t ! j"])
        (simp add: at_index_def entries_from_def)
  next
    assume a: "next_array t m = None" "aents m (drop m (t_array t)) = []"
    from next_node_ok [of t "m - ?l"] show ?thesis
    proof (elim disjE exE conjE)
      fix i assume i: "m - ?l \<le> i" "i < length (t_node t)" "i_val (t_node t ! i) \<noteq> TNil"
        "next_node t (m - ?l) = Some (i_key (t_node t ! i), i_val (t_node t ! i))"
        "nents (drop (m - ?l) (t_node t)) = (i_key (t_node t ! i), i_val (t_node t ! i)) # nents (drop (i + 1) (t_node t))"
      have "key_ok (i_key (t_node t ! i))" "\<not> in_array ?l (i_key (t_node t ! i))"
        using table_node_entry(1,2) [OF inv, of "t_node t ! i"] i(2,3) by simp_all
      then show ?thesis using nx a i
        by (intro disjI2 exI [of _ "i + ?l"] exI [of _ "i_key (t_node t ! i)"] exI [of _ "i_val (t_node t ! i)"])
          (simp add: at_index_def entries_from_def)
    qed (use nx a in \<open>simp add: entries_from_def\<close>)
  qed
qed

lemma traverse_from:
  "table_inv t \<Longrightarrow> addrs_ok sa t \<Longrightarrow> findindex sa t key = Inr (int m - 1) \<Longrightarrow> length (entries_from t m) < f \<Longrightarrow>
   \<exists>t'. traverse f A sa del gc t key = Inr (entries_from t m, t') \<and> table_inv t'
     \<and> (\<forall>k. key_ok k \<longrightarrow> tval t' k =
          (if \<exists>(k', v) \<in> set (entries_from t m). del k' \<and> luaO_rawequalObj k k' then TNil else tval t k))"
proof (induction f arbitrary: t key m)
  case (Suc f)
  note inv = Suc.prems(1) and ad = Suc.prems(2)
  from next_at [OF inv Suc.prems(3)] show ?case
  proof (elim disjE exE conjE)
    fix j k v assume n: "m \<le> j" "luaH_next sa t key = Inr (Some (k, v))" "at_index t j k"
      "entries_from t m = (k, v) # entries_from t (j + 1)"
    obtain t1 where t1: "(if del k then assign A k TNil t else Inr t) = Inr t1" "table_inv t1" "addrs_ok sa t1" "at_index t1 j k"
      "entries_from t1 (j + 1) = entries_from t (j + 1)"
      "\<And>k'. key_ok k' \<Longrightarrow> tval t1 k' = (if del k \<and> luaO_rawequalObj k' k then TNil else tval t k')"
    proof (cases "del k")
      case True
      obtain t1 where "assign A k TNil t = Inr t1" "table_inv t1" "addrs_ok sa t1" "at_index t1 j k"
        "entries_from t1 (j + 1) = entries_from t (j + 1)"
        "\<And>k'. key_ok k' \<Longrightarrow> tval t1 k' = (if luaO_rawequalObj k' k then TNil else tval t k')"
        by (rule clear_field [OF inv ad n(3)]) blast
      with True that show thesis by simp
    next
      case False
      with that [of t] inv ad n(3) show thesis by simp
    qed
    let ?t2 = "if gc k then kill_keys sa t1 else t1"
    have t2: "table_inv ?t2" "addrs_ok sa ?t2" "findindex sa ?t2 k = Inr (int (j + 1) - 1)"
      "entries_from ?t2 (j + 1) = entries_from t (j + 1)" "\<And>k'. key_ok k' \<Longrightarrow> tval ?t2 k' = tval t1 k'"
      using t1 kill_keys_inv kill_keys_addrs at_index_found [OF t1(2-4)] kill_keys_tval [OF t1(2)] by auto
    have "length (entries_from ?t2 (j + 1)) < f" using Suc.prems(4) n(4) t2(4) by simp
    from Suc.IH [OF t2(1-3) this] obtain t' where t': "traverse f A sa del gc ?t2 k = Inr (entries_from t (j + 1), t')" "table_inv t'"
      "\<And>k'. key_ok k' \<Longrightarrow> tval t' k' =
          (if \<exists>(k2, v) \<in> set (entries_from t (j + 1)). del k2 \<and> luaO_rawequalObj k' k2 then TNil else tval ?t2 k')"
      unfolding t2(4) by blast
    have "traverse (Suc f) A sa del gc t key = Inr (entries_from t m, t')" using n t1(1) t'(1) by simp
    moreover have "tval t' k' = (if \<exists>(k2, v) \<in> set (entries_from t m). del k2 \<and> luaO_rawequalObj k' k2 then TNil else tval t k')"
      if "key_ok k'" for k' using t'(3) [OF that] t2(5) [OF that] t1(6) [OF that] unfolding n(4) by auto
    ultimately show ?thesis using t'(2) by blast
  qed (use inv in auto)
qed simp

lemma aents_apart:
  "int (i + length vs) \<le> INT_MAX \<Longrightarrow> sorted_wrt (\<lambda>p q. \<not> luaO_rawequalObj (fst p) (fst q)) (aents i vs)"
proof (induction vs arbitrary: i)
  case (Cons v vs)
  have "\<not> luaO_rawequalObj (TNumber (cast_num (int i + 1))) (fst q)" if q: "q \<in> set (aents (i + 1) vs)" for q
  proof -
    obtain j where j: "i + 1 \<le> j" "j < i + 1 + length vs" "fst q = TNumber (cast_num (int j + 1))"
      using q in_aents [of "fst q" "snd q" "i + 1" vs] by auto
    have "in_int (int i + 1)" "in_int (int j + 1)" using j Cons.prems by (auto simp: in_int_numeral_bounds INT_MAX_def)
    then show ?thesis using j by (simp add: rawequal_iff luai_numeq_cast_num)
  qed
  then show ?case using Cons by auto
qed simp

lemma nents_apart:
  assumes inv: "table_inv t"
  shows "sorted_wrt (\<lambda>p q. \<not> luaO_rawequalObj (fst p) (fst q)) (nents (t_node t))"
proof -
  let ?R = "\<lambda>x y. i_val x \<noteq> TNil \<longrightarrow> \<not> luaO_rawequalObj (i_key x) (i_key y)"
  have "sorted_wrt ?R (t_node t)" unfolding sorted_wrt_iff_nth_less
  proof (intro allI impI)
    fix i j assume a: "i < j" "j < length (t_node t)" "i_val (t_node t ! i) \<noteq> TNil"
    then have "live_key (i_key (t_node t ! i))" using table_node_entry(1) [OF inv, of "t_node t ! i"] key_ok_live by simp
    moreover have "keys_distinct (t_node t)" using inv by (simp add: table_inv_def node_inv_def)
    ultimately show "\<not> luaO_rawequalObj (i_key (t_node t ! i)) (i_key (t_node t ! j))"
      using a unfolding keys_distinct_def by (metis less_trans nat_neq_iff)
  qed
  then have "sorted_wrt ?R (filter (\<lambda>n. i_val n \<noteq> TNil) (t_node t))" by (rule sorted_wrt_filter)
  then show ?thesis unfolding nents_def sorted_wrt_map
    by (rule sorted_wrt_mono_rel [rotated]) auto
qed

lemma entries_moved: "set (entries t) = set (moved 0 t)"
  by (auto simp: entries_def moved_def nents_def)

text \<open>
  C17: a traversal of a table visits every entry exactly once, also when the body of the loop clears
  the fields that it visits and when the garbage collector runs in between and turns the keys without
  value into dead keys; the table may hold dead keys from the start. From nil on, repeated calls of
  \<open>luaH_next\<close> return the non-nil entries of the array part in order and then those of the hash part, and
  end; for each pair the table maps the key to the value, every key with a value is among them, and
  no two keys are equal. Afterwards the cleared fields are nil and all others as before. What it
  needs of the collector is \<open>addrs_ok\<close>: objects that are keys have different addresses, and a dead key
  is not between a main position and a later key with its address.
\<close>

theorem traversal_complete:
  assumes inv: "table_inv t" and ad: "addrs_ok sa t"
  shows "(\<exists>t'. traverse (length (entries t) + 1) A sa del gc t TNil = Inr (entries t, t')
         \<and> (\<forall>k. key_ok k \<longrightarrow> lookup t' k =
              (if \<exists>(k', v) \<in> set (entries t). del k' \<and> luaO_rawequalObj k k' then Inr TNil else lookup t k)))
    \<and> (\<forall>(k, v) \<in> set (entries t). key_ok k \<and> lookup t k = Inr v)
    \<and> (\<forall>k. key_ok k \<longrightarrow> lookup t k \<noteq> Inr TNil \<longrightarrow> (\<exists>(k', v) \<in> set (entries t). luaO_rawequalObj k k'))
    \<and> sorted_wrt (\<lambda>p q. \<not> luaO_rawequalObj (fst p) (fst q)) (entries t)"
proof (intro conjI)
  have e: "entries_from t 0 = entries t" by (simp add: entries_from_def entries_def)
  have "findindex sa t TNil = Inr (int 0 - 1)" by (simp add: findindex_def)
  from traverse_from [OF inv ad this, of "length (entries t) + 1" A del gc, unfolded e]
  obtain t' where t': "traverse (length (entries t) + 1) A sa del gc t TNil = Inr (entries t, t')" "table_inv t'"
    "\<And>k. key_ok k \<Longrightarrow> tval t' k = (if \<exists>(k', v) \<in> set (entries t). del k' \<and> luaO_rawequalObj k k' then TNil else tval t k)"
    by auto
  then show "\<exists>t'. traverse (length (entries t) + 1) A sa del gc t TNil = Inr (entries t, t')
      \<and> (\<forall>k. key_ok k \<longrightarrow> lookup t' k =
           (if \<exists>(k', v) \<in> set (entries t). del k' \<and> luaO_rawequalObj k k' then Inr TNil else lookup t k))"
    using lookup_tval [OF inv] lookup_tval [OF t'(2)] by (intro exI [of _ t']) simp
  have len: "length (t_array t) \<le> MAXASIZE" using inv by (simp add: table_inv_def)
  have ok: "key_ok k" if "(k, v) \<in> set (entries t)" for k v
  proof (cases "(k, v) \<in> set (aents 0 (t_array t))")
    case True
    then obtain j where j: "j < length (t_array t)" "k = TNumber (cast_num (int j + 1))" by (auto simp: in_aents)
    then show ?thesis using key_ok_number table_array_index(1) [OF inv j(1)] by (simp add: INT_MIN_def)
  next
    case False
    then show ?thesis using that table_node_entry(1) [OF inv] by (auto simp: entries_def in_nents)
  qed
  moreover have "v = tval t k" if "(k, v) \<in> set (entries t)" for k v
    using moved_val [OF inv, of k v 0 k] that ok rawequal_refl by (simp add: entries_moved)
  ultimately show "\<forall>(k, v) \<in> set (entries t). key_ok k \<and> lookup t k = Inr v" using lookup_tval [OF inv] by auto
  show "\<forall>k. key_ok k \<longrightarrow> lookup t k \<noteq> Inr TNil \<longrightarrow> (\<exists>(k', v) \<in> set (entries t). luaO_rawequalObj k k')"
    using moved_complete [OF inv, where nasize = 0] lookup_tval [OF inv] by (simp add: entries_moved in_array_def)
  have "\<not> luaO_rawequalObj (fst p) (fst q)" if p: "p \<in> set (aents 0 (t_array t))" and q: "q \<in> set (nents (t_node t))" for p q
  proof -
    obtain j where j: "j < length (t_array t)" "fst p = TNumber (cast_num (int j + 1))"
      using p in_aents [of "fst p" "snd p" 0] by auto
    then have "in_array (length (t_array t)) (fst p)" using table_array_index(2) [OF inv j(1)] by simp
    moreover have "\<not> in_array (length (t_array t)) (fst q)"
      using q table_node_entry(2) [OF inv] in_nents [of "fst q" "snd q"] by auto
    ultimately show ?thesis using in_array_cong by blast
  qed
  then show "sorted_wrt (\<lambda>p q. \<not> luaO_rawequalObj (fst p) (fst q)) (entries t)"
    using aents_apart [of 0 "t_array t"] nents_apart [OF inv] len
    by (simp add: entries_def sorted_wrt_append MAXASIZE_num INT_MAX_def)
qed

definition demo_table :: Table where
  "demo_table = \<lparr>t_flags = 0, lsizenode = 0, t_metatable = None, t_array = [TBoolean True, TNil, TBoolean False],
     t_node = [\<lparr>i_val = TBoolean True, i_key = TTable 5, i_next = None\<rparr>], t_dummy = False, lastfree = 0\<rparr>"

lemma demo_table_inv: "table_inv demo_table" "addrs_ok sa demo_table"
proof -
  let ?ns = "[\<lparr>i_val = TBoolean True, i_key = TTable 5, i_next = None\<rparr>]"
  have "mainposition demo_table k = 0" for k
    using mainposition_less [of demo_table k] by (simp add: demo_table_def sizenode_def twoto_def)
  moreover have "edge ?ns = {}" by (auto simp: edge_def nth_Cons split: nat.splits)
  ultimately have "node_inv (mainposition demo_table) ?ns"
    by (simp add: node_inv_def chains_ok_def keys_reach_def keys_distinct_def vals_ok_def live_key_def)
  moreover have "keys_hashed n ?ns" for n by (simp add: keys_hashed_def live_key_def key_ok_def in_array_def arrayindex_def)
  ultimately show "table_inv demo_table"
    by (simp add: table_inv_def sizenode_def twoto_def MAXASIZE_num free_ok_def) (simp add: demo_table_def)
qed (simp add: demo_table_def addrs_ok_def)

theorem traversal_complete_witness:
  "\<exists>t'. traverse 4 (\<lambda>n. Some 8) (\<lambda>s. 0) (\<lambda>k. True) (\<lambda>k. True) demo_table TNil =
     Inr ([(TNumber (cast_num 1), TBoolean True), (TNumber (cast_num 3), TBoolean False), (TTable 5, TBoolean True)], t')
     \<and> lookup t' (TTable 5) = Inr TNil"
proof -
  have e: "entries demo_table =
      [(TNumber (cast_num 1), TBoolean True), (TNumber (cast_num 3), TBoolean False), (TTable 5, TBoolean True)]"
    by (simp add: entries_def demo_table_def)
  have k: "key_ok (TTable 5)" "luaO_rawequalObj (TTable 5) (TTable 5)" by (simp_all add: key_ok_def live_key_def rawequal_iff)
  have f: "length [(TNumber (cast_num 1), TBoolean True), (TNumber (cast_num 3), TBoolean False), (TTable 5, TBoolean True)] + 1 = 4"
    by simp
  from traversal_complete [OF demo_table_inv, of "\<lambda>n. Some 8" "\<lambda>s. 0" "\<lambda>k. True" "\<lambda>k. True", unfolded e f]
  obtain t' where t': "traverse 4 (\<lambda>n. Some 8) (\<lambda>s. 0) (\<lambda>k. True) (\<lambda>k. True) demo_table TNil =
     Inr ([(TNumber (cast_num 1), TBoolean True), (TNumber (cast_num 3), TBoolean False), (TTable 5, TBoolean True)], t')"
    "key_ok (TTable 5) \<Longrightarrow> luaO_rawequalObj (TTable 5) (TTable 5) \<Longrightarrow> lookup t' (TTable 5) = Inr TNil"
    by (auto simp del: traverse.simps)
  then show ?thesis using k by blast
qed

section \<open>Length\<close>

lemma getnum_nil_ok:
  assumes inv: "table_inv t" and j: "int j \<le> INT_MAX"
  shows "getnum_nil t j = Inr (tval t (TNumber (cast_num (int j))) = TNil)"
proof -
  have i: "in_int (int j)" "int j \<noteq> INT_MIN" using j by (auto simp: in_int_numeral_bounds INT_MAX_def INT_MIN_def)
  have "length (t_array t) \<le> MAXASIZE" using inv by (simp add: table_inv_def)
  then have g: "luaH_getnum t (int j) = find_slot t (TNumber (cast_num (int j)))" using i by (rule getnum_find_slot)
  obtain p where "find_slot t (TNumber (cast_num (int j))) = Inr p" "slot_val t p = tval t (TNumber (cast_num (int j)))"
    "getobj t p = Inr (slot_val t p)" by (rule find_slot_getobj [OF inv key_ok_number [OF i]])
  then show ?thesis by (simp add: getnum_nil_def g)
qed

text \<open>The value at a positive integer key.\<close>

definition num_val :: "Table \<Rightarrow> nat \<Rightarrow> TValue" where
  "num_val t j = tval t (TNumber (cast_num (int j)))"

definition border :: "Table \<Rightarrow> nat \<Rightarrow> bool" where
  "border t n \<longleftrightarrow> (n = 0 \<or> num_val t n \<noteq> TNil) \<and> num_val t (n + 1) = TNil"

lemma binary_search_ok:
  assumes p: "\<And>m. 0 < m \<Longrightarrow> m \<le> b \<Longrightarrow> isnil m = Inr (P m)"
  shows "i < j \<Longrightarrow> j \<le> b \<Longrightarrow> (i = 0 \<or> \<not> P i) \<Longrightarrow> P j \<Longrightarrow>
    \<exists>n. binary_search isnil i j = Inr n \<and> n < b \<and> (n = 0 \<or> \<not> P n) \<and> P (n + 1)"
proof (induction "j - i" arbitrary: i j rule: less_induct)
  case less
  show ?case
  proof (cases "j - i > 1")
    case False
    then have "j = i + 1" using less.prems(1) by linarith
    then show ?thesis using less.prems False by (intro exI [of _ i]) (simp add: binary_search.simps)
  next
    case True
    let ?m = "(i + j) div 2"
    have m: "i < ?m" "?m < j" "?m \<le> b" using True less.prems(2) by auto
    have s: "binary_search isnil i j = (if P ?m then binary_search isnil i ?m else binary_search isnil ?m j)"
      using True p [OF _ m(3)] m(1) by (simp add: binary_search.simps [of isnil i j] Let_def)
    show ?thesis unfolding s using less.hyps [of ?m i] less.hyps [of j ?m] m less.prems by auto
  qed
qed

lemma linear_search_ok:
  assumes inv: "table_inv t"
  shows "0 < i \<Longrightarrow> int (i + f) \<le> INT_MAX \<Longrightarrow> (i = 1 \<or> num_val t (i - 1) \<noteq> TNil) \<Longrightarrow>
    (\<exists>n. linear_search f t i = Inr n \<and> border t n \<and> n < i + f) \<or> (\<forall>j. i \<le> j \<and> j < i + f \<longrightarrow> num_val t j \<noteq> TNil)"
proof (induction f arbitrary: i)
  case (Suc f)
  have g: "getnum_nil t i = Inr (num_val t i = TNil)" using getnum_nil_ok [OF inv, of i] Suc.prems(2) by (simp add: num_val_def)
  show ?case
  proof (cases "num_val t i = TNil")
    case True
    then show ?thesis using g Suc.prems by (auto simp: border_def)
  next
    case False
    have "(\<exists>n. linear_search f t (i + 1) = Inr n \<and> border t n \<and> n < i + 1 + f)
        \<or> (\<forall>j. i + 1 \<le> j \<and> j < i + 1 + f \<longrightarrow> num_val t j \<noteq> TNil)"
      using Suc.IH [of "i + 1"] Suc.prems False by simp
    then show ?thesis
    proof
      assume "\<exists>n. linear_search f t (i + 1) = Inr n \<and> border t n \<and> n < i + 1 + f"
      then show ?thesis using g False by auto
    next
      assume a: "\<forall>j. i + 1 \<le> j \<and> j < i + 1 + f \<longrightarrow> num_val t j \<noteq> TNil"
      have "num_val t j \<noteq> TNil" if "i \<le> j" "j < i + Suc f" for j
        using a that False by (cases "j = i") auto
      then show ?thesis by blast
    qed
  qed
qed auto

text \<open>A table cannot have values at more consecutive integers than it has slots.\<close>

lemma some_nil:
  assumes inv: "table_inv t" and b: "int (length (t_array t) + length (t_node t) + 1) \<le> INT_MAX"
  shows "\<exists>j. 1 \<le> j \<and> j \<le> length (t_array t) + length (t_node t) + 1 \<and> num_val t j = TNil"
proof (rule ccontr)
  assume a: "\<not> ?thesis"
  let ?l = "length (t_array t)"
  let ?J = "{?l + 1 .. ?l + length (t_node t) + 1}"
  have h: "\<exists>n. holds (t_node t) (TNumber (cast_num (int j))) n" if j: "j \<in> ?J" for j
  proof -
    have "in_int (int j)" using j b by (auto simp: in_int_numeral_bounds INT_MAX_def)
    then have "\<not> in_array ?l (TNumber (cast_num (int j)))" using j by (simp add: in_array_def)
    moreover have "num_val t j \<noteq> TNil" using a j by auto
    ultimately show ?thesis using nval_not_holds by (auto simp: num_val_def tval_def)
  qed
  define g where "g j = (SOME n. holds (t_node t) (TNumber (cast_num (int j))) n)" for j
  have g: "holds (t_node t) (TNumber (cast_num (int j))) (g j)" if "j \<in> ?J" for j
    using someI_ex [OF h [OF that]] by (simp add: g_def)
  have "inj_on g ?J"
  proof (rule inj_onI)
    fix x y assume xy: "x \<in> ?J" "y \<in> ?J" "g x = g y"
    then have "luaO_rawequalObj (TNumber (cast_num (int x))) (TNumber (cast_num (int y)))"
      using g [OF xy(1)] g [OF xy(2)] rawequal_sym rawequal_trans by (metis holds_def)
    moreover have "in_int (int x)" "in_int (int y)" using xy(1,2) b by (auto simp: in_int_numeral_bounds INT_MAX_def)
    ultimately show "x = y" by (simp add: rawequal_iff luai_numeq_cast_num)
  qed
  moreover have "g ` ?J \<subseteq> {..< length (t_node t)}" using g by (auto simp: holds_def)
  ultimately have "card ?J \<le> card {..< length (t_node t)}" by (intro card_inj_on_le) auto
  then show False by simp
qed

lemma table_slots: "table_inv t \<Longrightarrow> length (t_array t) + length (t_node t) \<le> 134217728"
proof -
  assume inv: "table_inv t"
  have "(2 :: nat) ^ lsizenode t \<le> 2 ^ 26" using inv by (intro power_increasing) (auto simp: table_inv_def MAXBITS_def)
  then have "length (t_node t) \<le> 67108864" using inv by (simp add: table_inv_def sizenode_def twoto_def)
  then show ?thesis using inv by (simp add: table_inv_def MAXASIZE_num)
qed

lemma unbound_loop_ok:
  assumes inv: "table_inv t"
  shows "i < j \<Longrightarrow> int j \<le> MAX_INT \<Longrightarrow> (i = 0 \<or> num_val t i \<noteq> TNil) \<Longrightarrow> 
    \<exists>n. unbound_loop t i j = Inr n \<and> border t n \<and> int n < MAX_INT"
proof (induction "nat MAX_INT + 1 - j" arbitrary: i j rule: less_induct)
  case less
  have M: "MAX_INT = 2147483645" by (simp add: MAX_INT_def INT_MAX_def)
  have g: "getnum_nil t m = Inr (num_val t m = TNil)" if "m \<le> j" for m
    using getnum_nil_ok [OF inv, of m] that less.prems(2) by (simp add: num_val_def MAX_INT_def)
  have u: "unbound_loop t i j = (if num_val t j = TNil then binary_search (getnum_nil t) i j
       else if int (j * 2) > MAX_INT then linear_search (length (t_array t) + length (t_node t) + 2) t 1
       else unbound_loop t j (j * 2))"
    using g [of j] less.prems(1) by (simp add: unbound_loop.simps [of t i j])
  show ?case
  proof (cases "num_val t j = TNil")
    case True
    then show ?thesis using binary_search_ok [of j "getnum_nil t" "\<lambda>m. num_val t m = TNil" i j] g less.prems u
      by (auto simp: border_def)
  next
    case False
    show ?thesis
    proof (cases "int (j * 2) > MAX_INT")
      case True
      let ?f = "length (t_array t) + length (t_node t) + 2"
      have "int (1 + ?f) \<le> INT_MAX" using table_slots [OF inv] by (simp add: INT_MAX_def)
      moreover have "\<not> (\<forall>j. 1 \<le> j \<and> j < 1 + ?f \<longrightarrow> num_val t j \<noteq> TNil)"
        using some_nil [OF inv] table_slots [OF inv] by (fastforce simp: INT_MAX_def)
      ultimately have "\<exists>n. linear_search ?f t 1 = Inr n \<and> border t n \<and> n < 1 + ?f" using linear_search_ok [OF inv, of 1 ?f] by auto
      then show ?thesis using False True u table_slots [OF inv] M by auto
    next
      case small: False
      have "\<exists>n. unbound_loop t j (j * 2) = Inr n \<and> border t n \<and> int n < MAX_INT"
        by (rule less.hyps) (use less.prems small False M in auto)
      then show ?thesis using False small u by simp
    qed
  qed
qed

text \<open>
  C18: the length operator returns a border. For every valid table \<open>luaH_getn\<close> ends and returns an \<open>n\<close> such
  that the table has a value at \<open>n\<close> (or \<open>n\<close> is 0) and none at \<open>n + 1\<close>; the linear search, the binary
  searches and the doubling stay within the table and the range of \<open>int\<close>.
\<close>

theorem length_is_border:
  assumes inv: "table_inv t"
  shows "\<exists>n. luaH_getn t = Inr n \<and> (n = 0 \<or> getnum_nil t n = Inr False) \<and> getnum_nil t (n + 1) = Inr True"
proof -
  let ?l = "length (t_array t)"
  have M: "MAX_INT = 2147483645" "INT_MAX = 2147483647" by (simp_all add: MAX_INT_def INT_MAX_def)
  have len: "?l \<le> 67108864" using inv by (simp add: table_inv_def MAXASIZE_num)
  have av: "num_val t j = t_array t ! (j - 1)" if "0 < j" "j \<le> ?l" for j
    using table_array_index(3) [OF inv, of "j - 1"] that by (simp add: num_val_def)
  have "\<exists>n. luaH_getn t = Inr n \<and> border t n \<and> int n < MAX_INT"
  proof (cases "?l > 0 \<and> t_array t ! (?l - 1) = TNil")
    case True
    moreover have "array_nil t m = Inr (t_array t ! (m - 1) = TNil)" if "0 < m" "m \<le> ?l" for m
      using that by (simp add: array_nil_def)
    ultimately have "\<exists>n. binary_search (array_nil t) 0 ?l = Inr n \<and> n < ?l
        \<and> (n = 0 \<or> t_array t ! (n - 1) \<noteq> TNil) \<and> t_array t ! (n + 1 - 1) = TNil"
      using binary_search_ok [of ?l "array_nil t" "\<lambda>m. t_array t ! (m - 1) = TNil" 0 ?l] by blast
    then obtain n where n: "binary_search (array_nil t) 0 ?l = Inr n" "n < ?l"
      "n = 0 \<or> t_array t ! (n - 1) \<noteq> TNil" "t_array t ! n = TNil" by auto
    have "luaH_getn t = Inr n" using True n(1) by (simp add: luaH_getn_def Let_def)
    moreover have "border t n" using n av [of n] av [of "n + 1"] by (auto simp: border_def)
    ultimately show ?thesis using n(2) len M by auto
  next
    case False
    then have l: "?l = 0 \<or> num_val t ?l \<noteq> TNil" using av [of ?l] by auto
    show ?thesis
    proof (cases "t_dummy t")
      case True
      have "in_int (int (?l + 1))" using len by (simp add: in_int_numeral_bounds)
      then have "\<not> in_array ?l (TNumber (cast_num (int (?l + 1))))" by (simp add: in_array_def)
      moreover have "\<not> holds (t_node t) (TNumber n) i" for n i
        using inv True by (auto simp: table_inv_def free_ok_def holds_def dummynode_def free_node_def rawequal_iff)
      ultimately have "num_val t (?l + 1) = TNil" using nval_not_holds by (simp add: num_val_def tval_def)
      then show ?thesis using l True False len M by (auto simp: luaH_getn_def border_def Let_def)
    next
      case nd: False
      have "luaH_getn t = unbound_loop t ?l (?l + 1)" using False nd by (auto simp: luaH_getn_def unbound_search_def Let_def)
      then show ?thesis using unbound_loop_ok [OF inv _ _ l, of "?l + 1"] len M by auto
    qed
  qed
  then obtain n where n: "luaH_getn t = Inr n" "border t n" "int n < MAX_INT" by blast
  then show ?thesis using getnum_nil_ok [OF inv, of n] getnum_nil_ok [OF inv, of "n + 1"] M
    by (auto simp: border_def num_val_def)
qed

theorem length_is_border_witness:
  "\<exists>n. luaH_getn demo_table = Inr n \<and> (n = 0 \<or> getnum_nil demo_table n = Inr False) \<and> getnum_nil demo_table (n + 1) = Inr True"
  by (rule length_is_border [OF demo_table_inv(1)])

text \<open>
  C24: looking up the number \<open>-2^31\<close> in any table overflows: \<open>luaH_getnum\<close> computes \<open>key - 1\<close> as an \<open>int\<close>.
\<close>

theorem getnum_overflow: "luaH_get t (TNumber (cast_num INT_MIN)) = Inl IntOverflow"
proof -
  have "in_int INT_MIN" "\<not> in_int (INT_MIN - 1)" by (simp_all add: in_int_numeral_bounds INT_MIN_def)
  then show ?thesis by (simp add: luaH_get_def luaH_getnum_def c_int_def)
qed

end
