(* ===== verification/LuaBuffer.thy ===== *)
theory LuaBuffer
  imports LuaString
begin

text \<open>
  The string buffers of the auxiliary library (\<open>luaL_Buffer\<close>, \<open>src/lua/src/lauxlib.c\<close>): characters
  collect in a block of fixed size; full blocks become strings on the Lua stack, which are concatenated
  from time to time so that few of them exist. \<open>b_stack\<close> are the strings of the buffer on the Lua stack,
  the top one first, and \<open>B->lvl\<close> is their number.
\<close>

record luaL_Buffer =
  b_block :: "byte list"        \<comment> \<open>from \<open>B->buffer\<close> to \<open>B->p\<close>\<close>
  b_stack :: "byte list list"

definition LUAL_BUFFERSIZE :: nat where "LUAL_BUFFERSIZE = 8192"
definition LIMIT :: nat where "LIMIT = 10"

definition lvl :: "luaL_Buffer \<Rightarrow> nat" where "lvl B = length (b_stack B)"
definition bufflen :: "luaL_Buffer \<Rightarrow> nat" where "bufflen B = length (b_block B)"
definition bufffree :: "luaL_Buffer \<Rightarrow> nat" where "bufffree B = LUAL_BUFFERSIZE - bufflen B"

definition luaL_buffinit :: luaL_Buffer where
  "luaL_buffinit = \<lparr>b_block = [], b_stack = []\<rparr>"

definition emptybuffer :: "luaL_Buffer \<Rightarrow> bool \<times> luaL_Buffer" where
  "emptybuffer B =
     (if bufflen B = 0 then (False, B)
      else (True, B\<lparr>b_block := [], b_stack := b_block B # b_stack B\<rparr>))"

text \<open>\<open>lua_concat\<close> of the \<open>n\<close> topmost strings.\<close>

definition lua_concat :: "nat \<Rightarrow> byte list list \<Rightarrow> byte list list" where
  "lua_concat n st = concat (rev (take n st)) # drop n st"

text \<open>The loop of \<open>adjuststack\<close>, which finds how many strings to concatenate.\<close>

function adjust_loop :: "byte list list \<Rightarrow> nat \<Rightarrow> nat \<Rightarrow> nat" where
  "adjust_loop st toget toplen =
     (if toget < length st
      then let l = length (st ! toget)
           in if length st - toget + 1 \<ge> LIMIT \<or> toplen > l
              then if toget + 1 < length st then adjust_loop st (toget + 1) (toplen + l) else toget + 1
              else toget
      else toget)"
  by auto
termination by (relation "measure (\<lambda>(st, toget, toplen). length st - toget)") auto

declare adjust_loop.simps [simp del]

definition adjuststack :: "luaL_Buffer \<Rightarrow> luaL_Buffer" where
  "adjuststack B =
     (if lvl B > 1
      then B\<lparr>b_stack := lua_concat (adjust_loop (b_stack B) 1 (length (hd (b_stack B)))) (b_stack B)\<rparr>
      else B)"

definition luaL_prepbuffer :: "luaL_Buffer \<Rightarrow> luaL_Buffer" where
  "luaL_prepbuffer B = (case emptybuffer B of (b, B) \<Rightarrow> if b then adjuststack B else B)"

definition luaL_addchar :: "byte \<Rightarrow> luaL_Buffer \<Rightarrow> luaL_Buffer" where
  "luaL_addchar c B =
     (let B = (if bufflen B < LUAL_BUFFERSIZE then B else luaL_prepbuffer B)
      in B\<lparr>b_block := b_block B @ [c]\<rparr>)"

fun luaL_addlstring :: "byte list \<Rightarrow> luaL_Buffer \<Rightarrow> luaL_Buffer" where
  "luaL_addlstring [] B = B"
| "luaL_addlstring (c # s) B = luaL_addlstring s (luaL_addchar c B)"

text \<open>\<open>luaL_addvalue\<close>, with the string that is on top of the stack.\<close>

definition luaL_addvalue :: "byte list \<Rightarrow> luaL_Buffer \<Rightarrow> luaL_Buffer" where
  "luaL_addvalue s B =
     (if length s \<le> bufffree B then B\<lparr>b_block := b_block B @ s\<rparr>
      else case emptybuffer B of (_, B) \<Rightarrow> adjuststack (B\<lparr>b_stack := s # b_stack B\<rparr>))"

definition luaL_pushresult :: "luaL_Buffer \<Rightarrow> byte list" where
  "luaL_pushresult B = (case emptybuffer B of (_, B) \<Rightarrow> hd (lua_concat (lvl B) (b_stack B)))"

section \<open>Contents\<close>

definition contents :: "luaL_Buffer \<Rightarrow> byte list" where
  "contents B = concat (rev (b_stack B)) @ b_block B"

text \<open>The block is never overrun, and between operations fewer than \<open>LIMIT\<close> strings are on the stack.\<close>

definition buffer_ok :: "luaL_Buffer \<Rightarrow> bool" where
  "buffer_ok B \<longleftrightarrow> bufflen B \<le> LUAL_BUFFERSIZE \<and> lvl B < LIMIT"

lemma adjust_loop_bounds:
  "1 \<le> toget \<Longrightarrow> toget < length st \<Longrightarrow>
   toget \<le> adjust_loop st toget n \<and> adjust_loop st toget n \<le> length st \<and> length st - adjust_loop st toget n + 1 < LIMIT"
proof (induction st toget n rule: adjust_loop.induct)
  case (1 st toget n)
  let ?l = "length (st ! toget)"
  show ?case
  proof (cases "length st - toget + 1 \<ge> LIMIT \<or> n > ?l")
    case False
    then show ?thesis using 1(2,3) by (subst (1 2 3) adjust_loop.simps) (simp add: Let_def)
  next
    case True
    show ?thesis
    proof (cases "toget + 1 < length st")
      case last: True
      have "adjust_loop st toget n = adjust_loop st (toget + 1) (n + ?l)"
        using True last by (subst adjust_loop.simps) (simp add: Let_def)
      then show ?thesis using 1(1) [OF 1(3) refl True last] 1(2) last by simp
    next
      case False
      then have "adjust_loop st toget n = toget + 1" using True 1(3) by (subst adjust_loop.simps) (simp add: Let_def)
      then show ?thesis using 1(3) False by (simp add: LIMIT_def)
    qed
  qed
qed

lemma concat_lua_concat: "n \<le> length st \<Longrightarrow> concat (rev (lua_concat n st)) = concat (rev st)"
proof -
  have "concat (rev st) = concat (rev (take n st @ drop n st))" by simp
  then show ?thesis unfolding lua_concat_def by (simp only: rev_append concat_append rev.simps) simp
qed

lemma adjuststack_ok:
  shows "contents (adjuststack B) = contents B" and "b_block (adjuststack B) = b_block B" and "lvl (adjuststack B) < LIMIT"
proof -
  let ?n = "adjust_loop (b_stack B) 1 (length (hd (b_stack B)))"
  have n: "lvl B > 1 \<Longrightarrow> 1 \<le> ?n \<and> ?n \<le> lvl B \<and> lvl B - ?n + 1 < LIMIT"
    using adjust_loop_bounds [of 1 "b_stack B"] by (simp add: lvl_def)
  show "contents (adjuststack B) = contents B" "b_block (adjuststack B) = b_block B" "lvl (adjuststack B) < LIMIT"
    using n concat_lua_concat [of ?n "b_stack B"]
    by (auto simp: adjuststack_def contents_def lvl_def lua_concat_def LIMIT_def)
qed

lemma emptybuffer_ok: "contents (snd (emptybuffer B)) = contents B" "b_block (snd (emptybuffer B)) = []"
  by (auto simp: emptybuffer_def contents_def bufflen_def)

lemma addchar_ok:
  assumes "buffer_ok B"
  shows "contents (luaL_addchar c B) = contents B @ [c]" "buffer_ok (luaL_addchar c B)"
proof -
  have "contents (luaL_prepbuffer B) = contents B" "b_block (luaL_prepbuffer B) = []" "lvl (luaL_prepbuffer B) < LIMIT"
    using emptybuffer_ok [of B] adjuststack_ok [of "snd (emptybuffer B)"] assms
    by (auto simp: luaL_prepbuffer_def buffer_ok_def emptybuffer_def split: if_splits)
  then show "contents (luaL_addchar c B) = contents B @ [c]" "buffer_ok (luaL_addchar c B)"
    using assms by (auto simp: luaL_addchar_def Let_def contents_def buffer_ok_def bufflen_def lvl_def LUAL_BUFFERSIZE_def)
qed

lemma addlstring_ok:
  "buffer_ok B \<Longrightarrow> contents (luaL_addlstring s B) = contents B @ s \<and> buffer_ok (luaL_addlstring s B)"
  by (induction s arbitrary: B) (auto simp: addchar_ok)

lemma addvalue_ok:
  assumes "buffer_ok B"
  shows "contents (luaL_addvalue s B) = contents B @ s" "buffer_ok (luaL_addvalue s B)"
proof -
  obtain b B' where B': "emptybuffer B = (b, B')" by (cases "emptybuffer B")
  then have e: "contents B' = contents B" "b_block B' = []" using emptybuffer_ok [of B] by simp_all
  note a = adjuststack_ok [of "B'\<lparr>b_stack := s # b_stack B'\<rparr>"]
  show "contents (luaL_addvalue s B) = contents B @ s" using a e B' by (auto simp: luaL_addvalue_def contents_def)
  show "buffer_ok (luaL_addvalue s B)"
    using a e B' assms by (auto simp: luaL_addvalue_def buffer_ok_def bufflen_def bufffree_def lvl_def)
qed

lemma pushresult_contents: "luaL_pushresult B = contents B"
proof -
  obtain b B' where B': "emptybuffer B = (b, B')" by (cases "emptybuffer B")
  then have e: "contents B' = contents B" "b_block B' = []" using emptybuffer_ok [of B] by simp_all
  then show ?thesis using B' by (simp add: luaL_pushresult_def lua_concat_def lvl_def contents_def)
qed

lemma buffinit_ok: "buffer_ok luaL_buffinit" "contents luaL_buffinit = []"
  by (simp_all add: luaL_buffinit_def buffer_ok_def contents_def bufflen_def lvl_def LIMIT_def)

section \<open>Buffers as string builders\<close>

text \<open>What the string library relies on: each operation appends, and the result is everything appended.\<close>

locale string_builder =
  fixes ok :: "'b \<Rightarrow> bool" and abs1 :: "'b \<Rightarrow> byte list" and init :: 'b
    and addc :: "byte \<Rightarrow> 'b \<Rightarrow> 'b" and adds :: "byte list \<Rightarrow> 'b \<Rightarrow> 'b" and addv :: "byte list \<Rightarrow> 'b \<Rightarrow> 'b"
    and finish :: "'b \<Rightarrow> byte list"
  assumes init_ok: "ok init" "abs1 init = []"
    and addc_ok: "ok B \<Longrightarrow> ok (addc c B) \<and> abs1 (addc c B) = abs1 B @ [c]"
    and adds_ok: "ok B \<Longrightarrow> ok (adds s B) \<and> abs1 (adds s B) = abs1 B @ s"
    and addv_ok: "ok B \<Longrightarrow> ok (addv s B) \<and> abs1 (addv s B) = abs1 B @ s"
    and finish_ok: "ok B \<Longrightarrow> finish B = abs1 B"
begin

lemma fold_addc: "ok B \<Longrightarrow> ok (fold addc s B) \<and> abs1 (fold addc s B) = abs1 B @ s"
  by (induction s arbitrary: B) (auto simp: addc_ok)

lemma build_chars: "finish (fold addc s init) = s"
  using fold_addc [OF init_ok(1), of s] by (simp add: finish_ok init_ok)

lemma build_pieces: "ok ((adds s ^^ n) init) \<and> abs1 ((adds s ^^ n) init) = concat (replicate n s)"
proof (induction n)
  case (Suc n)
  have "concat (replicate n s) @ s = s @ concat (replicate n s)" by (induction n) auto
  then show ?case using adds_ok [of "(adds s ^^ n) init" s] Suc by simp
qed (simp add: init_ok)

end

interpretation lbuf: string_builder buffer_ok contents luaL_buffinit luaL_addchar luaL_addlstring luaL_addvalue luaL_pushresult
  by unfold_locales (simp_all add: buffinit_ok addchar_ok addlstring_ok addvalue_ok pushresult_contents)

datatype buf_op = AddChar byte | AddLString "byte list" | AddValue "byte list"

fun do_op :: "buf_op \<Rightarrow> luaL_Buffer \<Rightarrow> luaL_Buffer" where
  "do_op (AddChar c) = luaL_addchar c" | "do_op (AddLString s) = luaL_addlstring s" | "do_op (AddValue s) = luaL_addvalue s"

fun op_bytes :: "buf_op \<Rightarrow> byte list" where
  "op_bytes (AddChar c) = [c]" | "op_bytes (AddLString s) = s" | "op_bytes (AddValue s) = s"

text \<open>
  C26: string buffers. After any sequence of operations of any lengths on a new buffer its block has not
  been overrun, fewer than \<open>LIMIT\<close> of its strings are on the Lua stack, and \<open>luaL_pushresult\<close> gives the
  concatenation of everything that was added.
\<close>

theorem buffer_builds:
  "luaL_pushresult (fold do_op ops luaL_buffinit) = concat (map op_bytes ops) \<and> buffer_ok (fold do_op ops luaL_buffinit)"
proof -
  have "buffer_ok B \<Longrightarrow> buffer_ok (fold do_op ops B) \<and> contents (fold do_op ops B) = contents B @ concat (map op_bytes ops)" for B
  proof (induction ops arbitrary: B)
    case (Cons a ops)
    have "buffer_ok (do_op a B) \<and> contents (do_op a B) = contents B @ op_bytes a"
      using Cons.prems by (cases a) (auto simp: addchar_ok addlstring_ok addvalue_ok)
    then show ?case using Cons.IH by simp
  qed simp
  from this [OF lbuf.init_ok(1)] show ?thesis using lbuf.init_ok(2) by (simp add: lbuf.finish_ok)
qed

end
