(* ===== verification/LuaStrlib.thy ===== *)
theory LuaStrlib
  imports LuaBuffer
begin

text \<open>
  The string library (\<open>src/lua/src/lstrlib.c\<close>): positions and slices, and pattern matching with captures.
  Arguments of the C functions on the Lua stack are arguments of the definitions, pushed values are
  results. A string is the list of its bytes; as in C, the byte after the last one reads as 0, and
  reading further is undefined. The character classes are those of the C locale.
\<close>

datatype lval = LNil | LInt int | LStr "byte list"

definition lua_err :: "string \<Rightarrow> 'a lres" where "lua_err msg = Inl (ErrRun msg)"

definition cchar :: "byte list \<Rightarrow> nat \<Rightarrow> byte lres" where
  "cchar s i = (if i < length s then Inr (s ! i) else if i = length s then Inr 0 else Inl (ErrUB OutOfBounds))"

section \<open>Characters\<close>

definition isdigit :: "byte \<Rightarrow> bool" where "isdigit c \<longleftrightarrow> 48 \<le> c \<and> c \<le> 57"
definition isupper :: "byte \<Rightarrow> bool" where "isupper c \<longleftrightarrow> 65 \<le> c \<and> c \<le> 90"
definition islower :: "byte \<Rightarrow> bool" where "islower c \<longleftrightarrow> 97 \<le> c \<and> c \<le> 122"
definition isalpha :: "byte \<Rightarrow> bool" where "isalpha c \<longleftrightarrow> isupper c \<or> islower c"
definition isalnum :: "byte \<Rightarrow> bool" where "isalnum c \<longleftrightarrow> isalpha c \<or> isdigit c"
definition iscntrl :: "byte \<Rightarrow> bool" where "iscntrl c \<longleftrightarrow> c < 32 \<or> c = 127"
definition isspace :: "byte \<Rightarrow> bool" where "isspace c \<longleftrightarrow> c = 32 \<or> 9 \<le> c \<and> c \<le> 13"
definition ispunct :: "byte \<Rightarrow> bool" where "ispunct c \<longleftrightarrow> 33 \<le> c \<and> c \<le> 126 \<and> \<not> isalnum c"
definition isxdigit :: "byte \<Rightarrow> bool" where "isxdigit c \<longleftrightarrow> isdigit c \<or> 65 \<le> c \<and> c \<le> 70 \<or> 97 \<le> c \<and> c \<le> 102"
definition tolower :: "byte \<Rightarrow> byte" where "tolower c = (if isupper c then c + 32 else c)"
definition toupper :: "byte \<Rightarrow> byte" where "toupper c = (if islower c then c - 32 else c)"

section \<open>Positions and slices\<close>

definition str_len :: "byte list \<Rightarrow> int" where "str_len s = int (length s)"

definition posrelat :: "int \<Rightarrow> nat \<Rightarrow> int" where
  "posrelat pos len =
     (let pos = (if pos < 0 then pos + (int len + 1) else pos) in if pos \<ge> 0 then pos else 0)"

definition str_sub :: "byte list \<Rightarrow> int \<Rightarrow> int \<Rightarrow> byte list" where
  "str_sub s i j =
     (let l = length s;
          start = posrelat i l; end1 = posrelat j l;
          start = (if start < 1 then 1 else start);
          end1 = (if end1 > int l then int l else end1)
      in if start \<le> end1 then seg (nat (start - 1)) (nat (end1 - start + 1)) s else [])"

text \<open>\<open>while (l--) luaL_addchar(&b, s[l])\<close>\<close>

fun reverse_loop :: "byte list \<Rightarrow> nat \<Rightarrow> luaL_Buffer \<Rightarrow> luaL_Buffer" where
  "reverse_loop s 0 b = b"
| "reverse_loop s (Suc l) b = reverse_loop s l (luaL_addchar (s ! l) b)"

definition str_reverse :: "byte list \<Rightarrow> byte list" where
  "str_reverse s = luaL_pushresult (reverse_loop s (length s) luaL_buffinit)"

definition str_lower :: "byte list \<Rightarrow> byte list" where
  "str_lower s = luaL_pushresult (fold (\<lambda>c. luaL_addchar (tolower c)) s luaL_buffinit)"

definition str_upper :: "byte list \<Rightarrow> byte list" where
  "str_upper s = luaL_pushresult (fold (\<lambda>c. luaL_addchar (toupper c)) s luaL_buffinit)"

text \<open>\<open>while (n-- > 0) luaL_addlstring(&b, s, l)\<close>: the decrement overflows for the smallest \<open>int\<close>.\<close>

definition str_rep :: "byte list \<Rightarrow> int \<Rightarrow> byte list res" where
  "str_rep s n =
     (if n = INT_MIN then Inl IntOverflow
      else Inr (luaL_pushresult ((luaL_addlstring s ^^ nat n) luaL_buffinit)))"

text \<open>\<open>str_byte\<close> pushes one integer per byte; \<open>free\<close> is the number of stack slots that can be had.\<close>

definition str_byte :: "nat \<Rightarrow> byte list \<Rightarrow> int \<Rightarrow> int option \<Rightarrow> int list lres" where
  "str_byte free s i j =
     (let l = length s;
          posi = posrelat i l;
          pose = posrelat (case j of None \<Rightarrow> posi | Some j \<Rightarrow> j) l;
          posi = (if posi \<le> 0 then 1 else posi);
          pose = (if pose > int l then int l else pose)
      in if posi > pose then Inr []
         else let n = sint (word_of_int (pose - posi + 1) :: 32 word)
              in if posi + n \<le> pose then lua_err ''string slice too long''
                 else if n > int free then lua_err ''stack overflow (string slice too long)''
                 else Inr (map (\<lambda>k. uint (s ! (nat posi + k - 1))) [0..<nat n]))"

fun char_loop :: "int list \<Rightarrow> luaL_Buffer \<Rightarrow> luaL_Buffer lres" where
  "char_loop [] b = Inr b"
| "char_loop (c # cs) b =
     (if uint (word_of_int c :: byte) = c then char_loop cs (luaL_addchar (word_of_int c) b)
      else lua_err ''invalid value'')"

definition str_char :: "int list \<Rightarrow> byte list lres" where
  "str_char cs = bindE (char_loop cs luaL_buffinit) (\<lambda>b. Inr (luaL_pushresult b))"

section \<open>Pattern matching\<close>

text \<open>
  The \<open>MatchState\<close>: the subject \<open>src\<close> is an argument; the captures are the list of the first
  \<open>ms->level\<close> elements of \<open>capture\<close>, with a start position and a length each. Positions in the
  subject and in the pattern are offsets.
\<close>

type_synonym captures = "(nat \<times> int) list"

definition CAP_UNFINISHED :: int where "CAP_UNFINISHED = -1"
definition CAP_POSITION :: int where "CAP_POSITION = -2"
definition LUA_MAXCAPTURES :: nat where "LUA_MAXCAPTURES = 32"
definition L_ESC :: byte where "L_ESC = 37"

definition check_capture :: "captures \<Rightarrow> byte \<Rightarrow> nat lres" where
  "check_capture caps l =
     (let i = uint l - 49
      in if i < 0 \<or> i \<ge> int (length caps) then lua_err ''invalid capture index''
         else if snd (caps ! nat i) = CAP_UNFINISHED then lua_err ''invalid capture index''
         else Inr (nat i))"

fun close_loop :: "captures \<Rightarrow> nat \<Rightarrow> nat lres" where
  "close_loop caps 0 = lua_err ''invalid pattern capture''"
| "close_loop caps (Suc l) = (if snd (caps ! l) = CAP_UNFINISHED then Inr l else close_loop caps l)"

definition capture_to_close :: "captures \<Rightarrow> nat lres" where
  "capture_to_close caps = close_loop caps (length caps)"

lemma cchar_nonzero: "cchar s i = Inr c \<Longrightarrow> c \<noteq> 0 \<Longrightarrow> i < length s"
  by (auto simp: cchar_def split: if_splits)

text \<open>The loop of \<open>classend\<close> that looks for the end of a set.\<close>

function set_end :: "byte list \<Rightarrow> nat \<Rightarrow> nat lres" where
  "set_end ps p =
     bindE (cchar ps p) (\<lambda>c.
       if c = 0 then lua_err ''malformed pattern (missing ']')''
       else bindE (cchar ps (p + 1)) (\<lambda>d.
              let q = (if c = L_ESC \<and> d \<noteq> 0 then p + 2 else p + 1)
              in bindE (cchar ps q) (\<lambda>e. if e \<noteq> 93 then set_end ps q else Inr (q + 1))))"
  by auto
termination
  by (relation "measure (\<lambda>(ps, p). Suc (length ps) - p)") (auto dest!: cchar_nonzero split: if_splits)

declare set_end.simps [simp del]

definition classend :: "byte list \<Rightarrow> nat \<Rightarrow> nat lres" where
  "classend ps p =
     bindE (cchar ps p) (\<lambda>c.
       if c = L_ESC
       then bindE (cchar ps (p + 1)) (\<lambda>d.
              if d = 0 then lua_err ''malformed pattern (ends with '%')'' else Inr (p + 2))
       else if c = 91
       then bindE (cchar ps (p + 1)) (\<lambda>d. set_end ps (if d = 94 then p + 2 else p + 1))
       else Inr (p + 1))"

definition match_class :: "byte \<Rightarrow> byte \<Rightarrow> bool" where
  "match_class c cl =
     (let r = (\<lambda>res. if islower cl then res else \<not> res); k = tolower cl
      in if k = 97 then r (isalpha c) else if k = 99 then r (iscntrl c) else if k = 100 then r (isdigit c)
         else if k = 108 then r (islower c) else if k = 112 then r (ispunct c) else if k = 115 then r (isspace c)
         else if k = 117 then r (isupper c) else if k = 119 then r (isalnum c) else if k = 120 then r (isxdigit c)
         else if k = 122 then r (c = 0) else cl = c)"

text \<open>The loop of \<open>matchbracketclass\<close>; \<open>p\<close> is the position before the increment.\<close>

function bracket_loop :: "byte \<Rightarrow> bool \<Rightarrow> byte list \<Rightarrow> nat \<Rightarrow> nat \<Rightarrow> bool lres" where
  "bracket_loop c sig ps p ec =
     (let p = p + 1
      in if p < ec
         then bindE (cchar ps p) (\<lambda>x. bindE (cchar ps (p + 1)) (\<lambda>y.
                if x = L_ESC then if match_class c y then Inr sig else bracket_loop c sig ps (p + 1) ec
                else if y = 45 \<and> p + 2 < ec
                then bindE (cchar ps (p + 2)) (\<lambda>z. if x \<le> c \<and> c \<le> z then Inr sig else bracket_loop c sig ps (p + 2) ec)
                else if x = c then Inr sig else bracket_loop c sig ps p ec))
         else Inr (\<not> sig))"
  by auto
termination by (relation "measure (\<lambda>(c, sig, ps, p, ec). ec - p)") auto

declare bracket_loop.simps [simp del]

definition matchbracketclass :: "byte \<Rightarrow> byte list \<Rightarrow> nat \<Rightarrow> nat \<Rightarrow> bool lres" where
  "matchbracketclass c ps p ec =
     bindE (cchar ps (p + 1)) (\<lambda>x. if x = 94 then bracket_loop c False ps (p + 1) ec else bracket_loop c True ps p ec)"

definition singlematch :: "byte \<Rightarrow> byte list \<Rightarrow> nat \<Rightarrow> nat \<Rightarrow> bool lres" where
  "singlematch c ps p ep =
     bindE (cchar ps p) (\<lambda>x.
       if x = 46 then Inr True
       else if x = L_ESC then bindE (cchar ps (p + 1)) (\<lambda>y. Inr (match_class c y))
       else if x = 91 then matchbracketclass c ps p (ep - 1)
       else Inr (x = c))"

text \<open>The loop of \<open>matchbalance\<close>; \<open>s\<close> is the position before the increment.\<close>

function balance_loop :: "byte list \<Rightarrow> byte \<Rightarrow> byte \<Rightarrow> nat \<Rightarrow> nat \<Rightarrow> nat option" where
  "balance_loop src b e s cont =
     (let s = s + 1
      in if s < length src
         then if src ! s = e then if cont - 1 = 0 then Some (s + 1) else balance_loop src b e s (cont - 1)
              else if src ! s = b then balance_loop src b e s (cont + 1)
              else balance_loop src b e s cont
         else None)"
  by auto
termination by (relation "measure (\<lambda>(src, b, e, s, cont). length src - s)") auto

declare balance_loop.simps [simp del]

definition matchbalance :: "byte list \<Rightarrow> nat \<Rightarrow> byte list \<Rightarrow> nat \<Rightarrow> nat option lres" where
  "matchbalance src s ps p =
     bindE (cchar ps p) (\<lambda>b.
       if b = 0 then lua_err ''unbalanced pattern''
       else bindE (cchar ps (p + 1)) (\<lambda>e.
         if e = 0 then lua_err ''unbalanced pattern''
         else bindE (cchar src s) (\<lambda>c. Inr (if c \<noteq> b then None else balance_loop src b e s 1))))"

text \<open>\<open>match\<close> and the functions it calls are mutually recursive; these take the recursive call as \<open>mt\<close>.\<close>

type_synonym matcher = "captures \<Rightarrow> nat \<Rightarrow> nat \<Rightarrow> (nat option \<times> captures) lres"

function count_max :: "byte list \<Rightarrow> byte list \<Rightarrow> nat \<Rightarrow> nat \<Rightarrow> nat \<Rightarrow> nat \<Rightarrow> nat lres" where
  "count_max src ps s p ep i =
     (if s + i < length src
      then bindE (singlematch (src ! (s + i)) ps p ep) (\<lambda>b. if b then count_max src ps s p ep (i + 1) else Inr i)
      else Inr i)"
  by auto
termination by (relation "measure (\<lambda>(src, ps, s, p, ep, i). length src - (s + i))") auto

declare count_max.simps [simp del]

fun max_try :: "matcher \<Rightarrow> captures \<Rightarrow> nat \<Rightarrow> nat \<Rightarrow> nat \<Rightarrow> (nat option \<times> captures) lres" where
  "max_try mt caps s ep 0 = mt caps s (ep + 1)"
| "max_try mt caps s ep (Suc i) =
     bindE (mt caps (s + Suc i) (ep + 1)) (\<lambda>(r, caps).
       if r \<noteq> None then Inr (r, caps) else max_try mt caps s ep i)"

definition max_expand :: "matcher \<Rightarrow> byte list \<Rightarrow> byte list \<Rightarrow> captures \<Rightarrow> nat \<Rightarrow> nat \<Rightarrow> nat \<Rightarrow> (nat option \<times> captures) lres" where
  "max_expand mt src ps caps s p ep =
     bindE (count_max src ps s p ep 0) (\<lambda>i. max_try mt caps s ep i)"

function min_expand :: "matcher \<Rightarrow> byte list \<Rightarrow> byte list \<Rightarrow> captures \<Rightarrow> nat \<Rightarrow> nat \<Rightarrow> nat \<Rightarrow> (nat option \<times> captures) lres" where
  "min_expand mt src ps caps s p ep =
     bindE (mt caps s (ep + 1)) (\<lambda>(r, caps).
       if r \<noteq> None then Inr (r, caps)
       else if s < length src
       then bindE (singlematch (src ! s) ps p ep) (\<lambda>b.
              if b then min_expand mt src ps caps (s + 1) p ep else Inr (None, caps))
       else Inr (None, caps))"
  by auto
termination by (relation "measure (\<lambda>(mt, src, ps, caps, s, p, ep). length src - s)") auto

declare min_expand.simps [simp del]

definition start_capture :: "matcher \<Rightarrow> captures \<Rightarrow> nat \<Rightarrow> nat \<Rightarrow> int \<Rightarrow> (nat option \<times> captures) lres" where
  "start_capture mt caps s p what =
     (if length caps \<ge> LUA_MAXCAPTURES then lua_err ''too many captures''
      else bindE (mt (caps @ [(s, what)]) s p) (\<lambda>(r, caps).
             Inr (if r = None then (r, butlast caps) else (r, caps))))"

definition end_capture :: "matcher \<Rightarrow> captures \<Rightarrow> nat \<Rightarrow> nat \<Rightarrow> (nat option \<times> captures) lres" where
  "end_capture mt caps s p =
     bindE (capture_to_close caps) (\<lambda>l.
       bindE (mt (caps[l := (fst (caps ! l), int s - int (fst (caps ! l)))]) s p) (\<lambda>(r, caps).
         Inr (if r = None then (r, caps[l := (fst (caps ! l), CAP_UNFINISHED)]) else (r, caps))))"

definition match_capture :: "byte list \<Rightarrow> captures \<Rightarrow> nat \<Rightarrow> byte \<Rightarrow> nat option lres" where
  "match_capture src caps s l =
     bindE (check_capture caps l) (\<lambda>l.
       let init = fst (caps ! l); len = c_size_t (snd (caps ! l))
       in if length src - s < len then Inr None
          else if init + len > length src then Inl (ErrUB OutOfBounds)
          else Inr (if seg init len src = seg s len src then Some (s + len) else None))"

definition match_default :: "matcher \<Rightarrow> byte list \<Rightarrow> byte list \<Rightarrow> matcher" where
  "match_default mt src ps caps s p =
     bindE (classend ps p) (\<lambda>ep.
     bindE (if s < length src then singlematch (src ! s) ps p ep else Inr False) (\<lambda>m.
     bindE (cchar ps ep) (\<lambda>q.
       if q = 63
       then if m
            then bindE (mt caps (s + 1) (ep + 1)) (\<lambda>(r, caps).
                   if r \<noteq> None then Inr (r, caps) else mt caps s (ep + 1))
            else mt caps s (ep + 1)
       else if q = 42 then max_expand mt src ps caps s p ep
       else if q = 43 then if m then max_expand mt src ps caps (s + 1) p ep else Inr (None, caps)
       else if q = 45 then min_expand mt src ps caps s p ep
       else if m then mt caps (s + 1) ep else Inr (None, caps))))"

text \<open>
  \<open>match\<close>: every recursive call (and every \<open>goto init\<close>) continues further right in the pattern, so the
  length of the pattern bounds the depth, the first argument.
\<close>

fun match :: "nat \<Rightarrow> byte list \<Rightarrow> byte list \<Rightarrow> matcher" where
  "match 0 src ps caps s p = Inl (ErrUB Diverges)"
| "match (Suc f) src ps caps s p =
     (let mt = match f src ps
      in bindE (cchar ps p) (\<lambda>c.
           if c = 40
           then bindE (cchar ps (p + 1)) (\<lambda>d.
                  if d = 41 then start_capture mt caps s (p + 2) CAP_POSITION
                  else start_capture mt caps s (p + 1) CAP_UNFINISHED)
           else if c = 41 then end_capture mt caps s (p + 1)
           else if c = L_ESC
           then bindE (cchar ps (p + 1)) (\<lambda>d.
                  if d = 98
                  then bindE (matchbalance src s ps (p + 2)) (\<lambda>r.
                         case r of None \<Rightarrow> Inr (None, caps) | Some s \<Rightarrow> mt caps s (p + 4))
                  else if d = 102
                  then bindE (cchar ps (p + 2)) (\<lambda>x.
                         if x \<noteq> 91 then lua_err ''missing '[' after '%f' in pattern''
                         else bindE (classend ps (p + 2)) (\<lambda>ep.
                              bindE (if s = 0 then Inr 0 else cchar src (s - 1)) (\<lambda>previous.
                              bindE (matchbracketclass previous ps (p + 2) (ep - 1)) (\<lambda>b1.
                                if b1 then Inr (None, caps)
                                else bindE (cchar src s) (\<lambda>cur.
                                     bindE (matchbracketclass cur ps (p + 2) (ep - 1)) (\<lambda>b2.
                                       if \<not> b2 then Inr (None, caps) else mt caps s ep))))))
                  else if isdigit d
                  then bindE (match_capture src caps s d) (\<lambda>r.
                         case r of None \<Rightarrow> Inr (None, caps) | Some s \<Rightarrow> mt caps s (p + 2))
                  else match_default mt src ps caps s p)
           else if c = 0 then Inr (Some s, caps)
           else if c = 36
           then bindE (cchar ps (p + 1)) (\<lambda>d.
                  if d = 0 then Inr (if s = length src then Some s else None, caps)
                  else match_default mt src ps caps s p)
           else match_default mt src ps caps s p))"

definition do_match :: "byte list \<Rightarrow> byte list \<Rightarrow> nat \<Rightarrow> nat \<Rightarrow> (nat option \<times> captures) lres" where
  "do_match src ps s p = match (length ps + 1) src ps [] s p"

section \<open>Plain search\<close>

definition memchr :: "byte list \<Rightarrow> nat \<Rightarrow> byte \<Rightarrow> nat \<Rightarrow> nat option" where
  "memchr s i c l = find (\<lambda>j. s ! j = c) [i..<i + l]"

text \<open>
  \<open>lmemfind\<close> in the rest of a subject from offset \<open>i\<close> on; in the loop \<open>l1\<close> counts the positions at which
  \<open>s2\<close> can still start.
\<close>

function lmemfind_loop :: "byte list \<Rightarrow> byte list \<Rightarrow> nat \<Rightarrow> nat \<Rightarrow> nat option" where
  "lmemfind_loop s s2 i l1 =
     (if l1 > 0
      then case memchr s i (hd s2) l1 of
             None \<Rightarrow> None
           | Some j \<Rightarrow> if seg (j + 1) (length s2 - 1) s = tl s2 then Some j
                       else if i \<le> j then lmemfind_loop s s2 (j + 1) (l1 - (j + 1 - i)) else None
      else None)"
  by auto
termination by (relation "measure (\<lambda>(s, s2, i, l1). l1)") auto

declare lmemfind_loop.simps [simp del]

definition lmemfind :: "byte list \<Rightarrow> nat \<Rightarrow> nat \<Rightarrow> byte list \<Rightarrow> nat option" where
  "lmemfind s i l1 s2 =
     (if s2 = [] then Some i
      else if length s2 > l1 then None
      else lmemfind_loop s s2 i (l1 - (length s2 - 1)))"

section \<open>Captures as values\<close>

definition push_onecapture :: "byte list \<Rightarrow> captures \<Rightarrow> nat \<Rightarrow> nat \<Rightarrow> nat \<Rightarrow> lval lres" where
  "push_onecapture src caps i s e =
     (if i \<ge> length caps
      then if i = 0 then Inr (LStr (seg s (e - s) src)) else lua_err ''invalid capture index''
      else let (init, l) = caps ! i
           in if l = CAP_UNFINISHED then lua_err ''unfinished capture''
              else if l = CAP_POSITION then Inr (LInt (int init + 1))
              else Inr (LStr (seg init (nat l) src)))"

fun push_from :: "byte list \<Rightarrow> captures \<Rightarrow> nat \<Rightarrow> nat \<Rightarrow> nat list \<Rightarrow> lval list lres" where
  "push_from src caps s e [] = Inr []"
| "push_from src caps s e (i # is) =
     bindE (push_onecapture src caps i s e) (\<lambda>v. bindE (push_from src caps s e is) (\<lambda>vs. Inr (v # vs)))"

text \<open>\<open>whole\<close> is false when the C argument \<open>s\<close> is \<open>NULL\<close>.\<close>

definition push_captures :: "byte list \<Rightarrow> captures \<Rightarrow> bool \<Rightarrow> nat \<Rightarrow> nat \<Rightarrow> lval list lres" where
  "push_captures src caps whole s e =
     push_from src caps s e [0..<(if caps = [] \<and> whole then 1 else length caps)]"

section \<open>Find and match\<close>

definition SPECIALS :: "byte list" where "SPECIALS = [94, 36, 42, 43, 63, 46, 40, 91, 37, 45]"

text \<open>\<open>strpbrk\<close> reads the pattern up to its first zero byte.\<close>

definition no_specials :: "byte list \<Rightarrow> bool" where
  "no_specials ps \<longleftrightarrow> (\<forall>c \<in> set (takeWhile (\<lambda>c. c \<noteq> 0) ps). c \<notin> set SPECIALS)"

function find_loop :: "bool \<Rightarrow> byte list \<Rightarrow> byte list \<Rightarrow> nat \<Rightarrow> bool \<Rightarrow> nat \<Rightarrow> lval list lres" where
  "find_loop fnd src ps p anchor s1 =
     bindE (do_match src ps s1 p) (\<lambda>(r, caps).
       case r of
         Some e \<Rightarrow>
           if fnd then bindE (push_captures src caps False 0 0) (\<lambda>vs. Inr (LInt (int s1 + 1) # LInt (int e) # vs))
           else push_captures src caps True s1 e
       | None \<Rightarrow> if s1 < length src \<and> \<not> anchor then find_loop fnd src ps p anchor (s1 + 1) else Inr [LNil])"
  by auto
termination by (relation "measure (\<lambda>(fnd, src, ps, p, anchor, s1). length src - s1)") auto

declare find_loop.simps [simp del]

definition str_find_aux :: "bool \<Rightarrow> byte list \<Rightarrow> byte list \<Rightarrow> int \<Rightarrow> bool \<Rightarrow> lval list lres" where
  "str_find_aux fnd s ps init plain =
     (let l1 = length s;
          i = posrelat init l1 - 1;
          i = (if i < 0 then 0 else if nat i > l1 then l1 else nat i)
      in if fnd \<and> (plain \<or> no_specials ps)
         then case lmemfind s i (l1 - i) ps of
                Some j \<Rightarrow> Inr [LInt (int j + 1), LInt (int j + int (length ps))]
              | None \<Rightarrow> Inr [LNil]
         else bindE (cchar ps 0) (\<lambda>c.
                let anchor = (c = 94) in find_loop fnd s ps (if anchor then 1 else 0) anchor i))"

definition str_find :: "byte list \<Rightarrow> byte list \<Rightarrow> int \<Rightarrow> bool \<Rightarrow> lval list lres" where
  "str_find = str_find_aux True"

definition str_match :: "byte list \<Rightarrow> byte list \<Rightarrow> int \<Rightarrow> bool \<Rightarrow> lval list lres" where
  "str_match = str_find_aux False"

section \<open>Iteration\<close>

text \<open>One call of the iterator: the values and the next start position, or nothing.\<close>

function gmatch_aux :: "byte list \<Rightarrow> byte list \<Rightarrow> nat \<Rightarrow> (lval list \<times> nat) option lres" where
  "gmatch_aux s ps i =
     (if i \<le> length s
      then bindE (do_match s ps i 0) (\<lambda>(r, caps).
             case r of
               Some e \<Rightarrow> bindE (push_captures s caps True i e) (\<lambda>vs. Inr (Some (vs, if e = i then e + 1 else e)))
             | None \<Rightarrow> gmatch_aux s ps (i + 1))
      else Inr None)"
  by auto
termination by (relation "measure (\<lambda>(s, ps, i). Suc (length s) - i)") auto

declare gmatch_aux.simps [simp del]

section \<open>Substitution\<close>

text \<open>Decimal digits of a position, as \<open>lua_tolstring\<close> writes them.\<close>

fun dec_digits :: "nat \<Rightarrow> byte list" where
  "dec_digits n = (if n < 10 then [word_of_nat (48 + n)] else dec_digits (n div 10) @ [word_of_nat (48 + n mod 10)])"

declare dec_digits.simps [simp del]

definition lval_str :: "lval \<Rightarrow> byte list" where
  "lval_str v = (case v of LNil \<Rightarrow> [] | LInt i \<Rightarrow> dec_digits (nat i) | LStr s \<Rightarrow> s)"

fun add_s :: "byte list \<Rightarrow> captures \<Rightarrow> nat \<Rightarrow> nat \<Rightarrow> byte list \<Rightarrow> luaL_Buffer \<Rightarrow> luaL_Buffer lres" where
  "add_s src caps s e [] b = Inr b"
| "add_s src caps s e [c] b = Inr (luaL_addchar (if c \<noteq> L_ESC then c else 0) b)"
| "add_s src caps s e (c # d # news) b =
     (if c \<noteq> L_ESC then add_s src caps s e (d # news) (luaL_addchar c b)
      else if \<not> isdigit d then add_s src caps s e news (luaL_addchar d b)
      else if d = 48 then add_s src caps s e news (luaL_addlstring (seg s (e - s) src) b)
      else bindE (push_onecapture src caps (unat d - 49) s e) (\<lambda>v. add_s src caps s e news (luaL_addvalue (lval_str v) b)))"

text \<open>
  The replacement: a string, a function that is called with the captures, or a table that is indexed
  with the first one. What the call or the lookup gives is nil or false, a text (a string or a number),
  or a value of another type, named in the error.
\<close>

datatype replacement = Rnone | Rtext "byte list" | Rother string

datatype repl_arg = RString "byte list" | RFunction "lval list \<Rightarrow> replacement lres" | RTable "lval \<Rightarrow> replacement lres"

definition add_result :: "byte list \<Rightarrow> nat \<Rightarrow> nat \<Rightarrow> replacement \<Rightarrow> luaL_Buffer \<Rightarrow> luaL_Buffer lres" where
  "add_result src s e r b =
     (case r of
        Rnone \<Rightarrow> Inr (luaL_addvalue (seg s (e - s) src) b)
      | Rtext t \<Rightarrow> Inr (luaL_addvalue t b)
      | Rother ty \<Rightarrow> lua_err (''invalid replacement value (a '' @ ty @ '')''))"

definition add_value :: "repl_arg \<Rightarrow> byte list \<Rightarrow> captures \<Rightarrow> nat \<Rightarrow> nat \<Rightarrow> luaL_Buffer \<Rightarrow> luaL_Buffer lres" where
  "add_value rp src caps s e b =
     (case rp of
        RString news \<Rightarrow> add_s src caps s e news b
      | RFunction f \<Rightarrow> bindE (push_captures src caps True s e) (\<lambda>vs. bindE (f vs) (\<lambda>r. add_result src s e r b))
      | RTable f \<Rightarrow> bindE (push_onecapture src caps 0 s e) (\<lambda>v. bindE (f v) (\<lambda>r. add_result src s e r b)))"

text \<open>
  The loop of \<open>str_gsub\<close>. \<open>gsub_next\<close> moves on in the subject after the match attempt \<open>r\<close> at \<open>s\<close>, to
  its end or by one character that is copied; its first component is false at the end of the subject,
  where the loop breaks. An iteration (\<open>gsub_body\<close>) moves on or ends the loop.
\<close>

definition gsub_next :: "byte list \<Rightarrow> nat \<Rightarrow> nat option \<Rightarrow> luaL_Buffer \<Rightarrow> bool \<times> nat \<times> luaL_Buffer" where
  "gsub_next src s r b =
     (if (case r of Some e \<Rightarrow> e > s | None \<Rightarrow> False) then (True, the r, b)
      else if s < length src then (True, s + 1, luaL_addchar (src ! s) b)
      else (False, s, b))"

definition gsub_body :: "repl_arg \<Rightarrow> byte list \<Rightarrow> byte list \<Rightarrow> nat \<Rightarrow> nat \<Rightarrow> int \<Rightarrow> luaL_Buffer \<Rightarrow> (int \<times> bool \<times> nat \<times> luaL_Buffer) lres" where
  "gsub_body rp src ps p s n b =
     bindE (do_match src ps s p) (\<lambda>(r, caps).
       case r of
         Some e \<Rightarrow> bindE (add_value rp src caps s e b) (\<lambda>b. Inr (n + 1, gsub_next src s r b))
       | None \<Rightarrow> Inr (n, gsub_next src s r b))"

fun gsub_loop :: "nat \<Rightarrow> repl_arg \<Rightarrow> byte list \<Rightarrow> byte list \<Rightarrow> nat \<Rightarrow> bool \<Rightarrow> int \<Rightarrow> nat \<Rightarrow> int \<Rightarrow> luaL_Buffer \<Rightarrow> (nat \<times> int \<times> luaL_Buffer) lres" where
  "gsub_loop 0 rp src ps p anchor max_s s n b = Inl (ErrUB Diverges)"
| "gsub_loop (Suc f) rp src ps p anchor max_s s n b =
     (if n < max_s
      then bindE (gsub_body rp src ps p s n b) (\<lambda>(n, go, s, b).
             if go \<and> \<not> anchor then gsub_loop f rp src ps p anchor max_s s n b else Inr (s, n, b))
      else Inr (s, n, b))"

definition str_gsub :: "byte list \<Rightarrow> byte list \<Rightarrow> repl_arg \<Rightarrow> int \<Rightarrow> (byte list \<times> int) lres" where
  "str_gsub src ps rp max_s =
     bindE (cchar ps 0) (\<lambda>c.
       let anchor = (c = 94)
       in bindE (gsub_loop (length src + 2) rp src ps (if anchor then 1 else 0) anchor max_s 0 0 luaL_buffinit) (\<lambda>(s, n, b).
            Inr (luaL_pushresult (luaL_addlstring (drop s src) b), n)))"

end
