(* ===== verification/LuaPattern.thy ===== *)
theory LuaPattern
  imports LuaStrlib
begin

text \<open>
  Correctness of the string library: the matcher ends, reads nothing outside the subject and the
  pattern and keeps the captures consistent; plain search finds the first occurrence; slices,
  substitution and the conversions between strings and bytes do what they say.
\<close>

section \<open>Reading the pattern\<close>

text \<open>An error that the library reports to the program, as opposed to undefined behaviour.\<close>

definition reported :: "lua_error \<Rightarrow> bool" where
  "reported e \<longleftrightarrow> (\<exists>msg. e = ErrRun msg)"

abbreviation (input) safely :: "('a \<Rightarrow> bool) \<Rightarrow> 'a lres \<Rightarrow> bool" where
  "safely \<equiv> wpE reported"

lemma safely_err [simp]: "safely P (lua_err msg)"
  by (simp add: lua_err_def reported_def)

lemma safely_cchar:
  assumes "i \<le> length s" and "\<And>c. cchar s i = Inr c \<Longrightarrow> (c \<noteq> 0 \<Longrightarrow> i < length s) \<Longrightarrow> safely Q (f c)"
  shows "safely Q (bindE (cchar s i) f)"
proof -
  obtain c where c: "cchar s i = Inr c" using assms(1) by (cases "i < length s") (auto simp: cchar_def)
  then show ?thesis using assms(2) [OF c cchar_nonzero [OF c]] by simp
qed

lemma set_end_ok: "p \<le> length ps \<Longrightarrow> safely (\<lambda>ep. p < ep \<and> ep \<le> length ps) (set_end ps p)"
proof (induction "Suc (length ps) - p" arbitrary: p rule: less_induct)
  case less
  have step: "safely (\<lambda>ep. p < ep \<and> ep \<le> length ps) (bindE (cchar ps q) (\<lambda>e. if e \<noteq> 93 then set_end ps q else Inr (q + 1)))"
    if q: "p < q" "q \<le> length ps" for q
  proof (rule safely_cchar [OF q(2)], rule wpE_if)
    show "safely (\<lambda>ep. p < ep \<and> ep \<le> length ps) (set_end ps q)"
      using wpE_mono [OF less.hyps [of q]] q less.prems by (auto intro: wpE_mono)
  next
    fix e :: byte assume "e \<noteq> 0 \<Longrightarrow> q < length ps" "\<not> e \<noteq> 93"
    then show "safely (\<lambda>ep. p < ep \<and> ep \<le> length ps) (Inr (q + 1))" using q(1) by auto
  qed
  show ?case
  proof (subst set_end.simps, rule safely_cchar [OF less.prems], rule wpE_if, simp, rule safely_cchar)
    fix c d :: byte assume c: "c \<noteq> 0 \<Longrightarrow> p < length ps" "\<not> c = 0" and d: "d \<noteq> 0 \<Longrightarrow> p + 1 < length ps"
    let ?q = "if c = L_ESC \<and> d \<noteq> 0 then p + 2 else p + 1"
    have "p < ?q" "?q \<le> length ps" using c d by auto
    from step [OF this] show "safely (\<lambda>ep. p < ep \<and> ep \<le> length ps)
        (let q = ?q in bindE (cchar ps q) (\<lambda>e. if e \<noteq> 93 then set_end ps q else Inr (q + 1)))" by (simp only: Let_def)
  qed auto
qed

lemma classend_ok:
  assumes "p < length ps"
  shows "safely (\<lambda>ep. p < ep \<and> ep \<le> length ps) (classend ps p)"
proof -
  have s: "safely (\<lambda>ep. p < ep \<and> ep \<le> length ps) (set_end ps q)" if "p < q" "q \<le> length ps" for q
    using wpE_mono [OF set_end_ok [OF that(2)]] that(1) by (metis (no_types, lifting) less_trans)
  show ?thesis unfolding classend_def
  proof (rule safely_cchar, goal_cases)
    case (2 c)
    show ?case
    proof (intro wpE_if, goal_cases)
      case 1
      show ?case by (rule safely_cchar) (use assms in auto)
    next
      case 2
      show ?case by (rule safely_cchar) (use assms s in auto)
    qed (use assms in auto)
  qed (use assms in auto)
qed

lemma bracket_loop_ok: "ec \<le> length ps \<Longrightarrow> safely (\<lambda>_. True) (bracket_loop c sig ps p ec)"
proof (induction "ec - p" arbitrary: p rule: less_induct)
  case less
  have IH: "safely (\<lambda>_. True) (bracket_loop c sig ps q ec)" if "p + 1 < ec" "p < q" for q
    using less that by (metis Suc_eq_plus1 Suc_lessD diff_less_mono2)
  show ?case
  proof (cases "p + 1 < ec")
    case True
    show ?thesis
      by (subst bracket_loop.simps, unfold Let_def, subst if_P [OF True], (rule safely_cchar, (use True less.prems in simp))+)
         (intro wpE_if safely_cchar; use True less.prems IH in \<open>simp; fail\<close>)
  qed (subst bracket_loop.simps, simp)
qed

lemma matchbracketclass_ok:
  "p < length ps \<Longrightarrow> ec \<le> length ps \<Longrightarrow> safely (\<lambda>_. True) (matchbracketclass c ps p ec)"
  unfolding matchbracketclass_def by (rule safely_cchar) (auto intro: bracket_loop_ok)

lemma singlematch_ok:
  "p < length ps \<Longrightarrow> ep \<le> length ps \<Longrightarrow> safely (\<lambda>_. True) (singlematch c ps p ep)"
  unfolding singlematch_def
  by (rule safely_cchar, simp, intro wpE_if) (auto intro!: matchbracketclass_ok safely_cchar)

lemma count_max_ok:
  "s + i \<le> length src \<Longrightarrow> p < length ps \<Longrightarrow> ep \<le> length ps \<Longrightarrow>
   safely (\<lambda>j. s + j \<le> length src) (count_max src ps s p ep i)"
proof (induction "length src - (s + i)" arbitrary: i rule: less_induct)
  case less
  show ?case
  proof (cases "s + i < length src")
    case True
    have "safely (\<lambda>j. s + j \<le> length src) (count_max src ps s p ep (i + 1))" by (rule less.hyps) (use less.prems True in simp_all)
    then show ?thesis
      by (subst count_max.simps, subst if_P [OF True])
         (rule wpE_bind [OF singlematch_ok [OF less.prems(2,3)]], simp add: less.prems(1))
  qed (subst count_max.simps, use less.prems in simp)
qed

section \<open>The matcher\<close>

text \<open>
  Captures are consistent when each starts at or before the current position, and a closed one ends
  within the subject, whose length is that of an object in memory.
\<close>

definition cap_ok :: "byte list \<Rightarrow> nat \<Rightarrow> nat \<times> int \<Rightarrow> bool" where
  "cap_ok src s c \<longleftrightarrow>
     fst c \<le> s \<and> - 2 \<le> snd c \<and> (0 \<le> snd c \<longrightarrow> int (fst c) + snd c \<le> int (length src))"

definition caps_ok :: "byte list \<Rightarrow> nat \<Rightarrow> captures \<Rightarrow> bool" where
  "caps_ok src s caps \<longleftrightarrow>
     length src < 2 ^ 63 \<and> length caps \<le> LUA_MAXCAPTURES \<and> list_all (cap_ok src s) caps"

text \<open>A failed match restores the captures; a successful one ends within the subject, not before its start.\<close>

definition match_post :: "byte list \<Rightarrow> captures \<Rightarrow> nat \<Rightarrow> nat option \<times> captures \<Rightarrow> bool" where
  "match_post src caps s = (\<lambda>(r, caps').
     (r = None \<longrightarrow> caps' = caps) \<and> (\<forall>e. r = Some e \<longrightarrow> s \<le> e \<and> e \<le> length src \<and> caps_ok src e caps'))"

lemma caps_ok_mono: "caps_ok src s caps \<Longrightarrow> s \<le> s' \<Longrightarrow> caps_ok src s' caps"
  by (auto simp: caps_ok_def cap_ok_def list_all_iff)

lemma match_post_mono: "match_post src caps s' r \<Longrightarrow> s \<le> s' \<Longrightarrow> match_post src caps s r"
  by (auto simp: match_post_def)

lemma match_post_None [simp]: "match_post src caps s (None, caps)"
  by (simp add: match_post_def)

text \<open>Trying a second match after a first one failed.\<close>

lemma safely_retry:
  assumes "safely (match_post src caps s') m" "s \<le> s'" "safely (match_post src caps s) (k caps)"
  shows "safely (match_post src caps s) (bindE m (\<lambda>(r, caps). if r \<noteq> None then Inr (r, caps) else k caps))"
proof (rule wpE_bind [OF assms(1)])
  fix x assume x: "match_post src caps s' x"
  obtain r c where rc: "x = (r, c)" by (cases x)
  show "safely (match_post src caps s) (case x of (r, caps) \<Rightarrow> if r \<noteq> None then Inr (r, caps) else k caps)"
  proof (cases r)
    case None
    then have "c = caps" using x rc by (simp add: match_post_def)
    then show ?thesis using None rc assms(3) by simp
  next
    case (Some e)
    then show ?thesis using x rc match_post_mono [OF _ assms(2)] by simp
  qed
qed

lemma safely_restore:
  assumes "safely (match_post src caps' s) m" "f caps' = caps"
  shows "safely (match_post src caps s) (bindE m (\<lambda>(r, caps). Inr (if r = None then (r, f caps) else (r, caps))))"
  by (rule wpE_bind [OF assms(1)]) (use assms(2) in \<open>auto simp: match_post_def\<close>)

lemma caps_ok_start: "caps_ok src s caps \<Longrightarrow> l < length caps \<Longrightarrow> fst (caps ! l) \<le> s"
  by (simp add: caps_ok_def cap_ok_def list_all_length)

lemma caps_ok_update: "caps_ok src s caps \<Longrightarrow> cap_ok src s c \<Longrightarrow> caps_ok src s (caps[l := c])"
  by (auto simp: caps_ok_def list_all_iff dest!: set_update_subset_insert [THEN subsetD])

lemma balance_loop_bounds:
  "balance_loop src b e s n = Some r \<Longrightarrow> s < r \<and> r \<le> length src"
proof (induction src b e s n rule: balance_loop.induct)
  case (1 src b e s n)
  show ?case
    using 1(4) 1(1-3) [OF refl]
    by (subst (asm) balance_loop.simps) (fastforce simp: Let_def split: if_splits)
qed

lemma matchbalance_ok:
  assumes "s \<le> length src" "p \<le> length ps"
  shows "safely (\<lambda>r. \<forall>e. r = Some e \<longrightarrow> s \<le> e \<and> e \<le> length src \<and> p + 2 \<le> length ps) (matchbalance src s ps p)"
  unfolding matchbalance_def
proof (rule safely_cchar [OF assms(2)], rule wpE_if, simp, rule safely_cchar)
  fix b e :: byte assume "b \<noteq> 0 \<Longrightarrow> p < length ps" "b \<noteq> 0" and e: "e \<noteq> 0 \<Longrightarrow> p + 1 < length ps"
  show "safely (\<lambda>r. \<forall>e. r = Some e \<longrightarrow> s \<le> e \<and> e \<le> length src \<and> p + 2 \<le> length ps)
      (if e = 0 then lua_err ''unbalanced pattern''
       else bindE (cchar src s) (\<lambda>c. Inr (if c \<noteq> b then None else balance_loop src b e s 1)))"
    by (rule wpE_if, simp, rule safely_cchar [OF assms(1)]) (use e balance_loop_bounds in \<open>fastforce split: if_splits\<close>)
qed auto

text \<open>A back reference compares within the subject: a position capture has a length no subject has.\<close>

lemma match_capture_ok:
  assumes "caps_ok src s caps" "s \<le> length src"
  shows "safely (\<lambda>r. \<forall>e. r = Some e \<longrightarrow> s \<le> e \<and> e \<le> length src) (match_capture src caps s d)"
proof -
  have len: "length src < 2 ^ 63" using assms(1) by (simp add: caps_ok_def)
  have "safely (\<lambda>l. l < length caps \<and> snd (caps ! l) \<noteq> CAP_UNFINISHED) (check_capture caps d)"
    by (auto simp: check_capture_def Let_def nat_less_iff)
  then show ?thesis unfolding match_capture_def
  proof (rule wpE_bind)
    fix l assume l: "l < length caps \<and> snd (caps ! l) \<noteq> CAP_UNFINISHED"
    obtain i n where c: "caps ! l = (i, n)" by (cases "caps ! l")
    have ok: "cap_ok src s (i, n)" using assms(1) l c by (auto simp: caps_ok_def list_all_length)
    show "safely (\<lambda>r. \<forall>e. r = Some e \<longrightarrow> s \<le> e \<and> e \<le> length src)
        (let init = fst (caps ! l); len = c_size_t (snd (caps ! l))
         in if length src - s < len then Inr None
            else if init + len > length src then Inl (ErrUB OutOfBounds)
            else Inr (if seg init len src = seg s len src then Some (s + len) else None))"
    proof (cases "0 \<le> n")
      case True
      then have "c_size_t n = nat n" using ok len by (simp add: cap_ok_def c_size_t_def)
      then show ?thesis using True ok c assms(2) by (auto simp: cap_ok_def Let_def)
    next
      case False
      then have "n = -2" using ok l c by (simp add: cap_ok_def CAP_UNFINISHED_def)
      moreover have "length src - s < 18446744073709551614" using len by simp
      ultimately show ?thesis using c by (simp add: c_size_t_def)
    qed
  qed
qed

locale matcher_contract =
  fixes mt :: matcher and src ps :: "byte list" and q :: nat
  assumes mt_ok: "\<lbrakk>caps_ok src s caps; s \<le> length src; q \<le> p; p \<le> length ps\<rbrakk> \<Longrightarrow> safely (match_post src caps s) (mt caps s p)"
begin

lemma max_try_ok:
  "caps_ok src s caps \<Longrightarrow> s + i \<le> length src \<Longrightarrow> q \<le> ep + 1 \<Longrightarrow> ep < length ps \<Longrightarrow>
   safely (match_post src caps s) (max_try mt caps s ep i)"
proof (induction i)
  case 0
  then show ?case using mt_ok [of s caps "ep + 1"] by simp
next
  case (Suc i)
  have "safely (match_post src caps (s + Suc i)) (mt caps (s + Suc i) (ep + 1))"
    by (rule mt_ok) (use Suc.prems in \<open>auto intro: caps_ok_mono\<close>)
  from safely_retry [OF this] show ?case using Suc by simp
qed

lemma max_expand_ok:
  assumes "caps_ok src s caps" "s \<le> length src" "q \<le> ep + 1" "p < length ps" "ep < length ps"
  shows "safely (match_post src caps s) (max_expand mt src ps caps s p ep)"
  unfolding max_expand_def
  by (rule wpE_bind [OF count_max_ok]) (use assms max_try_ok in auto)

lemma min_expand_ok:
  "caps_ok src s caps \<Longrightarrow> s \<le> length src \<Longrightarrow> q \<le> ep + 1 \<Longrightarrow> p < length ps \<Longrightarrow> ep < length ps \<Longrightarrow>
   safely (match_post src caps s) (min_expand mt src ps caps s p ep)"
proof (induction "length src - s" arbitrary: s rule: less_induct)
  case less
  have "safely (match_post src caps s) (mt caps s (ep + 1))" by (rule mt_ok) (use less.prems in auto)
  moreover have "safely (match_post src caps s)
     (if s < length src then bindE (singlematch (src ! s) ps p ep) (\<lambda>b. if b then min_expand mt src ps caps (s + 1) p ep else Inr (None, caps))
      else Inr (None, caps))"
  proof (rule wpE_if)
    assume s: "s < length src"
    have "safely (match_post src caps (s + 1)) (min_expand mt src ps caps (s + 1) p ep)"
      by (rule less.hyps) (use s less.prems in \<open>auto intro: caps_ok_mono\<close>)
    then have "safely (match_post src caps s) (min_expand mt src ps caps (s + 1) p ep)"
      by (rule wpE_mono) (auto intro: match_post_mono)
    then show "safely (match_post src caps s)
        (bindE (singlematch (src ! s) ps p ep) (\<lambda>b. if b then min_expand mt src ps caps (s + 1) p ep else Inr (None, caps)))"
      by (intro wpE_bind [OF singlematch_ok] wpE_if) (use less.prems in auto)
  qed simp
  ultimately show ?case
    by (subst min_expand.simps) (rule safely_retry [where s' = s], simp_all)
qed

lemma start_capture_ok:
  assumes "caps_ok src s caps" "s \<le> length src" "q \<le> p" "p \<le> length ps" "what \<in> {-1, -2}"
  shows "safely (match_post src caps s) (start_capture mt caps s p what)"
  unfolding start_capture_def
proof (rule wpE_if, simp)
  assume l: "\<not> length caps \<ge> LUA_MAXCAPTURES"
  have "safely (match_post src (caps @ [(s, what)]) s) (mt (caps @ [(s, what)]) s p)"
    by (rule mt_ok) (use assms l in \<open>auto simp: caps_ok_def cap_ok_def\<close>)
  then show "safely (match_post src caps s)
      (bindE (mt (caps @ [(s, what)]) s p) (\<lambda>(r, caps). Inr (if r = None then (r, butlast caps) else (r, caps))))"
    by (rule wpE_bind) (auto simp: match_post_def)
qed

lemma close_loop_ok:
  "safely (\<lambda>l. l < n \<and> snd (caps ! l) = CAP_UNFINISHED) (close_loop caps n)"
proof (induction n)
  case (Suc n)
  then show ?case by (auto intro: wpE_mono)
qed simp

lemma end_capture_ok:
  assumes "caps_ok src s caps" "s \<le> length src" "q \<le> p" "p \<le> length ps"
  shows "safely (match_post src caps s) (end_capture mt caps s p)"
  unfolding end_capture_def capture_to_close_def
proof (rule wpE_bind [OF close_loop_ok])
  fix l assume l: "l < length caps \<and> snd (caps ! l) = CAP_UNFINISHED"
  let ?c = "caps[l := (fst (caps ! l), int s - int (fst (caps ! l)))]"
  have ok: "cap_ok src s (fst (caps ! l), int s - int (fst (caps ! l)))"
    using caps_ok_start [OF assms(1), of l] l assms(2) by (simp add: cap_ok_def)
  have "safely (match_post src ?c s) (mt ?c s p)"
    by (rule mt_ok [OF caps_ok_update [OF assms(1) ok]]) (use assms in auto)
  then show "safely (match_post src caps s)
      (bindE (mt ?c s p) (\<lambda>(r, caps). Inr (if r = None then (r, caps[l := (fst (caps ! l), CAP_UNFINISHED)]) else (r, caps))))"
    by (rule safely_restore) (use l in \<open>simp add: list_update_same_conv prod_eq_iff\<close>)
qed

lemma match_default_ok:
  assumes "caps_ok src s caps" "s \<le> length src" "p < length ps" "q \<le> p + 1"
  shows "safely (match_post src caps s) (match_default mt src ps caps s p)"
  unfolding match_default_def
proof (rule wpE_bind [OF classend_ok [OF assms(3)]])
  fix ep assume ep: "p < ep \<and> ep \<le> length ps"
  have m1: "safely (\<lambda>b. b \<longrightarrow> s < length src) (if s < length src then singlematch (src ! s) ps p ep else Inr False)"
    using wpE_mono [OF singlematch_ok [OF assms(3)]] ep by (intro wpE_if) auto
  show "safely (match_post src caps s)
     (bindE (if s < length src then singlematch (src ! s) ps p ep else Inr False) (\<lambda>m.
      bindE (cchar ps ep) (\<lambda>x.
       if x = 63
       then if m then bindE (mt caps (s + 1) (ep + 1)) (\<lambda>(r, caps). if r \<noteq> None then Inr (r, caps) else mt caps s (ep + 1))
            else mt caps s (ep + 1)
       else if x = 42 then max_expand mt src ps caps s p ep
       else if x = 43 then if m then max_expand mt src ps caps (s + 1) p ep else Inr (None, caps)
       else if x = 45 then min_expand mt src ps caps s p ep
       else if m then mt caps (s + 1) ep else Inr (None, caps))))"
  proof (rule wpE_bind [OF m1], rule safely_cchar)
    show "ep \<le> length ps" using ep by simp
    fix m x assume m: "m \<longrightarrow> s < length src" and x: "(x :: byte) \<noteq> 0 \<Longrightarrow> ep < length ps"
    have up: "safely (match_post src caps s) (mt caps (s + 1) p')" "safely (match_post src caps (s + 1)) (mt caps (s + 1) p')"
      if "m" "q \<le> p'" "p' \<le> length ps" for p'
      using mt_ok [of "s + 1" caps p'] that m caps_ok_mono [OF assms(1), of "s + 1"] wpE_mono match_post_mono by (auto intro: wpE_mono)
    show "safely (match_post src caps s)
      (if x = 63
       then if m then bindE (mt caps (s + 1) (ep + 1)) (\<lambda>(r, caps). if r \<noteq> None then Inr (r, caps) else mt caps s (ep + 1))
            else mt caps s (ep + 1)
       else if x = 42 then max_expand mt src ps caps s p ep
       else if x = 43 then if m then max_expand mt src ps caps (s + 1) p ep else Inr (None, caps)
       else if x = 45 then min_expand mt src ps caps s p ep
       else if m then mt caps (s + 1) ep else Inr (None, caps))"
    proof (intro wpE_if)
      assume a: "x = 63" "m"
      show "safely (match_post src caps s)
          (bindE (mt caps (s + 1) (ep + 1)) (\<lambda>(r, caps). if r \<noteq> None then Inr (r, caps) else mt caps s (ep + 1)))"
        by (rule safely_retry [OF up(2)]) (use a x ep assms mt_ok in auto)
    next
      assume a: "x = 43" "m"
      have "safely (match_post src caps (s + 1)) (max_expand mt src ps caps (s + 1) p ep)"
        by (rule max_expand_ok) (use a x ep assms m in \<open>auto intro: caps_ok_mono\<close>)
      then show "safely (match_post src caps s) (max_expand mt src ps caps (s + 1) p ep)"
        by (rule wpE_mono) (auto intro: match_post_mono)
    qed (use x ep assms mt_ok up max_expand_ok min_expand_ok in auto)
  qed
qed

lemma balance_ok:
  assumes "caps_ok src s caps" "s \<le> length src" "p + 2 \<le> length ps" "q \<le> p + 4"
  shows "safely (match_post src caps s)
     (bindE (matchbalance src s ps (p + 2)) (\<lambda>r. case r of None \<Rightarrow> Inr (None, caps) | Some s \<Rightarrow> mt caps s (p + 4)))"
proof (rule wpE_bind [OF matchbalance_ok [OF assms(2,3)]])
  fix r assume r: "\<forall>e. r = Some e \<longrightarrow> s \<le> e \<and> e \<le> length src \<and> p + 2 + 2 \<le> length ps"
  show "safely (match_post src caps s) (case r of None \<Rightarrow> Inr (None, caps) | Some s \<Rightarrow> mt caps s (p + 4))"
  proof (cases r)
    case (Some e)
    then have "safely (match_post src caps e) (mt caps e (p + 4))"
      using r assms by (intro mt_ok) (auto intro: caps_ok_mono)
    then show ?thesis using Some r by (auto elim!: wpE_mono intro: match_post_mono)
  qed simp
qed

lemma backref_ok:
  assumes "caps_ok src s caps" "s \<le> length src" "p + 2 \<le> length ps" "q \<le> p + 2"
  shows "safely (match_post src caps s)
     (bindE (match_capture src caps s d) (\<lambda>r. case r of None \<Rightarrow> Inr (None, caps) | Some s \<Rightarrow> mt caps s (p + 2)))"
proof (rule wpE_bind [OF match_capture_ok [OF assms(1,2)]])
  fix r assume r: "\<forall>e. r = Some e \<longrightarrow> s \<le> e \<and> e \<le> length src"
  show "safely (match_post src caps s) (case r of None \<Rightarrow> Inr (None, caps) | Some s \<Rightarrow> mt caps s (p + 2))"
  proof (cases r)
    case (Some e)
    then have "safely (match_post src caps e) (mt caps e (p + 2))"
      using r assms by (intro mt_ok) (auto intro: caps_ok_mono)
    then show ?thesis using Some r by (auto elim!: wpE_mono intro: match_post_mono)
  qed simp
qed

lemma frontier_ok:
  assumes "caps_ok src s caps" "s \<le> length src" "p + 2 \<le> length ps" "q \<le> p + 2"
  shows "safely (match_post src caps s)
     (bindE (cchar ps (p + 2)) (\<lambda>x.
        if x \<noteq> 91 then lua_err msg
        else bindE (classend ps (p + 2)) (\<lambda>ep.
             bindE (if s = 0 then Inr 0 else cchar src (s - 1)) (\<lambda>previous.
             bindE (matchbracketclass previous ps (p + 2) (ep - 1)) (\<lambda>b1.
               if b1 then Inr (None, caps)
               else bindE (cchar src s) (\<lambda>cur.
                    bindE (matchbracketclass cur ps (p + 2) (ep - 1)) (\<lambda>b2.
                      if \<not> b2 then Inr (None, caps) else mt caps s ep)))))))"
proof (rule safely_cchar [OF assms(3)], rule wpE_if, simp, rule wpE_bind, rule classend_ok)
  fix x :: byte assume "x \<noteq> 0 \<Longrightarrow> p + 2 < length ps" "\<not> x \<noteq> 91"
  then show p: "p + 2 < length ps" by simp
  fix ep assume ep: "p + 2 < ep \<and> ep \<le> length ps"
  have br: "safely (\<lambda>_. True) (matchbracketclass c ps (p + 2) (ep - 1))" for c
    by (rule matchbracketclass_ok) (use p ep in auto)
  have pr: "safely (\<lambda>_. True) (if s = 0 then Inr 0 else cchar src (s - 1))"
    using assms(2) by (cases s) (auto simp: cchar_def)
  show "safely (match_post src caps s)
     (bindE (if s = 0 then Inr 0 else cchar src (s - 1)) (\<lambda>previous.
      bindE (matchbracketclass previous ps (p + 2) (ep - 1)) (\<lambda>b1.
        if b1 then Inr (None, caps)
        else bindE (cchar src s) (\<lambda>cur.
             bindE (matchbracketclass cur ps (p + 2) (ep - 1)) (\<lambda>b2.
               if \<not> b2 then Inr (None, caps) else mt caps s ep)))))"
    by (intro wpE_bind [OF pr] wpE_bind [OF br] wpE_if safely_cchar [OF assms(2)] mt_ok)
       (use assms ep in \<open>auto intro: mt_ok\<close>)
qed

end

lemma isdigit_nonzero: "isdigit d \<Longrightarrow> d \<noteq> 0"
  by (auto simp: isdigit_def)

lemma match_ok:
  "\<lbrakk>length ps < p + f; p \<le> length ps; caps_ok src s caps; s \<le> length src\<rbrakk> \<Longrightarrow>
   safely (match_post src caps s) (match f src ps caps s p)"
proof (induction f arbitrary: caps s p)
  case (Suc f)
  note caps = Suc.prems(3) and s = Suc.prems(4)
  have mc: "matcher_contract (match f src ps) src ps (p + 1)"
    by unfold_locales (use Suc in auto)
  note mt = matcher_contract.mt_ok [OF mc] and def = matcher_contract.match_default_ok [OF mc caps s]
    and start = matcher_contract.start_capture_ok [OF mc caps s] and endc = matcher_contract.end_capture_ok [OF mc caps s]
    and bal = matcher_contract.balance_ok [OF mc caps s] and back_ref = matcher_contract.backref_ok [OF mc caps s]
    and fr = matcher_contract.frontier_ok [OF mc caps s]
  show ?case
    unfolding match.simps Let_def
  proof (rule safely_cchar [OF Suc.prems(2)])
    fix c :: byte assume c: "c \<noteq> 0 \<Longrightarrow> p < length ps"
    note cc = safely_cchar [of "p + 1" ps]
    show "safely (match_post src caps s)
      (if c = 40 then bindE (cchar ps (p + 1)) (\<lambda>d.
           if d = 41 then start_capture (match f src ps) caps s (p + 2) CAP_POSITION
           else start_capture (match f src ps) caps s (p + 1) CAP_UNFINISHED)
       else if c = 41 then end_capture (match f src ps) caps s (p + 1)
       else if c = L_ESC then bindE (cchar ps (p + 1)) (\<lambda>d.
           if d = 98 then bindE (matchbalance src s ps (p + 2)) (\<lambda>r.
                case r of None \<Rightarrow> Inr (None, caps) | Some s \<Rightarrow> match f src ps caps s (p + 4))
           else if d = 102 then bindE (cchar ps (p + 2)) (\<lambda>x.
                if x \<noteq> 91 then lua_err ''missing '[' after '%f' in pattern''
                else bindE (classend ps (p + 2)) (\<lambda>ep.
                     bindE (if s = 0 then Inr 0 else cchar src (s - 1)) (\<lambda>previous.
                     bindE (matchbracketclass previous ps (p + 2) (ep - 1)) (\<lambda>b1.
                       if b1 then Inr (None, caps)
                       else bindE (cchar src s) (\<lambda>cur.
                            bindE (matchbracketclass cur ps (p + 2) (ep - 1)) (\<lambda>b2.
                              if \<not> b2 then Inr (None, caps) else match f src ps caps s ep))))))
           else if isdigit d then bindE (match_capture src caps s d) (\<lambda>r.
                case r of None \<Rightarrow> Inr (None, caps) | Some s \<Rightarrow> match f src ps caps s (p + 2))
           else match_default (match f src ps) src ps caps s p)
       else if c = 0 then Inr (Some s, caps)
       else if c = 36 then bindE (cchar ps (p + 1)) (\<lambda>d.
           if d = 0 then Inr (if s = length src then Some s else None, caps)
           else match_default (match f src ps) src ps caps s p)
       else match_default (match f src ps) src ps caps s p)"
    proof (intro wpE_if, goal_cases)
      case 1
      then show ?case using c
        by (intro cc wpE_if start) (auto simp: CAP_POSITION_def CAP_UNFINISHED_def)
    next
      case 2
      then show ?case using c by (intro endc) auto
    next
      case 3
      then have p: "p < length ps" using c by (simp add: L_ESC_def)
      then show ?case
        by (intro cc wpE_if bal fr back_ref def) (use isdigit_nonzero in auto)
    next
      case 4
      show ?case using caps s by (simp add: match_post_def)
    next
      case 5
      then have p: "p < length ps" using c by simp
      then show ?case using caps s
        by (intro cc wpE_if def) (auto simp: match_post_def)
    next
      case 6
      then show ?case using c by (intro def) auto
    qed
  qed
qed simp

text \<open>The contract of the matcher, for a call of \<open>match\<close> at any position of the pattern.\<close>

interpretation whole_pattern: matcher_contract "match (length ps + 1) src ps" src ps 0 for src ps
  by unfold_locales (rule match_ok, simp_all)

lemma do_match_ok:
  "s \<le> length src \<Longrightarrow> p \<le> length ps \<Longrightarrow> length src < 2 ^ 63 \<Longrightarrow> safely (match_post src [] s) (do_match src ps s p)"
  unfolding do_match_def by (rule whole_pattern.mt_ok) (simp_all add: caps_ok_def)

text \<open>
  C27: pattern matching is safe. From any position of any subject and for any pattern \<open>match\<close> returns: it
  reports an error of the pattern, or says that there is no match and leaves no capture, or gives the end
  of a match within the subject, not before its start, with at most \<open>LUA_MAXCAPTURES\<close> captures that lie
  within the subject. It never reads outside the subject or the pattern, and its depth is bounded by the
  length of the pattern.
\<close>

theorem match_safe:
  assumes "s \<le> length src" and "p \<le> length ps" and "length src < 2 ^ 63"
  shows "(\<exists>msg. do_match src ps s p = Inl (ErrRun msg))
    \<or> do_match src ps s p = Inr (None, [])
    \<or> (\<exists>e caps. do_match src ps s p = Inr (Some e, caps) \<and> s \<le> e \<and> e \<le> length src \<and> caps_ok src e caps)"
proof (cases "do_match src ps s p")
  case (Inl e)
  then show ?thesis using do_match_ok [OF assms] by (simp add: reported_def)
next
  case (Inr x)
  then show ?thesis using do_match_ok [OF assms] by (cases x, cases "fst x") (auto simp: match_post_def)
qed

text \<open>The pattern \<open>(a*)b\<close> on the subject \<open>xaab\<close> at position 1.\<close>

theorem match_safe_witness:
  "(\<exists>msg. do_match [120, 97, 97, 98] [40, 97, 42, 41, 98] 1 0 = Inl (ErrRun msg))
    \<or> do_match [120, 97, 97, 98] [40, 97, 42, 41, 98] 1 0 = Inr (None, [])
    \<or> (\<exists>e caps. do_match [120, 97, 97, 98] [40, 97, 42, 41, 98] 1 0 = Inr (Some e, caps)
         \<and> 1 \<le> e \<and> e \<le> length [120, 97, 97, 98 :: byte] \<and> caps_ok [120, 97, 97, 98] e caps)"
  by (rule match_safe) simp_all

section \<open>Plain search\<close>

lemma find_append_None: "find P xs = None \<Longrightarrow> find P (xs @ ys) = find P ys"
  by (induction xs) (auto split: if_splits)

lemma find_upt_split:
  assumes "i \<le> k" "k \<le> n" "\<forall>j. i \<le> j \<and> j < k \<longrightarrow> \<not> P j"
  shows "find P [i..<n] = find P [k..<n]"
proof -
  have "[i..<n] = [i..<k] @ [k..<n]" using upt_add_eq_append [OF assms(1), of "n - k"] assms(2) by simp
  moreover have "find P [i..<k] = None" using assms(3) by (simp add: find_None_iff)
  ultimately show ?thesis by (simp add: find_append_None)
qed

lemma find_upt_first:
  assumes "find P [i..<n] = Some j"
  shows "i \<le> j \<and> j < n \<and> P j \<and> (\<forall>k. i \<le> k \<and> k < j \<longrightarrow> \<not> P k)"
proof -
  obtain m where m: "m < n - i" "P (i + m)" "j = i + m" "\<forall>q < m. \<not> P (i + q)"
    using assms unfolding find_Some_iff by force
  have "\<not> P k" if "i \<le> k" "k < j" for k
    using m(3,4) that by (metis add_less_cancel_left le_add_diff_inverse)
  then show ?thesis using m by simp
qed

lemma seg_Cons: "j < length s \<Longrightarrow> seg j (Suc n) s = s ! j # seg (j + 1) n s"
  by (simp add: seg_def Cons_nth_drop_Suc [symmetric])

lemma lmemfind_loop_first:
  "s2 \<noteq> [] \<Longrightarrow> i + l1 + length s2 = length s + 1 \<Longrightarrow>
   lmemfind_loop s s2 i l1 = find (\<lambda>j. seg j (length s2) s = s2) [i..<i + l1]"
proof (induction l1 arbitrary: i rule: less_induct)
  case (less l1)
  let ?P = "\<lambda>j. seg j (length s2) s = s2"
  obtain c t where s2: "s2 = c # t" using less.prems(1) by (cases s2) auto
  have P: "?P j \<longleftrightarrow> s ! j = c \<and> seg (j + 1) (length t) s = t" if "j < i + l1" for j
    using that less.prems(2) s2 by (simp add: seg_Cons)
  show ?case
  proof (cases "memchr s i c l1")
    case None
    then have "\<forall>j \<in> set [i..<i + l1]. \<not> ?P j" using P by (auto simp: memchr_def find_None_iff)
    then have "find ?P [i..<i + l1] = None" unfolding find_None_iff by blast
    then show ?thesis using None s2 by (subst lmemfind_loop.simps) simp
  next
    case (Some j)
    then have j: "i \<le> j" "j < i + l1" "s ! j = c" "\<forall>k. i \<le> k \<and> k < j \<longrightarrow> s ! k \<noteq> c"
      using find_upt_first [of _ i "i + l1" j] by (auto simp: memchr_def)
    then have skip: "find ?P [i..<i + l1] = find ?P [j..<i + l1]"
      using P by (intro find_upt_split) auto
    have hd: "find ?P [j..<i + l1] = (if ?P j then Some j else find ?P [j + 1..<i + l1])"
      using j by (simp add: upt_conv_Cons)
    show ?thesis
    proof (cases "?P j")
      case True
      then show ?thesis using Some j P [OF j(2)] s2 skip hd by (subst lmemfind_loop.simps) simp
    next
      case False
      have e: "j + 1 + (l1 - (j + 1 - i)) = i + l1" using j by simp
      have "lmemfind_loop s s2 (j + 1) (l1 - (j + 1 - i)) = find ?P [j + 1..<j + 1 + (l1 - (j + 1 - i))]"
        by (rule less.IH) (use j less.prems in auto)
      then have "lmemfind_loop s s2 (j + 1) (l1 - (j + 1 - i)) = find ?P [i..<i + l1]"
        unfolding e skip hd using False by simp
      then show ?thesis using Some j P [OF j(2)] s2 False by (subst lmemfind_loop.simps) simp
    qed
  qed
qed

lemma lmemfind_first:
  assumes "i \<le> length s"
  shows "lmemfind s i (length s - i) s2 = find (\<lambda>j. seg j (length s2) s = s2) [i..<length s - length s2 + 1]"
proof -
  consider "s2 = []" | "s2 \<noteq> []" "length s2 > length s - i" | "s2 \<noteq> []" "length s2 \<le> length s - i" by linarith
  then show ?thesis
  proof cases
    case 1
    then show ?thesis using assms by (simp add: lmemfind_def seg_def upt_conv_Cons del: upt_Suc)
  next
    case 2
    have "seg j (length s2) s \<noteq> s2" if "i \<le> j" for j
    proof
      assume "seg j (length s2) s = s2"
      then have "length s2 \<le> length s - j" by (metis length_drop length_take min.cobounded1 seg_def)
      then show False using 2 that by simp
    qed
    then have "find (\<lambda>j. seg j (length s2) s = s2) [i..<length s - length s2 + 1] = None"
      unfolding find_None_iff by (metis atLeastLessThan_iff set_upt)
    then show ?thesis using 2 by (simp add: lmemfind_def)
  next
    case 3
    have "i + (length s - i - (length s2 - 1)) = length s - length s2 + 1" using 3 assms by (cases s2) auto
    then show ?thesis using 3 lmemfind_loop_first [of s2 i "length s - i - (length s2 - 1)" s] assms
      by (cases s2) (auto simp: lmemfind_def)
  qed
qed

text \<open>
  C30: plain search. \<open>string.find\<close> with the plain option gives the bounds of the first occurrence of the
  searched string at or after the start position (counted from the end when negative), or nil when there
  is none: the skipping loop of \<open>lmemfind\<close> finds what a test of every position finds.
\<close>

theorem find_plain_first:
  "str_find s ps init True =
     (let start = min (nat (posrelat init (length s) - 1)) (length s)
      in case find (\<lambda>j. seg j (length ps) s = ps) [start..<length s - length ps + 1] of
           Some j \<Rightarrow> Inr [LInt (int j + 1), LInt (int j + int (length ps))]
         | None \<Rightarrow> Inr [LNil])"
proof -
  let ?i = "posrelat init (length s) - 1"
  have "(if ?i < 0 then 0 else if nat ?i > length s then length s else nat ?i) = min (nat ?i) (length s)" by auto
  then show ?thesis
    using lmemfind_first [of "min (nat ?i) (length s)" s ps] by (simp add: str_find_def str_find_aux_def Let_def)
qed

end
