(* ===== verification/LuaGsub.thy ===== *)
theory LuaGsub
  imports LuaPattern
begin

text \<open>
  Substitution and the simple string functions: \<open>string.gsub\<close> ends and reports only errors of its
  arguments, a replacement by the match itself gives the subject back, and the functions that go
  through a string buffer compute what their list counterparts do.
\<close>

section \<open>Substitution\<close>

lemma push_onecapture_ok: "safely (\<lambda>_. True) (push_onecapture src caps i s e)"
  by (auto simp: push_onecapture_def split: prod.split)

lemma push_from_ok: "safely (\<lambda>_. True) (push_from src caps s e is)"
proof (induction "is")
  case (Cons i "is")
  show ?case unfolding push_from.simps by (intro wpE_bind [OF push_onecapture_ok] wpE_bind [OF Cons.IH]) simp
qed simp

lemma push_captures_ok: "safely (\<lambda>_. True) (push_captures src caps whole s e)"
  by (simp add: push_captures_def push_from_ok)

lemma add_s_ok: "buffer_ok b \<Longrightarrow> safely buffer_ok (add_s src caps s e news b)"
proof (induction src caps s e news b rule: add_s.induct)
  case (3 src caps s e c d news b)
  show ?case unfolding add_s.simps
    by (intro wpE_if 3 wpE_bind_eq [OF push_onecapture_ok]) (use 3(5) in \<open>simp_all add: addchar_ok addlstring_ok addvalue_ok\<close>)
qed (simp_all add: addchar_ok)

text \<open>A replacement is safe when the function or the table it names returns or reports an error.\<close>

definition repl_safe :: "repl_arg \<Rightarrow> bool" where
  "repl_safe rp = (case rp of RString _ \<Rightarrow> True | RFunction f \<Rightarrow> \<forall>vs. safely (\<lambda>_. True) (f vs)
     | RTable f \<Rightarrow> \<forall>v. safely (\<lambda>_. True) (f v))"

lemma add_result_ok: "buffer_ok b \<Longrightarrow> safely buffer_ok (add_result src s e r b)"
  by (auto simp: add_result_def addvalue_ok split: replacement.split)

lemma add_value_ok:
  assumes "buffer_ok b" "repl_safe rp"
  shows "safely buffer_ok (add_value rp src caps s e b)"
proof (cases rp)
  case (RString news)
  then show ?thesis using assms add_s_ok by (simp add: add_value_def)
next
  case (RFunction f)
  then have "\<forall>vs. safely (\<lambda>_. True) (f vs)" using assms(2) by (simp add: repl_safe_def)
  then show ?thesis unfolding add_value_def RFunction repl_arg.case
    by (intro wpE_bind [OF push_captures_ok] wpE_bind [where P = "\<lambda>_. True"] add_result_ok assms(1)) simp
next
  case (RTable f)
  then have "\<forall>v. safely (\<lambda>_. True) (f v)" using assms(2) by (simp add: repl_safe_def)
  then show ?thesis unfolding add_value_def RTable repl_arg.case
    by (intro wpE_bind [OF push_onecapture_ok] wpE_bind [where P = "\<lambda>_. True"] add_result_ok assms(1)) simp
qed

text \<open>A replacement that keeps the subject: it appends the match.\<close>

definition repl_keeps :: "repl_arg \<Rightarrow> bool" where
  "repl_keeps rp \<longleftrightarrow> rp = RString [L_ESC, 48] \<or> rp = RFunction (\<lambda>_. Inr Rnone) \<or> rp = RTable (\<lambda>_. Inr Rnone)"

definition appended :: "bool \<Rightarrow> byte list \<Rightarrow> nat \<Rightarrow> nat \<Rightarrow> luaL_Buffer \<Rightarrow> luaL_Buffer \<Rightarrow> bool" where
  "appended k src s s' b b' \<longleftrightarrow> buffer_ok b' \<and> (k \<longrightarrow> contents b' = contents b @ seg s (s' - s) src)"

lemma appended_trans:
  assumes "appended k src s s1 b b1" "appended k src s1 s2 b1 b2" "s \<le> s1" "s1 \<le> s2"
  shows "appended k src s s2 b b2"
proof -
  have "seg s (s2 - s) src = seg s (s1 - s) src @ seg s1 (s2 - s1) src"
    using seg_append [of s "s1 - s" "s2 - s1" src] assms(3,4) by simp
  then show ?thesis using assms by (auto simp: appended_def)
qed

lemma add_value_keeps:
  assumes "buffer_ok b" "repl_safe rp" "s \<le> e" "e \<le> length src"
  shows "safely (appended (repl_keeps rp) src s e b) (add_value rp src caps s e b)"
proof (cases "repl_keeps rp")
  case True
  then consider "rp = RString [L_ESC, 48]" | "rp = RFunction (\<lambda>_. Inr Rnone)" | "rp = RTable (\<lambda>_. Inr Rnone)"
    by (auto simp: repl_keeps_def)
  then show ?thesis
  proof cases
    case 1
    then show ?thesis using assms by (simp add: add_value_def isdigit_def appended_def addlstring_ok)
  next
    case 2
    show ?thesis unfolding 2 add_value_def repl_arg.case
      by (rule wpE_bind [OF push_captures_ok]) (use assms in \<open>simp add: add_result_def appended_def addvalue_ok\<close>)
  next
    case 3
    show ?thesis unfolding 3 add_value_def repl_arg.case
      by (rule wpE_bind [OF push_onecapture_ok]) (use assms in \<open>simp add: add_result_def appended_def addvalue_ok\<close>)
  qed
next
  case False
  then show ?thesis using wpE_mono [OF add_value_ok [OF assms(1,2)]] by (simp add: appended_def)
qed

text \<open>What one iteration of the loop does; when it goes on, it has moved on in the subject.\<close>

definition gsub_step :: "bool \<Rightarrow> byte list \<Rightarrow> nat \<Rightarrow> int \<Rightarrow> luaL_Buffer \<Rightarrow> int \<times> bool \<times> nat \<times> luaL_Buffer \<Rightarrow> bool" where
  "gsub_step k src s n b = (\<lambda>(n', go, s', b'). (n' = n \<or> n' = n + 1) \<and> appended k src s s' b b'
     \<and> s \<le> s' \<and> s' \<le> length src \<and> (go \<longrightarrow> s < s'))"

lemma seg_one: "s < length xs \<Longrightarrow> seg s (Suc 0) xs = [xs ! s]"
  by (simp add: seg_def Cons_nth_drop_Suc [symmetric])

text \<open>A match attempt \<open>r\<close> whose text, if any, has been appended moves on over exactly what is in the buffer.\<close>

lemma gsub_next_ok:
  assumes "s \<le> length src" "n' = n \<or> n' = n + 1"
    and "case r of None \<Rightarrow> b' = b \<and> buffer_ok b | Some e \<Rightarrow> s \<le> e \<and> e \<le> length src \<and> appended k src s e b b'"
  shows "gsub_step k src s n b (n', gsub_next src s r b')"
  using assms by (cases r) (auto simp: gsub_next_def gsub_step_def appended_def addchar_ok seg_def Cons_nth_drop_Suc [symmetric])

lemma gsub_body_ok:
  assumes "s \<le> length src" "p \<le> length ps" "length src < 2 ^ 63" "buffer_ok b" "repl_safe rp"
  shows "safely (gsub_step (repl_keeps rp) src s n b) (gsub_body rp src ps p s n b)"
  unfolding gsub_body_def
proof (rule wpE_bind [OF do_match_ok [OF assms(1-3)]], clarify)
  fix r caps assume r: "match_post src [] s (r, caps)"
  show "safely (gsub_step (repl_keeps rp) src s n b)
     (case r of Some e \<Rightarrow> bindE (add_value rp src caps s e b) (\<lambda>b. Inr (n + 1, gsub_next src s r b))
      | None \<Rightarrow> Inr (n, gsub_next src s r b))"
  proof (cases r)
    case (Some e)
    then have e: "s \<le> e" "e \<le> length src" using r by (simp_all add: match_post_def)
    show ?thesis unfolding Some option.case
      by (rule wpE_bind [OF add_value_keeps [OF assms(4,5) e]]) (use e gsub_next_ok [OF assms(1)] in simp)
  qed (use gsub_next_ok [OF assms(1), where r = None] assms(4) in simp)
qed

definition gsub_post :: "bool \<Rightarrow> byte list \<Rightarrow> nat \<Rightarrow> int \<Rightarrow> int \<Rightarrow> luaL_Buffer \<Rightarrow> nat \<times> int \<times> luaL_Buffer \<Rightarrow> bool" where
  "gsub_post k src s n m b = (\<lambda>(s', n', b'). s \<le> s' \<and> s' \<le> length src \<and> appended k src s s' b b' \<and> n \<le> n'
     \<and> n' \<le> max n m \<and> n' \<le> n + int (length src - s) + 1)"

lemma gsub_loop_ok:
  "\<lbrakk>length src - s + 2 \<le> f; s \<le> length src; p \<le> length ps; length src < 2 ^ 63; buffer_ok b; repl_safe rp\<rbrakk> \<Longrightarrow>
   safely (gsub_post (repl_keeps rp) src s n m b) (gsub_loop f rp src ps p anchor m s n b)"
proof (induction f arbitrary: s n b)
  case (Suc f)
  let ?k = "repl_keeps rp"
  show ?case unfolding gsub_loop.simps
  proof (rule wpE_if, rule wpE_bind [OF gsub_body_ok [OF Suc.prems(2-6)]], clarify)
    fix n' go s' b' assume n: "n < m" and step: "gsub_step ?k src s n b (n', go, s', b')"
    then have s': "s \<le> s'" "s' \<le> length src" "appended ?k src s s' b b'" "n' = n \<or> n' = n + 1" "go \<longrightarrow> s < s'"
      by (auto simp: gsub_step_def)
    have "safely (gsub_post ?k src s' n' m b') (gsub_loop f rp src ps p anchor m s' n' b')" if go
      by (rule Suc.IH) (use that s' Suc.prems in \<open>auto simp: appended_def\<close>)
    moreover have "gsub_post ?k src s n m b x" if go "gsub_post ?k src s' n' m b' x" for x
      using that s' n Suc.prems(2) appended_trans [OF s'(3)]
      by (cases x) (auto simp: gsub_post_def of_nat_diff)
    moreover have "gsub_post ?k src s n m b (s', n', b')"
      using s' n by (auto simp: gsub_post_def)
    ultimately show "safely (gsub_post ?k src s n m b)
        (if go \<and> \<not> anchor then gsub_loop f rp src ps p anchor m s' n' b' else Inr (s', n', b'))"
      by (auto elim!: wpE_mono)
  qed (use Suc.prems in \<open>auto simp: gsub_post_def appended_def seg_def\<close>)
qed simp

lemma str_gsub_ok:
  assumes "length src < 2 ^ 63" and "repl_safe rp"
  shows "safely (\<lambda>(t, n). 0 \<le> n \<and> n \<le> max 0 m \<and> n \<le> int (length src) + 1 \<and> (repl_keeps rp \<longrightarrow> t = src))
    (str_gsub src ps rp m)"
  unfolding str_gsub_def Let_def
proof (rule safely_cchar, simp, rule wpE_bind)
  fix c :: byte assume "c \<noteq> 0 \<Longrightarrow> 0 < length ps"
  then show "safely (gsub_post (repl_keeps rp) src 0 0 m luaL_buffinit)
      (gsub_loop (length src + 2) rp src ps (if c = 94 then 1 else 0) (c = 94) m 0 0 luaL_buffinit)"
    by (intro gsub_loop_ok) (use assms buffinit_ok in \<open>auto simp: Suc_le_eq\<close>)
next
  fix x assume "gsub_post (repl_keeps rp) src 0 0 m luaL_buffinit x"
  then show "safely (\<lambda>(t, n). 0 \<le> n \<and> n \<le> max 0 m \<and> n \<le> int (length src) + 1 \<and> (repl_keeps rp \<longrightarrow> t = src))
      (case x of (s, n, b) \<Rightarrow> Inr (luaL_pushresult (luaL_addlstring (drop s src) b), n))"
    by (cases x) (auto simp: gsub_post_def appended_def addlstring_ok lbuf.finish_ok buffinit_ok seg_def)
qed

text \<open>
  C28: substitution ends. For any pattern, subject, limit and replacement \<open>string.gsub\<close> reports an error of
  its arguments or returns a string and a number of substitutions that is neither above the limit nor
  above the number of positions of the subject; each iteration consumes a character of the subject, and
  nothing outside the subject, the pattern and the replacement is read.
\<close>

theorem gsub_ends:
  assumes "length src < 2 ^ 63" and "repl_safe rp"
  shows "(\<exists>msg. str_gsub src ps rp m = Inl (ErrRun msg))
    \<or> (\<exists>t n. str_gsub src ps rp m = Inr (t, n) \<and> 0 \<le> n \<and> n \<le> max 0 m \<and> n \<le> int (length src) + 1)"
  using str_gsub_ok [OF assms, of m ps] by (cases "str_gsub src ps rp m") (auto simp: reported_def)

text \<open>\<open>("abc"):gsub("", "-")\<close>, where the pattern matches before every character and at the end.\<close>

theorem gsub_ends_witness:
  "(\<exists>msg. str_gsub [97, 98, 99] [] (RString [45]) 4 = Inl (ErrRun msg))
    \<or> (\<exists>t n. str_gsub [97, 98, 99] [] (RString [45]) 4 = Inr (t, n)
         \<and> 0 \<le> n \<and> n \<le> max 0 4 \<and> n \<le> int (length [97, 98, 99 :: byte]) + 1)"
  by (rule gsub_ends) (simp_all add: repl_safe_def)

text \<open>
  C29: substitution by the match. When each match is replaced by itself (the replacement string \<open>%0\<close>, or a
  function or table that gives nil or false) \<open>string.gsub\<close> returns the subject unchanged, whatever the
  pattern, unless it reports a malformed pattern: no character is lost, repeated or moved by the scan.
\<close>

theorem gsub_identity:
  assumes "length src < 2 ^ 63" and "rp = RString [37, 48] \<or> rp = RFunction (\<lambda>_. Inr Rnone) \<or> rp = RTable (\<lambda>_. Inr Rnone)"
  shows "(\<exists>msg. str_gsub src ps rp m = Inl (ErrRun msg)) \<or> (\<exists>n. str_gsub src ps rp m = Inr (src, n))"
proof -
  have "repl_safe rp" "repl_keeps rp" using assms(2) by (auto simp: repl_safe_def repl_keeps_def L_ESC_def)
  then show ?thesis
    using str_gsub_ok [OF assms(1), of rp m ps] by (cases "str_gsub src ps rp m") (auto simp: reported_def)
qed

theorem gsub_identity_witness:
  "(\<exists>msg. str_gsub [97, 98] [46] (RString [37, 48]) 1 = Inl (ErrRun msg)) \<or> (\<exists>n. str_gsub [97, 98] [46] (RString [37, 48]) 1 = Inr ([97, 98], n))"
  by (rule gsub_identity) simp_all

section \<open>Functions through a buffer\<close>

lemma reverse_loop_fold: "l \<le> length s \<Longrightarrow> reverse_loop s l b = fold luaL_addchar (rev (take l s)) b"
  by (induction l arbitrary: b) (auto simp: take_Suc_conv_app_nth)

text \<open>
  the string transformers. Through the string buffers, \<open>string.reverse\<close>, \<open>lower\<close> and \<open>upper\<close> compute
  the reversal and the maps of the case conversions, and \<open>string.rep\<close> the repetition, empty for a count
  that is not positive, for strings of any length.
\<close>

theorem string_transformers:
  "str_reverse s = rev s \<and> str_lower s = map tolower s \<and> str_upper s = map toupper s
    \<and> (n \<noteq> INT_MIN \<longrightarrow> str_rep s n = Inr (concat (replicate (nat n) s)))"
proof -
  have "str_rep s n = Inr (concat (replicate (nat n) s))" if "n \<noteq> INT_MIN"
    using that lbuf.build_pieces [where s = s and n = "nat n"] by (simp add: str_rep_def lbuf.finish_ok)
  moreover have "str_lower s = map tolower s"
    using lbuf.build_chars [of "map tolower s"] by (simp add: str_lower_def fold_map comp_def)
  moreover have "str_upper s = map toupper s"
    using lbuf.build_chars [of "map toupper s"] by (simp add: str_upper_def fold_map comp_def)
  moreover have "str_reverse s = rev s"
    using lbuf.build_chars [of "rev s"] by (simp add: str_reverse_def reverse_loop_fold)
  ultimately show ?thesis by blast
qed

theorem string_transformers_witness:
  "str_reverse [1, 2] = rev [1, 2] \<and> str_lower [65, 2] = map tolower [65, 2] \<and> str_upper [1, 2] = map toupper [1, 2]
    \<and> str_rep [7, 8] 2 = Inr [7, 8, 7, 8 :: byte]"
  using string_transformers [of "[1, 2]" 2] string_transformers [of "[65, 2]" 2] string_transformers [of "[7, 8]" 2]
  by (simp add: INT_MIN_def numeral_2_eq_2)

section \<open>Slices and bytes\<close>

text \<open>
  Slices. Cutting a string at any position \<open>k\<close> that is not negative, also past its end, gives two
  slices whose concatenation is the string; a slice with both positions inside is the segment between them.
\<close>

theorem slices_split:
  assumes "0 \<le> k"
  shows "str_sub s 1 k @ str_sub s (k + 1) (-1) = s
    \<and> (\<forall>i. 1 \<le> i \<and> i \<le> k \<and> k \<le> int (length s) \<longrightarrow> str_sub s i k = seg (nat (i - 1)) (nat (k - i + 1)) s)"
proof -
  have "str_sub s 1 k @ str_sub s (k + 1) (-1) = s"
  proof (cases "k < int (length s)")
    case True
    have "str_sub s 1 k = take (nat k) s" using assms True by (auto simp: str_sub_def posrelat_def Let_def seg_def)
    moreover have "str_sub s (k + 1) (-1) = drop (nat k) s"
      using assms True by (auto simp: str_sub_def posrelat_def Let_def seg_def)
    ultimately show ?thesis by simp
  next
    case False
    then show ?thesis using assms by (cases s) (auto simp: str_sub_def posrelat_def Let_def seg_def)
  qed
  then show ?thesis by (auto simp: str_sub_def posrelat_def Let_def)
qed

theorem slices_split_witness:
  "str_sub [1, 2, 3] 1 2 @ str_sub [1, 2, 3] (2 + 1) (-1) = [1, 2, 3 :: byte] \<and> str_sub [1, 2, 3] 2 2 = [2 :: byte]"
proof
  show "str_sub [1, 2, 3] 1 2 @ str_sub [1, 2, 3] (2 + 1) (-1) = [1, 2, 3 :: byte]"
    by (rule slices_split [THEN conjunct1]) simp
  show "str_sub [1, 2, 3] 2 2 = [2 :: byte]"
    using slices_split [THEN conjunct2, of 2 "[1, 2, 3]", THEN spec [of _ 2]] by (simp add: seg_def)
qed

lemma char_loop_bytes: "char_loop (map uint s) b = Inr (fold luaL_addchar s b)"
  by (induction s arbitrary: b) auto

text \<open>
  bytes and characters. \<open>string.byte\<close> over a whole string gives its bytes, and \<open>string.char\<close> of these
  numbers is the string again, when the string has fewer bytes than an \<open>int\<close> can count and the stack has
  a slot for each of them.
\<close>

theorem byte_char_roundtrip:
  assumes "length s \<le> free" and "length s < 2 ^ 31"
  shows "str_byte free s 1 (Some (-1)) = Inr (map uint s) \<and> bindE (str_byte free s 1 (Some (-1))) str_char = Inr s"
proof -
  have n: "sint (word_of_int (int (length s)) :: 32 word) = int (length s)"
    using assms(2) by (intro sint_word_of_int_32) (simp add: in_int_def INT_MIN_def INT_MAX_def)
  have b: "str_byte free s 1 (Some (-1)) = Inr (map uint s)"
  proof (cases "s = []")
    case False
    then have "posrelat 1 (length s) = 1" "posrelat (-1) (length s) = int (length s)" "1 \<le> int (length s)"
      by (simp_all add: posrelat_def Let_def Suc_le_eq)
    then show ?thesis using n assms(1) by (auto simp: str_byte_def Let_def intro!: nth_equalityI)
  qed (simp add: str_byte_def posrelat_def)
  show ?thesis using b lbuf.build_chars [of s] by (simp add: str_char_def char_loop_bytes)
qed

theorem byte_char_roundtrip_witness:
  "str_byte 3 [0, 200] 1 (Some (-1)) = Inr (map uint [0, 200 :: byte]) \<and> bindE (str_byte 3 [0, 200] 1 (Some (-1))) str_char = Inr [0, 200]"
  by (rule byte_char_roundtrip) simp_all

end
