(* ===== verification/LuaZio.thy ===== *)
theory LuaZio
  imports Prelude
begin

text \<open>
  Buffered input streams of the interpreter (\<open>src/lua/src/lzio.h\<close>, \<open>lzio.c\<close>). The reader callback is
  the list of the blocks it will deliver; an empty block or the end of the list ends the stream.
  \<open>z_p\<close> are the bytes from the current position to the end of the block in memory, \<open>z_n\<close> is the counter
  of unread bytes, which \<open>zgetc\<close> decrements below zero at the end of a block.
\<close>

record ZIO =
  z_n :: nat
  z_p :: "byte list"
  z_blocks :: "byte list list"

definition EOZ :: int where "EOZ = -1"
definition SIZE_MAX :: nat where "SIZE_MAX = 2 ^ 64 - 1"

definition char2int :: "byte \<Rightarrow> int" where "char2int c = uint c"

definition luaZ_init :: "byte list list \<Rightarrow> ZIO" where
  "luaZ_init reader = \<lparr>z_n = 0, z_p = [], z_blocks = reader\<rparr>"

definition luaZ_fill :: "ZIO \<Rightarrow> int \<times> ZIO" where
  "luaZ_fill z =
     (case z_blocks z of
        [] \<Rightarrow> (EOZ, z)
      | b # bs \<Rightarrow>
          (case b of
             [] \<Rightarrow> (EOZ, z\<lparr>z_blocks := bs\<rparr>)
           | c # cs \<Rightarrow> (char2int c, z\<lparr>z_n := length cs, z_p := cs, z_blocks := bs\<rparr>)))"

definition zgetc :: "ZIO \<Rightarrow> (int \<times> ZIO) res" where
  "zgetc z =
     (if z_n z > 0 then
        (case z_p z of
           [] \<Rightarrow> Inl OutOfBounds
         | c # cs \<Rightarrow> Inr (char2int c, z\<lparr>z_n := z_n z - 1, z_p := cs\<rparr>))
      else Inr (luaZ_fill (z\<lparr>z_n := SIZE_MAX\<rparr>)))"

definition luaZ_lookahead :: "ZIO \<Rightarrow> (int \<times> ZIO) res" where
  "luaZ_lookahead z =
     (if z_n z = 0 then
        let (c, z1) = luaZ_fill z in
        if c = EOZ then Inr (EOZ, z1)
        else Inr (c, z1\<lparr>z_n := z_n z1 + 1, z_p := word_of_int c # z_p z1\<rparr>)
      else
        case z_p z of [] \<Rightarrow> Inl OutOfBounds | c # cs \<Rightarrow> Inr (char2int c, z))"

lemma lookahead_n: "luaZ_lookahead z = Inr (c, z1) \<Longrightarrow> c \<noteq> EOZ \<Longrightarrow> 0 < z_n z1"
  by (auto simp: luaZ_lookahead_def Let_def split: if_splits prod.splits list.splits)

text \<open>
  \<open>luaZ_read\<close> returns the number of missing bytes and the bytes it copied; \<open>memcpy\<close> reads outside the
  block when the counter says more than the block has.
\<close>

function luaZ_read :: "ZIO \<Rightarrow> nat \<Rightarrow> (nat \<times> byte list \<times> ZIO) res" where
  "luaZ_read z n =
     (if n = 0 then Inr (0, [], z)
      else bindE (luaZ_lookahead z) (\<lambda>(c, z).
        if c = EOZ then Inr (n, [], z)
        else
          let m = (if n \<le> z_n z then n else z_n z) in
          if length (z_p z) < m then Inl OutOfBounds
          else
            bindE (luaZ_read (z\<lparr>z_n := z_n z - m, z_p := drop m (z_p z)\<rparr>) (n - m)) (\<lambda>(r, bs, z1).
              Inr (r, take m (z_p z) @ bs, z1))))"
  by pat_completeness auto

termination
  by (relation "measure (\<lambda>(z, n). n)") (auto dest!: lookahead_n)

declare luaZ_read.simps [simp del]

section \<open>Buffers\<close>

record Mbuffer =
  mbuf_buffer :: "byte list"
  mbuf_n :: nat

definition LUA_MINBUFFER :: nat where "LUA_MINBUFFER = 32"

definition luaZ_initbuffer :: Mbuffer where "luaZ_initbuffer = \<lparr>mbuf_buffer = [], mbuf_n = 0\<rparr>"
definition luaZ_sizebuffer :: "Mbuffer \<Rightarrow> nat" where "luaZ_sizebuffer b = length (mbuf_buffer b)"
definition luaZ_bufflen :: "Mbuffer \<Rightarrow> nat" where "luaZ_bufflen b = mbuf_n b"
definition luaZ_resetbuffer :: "Mbuffer \<Rightarrow> Mbuffer" where "luaZ_resetbuffer b = b\<lparr>mbuf_n := 0\<rparr>"

text \<open>Reallocation keeps what fits; the fresh bytes \<open>junk\<close> are whatever the memory held.\<close>

definition luaZ_resizebuffer :: "(nat \<Rightarrow> byte list) \<Rightarrow> nat \<Rightarrow> Mbuffer \<Rightarrow> Mbuffer" where
  "luaZ_resizebuffer junk sz b =
     b\<lparr>mbuf_buffer := take sz (mbuf_buffer b @ take sz (junk sz @ replicate sz 0))\<rparr>"

definition luaZ_openspace :: "(nat \<Rightarrow> byte list) \<Rightarrow> nat \<Rightarrow> Mbuffer \<Rightarrow> Mbuffer" where
  "luaZ_openspace junk n b =
     (if n > luaZ_sizebuffer b
      then luaZ_resizebuffer junk (if n < LUA_MINBUFFER then LUA_MINBUFFER else n) b
      else b)"

section \<open>The bytes of a stream\<close>

definition z_ok :: "ZIO \<Rightarrow> bool" where
  "z_ok z \<longleftrightarrow> z_n z = length (z_p z)"

definition unread :: "ZIO \<Rightarrow> byte list" where
  "unread z = z_p z @ concat (takeWhile (\<lambda>b. b \<noteq> []) (z_blocks z))"

lemma char2int_EOZ [simp]: "char2int c \<noteq> EOZ"
proof -
  have "0 \<le> uint c" by simp
  then show ?thesis unfolding char2int_def EOZ_def by linarith
qed

lemma word_of_char2int [simp]: "word_of_int (char2int c) = c"
  by (simp add: char2int_def)

lemma lookahead_cases:
  assumes "z_ok z"
  shows "(unread z = [] \<and> (\<exists>z1. luaZ_lookahead z = Inr (EOZ, z1) \<and> z_ok z1)) \<or>
         (\<exists>c z1. luaZ_lookahead z = Inr (char2int c, z1) \<and> z_ok z1 \<and> unread z1 = unread z \<and> z_p z1 \<noteq> []
                  \<and> c = hd (unread z))"
proof (cases "z_p z")
  case Nil
  with assms have n: "z_n z = 0" by (simp add: z_ok_def)
  show ?thesis
  proof (cases "z_blocks z")
    case Nil
    with n \<open>z_p z = []\<close> assms show ?thesis by (simp add: luaZ_lookahead_def luaZ_fill_def unread_def EOZ_def)
  next
    case (Cons b bs)
    show ?thesis
    proof (cases b)
      case Nil
      with Cons n \<open>z_p z = []\<close> show ?thesis
        by (simp add: luaZ_lookahead_def luaZ_fill_def unread_def EOZ_def z_ok_def)
    next
      case (Cons c cs)
      with \<open>z_blocks z = b # bs\<close> n \<open>z_p z = []\<close> show ?thesis
        by (simp add: luaZ_lookahead_def luaZ_fill_def unread_def z_ok_def)
    qed
  qed
next
  case (Cons c cs)
  with assms show ?thesis by (simp add: luaZ_lookahead_def unread_def z_ok_def)
qed

lemma read_short:
  "z_ok z \<Longrightarrow> length (unread z) < n \<Longrightarrow>
   \<exists>z1. luaZ_read z n = Inr (n - length (unread z), unread z, z1) \<and> z_ok z1"
proof (induction z n rule: luaZ_read.induct)
  case (1 z n)
  from lookahead_cases [OF 1(2)] show ?case
  proof (elim disjE exE conjE)
    fix z1 assume "unread z = []" "luaZ_lookahead z = Inr (EOZ, z1)" "z_ok z1"
    then show ?thesis using 1(3) by (subst luaZ_read.simps) auto
  next
    fix c z1 assume z1: "luaZ_lookahead z = Inr (char2int c, z1)" "z_ok z1" "unread z1 = unread z" "z_p z1 \<noteq> []"
    let ?m = "z_n z1" and ?z = "z1\<lparr>z_n := 0, z_p := []\<rparr>"
    have u: "unread z = z_p z1 @ unread ?z" unfolding z1(3) [symmetric] by (simp add: unread_def)
    then have m: "?m = length (z_p z1)" "?m \<le> length (unread z)" using z1(2) by (auto simp: z_ok_def)
    have "\<exists>z2. luaZ_read ?z (n - ?m) = Inr (n - ?m - length (unread ?z), unread ?z, z2) \<and> z_ok z2"
      using 1(1) [of "(char2int c, z1)" "char2int c" z1 ?m] 1(3) z1 m u by (auto simp: z_ok_def)
    with z1(1) m u 1(3) show ?thesis by (subst luaZ_read.simps) (auto simp: Let_def)
  qed
qed

lemma read_full:
  "z_ok z \<Longrightarrow> n \<le> length (unread z) \<Longrightarrow>
   \<exists>z1. luaZ_read z n = Inr (0, take n (unread z), z1) \<and> z_ok z1 \<and> unread z1 = drop n (unread z)"
proof (induction z n rule: luaZ_read.induct)
  case (1 z n)
  show ?case
  proof (cases "n = 0")
    case True
    with 1(2) show ?thesis by (subst luaZ_read.simps) simp
  next
    case False
    with 1(3) have "unread z \<noteq> []" by auto
    with lookahead_cases [OF 1(2)] obtain c z1 where z1: "luaZ_lookahead z = Inr (char2int c, z1)" "z_ok z1"
      "unread z1 = unread z" "z_p z1 \<noteq> []" by blast
    define m0 where "m0 = (if n \<le> z_n z1 then n else z_n z1)"
    let ?m = "m0"
    let ?z = "z1\<lparr>z_n := z_n z1 - m0, z_p := drop m0 (z_p z1)\<rparr>"
    have m: "m0 \<le> length (z_p z1)" using z1(2) by (simp add: z_ok_def m0_def)
    have ok: "z_ok ?z" using z1(2) by (simp add: z_ok_def)
    have u: "unread z = take m0 (z_p z1) @ unread ?z"
      unfolding z1(3) [symmetric] by (simp add: unread_def flip: append_assoc)
    have "m0 \<le> n" by (simp add: m0_def)
    then have len: "n - m0 \<le> length (unread ?z)" using 1(3) m u by simp
    from 1(1) [of "(char2int c, z1)" "char2int c" z1 m0] False z1 m ok len m0_def obtain z2 where
      z2: "luaZ_read ?z (n - ?m) = Inr (0, take (n - ?m) (unread ?z), z2)" "z_ok z2"
      "unread z2 = drop (n - ?m) (unread ?z)" by auto
    have "luaZ_read z n = Inr (0, take ?m (z_p z1) @ take (n - ?m) (unread ?z), z2)"
      using False z1(1) m z2(1) by (subst luaZ_read.simps) (auto simp: Let_def simp flip: m0_def)
    moreover have "take n (unread z) = take ?m (z_p z1) @ take (n - ?m) (unread ?z)"
      "drop n (unread z) = drop (n - ?m) (unread ?z)"
      unfolding u using m \<open>m0 \<le> n\<close> by simp_all
    ultimately show ?thesis using z2 by simp
  qed
qed

text \<open>
  C22: how a stream is cut into blocks does not matter: reading \<open>n\<close> bytes from any non-empty blocks
  gives the first \<open>n\<close> bytes of their concatenation, and the number of missing bytes when there are
  fewer; no byte outside a block is read.
\<close>

theorem read_any_blocks:
  assumes "[] \<notin> set bs"
  shows "\<exists>z. luaZ_read (luaZ_init bs) n = Inr (n - length (concat bs), take n (concat bs), z)
    \<and> z_ok z \<and> (n \<le> length (concat bs) \<longrightarrow> unread z = drop n (concat bs))"
proof -
  have t: "takeWhile (\<lambda>b. b \<noteq> []) bs = bs" using assms by (auto simp: takeWhile_eq_all_conv)
  have u: "unread (luaZ_init bs) = concat bs" "z_ok (luaZ_init bs)"
    unfolding unread_def luaZ_init_def z_ok_def by (simp_all add: t)
  show ?thesis
  proof (cases "n \<le> length (concat bs)")
    case True
    with read_full [OF u(2), of n] u(1) show ?thesis by auto
  next
    case False
    with read_short [OF u(2), of n] u(1) show ?thesis by auto
  qed
qed

theorem read_any_blocks_witness:
  "\<exists>z. luaZ_read (luaZ_init [[1, 2], [3], [4, 5]]) 4 = Inr (0, [1, 2, 3, 4], z)"
  using read_any_blocks [of "[[1, 2], [3], [4, 5]]" 4] by auto

end
