(* ===== verification/LuaOpcodes.thy ===== *)
theory LuaOpcodes
  imports Prelude
begin

text \<open>
  The instruction format of the Lua virtual machine (\<open>src/lua/src/lopcodes.h\<close>, \<open>lopcodes.c\<close>): a
  32-bit word with a six-bit opcode and the fields A, B and C or A and Bx. The macros are functions
  on words; those that assign to their first argument return its new value.
\<close>

type_synonym Instruction = "32 word"

datatype OpMode = iABC | iABx | iAsBx

datatype OpArgMask = OpArgN | OpArgU | OpArgR | OpArgK

datatype OpCode =
    OP_MOVE | OP_LOADK | OP_LOADBOOL | OP_LOADNIL | OP_GETUPVAL | OP_GETGLOBAL | OP_GETTABLE
  | OP_SETGLOBAL | OP_SETUPVAL | OP_SETTABLE | OP_NEWTABLE | OP_SELF | OP_ADD | OP_SUB | OP_MUL | OP_DIV
  | OP_MOD | OP_POW | OP_UNM | OP_NOT | OP_LEN | OP_CONCAT | OP_JMP | OP_EQ | OP_LT | OP_LE | OP_TEST
  | OP_TESTSET | OP_CALL | OP_TAILCALL | OP_RETURN | OP_FORLOOP | OP_FORPREP | OP_TFORLOOP | OP_SETLIST
  | OP_CLOSE | OP_CLOSURE | OP_VARARG

text \<open>The enumeration in its order; the number of an opcode is its position.\<close>

definition opcodes :: "OpCode list" where
  "opcodes =
    [OP_MOVE, OP_LOADK, OP_LOADBOOL, OP_LOADNIL, OP_GETUPVAL, OP_GETGLOBAL, OP_GETTABLE,
     OP_SETGLOBAL, OP_SETUPVAL, OP_SETTABLE, OP_NEWTABLE, OP_SELF, OP_ADD, OP_SUB, OP_MUL, OP_DIV,
     OP_MOD, OP_POW, OP_UNM, OP_NOT, OP_LEN, OP_CONCAT, OP_JMP, OP_EQ, OP_LT, OP_LE, OP_TEST,
     OP_TESTSET, OP_CALL, OP_TAILCALL, OP_RETURN, OP_FORLOOP, OP_FORPREP, OP_TFORLOOP, OP_SETLIST,
     OP_CLOSE, OP_CLOSURE, OP_VARARG]"

fun index_of :: "'a \<Rightarrow> 'a list \<Rightarrow> nat" where
  "index_of x [] = 0"
| "index_of x (y # ys) = (if x = y then 0 else Suc (index_of x ys))"

definition op_num :: "OpCode \<Rightarrow> nat" where
  "op_num o' = index_of o' opcodes"

definition NUM_OPCODES :: nat where "NUM_OPCODES = op_num OP_VARARG + 1"

section \<open>Sizes, positions, limits and masks\<close>

definition SIZE_C :: nat where "SIZE_C = 9"
definition SIZE_B :: nat where "SIZE_B = 9"
definition SIZE_Bx :: nat where "SIZE_Bx = SIZE_C + SIZE_B"
definition SIZE_A :: nat where "SIZE_A = 8"
definition SIZE_OP :: nat where "SIZE_OP = 6"
definition POS_OP :: nat where "POS_OP = 0"
definition POS_A :: nat where "POS_A = POS_OP + SIZE_OP"
definition POS_C :: nat where "POS_C = POS_A + SIZE_A"
definition POS_B :: nat where "POS_B = POS_C + SIZE_C"
definition POS_Bx :: nat where "POS_Bx = POS_C"

definition MAXARG_Bx :: int where "MAXARG_Bx = 2 ^ SIZE_Bx - 1"
definition MAXARG_sBx :: int where "MAXARG_sBx = drop_bit 1 MAXARG_Bx"
definition MAXARG_A :: int where "MAXARG_A = 2 ^ SIZE_A - 1"
definition MAXARG_B :: int where "MAXARG_B = 2 ^ SIZE_B - 1"
definition MAXARG_C :: int where "MAXARG_C = 2 ^ SIZE_C - 1"

definition MASK1 :: "nat \<Rightarrow> nat \<Rightarrow> Instruction" where
  "MASK1 n p = push_bit p (NOT (push_bit n (NOT 0)))"

definition MASK0 :: "nat \<Rightarrow> nat \<Rightarrow> Instruction" where
  "MASK0 n p = NOT (MASK1 n p)"

lemmas layout [simp] = SIZE_C_def SIZE_B_def SIZE_Bx_def SIZE_A_def SIZE_OP_def POS_OP_def POS_A_def
  POS_C_def POS_B_def POS_Bx_def

section \<open>Fields\<close>

definition GET_OPCODE :: "Instruction \<Rightarrow> int" where
  "GET_OPCODE i = uint (drop_bit POS_OP i AND MASK1 SIZE_OP 0)"

definition SET_OPCODE :: "Instruction \<Rightarrow> int \<Rightarrow> Instruction" where
  "SET_OPCODE i u = (i AND MASK0 SIZE_OP POS_OP) OR (push_bit POS_OP (word_of_int u) AND MASK1 SIZE_OP POS_OP)"

definition GETARG_A :: "Instruction \<Rightarrow> int" where
  "GETARG_A i = uint (drop_bit POS_A i AND MASK1 SIZE_A 0)"

definition SETARG_A :: "Instruction \<Rightarrow> int \<Rightarrow> Instruction" where
  "SETARG_A i u = (i AND MASK0 SIZE_A POS_A) OR (push_bit POS_A (word_of_int u) AND MASK1 SIZE_A POS_A)"

definition GETARG_B :: "Instruction \<Rightarrow> int" where
  "GETARG_B i = uint (drop_bit POS_B i AND MASK1 SIZE_B 0)"

definition SETARG_B :: "Instruction \<Rightarrow> int \<Rightarrow> Instruction" where
  "SETARG_B i u = (i AND MASK0 SIZE_B POS_B) OR (push_bit POS_B (word_of_int u) AND MASK1 SIZE_B POS_B)"

definition GETARG_C :: "Instruction \<Rightarrow> int" where
  "GETARG_C i = uint (drop_bit POS_C i AND MASK1 SIZE_C 0)"

definition SETARG_C :: "Instruction \<Rightarrow> int \<Rightarrow> Instruction" where
  "SETARG_C i u = (i AND MASK0 SIZE_C POS_C) OR (push_bit POS_C (word_of_int u) AND MASK1 SIZE_C POS_C)"

definition GETARG_Bx :: "Instruction \<Rightarrow> int" where
  "GETARG_Bx i = uint (drop_bit POS_Bx i AND MASK1 SIZE_Bx 0)"

definition SETARG_Bx :: "Instruction \<Rightarrow> int \<Rightarrow> Instruction" where
  "SETARG_Bx i u = (i AND MASK0 SIZE_Bx POS_Bx) OR (push_bit POS_Bx (word_of_int u) AND MASK1 SIZE_Bx POS_Bx)"

definition GETARG_sBx :: "Instruction \<Rightarrow> int" where
  "GETARG_sBx i = GETARG_Bx i - MAXARG_sBx"

definition SETARG_sBx :: "Instruction \<Rightarrow> int \<Rightarrow> Instruction" where
  "SETARG_sBx i b = SETARG_Bx i (b + MAXARG_sBx)"

definition CREATE_ABC :: "int \<Rightarrow> int \<Rightarrow> int \<Rightarrow> int \<Rightarrow> Instruction" where
  "CREATE_ABC o' a b c =
     ((push_bit POS_OP (word_of_int o') OR push_bit POS_A (word_of_int a))
       OR push_bit POS_B (word_of_int b)) OR push_bit POS_C (word_of_int c)"

definition CREATE_ABx :: "int \<Rightarrow> int \<Rightarrow> int \<Rightarrow> Instruction" where
  "CREATE_ABx o' a bc =
     (push_bit POS_OP (word_of_int o') OR push_bit POS_A (word_of_int a)) OR push_bit POS_Bx (word_of_int bc)"

text \<open>Operands that are a register or a constant.\<close>

definition BITRK :: int where "BITRK = push_bit (SIZE_B - 1) 1"
definition ISK :: "int \<Rightarrow> bool" where "ISK x \<longleftrightarrow> x AND BITRK \<noteq> 0"
definition INDEXK :: "int \<Rightarrow> int" where "INDEXK r = r AND NOT BITRK"
definition MAXINDEXRK :: int where "MAXINDEXRK = BITRK - 1"
definition RKASK :: "int \<Rightarrow> int" where "RKASK x = x OR BITRK"
definition NO_REG :: int where "NO_REG = MAXARG_A"

section \<open>Properties of the opcodes\<close>

primrec OpArgMask_num :: "OpArgMask \<Rightarrow> byte" where
  "OpArgMask_num OpArgN = 0" | "OpArgMask_num OpArgU = 1" | "OpArgMask_num OpArgR = 2" | "OpArgMask_num OpArgK = 3"

primrec OpMode_num :: "OpMode \<Rightarrow> byte" where
  "OpMode_num iABC = 0" | "OpMode_num iABx = 1" | "OpMode_num iAsBx = 2"

definition opmode :: "int \<Rightarrow> int \<Rightarrow> OpArgMask \<Rightarrow> OpArgMask \<Rightarrow> OpMode \<Rightarrow> byte" where
  "opmode t a b c m =
     (((push_bit 7 (word_of_int t) OR push_bit 6 (word_of_int a)) OR push_bit 4 (OpArgMask_num b))
        OR push_bit 2 (OpArgMask_num c)) OR OpMode_num m"

definition luaP_opmodes :: "byte list" where
  "luaP_opmodes =
    [opmode 0 1 OpArgR OpArgN iABC, opmode 0 1 OpArgK OpArgN iABx, opmode 0 1 OpArgU OpArgU iABC,
     opmode 0 1 OpArgR OpArgN iABC, opmode 0 1 OpArgU OpArgN iABC, opmode 0 1 OpArgK OpArgN iABx,
     opmode 0 1 OpArgR OpArgK iABC, opmode 0 0 OpArgK OpArgN iABx, opmode 0 0 OpArgU OpArgN iABC,
     opmode 0 0 OpArgK OpArgK iABC, opmode 0 1 OpArgU OpArgU iABC, opmode 0 1 OpArgR OpArgK iABC,
     opmode 0 1 OpArgK OpArgK iABC, opmode 0 1 OpArgK OpArgK iABC, opmode 0 1 OpArgK OpArgK iABC,
     opmode 0 1 OpArgK OpArgK iABC, opmode 0 1 OpArgK OpArgK iABC, opmode 0 1 OpArgK OpArgK iABC,
     opmode 0 1 OpArgR OpArgN iABC, opmode 0 1 OpArgR OpArgN iABC, opmode 0 1 OpArgR OpArgN iABC,
     opmode 0 1 OpArgR OpArgR iABC, opmode 0 0 OpArgR OpArgN iAsBx, opmode 1 0 OpArgK OpArgK iABC,
     opmode 1 0 OpArgK OpArgK iABC, opmode 1 0 OpArgK OpArgK iABC, opmode 1 1 OpArgR OpArgU iABC,
     opmode 1 1 OpArgR OpArgU iABC, opmode 0 1 OpArgU OpArgU iABC, opmode 0 1 OpArgU OpArgU iABC,
     opmode 0 0 OpArgU OpArgN iABC, opmode 0 1 OpArgR OpArgN iAsBx, opmode 0 1 OpArgR OpArgN iAsBx,
     opmode 1 0 OpArgN OpArgU iABC, opmode 0 0 OpArgU OpArgU iABC, opmode 0 0 OpArgN OpArgN iABC,
     opmode 0 1 OpArgU OpArgN iABx, opmode 0 1 OpArgU OpArgN iABC]"

definition luaP_opnames :: "string list" where
  "luaP_opnames =
    [''MOVE'', ''LOADK'', ''LOADBOOL'', ''LOADNIL'', ''GETUPVAL'', ''GETGLOBAL'', ''GETTABLE'',
     ''SETGLOBAL'', ''SETUPVAL'', ''SETTABLE'', ''NEWTABLE'', ''SELF'', ''ADD'', ''SUB'', ''MUL'', ''DIV'',
     ''MOD'', ''POW'', ''UNM'', ''NOT'', ''LEN'', ''CONCAT'', ''JMP'', ''EQ'', ''LT'', ''LE'', ''TEST'',
     ''TESTSET'', ''CALL'', ''TAILCALL'', ''RETURN'', ''FORLOOP'', ''FORPREP'', ''TFORLOOP'', ''SETLIST'',
     ''CLOSE'', ''CLOSURE'', ''VARARG'']"

definition LFIELDS_PER_FLUSH :: int where "LFIELDS_PER_FLUSH = 50"

definition OpMode_of :: "byte \<Rightarrow> OpMode option" where
  "OpMode_of b = (if b = 0 then Some iABC else if b = 1 then Some iABx else if b = 2 then Some iAsBx else None)"

definition OpArgMask_of :: "byte \<Rightarrow> OpArgMask" where
  "OpArgMask_of b = (if b = 0 then OpArgN else if b = 1 then OpArgU else if b = 2 then OpArgR else OpArgK)"

definition getOpMode :: "nat \<Rightarrow> OpMode option" where "getOpMode m = OpMode_of (luaP_opmodes ! m AND 3)"
definition getBMode :: "nat \<Rightarrow> OpArgMask" where "getBMode m = OpArgMask_of (drop_bit 4 (luaP_opmodes ! m) AND 3)"
definition getCMode :: "nat \<Rightarrow> OpArgMask" where "getCMode m = OpArgMask_of (drop_bit 2 (luaP_opmodes ! m) AND 3)"
definition testAMode :: "nat \<Rightarrow> bool" where "testAMode m \<longleftrightarrow> luaP_opmodes ! m AND push_bit 6 1 \<noteq> 0"
definition testTMode :: "nat \<Rightarrow> bool" where "testTMode m \<longleftrightarrow> luaP_opmodes ! m AND push_bit 7 1 \<noteq> 0"

section \<open>Lemmas\<close>

lemma bit_MASK1: "bit (MASK1 n p) k \<longleftrightarrow> k < 32 \<and> p \<le> k \<and> k < p + n"
  by (auto simp: MASK1_def bit_simps)

lemma MASK1_mask: "MASK1 n 0 = mask n"
  by (rule bit_word_eqI) (simp add: bit_MASK1 bit_mask_iff)

lemma field_uint: "uint (drop_bit p i AND MASK1 n 0) = take_bit n (drop_bit p (uint i))"
proof -
  have "take_bit LENGTH(32) (uint i) = uint i" by transfer simp
  then show ?thesis
    by (simp add: MASK1_mask take_bit_eq_mask [symmetric] unsigned_take_bit_eq unsigned_drop_bit_eq)
qed

text \<open>
  A field of \<open>n\<close> bits at position \<open>p\<close>. Reading one after writing it gives the value modulo the width;
  writing one leaves fields elsewhere alone.
\<close>

definition get_field :: "nat \<Rightarrow> nat \<Rightarrow> Instruction \<Rightarrow> int" where
  "get_field n p i = uint (drop_bit p i AND MASK1 n 0)"

definition set_field :: "nat \<Rightarrow> nat \<Rightarrow> Instruction \<Rightarrow> int \<Rightarrow> Instruction" where
  "set_field n p i u = (i AND MASK0 n p) OR (push_bit p (word_of_int u) AND MASK1 n p)"

lemma get_set_field: "p + n \<le> 32 \<Longrightarrow> get_field n p (set_field n p i u) = take_bit n u"
  unfolding get_field_def set_field_def field_uint
  by (rule bit_eqI) (auto simp: bit_simps MASK0_def bit_MASK1)

lemma get_set_field_other:
  "p + n \<le> q \<or> q + m \<le> p \<Longrightarrow> q + m \<le> 32 \<Longrightarrow> get_field m q (set_field n p i u) = get_field m q i"
  unfolding get_field_def set_field_def field_uint
  by (rule bit_eqI) (auto simp: bit_simps MASK0_def bit_MASK1)

lemmas fields_def = GET_OPCODE_def SET_OPCODE_def GETARG_A_def SETARG_A_def GETARG_B_def SETARG_B_def
  GETARG_C_def SETARG_C_def GETARG_Bx_def SETARG_Bx_def

lemma as_fields:
  "GET_OPCODE i = get_field 6 0 i" "SET_OPCODE i u = set_field 6 0 i u"
  "GETARG_A i = get_field 8 6 i" "SETARG_A i u = set_field 8 6 i u"
  "GETARG_B i = get_field 9 23 i" "SETARG_B i u = set_field 9 23 i u"
  "GETARG_C i = get_field 9 14 i" "SETARG_C i u = set_field 9 14 i u"
  "GETARG_Bx i = get_field 18 14 i" "SETARG_Bx i u = set_field 18 14 i u"
  by (simp_all add: fields_def get_field_def set_field_def)

lemma take_bit_small: "0 \<le> u \<Longrightarrow> u < 2 ^ n \<Longrightarrow> take_bit n (u :: int) = u"
  by (simp add: take_bit_int_eq_self)

lemma get_field_CREATE_ABC:
  assumes "0 \<le> o'" "o' < 64" "0 \<le> a" "a < 256" "0 \<le> b" "b < 512" "0 \<le> c" "c < 512"
  shows "get_field 6 0 (CREATE_ABC o' a b c) = o'" and "get_field 8 6 (CREATE_ABC o' a b c) = a"
    and "get_field 9 23 (CREATE_ABC o' a b c) = b" and "get_field 9 14 (CREATE_ABC o' a b c) = c"
proof -
  have hi: "k < n" if "bit x k" "0 \<le> x" "x < 2 ^ n" for x :: int and n k
    using take_bit_small [OF that(2,3)] that(1) by (metis bit_take_bit_iff)
  have ho: "k < 6" if "bit o' k" for k using hi [OF that] assms by simp
  have ha: "k < 8" if "bit a k" for k using hi [OF that] assms by simp
  have hb: "k < 9" if "bit b k" for k using hi [OF that] assms by simp
  have hc: "k < 9" if "bit c k" for k using hi [OF that] assms by simp
  note b = get_field_def field_uint CREATE_ABC_def
  show "get_field 6 0 (CREATE_ABC o' a b c) = o'" unfolding b
    by (rule bit_eqI) (auto simp: bit_simps dest: ho)
  show "get_field 8 6 (CREATE_ABC o' a b c) = a" unfolding b
    by (rule bit_eqI) (auto simp: bit_simps dest: ho ha)
  show "get_field 9 23 (CREATE_ABC o' a b c) = b" unfolding b
    by (rule bit_eqI) (auto simp: bit_simps dest: ho ha hb hc)
  show "get_field 9 14 (CREATE_ABC o' a b c) = c" unfolding b
    by (rule bit_eqI) (auto simp: bit_simps dest: ho ha hc)
qed

section \<open>Properties\<close>

text \<open>
  An instruction composed from an opcode and arguments within their widths gives back exactly
  these arguments, and its Bx argument is B and C together.
\<close>

theorem instruction_fields:
  assumes "0 \<le> o'" "o' < 64" "0 \<le> a" "a \<le> MAXARG_A" "0 \<le> b" "b \<le> MAXARG_B" "0 \<le> c" "c \<le> MAXARG_C"
  defines "i \<equiv> CREATE_ABC o' a b c"
  shows "GET_OPCODE i = o' \<and> GETARG_A i = a \<and> GETARG_B i = b \<and> GETARG_C i = c
         \<and> GETARG_Bx i = b * 512 + c"
proof -
  have l: "a < 256" "b < 512" "c < 512" using assms(4,6,8) by (simp_all add: MAXARG_A_def MAXARG_B_def MAXARG_C_def)
  note f = get_field_CREATE_ABC [OF assms(1,2,3) l(1) assms(5) l(2) assms(7) l(3), folded i_def]
  have "get_field 18 14 i = get_field 9 23 i * 512 + get_field 9 14 i"
  proof -
    have "take_bit 18 (drop_bit 14 (uint i)) = push_bit 9 (take_bit 9 (drop_bit 23 (uint i))) + take_bit 9 (drop_bit 14 (uint i))"
      by (subst disjunctive_add) (auto simp: bit_simps intro!: bit_eqI)
    then show ?thesis by (simp add: get_field_def field_uint push_bit_eq_mult)
  qed
  with f show ?thesis by (simp add: as_fields)
qed

theorem instruction_fields_witness:
  "GET_OPCODE (CREATE_ABC 12 3 256 511) = 12 \<and> GETARG_A (CREATE_ABC 12 3 256 511) = 3
   \<and> GETARG_B (CREATE_ABC 12 3 256 511) = 256 \<and> GETARG_C (CREATE_ABC 12 3 256 511) = 511"
  using instruction_fields [of 12 3 256 511] by (simp add: MAXARG_A_def MAXARG_B_def MAXARG_C_def)

text \<open>
  C23: patching the signed argument of an instruction stores every offset from \<open>-MAXARG_sBx\<close> to
  \<open>MAXARG_sBx\<close> exactly and leaves the opcode and the argument A alone; patching A, B or C changes that
  argument only.
\<close>

theorem patch_instruction:
  assumes "- MAXARG_sBx \<le> b" and "b \<le> MAXARG_sBx"
  shows "GETARG_sBx (SETARG_sBx i b) = b \<and> GETARG_A (SETARG_sBx i b) = GETARG_A i
    \<and> GET_OPCODE (SETARG_sBx i b) = GET_OPCODE i
    \<and> GETARG_A (SETARG_A i u) = u mod 256 \<and> GETARG_Bx (SETARG_A i u) = GETARG_Bx i
    \<and> GETARG_B (SETARG_B i u) = u mod 512 \<and> GETARG_A (SETARG_B i u) = GETARG_A i \<and> GETARG_C (SETARG_B i u) = GETARG_C i
    \<and> GETARG_C (SETARG_C i u) = u mod 512 \<and> GETARG_A (SETARG_C i u) = GETARG_A i \<and> GETARG_B (SETARG_C i u) = GETARG_B i"
proof -
  have "MAXARG_sBx = 131071" by (simp add: MAXARG_sBx_def MAXARG_Bx_def drop_bit_eq_div)
  with assms have "GETARG_sBx (SETARG_sBx i b) = b"
    by (simp add: GETARG_sBx_def SETARG_sBx_def as_fields get_set_field take_bit_int_eq_self)
  then show ?thesis
    by (simp add: SETARG_sBx_def as_fields get_set_field get_set_field_other take_bit_eq_mod)
qed

theorem patch_instruction_witness:
  "GETARG_sBx (SETARG_sBx (CREATE_ABx 22 0 0) (-7)) = -7"
  using patch_instruction [of "-7" "CREATE_ABx 22 0 0"]
  by (simp add: MAXARG_sBx_def MAXARG_Bx_def drop_bit_eq_div)

text \<open>
  What the table of modes says of each opcode: the tests are the comparisons, \<open>OP_TEST\<close>,
  \<open>OP_TESTSET\<close> and \<open>OP_TFORLOOP\<close>; the instructions with a signed argument are the jump and the two
  of the numeric \<open>for\<close>; those with an unsigned Bx load a constant, a global or a closure; and each
  opcode has a name.
\<close>

theorem opmodes_table:
  "(testTMode (op_num x) \<longleftrightarrow> x \<in> {OP_EQ, OP_LT, OP_LE, OP_TEST, OP_TESTSET, OP_TFORLOOP})
   \<and> getOpMode (op_num x) =
       Some (if x \<in> {OP_JMP, OP_FORLOOP, OP_FORPREP} then iAsBx
             else if x \<in> {OP_LOADK, OP_GETGLOBAL, OP_SETGLOBAL, OP_CLOSURE} then iABx else iABC)
   \<and> op_num x < length luaP_opmodes \<and> op_num x < length luaP_opnames \<and> opcodes ! op_num x = x"
  by (cases x) (simp_all add: op_num_def opcodes_def luaP_opmodes_def luaP_opnames_def opmode_def testTMode_def
      getOpMode_def OpMode_of_def)

end
