(* ===== verification/LuaDump.thy ===== *)
theory LuaDump
  imports LuaZio LuaObject LuaOpcodes
begin

text \<open>
  Saving and loading precompiled chunks (\<open>src/lua/src/ldump.c\<close>, \<open>lundump.c\<close>, \<open>lundump.h\<close>) on a machine
  with 4-byte \<open>int\<close>, 8-byte \<open>size_t\<close> and little-endian memory. Function prototypes form a tree, the
  writer callback and the bytecode check \<open>luaG_checkcode\<close> are parameters, and allocation succeeds.
\<close>

section \<open>Prototypes\<close>

type_synonym tstring = "byte list option"  \<comment> \<open>a pointer to a string, or null\<close>

record LocVar =
  lv_varname :: tstring
  lv_startpc :: int
  lv_endpc :: int

datatype Proto = Proto
  (pf_source: tstring) (pf_linedefined: int) (pf_lastlinedefined: int)
  (pf_nups: byte) (pf_numparams: byte) (pf_is_vararg: byte) (pf_maxstacksize: byte)
  (pf_code: "Instruction list") (pf_k: "TValue list") (pf_p: "Proto list")
  (pf_lineinfo: "int list") (pf_locvars: "LocVar list") (pf_upvalues: "tstring list")

text \<open>The memory image of a machine word.\<close>

fun le_bytes :: "nat \<Rightarrow> 'a::len word \<Rightarrow> byte list" where
  "le_bytes 0 v = []"
| "le_bytes (Suc n) v = ucast v # le_bytes n (drop_bit 8 v)"

fun le_val :: "byte list \<Rightarrow> 'a::len word" where
  "le_val [] = 0"
| "le_val (b # bs) = ucast b OR push_bit 8 (le_val bs)"

definition LUAC_VERSION :: int where "LUAC_VERSION = 0x51"
definition LUAC_FORMAT :: int where "LUAC_FORMAT = 0"
definition LUAC_HEADERSIZE :: nat where "LUAC_HEADERSIZE = 12"
definition LUA_SIGNATURE :: "byte list" where "LUA_SIGNATURE = [27, 76, 117, 97]"

definition luaU_header :: "byte list" where
  "luaU_header = LUA_SIGNATURE @
     [word_of_int LUAC_VERSION, word_of_int LUAC_FORMAT, hd (le_bytes 4 (1 :: 32 word)), 4, 8, 4, 8, 0]"

section \<open>Dumping\<close>

record 'w DumpState =
  d_data :: 'w
  d_strip :: bool
  d_status :: int

type_synonym 'w writer = "byte list \<Rightarrow> 'w \<Rightarrow> int \<times> 'w"

definition DumpBlock :: "'w writer \<Rightarrow> byte list \<Rightarrow> 'w DumpState \<Rightarrow> 'w DumpState" where
  "DumpBlock W b D =
     (if d_status D = 0
      then let (st, w) = W b (d_data D) in D\<lparr>d_status := st, d_data := w\<rparr>
      else D)"

definition DumpChar :: "'w writer \<Rightarrow> byte \<Rightarrow> 'w DumpState \<Rightarrow> 'w DumpState" where
  "DumpChar W y = DumpBlock W [y]"

definition DumpInt :: "'w writer \<Rightarrow> int \<Rightarrow> 'w DumpState \<Rightarrow> 'w DumpState" where
  "DumpInt W x = DumpBlock W (le_bytes 4 (word_of_int x :: 32 word))"

definition DumpNumber :: "'w writer \<Rightarrow> lua_Number \<Rightarrow> 'w DumpState \<Rightarrow> 'w DumpState" where
  "DumpNumber W x = DumpBlock W (le_bytes 8 x)"

definition DumpVector :: "'w writer \<Rightarrow> byte list \<Rightarrow> int \<Rightarrow> 'w DumpState \<Rightarrow> 'w DumpState" where
  "DumpVector W b n D = DumpBlock W b (DumpInt W n D)"

definition DumpString :: "'w writer \<Rightarrow> tstring \<Rightarrow> 'w DumpState \<Rightarrow> 'w DumpState" where
  "DumpString W s D =
     (case s of
        None \<Rightarrow> DumpBlock W (le_bytes 8 (0 :: 64 word)) D
      | Some bs \<Rightarrow>
          DumpBlock W (bs @ [0]) (DumpBlock W (le_bytes 8 (word_of_nat (length bs + 1) :: 64 word)) D))"

definition DumpCode :: "'w writer \<Rightarrow> Instruction list \<Rightarrow> 'w DumpState \<Rightarrow> 'w DumpState" where
  "DumpCode W cd = DumpVector W (concat (map (le_bytes 4) cd)) (int (length cd))"

definition DumpConstant :: "'w writer \<Rightarrow> TValue \<Rightarrow> 'w DumpState \<Rightarrow> 'w DumpState" where
  "DumpConstant W v D =
     (let D = DumpChar W (word_of_nat (ttype v)) D in
      case v of
        TNil \<Rightarrow> D
      | TBoolean b \<Rightarrow> DumpChar W (if b then 1 else 0) D
      | TNumber x \<Rightarrow> DumpNumber W x D
      | TString s \<Rightarrow> DumpString W (Some s) D
      | _ \<Rightarrow> D)"

definition DumpLocVar :: "'w writer \<Rightarrow> LocVar \<Rightarrow> 'w DumpState \<Rightarrow> 'w DumpState" where
  "DumpLocVar W v D = DumpInt W (lv_endpc v) (DumpInt W (lv_startpc v) (DumpString W (lv_varname v) D))"

text \<open>A loop \<open>for (i=0; i<n; i++)\<close> that dumps the elements of an array.\<close>

definition dump_each :: "('a \<Rightarrow> 'w DumpState \<Rightarrow> 'w DumpState) \<Rightarrow> 'a list \<Rightarrow> 'w DumpState \<Rightarrow> 'w DumpState" where
  "dump_each f xs D = fold f xs D"

definition DumpDebug ::
    "'w writer \<Rightarrow> int list \<Rightarrow> LocVar list \<Rightarrow> tstring list \<Rightarrow> 'w DumpState \<Rightarrow> 'w DumpState" where
  "DumpDebug W lineinfo locvars upvalues D =
     (let lineinfo = (if d_strip D then [] else lineinfo);
          locvars = (if d_strip D then [] else locvars);
          upvalues = (if d_strip D then [] else upvalues);
          D = DumpVector W (concat (map (\<lambda>i. le_bytes 4 (word_of_int i :: 32 word)) lineinfo)) (int (length lineinfo)) D;
          D = DumpInt W (int (length locvars)) D;
          D = dump_each (DumpLocVar W) locvars D;
          D = DumpInt W (int (length upvalues)) D
      in dump_each (DumpString W) upvalues D)"

fun DumpFunction :: "'w writer \<Rightarrow> Proto \<Rightarrow> tstring \<Rightarrow> 'w DumpState \<Rightarrow> 'w DumpState"
  and DumpFunctions :: "'w writer \<Rightarrow> Proto list \<Rightarrow> tstring \<Rightarrow> 'w DumpState \<Rightarrow> 'w DumpState" where
  "DumpFunction W (Proto src ldef lldef nups npar vararg mstack cd k p li lv uv) psrc D =
     (let D = DumpString W (if src = psrc \<or> d_strip D then None else src) D;
          D = DumpInt W ldef D;
          D = DumpInt W lldef D;
          D = DumpChar W nups D;
          D = DumpChar W npar D;
          D = DumpChar W vararg D;
          D = DumpChar W mstack D;
          D = DumpCode W cd D;
          D = DumpInt W (int (length k)) D;
          D = dump_each (DumpConstant W) k D;
          D = DumpInt W (int (length p)) D;
          D = DumpFunctions W p src D
      in DumpDebug W li lv uv D)"
| "DumpFunctions W [] psrc D = D"
| "DumpFunctions W (f # fs) psrc D = DumpFunctions W fs psrc (DumpFunction W f psrc D)"

definition DumpHeader :: "'w writer \<Rightarrow> 'w DumpState \<Rightarrow> 'w DumpState" where
  "DumpHeader W = DumpBlock W luaU_header"

definition luaU_dump :: "'w writer \<Rightarrow> Proto \<Rightarrow> 'w \<Rightarrow> bool \<Rightarrow> int \<times> 'w" where
  "luaU_dump W f data strip =
     (let D = \<lparr>d_data = data, d_strip = strip, d_status = 0\<rparr>;
          D = DumpHeader W D;
          D = DumpFunction W f None D
      in (d_status D, d_data D))"

section \<open>Loading\<close>

datatype load_error = Load_Syntax string | Load_UB ub

type_synonym 'a loader = "ZIO \<Rightarrow> load_error + 'a \<times> ZIO"

definition chunk_error :: "string \<Rightarrow> string \<Rightarrow> load_error" where
  "chunk_error name why = Load_Syntax (name @ '': '' @ why @ '' in precompiled chunk'')"

definition LoadBlock :: "string \<Rightarrow> nat \<Rightarrow> byte list loader" where
  "LoadBlock name sz Z =
     (case luaZ_read Z sz of
        Inl e \<Rightarrow> Inl (Load_UB e)
      | Inr (r, bs, Z) \<Rightarrow> if r \<noteq> 0 then Inl (chunk_error name ''unexpected end'') else Inr (bs, Z))"

definition LoadByte :: "string \<Rightarrow> byte loader" where
  "LoadByte name Z = bindE (LoadBlock name 1 Z) (\<lambda>(bs, Z). Inr (hd bs, Z))"

definition LoadChar :: "string \<Rightarrow> int loader" where
  "LoadChar name Z = bindE (LoadBlock name 1 Z) (\<lambda>(bs, Z). Inr (sint (hd bs), Z))"

definition LoadInt :: "string \<Rightarrow> int loader" where
  "LoadInt name Z =
     bindE (LoadBlock name 4 Z) (\<lambda>(bs, Z).
       let x = sint (le_val bs :: 32 word)
       in if x < 0 then Inl (chunk_error name ''bad integer'') else Inr (x, Z))"

definition LoadNumber :: "string \<Rightarrow> lua_Number loader" where
  "LoadNumber name Z = bindE (LoadBlock name 8 Z) (\<lambda>(bs, Z). Inr (le_val bs, Z))"

definition LoadString :: "string \<Rightarrow> tstring loader" where
  "LoadString name Z =
     bindE (LoadBlock name 8 Z) (\<lambda>(bs, Z).
       let sz = unat (le_val bs :: 64 word)
       in if sz = 0 then Inr (None, Z)
          else bindE (LoadBlock name sz Z) (\<lambda>(s, Z). Inr (Some (take (sz - 1) s), Z)))"

text \<open>A loop that loads \<open>n\<close> elements of an array.\<close>

fun load_times :: "nat \<Rightarrow> 'a loader \<Rightarrow> 'a list loader" where
  "load_times 0 ld Z = Inr ([], Z)"
| "load_times (Suc n) ld Z =
     bindE (ld Z) (\<lambda>(x, Z). bindE (load_times n ld Z) (\<lambda>(xs, Z). Inr (x # xs, Z)))"

fun words_of :: "nat \<Rightarrow> byte list \<Rightarrow> 32 word list" where
  "words_of 0 bs = []"
| "words_of (Suc n) bs = le_val (take 4 bs) # words_of n (drop 4 bs)"

definition LoadCode :: "string \<Rightarrow> Instruction list loader" where
  "LoadCode name Z =
     bindE (LoadInt name Z) (\<lambda>(n, Z).
     bindE (LoadBlock name (nat n * 4) Z) (\<lambda>(bs, Z). Inr (words_of (nat n) bs, Z)))"

text \<open>
  A string constant whose size is 0 becomes a value with a null string pointer, which the model
  reports when it is created.
\<close>

definition LoadConstant :: "string \<Rightarrow> TValue loader" where
  "LoadConstant name Z =
     bindE (LoadChar name Z) (\<lambda>(t, Z).
       if t = 0 then Inr (TNil, Z)
       else if t = 1 then bindE (LoadChar name Z) (\<lambda>(b, Z). Inr (TBoolean (b \<noteq> 0), Z))
       else if t = 3 then bindE (LoadNumber name Z) (\<lambda>(x, Z). Inr (TNumber x, Z))
       else if t = 4 then
         bindE (LoadString name Z) (\<lambda>(s, Z).
           case s of None \<Rightarrow> Inl (Load_UB NullDeref) | Some bs \<Rightarrow> Inr (TString bs, Z))
       else Inl (chunk_error name ''bad constant''))"

definition LoadLocVar :: "string \<Rightarrow> LocVar loader" where
  "LoadLocVar name Z =
     bindE (LoadString name Z) (\<lambda>(v, Z).
     bindE (LoadInt name Z) (\<lambda>(a, Z).
     bindE (LoadInt name Z) (\<lambda>(b, Z). Inr (\<lparr>lv_varname = v, lv_startpc = a, lv_endpc = b\<rparr>, Z))))"

definition LoadDebug :: "string \<Rightarrow> (int list \<times> LocVar list \<times> tstring list) loader" where
  "LoadDebug name Z =
     bindE (LoadInt name Z) (\<lambda>(n, Z).
     bindE (LoadBlock name (nat n * 4) Z) (\<lambda>(bs, Z).
     bindE (LoadInt name Z) (\<lambda>(m, Z).
     bindE (load_times (nat m) (LoadLocVar name) Z) (\<lambda>(lv, Z).
     bindE (LoadInt name Z) (\<lambda>(u, Z).
     bindE (load_times (nat u) (LoadString name) Z) (\<lambda>(uv, Z).
       Inr ((map sint (words_of (nat n) bs), lv, uv), Z)))))))"

text \<open>
  The first argument is the number of C calls left, \<open>LUAI_MAXCCALLS\<close> (200) minus \<open>L->nCcalls\<close>; \<open>p\<close> is the
  source of the enclosing function.
\<close>

fun LoadFunction :: "nat \<Rightarrow> (Proto \<Rightarrow> bool) \<Rightarrow> string \<Rightarrow> tstring \<Rightarrow> Proto loader" where
  "LoadFunction 0 chk name p Z = Inl (chunk_error name ''code too deep'')"
| "LoadFunction (Suc d) chk name p Z =
     bindE (LoadString name Z) (\<lambda>(src, Z).
     let src = (if src = None then p else src) in
     bindE (LoadInt name Z) (\<lambda>(ldef, Z).
     bindE (LoadInt name Z) (\<lambda>(lldef, Z).
     bindE (LoadByte name Z) (\<lambda>(nups, Z).
     bindE (LoadByte name Z) (\<lambda>(npar, Z).
     bindE (LoadByte name Z) (\<lambda>(vararg, Z).
     bindE (LoadByte name Z) (\<lambda>(mstack, Z).
     bindE (LoadCode name Z) (\<lambda>(cd, Z).
     bindE (LoadInt name Z) (\<lambda>(n, Z).
     bindE (load_times (nat n) (LoadConstant name) Z) (\<lambda>(k, Z).
     bindE (LoadInt name Z) (\<lambda>(n, Z).
     bindE (load_times (nat n) (LoadFunction d chk name src) Z) (\<lambda>(ps, Z).
     bindE (LoadDebug name Z) (\<lambda>((li, lv, uv), Z).
       let f = Proto src ldef lldef nups npar vararg mstack cd k ps li lv uv
       in if \<not> chk f then Inl (chunk_error name ''bad code'') else Inr (f, Z))))))))))))))"

definition LoadHeader :: "string \<Rightarrow> unit loader" where
  "LoadHeader name Z =
     bindE (LoadBlock name LUAC_HEADERSIZE Z) (\<lambda>(s, Z).
       if s \<noteq> luaU_header then Inl (chunk_error name ''bad header'') else Inr ((), Z))"

definition chunk_name :: "string \<Rightarrow> string" where
  "chunk_name name =
     (case name of
        [] \<Rightarrow> name
      | c # cs \<Rightarrow> if c = CHR ''@'' \<or> c = CHR ''='' then cs else if c = CHR 0x1B then ''binary string'' else name)"

definition luaU_undump :: "nat \<Rightarrow> (Proto \<Rightarrow> bool) \<Rightarrow> string \<Rightarrow> Proto loader" where
  "luaU_undump d chk name Z =
     (let nm = chunk_name name in
      bindE (LoadHeader nm Z) (\<lambda>(_, Z). LoadFunction d chk nm (Some [61, 63]) Z))"

section \<open>The format\<close>

text \<open>
  What a chunk consists of: the specification that dumping meets and loading inverts.
\<close>

lemma length_le_bytes [simp]: "length (le_bytes n v) = n"
  by (induction n arbitrary: v) auto

lemma le_val_le_bytes: "le_val (le_bytes n (v :: 'a::len word)) = take_bit (8 * n) v"
proof (induction n arbitrary: v)
  case 0
  then show ?case by simp
next
  case (Suc n)
  show ?case
    by (rule bit_word_eqI) (auto simp: Suc bit_simps)
qed

definition encInt :: "int \<Rightarrow> byte list" where "encInt i = le_bytes 4 (word_of_int i :: 32 word)"

definition encString :: "tstring \<Rightarrow> byte list" where
  "encString s = (case s of None \<Rightarrow> le_bytes 8 (0 :: 64 word)
     | Some bs \<Rightarrow> le_bytes 8 (word_of_nat (length bs + 1) :: 64 word) @ bs @ [0])"

definition encConst :: "TValue \<Rightarrow> byte list" where
  "encConst v = word_of_nat (ttype v) #
     (case v of TBoolean b \<Rightarrow> [if b then 1 else 0] | TNumber x \<Rightarrow> le_bytes 8 x
      | TString s \<Rightarrow> encString (Some s) | _ \<Rightarrow> [])"

definition encLocVar :: "LocVar \<Rightarrow> byte list" where
  "encLocVar v = encString (lv_varname v) @ encInt (lv_startpc v) @ encInt (lv_endpc v)"

definition encArray :: "('a \<Rightarrow> byte list) \<Rightarrow> 'a list \<Rightarrow> byte list" where
  "encArray e xs = encInt (int (length xs)) @ concat (map e xs)"

definition encDebug :: "int list \<Rightarrow> LocVar list \<Rightarrow> tstring list \<Rightarrow> byte list" where
  "encDebug li lv uv = encArray encInt li @ encArray encLocVar lv @ encArray encString uv"

fun encFunction :: "bool \<Rightarrow> tstring \<Rightarrow> Proto \<Rightarrow> byte list" where
  "encFunction st psrc (Proto src ldef lldef nups npar vararg mstack cd k p li lv uv) =
     encString (if src = psrc \<or> st then None else src) @ encInt ldef @ encInt lldef
     @ [nups, npar, vararg, mstack] @ encArray (le_bytes 4) cd @ encArray encConst k
     @ encInt (int (length p)) @ concat (map (encFunction st src) p)
     @ (if st then encDebug [] [] [] else encDebug li lv uv)"

section \<open>Dumping writes the format\<close>

definition app_writer :: "byte list writer" where
  "app_writer b w = (0, w @ b)"

named_theorems dump_runs \<open>what each dumping function appends\<close>

lemma DumpBlock_run [dump_runs]:
  "d_status D = 0 \<Longrightarrow> DumpBlock app_writer b D = D\<lparr>d_data := d_data D @ b\<rparr>"
  by (simp add: DumpBlock_def app_writer_def)

lemma Dump_basic_run [dump_runs]:
  "d_status D = 0 \<Longrightarrow> DumpInt app_writer i D = D\<lparr>d_data := d_data D @ encInt i\<rparr>"
  "d_status D = 0 \<Longrightarrow> DumpChar app_writer c D = D\<lparr>d_data := d_data D @ [c]\<rparr>"
  "d_status D = 0 \<Longrightarrow> DumpNumber app_writer x D = D\<lparr>d_data := d_data D @ le_bytes 8 x\<rparr>"
  by (simp_all add: DumpInt_def DumpChar_def DumpNumber_def encInt_def dump_runs)

lemma Dump_compound_run [dump_runs]:
  "d_status D = 0 \<Longrightarrow> DumpString app_writer s D = D\<lparr>d_data := d_data D @ encString s\<rparr>"
  "d_status D = 0 \<Longrightarrow> DumpVector app_writer b n D = D\<lparr>d_data := d_data D @ encInt n @ b\<rparr>"
  by (simp_all add: DumpString_def encString_def DumpVector_def dump_runs split: option.splits)

lemma Dump_items_run [dump_runs]:
  "d_status D = 0 \<Longrightarrow> DumpConstant app_writer v D = D\<lparr>d_data := d_data D @ encConst v\<rparr>"
  "d_status D = 0 \<Longrightarrow> DumpLocVar app_writer l D = D\<lparr>d_data := d_data D @ encLocVar l\<rparr>"
  "d_status D = 0 \<Longrightarrow> DumpCode app_writer cd D = D\<lparr>d_data := d_data D @ encArray (le_bytes 4) cd\<rparr>"
  by (cases v) (simp_all add: DumpConstant_def encConst_def DumpLocVar_def encLocVar_def DumpCode_def encArray_def dump_runs)

lemma dump_each_run:
  assumes "\<And>x D. d_status D = 0 \<Longrightarrow> f x D = D\<lparr>d_data := d_data D @ e x\<rparr>"
  shows "d_status D = 0 \<Longrightarrow> dump_each f xs D = D\<lparr>d_data := d_data D @ concat (map e xs)\<rparr>"
  by (induction xs arbitrary: D) (simp_all add: dump_each_def assms)

lemmas dump_arrays_run = dump_each_run [of "DumpConstant app_writer" encConst, OF Dump_items_run(1)]
  dump_each_run [of "DumpLocVar app_writer" encLocVar, OF Dump_items_run(2)]
  dump_each_run [of "DumpString app_writer" encString, OF Dump_compound_run(1)]

lemma DumpDebug_run [dump_runs]:
  "d_status D = 0 \<Longrightarrow> DumpDebug app_writer li lv uv D
     = D\<lparr>d_data := d_data D @ (if d_strip D then encDebug [] [] [] else encDebug li lv uv)\<rparr>"
  by (simp add: DumpDebug_def Let_def dump_runs dump_arrays_run encDebug_def encArray_def
      flip: encInt_def)

lemma DumpFunction_run:
  "d_status D = 0 \<Longrightarrow> DumpFunction app_writer f psrc D = D\<lparr>d_data := d_data D @ encFunction (d_strip D) psrc f\<rparr>"
  "d_status D = 0 \<Longrightarrow> DumpFunctions app_writer fs psrc D
     = D\<lparr>d_data := d_data D @ concat (map (encFunction (d_strip D) psrc) fs)\<rparr>"
  by (induction "app_writer" f psrc D and "app_writer" fs psrc D rule: DumpFunction_DumpFunctions.induct)
     (simp_all add: Let_def dump_runs dump_arrays_run encArray_def)

lemma luaU_dump_run:
  "luaU_dump app_writer f data strip = (0, data @ luaU_header @ encFunction strip None f)"
  by (simp add: luaU_dump_def DumpHeader_def dump_runs DumpFunction_run Let_def)

section \<open>Loading inverts the format\<close>

text \<open>
  \<open>loads ld bs v\<close>: from any stream that begins with the bytes \<open>bs\<close>, however it is cut into blocks, the
  loader takes exactly these bytes and returns \<open>v\<close>.
\<close>

definition zs :: "ZIO \<Rightarrow> byte list \<Rightarrow> bool" where
  "zs Z bs \<longleftrightarrow> z_ok Z \<and> unread Z = bs"

definition loads :: "'a loader \<Rightarrow> byte list \<Rightarrow> 'a \<Rightarrow> bool" where
  "loads ld bs v \<longleftrightarrow> (\<forall>Z rest. zs Z (bs @ rest) \<longrightarrow> (\<exists>Z'. ld Z = Inr (v, Z') \<and> zs Z' rest))"

lemma loads_return: "loads (\<lambda>Z. Inr (v, Z)) [] v"
  by (simp add: loads_def)

lemma loads_bind:
  assumes "loads ld b1 v1" and "loads (g v1) b2 v2"
  shows "loads (\<lambda>Z. bindE (ld Z) (\<lambda>(v, Z). g v Z)) (b1 @ b2) v2"
  unfolding loads_def
proof (intro allI impI)
  fix Z rest assume "zs Z ((b1 @ b2) @ rest)"
  then obtain Z1 where Z1: "ld Z = Inr (v1, Z1)" "zs Z1 (b2 @ rest)" using assms(1) by (auto simp: loads_def)
  then obtain Z2 where "g v1 Z1 = Inr (v2, Z2)" "zs Z2 rest" using assms(2) by (auto simp: loads_def)
  with Z1 show "\<exists>Z'. bindE (ld Z) (\<lambda>(v, Z). g v Z) = Inr (v2, Z') \<and> zs Z' rest" by simp
qed

lemma loads_map: "loads ld bs v \<Longrightarrow> w = f v \<Longrightarrow> loads (\<lambda>Z. bindE (ld Z) (\<lambda>(v, Z). Inr (f v, Z))) bs w"
  using loads_bind [of ld bs v "\<lambda>v Z. Inr (f v, Z)" "[]" w] loads_return [of w] by simp

lemma loads_block: "length bs = n \<Longrightarrow> loads (LoadBlock nm n) bs bs"
  unfolding loads_def zs_def
proof (intro allI impI, elim conjE)
  fix Z rest assume a: "length bs = n" "z_ok Z" "unread Z = bs @ rest"
  from read_full [OF a(2), of n] a obtain Z1 where
    "luaZ_read Z n = Inr (0, bs, Z1)" "z_ok Z1" "unread Z1 = rest" by auto
  then show "\<exists>Z'. LoadBlock nm n Z = Inr (bs, Z') \<and> z_ok Z' \<and> unread Z' = rest" by (simp add: LoadBlock_def)
qed

lemma loads_times:
  "(\<And>x. x \<in> set xs \<Longrightarrow> loads ld (enc x) (f x)) \<Longrightarrow>
   loads (load_times (length xs) ld) (concat (map enc xs)) (map f xs)"
proof (induction xs)
  case Nil
  then show ?case by (simp add: loads_def)
next
  case (Cons x xs)
  have hd: "loads ld (enc x) (f x)" using Cons.prems by simp
  have tl: "loads (\<lambda>Z. bindE (load_times (length xs) ld Z) (\<lambda>(xs, Z). Inr (f x # xs, Z)))
      (concat (map enc xs)) (f x # map f xs)"
    by (rule loads_map) (use Cons in auto)
  from loads_bind [where g = "\<lambda>x Z. bindE (load_times (length xs) ld Z) (\<lambda>(xs, Z). Inr (x # xs, Z))", OF hd tl]
  show ?case by (simp add: loads_def)
qed

text \<open>
  The interface between the format and a loader: on its domain the loader inverts the encoding.
  Arrays of elements come with it.
\<close>

locale chunk_item =
  fixes enc :: "'a \<Rightarrow> byte list"
    and ld :: "'a loader"
    and ok :: "'a \<Rightarrow> bool"
  assumes item: "ok x \<Longrightarrow> loads ld (enc x) x"
begin

lemma times: "list_all ok xs \<Longrightarrow> loads (load_times (length xs) ld) (concat (map enc xs)) xs"
  using loads_times [of xs ld enc "\<lambda>x. x"] item by (simp add: list_all_iff)

end

definition int_ok :: "int \<Rightarrow> bool" where "int_ok i \<longleftrightarrow> 0 \<le> i \<and> i \<le> INT_MAX"

definition string_ok :: "tstring \<Rightarrow> bool" where
  "string_ok s \<longleftrightarrow> (case s of None \<Rightarrow> True | Some bs \<Rightarrow> length bs + 1 < 2 ^ 64)"

definition const_ok :: "TValue \<Rightarrow> bool" where
  "const_ok v \<longleftrightarrow> (case v of TNil \<Rightarrow> True | TBoolean _ \<Rightarrow> True | TNumber _ \<Rightarrow> True
     | TString s \<Rightarrow> string_ok (Some s) | _ \<Rightarrow> False)"

definition locvar_ok :: "LocVar \<Rightarrow> bool" where
  "locvar_ok v \<longleftrightarrow> string_ok (lv_varname v) \<and> int_ok (lv_startpc v) \<and> int_ok (lv_endpc v)"

lemma loads_check:
  assumes "loads ld bs v" and "P v" and "loads (g v) cs w"
  shows "loads (\<lambda>Z. bindE (ld Z) (\<lambda>(v, Z). if P v then g v Z else e v Z)) (bs @ cs) w"
  using loads_bind [of ld bs v "\<lambda>v Z. if P v then g v Z else e v Z" cs w] assms by auto

interpretation int_item: chunk_item encInt "LoadInt nm" int_ok
proof
  fix x assume x: "int_ok x"
  have "sint (le_val (encInt x) :: 32 word) = x"
    using x sint_word_of_int_32 [of x]
    by (simp add: encInt_def le_val_le_bytes int_ok_def in_int_def INT_MIN_def take_bit_word_eq_self)
  then show "loads (LoadInt nm) (encInt x) x"
    using loads_bind [OF loads_block [of "encInt x" 4 nm], of "\<lambda>bs Z. let x = sint (le_val bs :: 32 word)
       in if x < 0 then Inl (chunk_error nm ''bad integer'') else Inr (x, Z)" "[]" x] x
    by (simp add: LoadInt_def [abs_def] encInt_def int_ok_def loads_return Let_def)
qed

interpretation number_item: chunk_item "le_bytes 8" "LoadNumber nm" "\<lambda>_. True"
proof
  fix x :: lua_Number
  show "loads (LoadNumber nm) (le_bytes 8 x) x"
    unfolding LoadNumber_def [abs_def]
    by (rule loads_map [OF loads_block]) (simp_all add: le_val_le_bytes take_bit_word_eq_self)
qed

lemma unat_64: "n < 2 ^ 64 \<Longrightarrow> unat (word_of_nat n :: 64 word) = n"
  by (simp add: unsigned_of_nat take_bit_nat_eq_self)

interpretation string_item: chunk_item encString "LoadString nm" string_ok
proof
  fix s assume ok: "string_ok s"
  show "loads (LoadString nm) (encString s) s"
  proof (cases s)
    case None
    then show ?thesis
      using loads_bind [OF loads_block [of "le_bytes 8 (0 :: 64 word)" 8 nm], of "\<lambda>bs Z. let sz = unat (le_val bs :: 64 word)
       in if sz = 0 then Inr (None, Z)
          else bindE (LoadBlock nm sz Z) (\<lambda>(s, Z). Inr (Some (take (sz - 1) s), Z))" "[]" None]
      by (simp add: LoadString_def [abs_def] encString_def le_val_le_bytes loads_return Let_def)
  next
    case (Some bs)
    let ?w = "word_of_nat (length bs + 1) :: 64 word"
    have "unat ?w = length bs + 1" by (rule unat_64) (use ok Some in \<open>simp add: string_ok_def\<close>)
    moreover have "loads (\<lambda>Z. bindE (LoadBlock nm (length bs + 1) Z) (\<lambda>(s, Z). Inr (Some (take (length bs + 1 - 1) s), Z)))
        (bs @ [0]) (Some bs)"
      by (rule loads_map [OF loads_block]) simp_all
    ultimately show ?thesis
      using loads_bind [OF loads_block [of "le_bytes 8 ?w" 8 nm], of "\<lambda>bs Z. let sz = unat (le_val bs :: 64 word)
       in if sz = 0 then Inr (None, Z)
          else bindE (LoadBlock nm sz Z) (\<lambda>(s, Z). Inr (Some (take (sz - 1) s), Z))" "bs @ [0]" "Some bs"] Some
      by (simp add: LoadString_def [abs_def] encString_def le_val_le_bytes take_bit_word_eq_self Let_def)
  qed
qed

lemma loads_byte: "loads (LoadByte nm) [b] b"
  unfolding LoadByte_def [abs_def] by (rule loads_map [OF loads_block]) simp_all

lemma loads_char: "loads (LoadChar nm) [b] (sint b)"
  unfolding LoadChar_def [abs_def] by (rule loads_map [OF loads_block]) simp_all

interpretation const_item: chunk_item encConst "LoadConstant nm" const_ok
proof
  fix v assume ok: "const_ok v"
  let ?g = "\<lambda>t Z. if t = 0 then Inr (TNil, Z)
       else if t = 1 then bindE (LoadChar nm Z) (\<lambda>(b, Z). Inr (TBoolean (b \<noteq> 0), Z))
       else if t = 3 then bindE (LoadNumber nm Z) (\<lambda>(x, Z). Inr (TNumber x, Z))
       else if t = 4 then
         bindE (LoadString nm Z) (\<lambda>(s, Z).
           case s of None \<Rightarrow> Inl (Load_UB NullDeref) | Some bs \<Rightarrow> Inr (TString bs, Z))
       else Inl (chunk_error nm ''bad constant'')"
  have tag: "loads (LoadConstant nm) (word_of_nat (ttype v) # cs) v" if "loads (?g (int (ttype v))) cs v" "ttype v < 128" for cs
  proof -
    have eq: "sint (word_of_nat (ttype v) :: byte) = int (ttype v)"
      using that(2) by (simp add: signed_of_nat signed_take_bit_int_eq_self)
    have "loads (?g (sint (word_of_nat (ttype v) :: byte))) cs v" unfolding eq by (rule that(1))
    from loads_bind [where g = ?g, OF loads_char this] show ?thesis by (simp add: LoadConstant_def [abs_def])
  qed
  show "loads (LoadConstant nm) (encConst v) v"
  proof (cases v)
    case (TBoolean b)
    have "loads (\<lambda>Z. bindE (LoadChar nm Z) (\<lambda>(b, Z). Inr (TBoolean (b \<noteq> 0), Z))) [if b then 1 else 0] (TBoolean b)"
      by (rule loads_map [OF loads_char]) simp
    then show ?thesis using tag TBoolean by (simp add: encConst_def)
  next
    case (TNumber x)
    have "loads (\<lambda>Z. bindE (LoadNumber nm Z) (\<lambda>(x, Z). Inr (TNumber x, Z))) (le_bytes 8 x) (TNumber x)"
      by (rule loads_map [OF number_item.item]) simp_all
    then show ?thesis using tag TNumber by (simp add: encConst_def)
  next
    case (TString s)
    have "loads (\<lambda>Z. bindE (LoadString nm Z) (\<lambda>(s, Z).
           case s of None \<Rightarrow> Inl (Load_UB NullDeref) | Some bs \<Rightarrow> Inr (TString bs, Z))) (encString (Some s) @ []) (TString s)"
      by (rule loads_bind [OF string_item.item]) (use ok TString in \<open>simp_all add: const_ok_def loads_return\<close>)
    then show ?thesis using tag TString by (simp add: encConst_def)
  qed (use ok tag [of "[]"] loads_return [of TNil] in \<open>auto simp: const_ok_def encConst_def\<close>)
qed

interpretation locvar_item: chunk_item encLocVar "LoadLocVar nm" locvar_ok
proof
  fix v assume "locvar_ok v"
  then have ok: "string_ok (lv_varname v)" "int_ok (lv_startpc v)" "int_ok (lv_endpc v)" by (simp_all add: locvar_ok_def)
  show "loads (LoadLocVar nm) (encLocVar v) v"
    unfolding LoadLocVar_def [abs_def] encLocVar_def
    by (intro loads_bind [OF string_item.item] loads_bind [OF int_item.item] loads_map [OF int_item.item] ok) simp
qed

lemma words_of_bytes: "words_of (length ws) (concat (map (le_bytes 4) ws)) = ws"
  by (induction ws) (simp_all add: le_val_le_bytes take_bit_word_eq_self)

text \<open>An array of 4-byte words behind its length.\<close>

lemma loads_words:
  assumes "int_ok (int (length ws))"
  shows "loads (\<lambda>Z. bindE (LoadInt nm Z) (\<lambda>(n, Z).
           bindE (LoadBlock nm (nat n * 4) Z) (\<lambda>(bs, Z). Inr (words_of (nat n) bs, Z)))) (encArray (le_bytes 4) ws) ws"
proof -
  have len: "length (concat (map (le_bytes 4) ws)) = nat (int (length ws)) * 4" by (induction ws) auto
  have inner: "loads (\<lambda>Z. bindE (LoadBlock nm (nat (int (length ws)) * 4) Z)
      (\<lambda>(bs, Z). Inr (words_of (nat (int (length ws))) bs, Z))) (concat (map (le_bytes 4) ws)) ws"
    by (rule loads_map [OF loads_block [OF len]]) (simp add: words_of_bytes)
  show ?thesis unfolding encArray_def
    by (rule loads_bind [where g = "\<lambda>n Z. bindE (LoadBlock nm (nat n * 4) Z) (\<lambda>(bs, Z). Inr (words_of (nat n) bs, Z))",
          OF int_item.item [OF assms] inner])
qed

lemma loads_code: "int_ok (int (length cd)) \<Longrightarrow> loads (LoadCode nm) (encArray (le_bytes 4) cd) cd"
  using loads_words by (simp add: LoadCode_def [abs_def])

lemma loads_array:
  assumes "int_ok (int (length xs))" and "loads (load_times (length xs) ld) bs xs" and "loads (g xs) cs w"
  shows "loads (\<lambda>Z. bindE (LoadInt nm Z) (\<lambda>(n, Z). bindE (load_times (nat n) ld Z) (\<lambda>(xs, Z). g xs Z)))
           ((encInt (int (length xs)) @ bs) @ cs) w"
proof -
  have "loads (\<lambda>Z. bindE (LoadInt nm Z) (\<lambda>(n, Z). bindE (load_times (nat n) ld Z) (\<lambda>(xs, Z). g xs Z)))
      (encInt (int (length xs)) @ (bs @ cs)) w"
    by (rule loads_bind [where g = "\<lambda>n Z. bindE (load_times (nat n) ld Z) (\<lambda>(xs, Z). g xs Z)",
          OF int_item.item [OF assms(1)]])
       (rule loads_bind [where g = g, OF _ assms(3)], use assms(2) in simp)
  then show ?thesis by simp
qed

definition debug_ok :: "int list \<Rightarrow> LocVar list \<Rightarrow> tstring list \<Rightarrow> bool" where
  "debug_ok li lv uv \<longleftrightarrow> int_ok (int (length li)) \<and> list_all in_int li
     \<and> int_ok (int (length lv)) \<and> list_all locvar_ok lv \<and> int_ok (int (length uv)) \<and> list_all string_ok uv"

lemma loads_debug:
  assumes "debug_ok li lv uv"
  shows "loads (LoadDebug nm) (encDebug li lv uv) (li, lv, uv)"
proof -
  let ?ws = "map word_of_int li :: 32 word list"
  have li: "int_ok (int (length ?ws))" "map sint ?ws = li"
    using assms by (auto simp: debug_ok_def list_all_iff sint_word_of_int_32 intro: map_idI)
  have enc: "encArray encInt li = encInt (int (length ?ws)) @ concat (map (le_bytes 4) ?ws)"
    by (simp add: encArray_def encInt_def [abs_def] comp_def)
  have len: "length (concat (map (le_bytes 4) ?ws)) = nat (int (length ?ws)) * 4" by (induction li) auto
  have rest: "loads (\<lambda>Z. bindE (LoadInt nm Z) (\<lambda>(m, Z).
     bindE (load_times (nat m) (LoadLocVar nm) Z) (\<lambda>(lv, Z).
     bindE (LoadInt nm Z) (\<lambda>(u, Z).
     bindE (load_times (nat u) (LoadString nm) Z) (\<lambda>(uv, Z). Inr ((li, lv, uv), Z))))))
     (encArray encLocVar lv @ encArray encString uv @ []) (li, lv, uv)"
    unfolding encArray_def
    by (intro loads_array loads_return locvar_item.times string_item.times)
       (use assms in \<open>simp_all add: debug_ok_def\<close>)
  define G where "G = (\<lambda>n bs Z. bindE (LoadInt nm Z) (\<lambda>(m, Z).
     bindE (load_times (nat m) (LoadLocVar nm) Z) (\<lambda>(lv, Z).
     bindE (LoadInt nm Z) (\<lambda>(u, Z).
     bindE (load_times (nat u) (LoadString nm) Z) (\<lambda>(uv, Z).
       Inr ((map sint (words_of (nat n) bs), lv, uv), Z))))))"
  let ?r = "encArray encLocVar lv @ encArray encString uv @ []"
  have "loads (G (int (length ?ws)) (concat (map (le_bytes 4) ?ws))) ?r (li, lv, uv)"
    using rest li(2) words_of_bytes [of ?ws] by (simp add: G_def)
  note l1 = loads_bind [where g = "G (int (length ?ws))", OF loads_block [OF len] this]
  note l2 = loads_bind [where g = "\<lambda>n Z. bindE (LoadBlock nm (nat n * 4) Z) (\<lambda>(bs, Z). G n bs Z)",
      OF int_item.item [OF li(1)] l1]
  then have "loads (LoadDebug nm) (encInt (int (length ?ws)) @ concat (map (le_bytes 4) ?ws) @ ?r) (li, lv, uv)"
    unfolding LoadDebug_def [abs_def] G_def .
  then show ?thesis by (simp add: encDebug_def enc)
qed

section \<open>Whole functions\<close>

text \<open>What is loaded back: everything, or, stripped, everything but the names and lines.\<close>

fun loaded :: "bool \<Rightarrow> tstring \<Rightarrow> Proto \<Rightarrow> Proto" where
  "loaded st p (Proto src ldef lldef nups npar vararg mstack cd k ps li lv uv) =
     (let src = (if st then p else src)
      in Proto src ldef lldef nups npar vararg mstack cd k (map (loaded st src) ps)
           (if st then [] else li) (if st then [] else lv) (if st then [] else uv))"

fun proto_depth :: "Proto \<Rightarrow> nat" where
  "proto_depth (Proto src ldef lldef nups npar vararg mstack cd k ps li lv uv) =
     Suc (foldr max (map proto_depth ps) 0)"

text \<open>
  A prototype that the format can represent: sizes and lines in the range of a non-negative \<open>int\<close>,
  constants of the four kinds, a source for every function unless it is stripped, and code that the
  bytecode check accepts.
\<close>

fun proto_ok :: "bool \<Rightarrow> (Proto \<Rightarrow> bool) \<Rightarrow> tstring \<Rightarrow> Proto \<Rightarrow> bool" where
  "proto_ok st chk p (Proto src ldef lldef nups npar vararg mstack cd k ps li lv uv) \<longleftrightarrow>
     (st \<or> src \<noteq> None) \<and> string_ok src \<and> int_ok ldef \<and> int_ok lldef \<and> int_ok (int (length cd))
     \<and> int_ok (int (length k)) \<and> list_all const_ok k \<and> int_ok (int (length ps)) \<and> debug_ok li lv uv
     \<and> chk (loaded st p (Proto src ldef lldef nups npar vararg mstack cd k ps li lv uv))
     \<and> list_all (proto_ok st chk (if st then p else src)) ps"

lemma foldr_max_le: "foldr max xs 0 \<le> (d :: nat) \<Longrightarrow> x \<in> set xs \<Longrightarrow> x \<le> d"
  by (induction xs) auto

lemma loadsE:
  assumes "loads ld bs v" and "zs Z (bs @ rest)"
  obtains Z' where "ld Z = Inr (v, Z')" and "zs Z' rest"
  using assms by (auto simp: loads_def)

lemma loads_function:
  "proto_ok st chk p f \<Longrightarrow> proto_depth f \<le> d \<Longrightarrow> st \<or> psrc = None \<or> psrc = p \<Longrightarrow>
   loads (LoadFunction d chk nm p) (encFunction st psrc f) (loaded st p f)"
proof (induction f arbitrary: d p psrc)
  case (Proto src ldef lldef nups npar vararg mstack cd k ps li lv uv)
  let ?f = "Proto src ldef lldef nups npar vararg mstack cd k ps li lv uv"
  let ?src = "if st then p else src" and ?dsrc = "if src = psrc \<or> st then None else src"
  note ok = Proto.prems(1) [unfolded proto_ok.simps]
  obtain e where d: "d = Suc e" using Proto.prems(2) by (cases d) auto
  have src: "string_ok ?dsrc" "(if ?dsrc = None then p else ?dsrc) = ?src"
    using ok Proto.prems(3) by (auto simp: string_ok_def)
  have sub: "loads (LoadFunction e chk nm ?src) (encFunction st src g) (loaded st ?src g)" if "g \<in> set ps" for g
  proof (rule Proto.IH [OF that])
    show "proto_ok st chk ?src g" using ok that by (simp add: list_all_iff)
    show "proto_depth g \<le> e"
      using foldr_max_le [of "map proto_depth ps" e] Proto.prems(2) d that by simp
  qed auto
  note ps = loads_times [of ps "LoadFunction e chk nm ?src" "encFunction st src" "loaded st ?src", OF sub]
  have debug: "loads (LoadDebug nm) (if st then encDebug [] [] [] else encDebug li lv uv)
      (if st then [] else li, if st then [] else lv, if st then [] else uv)"
    using ok loads_debug [of li lv uv nm] loads_debug [of "[]" "[]" "[]" nm]
    by (auto simp: debug_ok_def int_ok_def INT_MAX_def)
  show ?case unfolding loads_def
  proof (intro allI impI)
    fix Z rest assume Z: "zs Z (encFunction st psrc ?f @ rest)"
    let ?D = "(if st then encDebug [] [] [] else encDebug li lv uv) @ rest"
    let ?P = "encInt (int (length ps)) @ concat (map (encFunction st src) ps) @ ?D"
    let ?K = "encInt (int (length k)) @ concat (map encConst k) @ ?P"
    let ?C = "encArray (le_bytes 4) cd @ ?K"
    have i: "int_ok ldef" "int_ok lldef" "int_ok (int (length cd))" "int_ok (int (length k))"
      "list_all const_ok k" "int_ok (int (length ps))" using ok by simp_all
    obtain Z1 where Z1: "LoadString nm Z = Inr (?dsrc, Z1)"
      and z1: "zs Z1 (encInt ldef @ encInt lldef @ [nups] @ [npar] @ [vararg] @ [mstack] @ ?C)"
      by (rule loadsE [OF string_item.item [OF src(1)]]) (use Z in \<open>simp_all add: encArray_def\<close>)
    obtain Z2 where Z2: "LoadInt nm Z1 = Inr (ldef, Z2)" and z2: "zs Z2 (encInt lldef @ [nups] @ [npar] @ [vararg] @ [mstack] @ ?C)"
      by (rule loadsE [OF int_item.item [OF i(1)] z1])
    obtain Z3 where Z3: "LoadInt nm Z2 = Inr (lldef, Z3)" and z3: "zs Z3 ([nups] @ [npar] @ [vararg] @ [mstack] @ ?C)"
      by (rule loadsE [OF int_item.item [OF i(2)] z2])
    obtain Z4 where Z4: "LoadByte nm Z3 = Inr (nups, Z4)" and z4: "zs Z4 ([npar] @ [vararg] @ [mstack] @ ?C)"
      by (rule loadsE [OF loads_byte z3])
    obtain Z5 where Z5: "LoadByte nm Z4 = Inr (npar, Z5)" and z5: "zs Z5 ([vararg] @ [mstack] @ ?C)"
      by (rule loadsE [OF loads_byte z4])
    obtain Z6 where Z6: "LoadByte nm Z5 = Inr (vararg, Z6)" and z6: "zs Z6 ([mstack] @ ?C)"
      by (rule loadsE [OF loads_byte z5])
    obtain Z7 where Z7: "LoadByte nm Z6 = Inr (mstack, Z7)" and z7: "zs Z7 ?C" by (rule loadsE [OF loads_byte z6])
    obtain Z8 where Z8: "LoadCode nm Z7 = Inr (cd, Z8)" and z8: "zs Z8 ?K" by (rule loadsE [OF loads_code [OF i(3)] z7])
    obtain Z9 where Z9: "LoadInt nm Z8 = Inr (int (length k), Z9)" and z9: "zs Z9 (concat (map encConst k) @ ?P)"
      by (rule loadsE [OF int_item.item [OF i(4)] z8])
    obtain Za where Za: "load_times (length k) (LoadConstant nm) Z9 = Inr (k, Za)" and za: "zs Za ?P"
      by (rule loadsE [OF const_item.times [OF i(5)] z9])
    obtain Zb where Zb: "LoadInt nm Za = Inr (int (length ps), Zb)" and zb: "zs Zb (concat (map (encFunction st src) ps) @ ?D)"
      by (rule loadsE [OF int_item.item [OF i(6)] za])
    obtain Zc where Zc: "load_times (length ps) (LoadFunction e chk nm ?src) Zb = Inr (map (loaded st ?src) ps, Zc)" and
      zc: "zs Zc ?D" by (rule loadsE [OF ps zb])
    obtain Zd where "LoadDebug nm Zc = Inr ((if st then [] else li, if st then [] else lv, if st then [] else uv), Zd)" "zs Zd rest"
      by (rule loadsE [OF debug zc])
    moreover have "chk (loaded st p ?f)" using ok by simp
    ultimately show "\<exists>Z'. LoadFunction d chk nm p Z = Inr (loaded st p ?f, Z') \<and> zs Z' rest"
      using Z1 Z2 Z3 Z4 Z5 Z6 Z7 Z8 Z9 Za Zb Zc src(2) by (simp add: d Let_def)
  qed
qed

section \<open>Properties\<close>

lemma zs_blocks: "[] \<notin> set bs \<Longrightarrow> zs (luaZ_init bs) (concat bs)"
proof -
  assume "[] \<notin> set bs"
  then have t: "takeWhile (\<lambda>b. b \<noteq> []) bs = bs" by (auto simp: takeWhile_eq_all_conv)
  show ?thesis unfolding zs_def unread_def luaZ_init_def z_ok_def by (simp add: t)
qed

lemma loads_header: "loads (LoadHeader nm) luaU_header ()"
proof -
  have "length luaU_header = LUAC_HEADERSIZE" by (simp add: luaU_header_def LUA_SIGNATURE_def LUAC_HEADERSIZE_def)
  from loads_bind [where g = "\<lambda>s Z. if s \<noteq> luaU_header then Inl (chunk_error nm ''bad header'') else Inr ((), Z)",
      OF loads_block [OF this], of "[]" "()"]
  show ?thesis using loads_return [of "()"] by (simp add: LoadHeader_def [abs_def])
qed

text \<open>
  C21: a dumped chunk loads back as the same function. For every function that the format can
  represent and whose code passes the check, nested no deeper than the C call limit allows, the
  bytes that \<open>luaU_dump\<close> writes, cut into blocks in any way, are loaded by \<open>luaU_undump\<close> as that
  function, with all nested functions, constants, lines and names; stripped, it comes back without
  lines and names and with \<open>=?\<close> as its source.
\<close>

theorem undump_dump:
  assumes "proto_ok strip chk (Some [61, 63]) f" and "proto_depth f \<le> d"
    and "luaU_dump app_writer f [] strip = (status, bytes)"
    and "[] \<notin> set blocks" and "concat blocks = bytes"
  shows "status = 0 \<and> (\<exists>Z. luaU_undump d chk name (luaZ_init blocks) = Inr (loaded strip (Some [61, 63]) f, Z))"
proof -
  have b: "status = 0" "concat blocks = luaU_header @ encFunction strip None f @ []"
    using assms(3,5) by (simp_all add: luaU_dump_run)
  let ?nm = "chunk_name name"
  have z: "zs (luaZ_init blocks) (luaU_header @ encFunction strip None f @ [])" using zs_blocks [OF assms(4)] b(2) by simp
  obtain Z1 where Z1: "LoadHeader ?nm (luaZ_init blocks) = Inr ((), Z1)" "zs Z1 (encFunction strip None f @ [])"
    by (rule loadsE [OF loads_header z])
  obtain Z2 where "LoadFunction d chk ?nm (Some [61, 63]) Z1 = Inr (loaded strip (Some [61, 63]) f, Z2)"
    by (rule loadsE [OF loads_function [OF assms(1,2), of None] Z1(2)]) auto
  with b(1) Z1(1) show ?thesis by (simp add: luaU_undump_def Let_def)
qed

definition demo_proto :: Proto where
  "demo_proto = Proto (Some [64, 97]) 1 9 0 2 0 3 [0x4000, 0x80001E] [TNil, TBoolean True, TNumber 7, TString [104, 105]]
     [Proto (Some [64, 97]) 2 3 0 0 0 2 [0x80001E] [] [] [2] [] []] [1, 2]
     [\<lparr>lv_varname = Some [120], lv_startpc = 0, lv_endpc = 1\<rparr>] [None, Some []]"

theorem undump_dump_witness:
  "\<exists>Z. luaU_undump 200 (\<lambda>_. True) ''@a'' (luaZ_init [snd (luaU_dump app_writer demo_proto [] False)])
     = Inr (loaded False (Some [61, 63]) demo_proto, Z)"
proof -
  have ok: "proto_ok False (\<lambda>_. True) (Some [61, 63]) demo_proto" "proto_depth demo_proto \<le> 200"
    by (simp_all add: demo_proto_def string_ok_def int_ok_def INT_MAX_def const_ok_def debug_ok_def locvar_ok_def
        in_int_def INT_MIN_def)
  have ne: "snd (luaU_dump app_writer demo_proto [] False) \<noteq> []" by (simp add: luaU_dump_run luaU_header_def)
  show ?thesis
    using undump_dump [OF ok, of "fst (luaU_dump app_writer demo_proto [] False)"
        "snd (luaU_dump app_writer demo_proto [] False)" "[snd (luaU_dump app_writer demo_proto [] False)]"] ne by simp
qed

end
