(* ===== verification/LuaVerify.thy ===== *)
theory LuaVerify
  imports LuaDump
begin

text \<open>
  The code checker (\<open>symbexec\<close> and \<open>luaG_checkcode\<close> of \<open>src/lua/src/ldebug.c\<close>), which \<open>lundump.c\<close> runs on
  every function of a precompiled chunk, and of the virtual machine (\<open>luaV_execute\<close> of \<open>lvm.c\<close>) the slots
  that each instruction touches, what it does to \<open>L->top\<close>, and where execution continues. Reads of the instructions and constants are checked: one outside
  its array is the error \<open>Faults\<close>, distinct from the answer 0 of the checker, \<open>Rejected\<close>. Code sizes
  are far below the largest \<open>int\<close>, so positions are unbounded integers.
\<close>

datatype verdict = Rejected | Faults

type_synonym 'a vres = "verdict + 'a"

section \<open>Access to a function\<close>

definition sizecode :: "Proto \<Rightarrow> int" where "sizecode pt = int (length (pf_code pt))"
definition sizek :: "Proto \<Rightarrow> int" where "sizek pt = int (length (pf_k pt))"
definition sizep :: "Proto \<Rightarrow> int" where "sizep pt = int (length (pf_p pt))"
definition maxstacksize :: "Proto \<Rightarrow> int" where "maxstacksize pt = uint (pf_maxstacksize pt)"
definition nups :: "Proto \<Rightarrow> int" where "nups pt = uint (pf_nups pt)"

definition at :: "'a list \<Rightarrow> int \<Rightarrow> 'a vres" where
  "at xs i = (if 0 \<le> i \<and> i < int (length xs) then Inr (xs ! nat i) else Inl Faults)"

definition is_op :: "OpCode \<Rightarrow> Instruction \<Rightarrow> bool" where
  "is_op op i \<longleftrightarrow> GET_OPCODE i = int (op_num op)"

definition MAXSTACK :: int where "MAXSTACK = 250"
definition LUA_MULTRET :: int where "LUA_MULTRET = -1"
definition VARARG_HASARG :: byte where "VARARG_HASARG = 1"
definition VARARG_ISVARARG :: byte where "VARARG_ISVARARG = 2"
definition VARARG_NEEDSARG :: byte where "VARARG_NEEDSARG = 4"

section \<open>The checker\<close>

definition check :: "bool \<Rightarrow> 'a vres \<Rightarrow> 'a vres" where
  "check x k = (if x then k else Inl Rejected)"

definition checkreg :: "Proto \<Rightarrow> int \<Rightarrow> 'a vres \<Rightarrow> 'a vres" where
  "checkreg pt reg = check (reg < maxstacksize pt)"

definition precheck :: "Proto \<Rightarrow> unit vres" where
  "precheck pt =
     check (maxstacksize pt \<le> MAXSTACK) (
     check (uint (pf_numparams pt) + uint (pf_is_vararg pt AND VARARG_HASARG) \<le> maxstacksize pt) (
     check (pf_is_vararg pt AND VARARG_NEEDSARG = 0 \<or> pf_is_vararg pt AND VARARG_HASARG \<noteq> 0) (
     check (int (length (pf_upvalues pt)) \<le> nups pt) (
     check (int (length (pf_lineinfo pt)) = sizecode pt \<or> pf_lineinfo pt = []) (
     check (sizecode pt > 0) (
     bindE (at (pf_code pt) (sizecode pt - 1)) (\<lambda>i. check (is_op OP_RETURN i) (Inr ()))))))))"

definition luaG_checkopenop :: "Instruction \<Rightarrow> bool" where
  "luaG_checkopenop i \<longleftrightarrow>
     (is_op OP_CALL i \<or> is_op OP_TAILCALL i \<or> is_op OP_RETURN i \<or> is_op OP_SETLIST i) \<and> GETARG_B i = 0"

definition checkopenop :: "Proto \<Rightarrow> int \<Rightarrow> 'a vres \<Rightarrow> 'a vres" where
  "checkopenop pt pc k = bindE (at (pf_code pt) (pc + 1)) (\<lambda>i. check (luaG_checkopenop i) k)"

definition checkArgMode :: "Proto \<Rightarrow> int \<Rightarrow> OpArgMask \<Rightarrow> bool" where
  "checkArgMode pt r mode =
     (case mode of
        OpArgN \<Rightarrow> r = 0
      | OpArgU \<Rightarrow> True
      | OpArgR \<Rightarrow> r < maxstacksize pt
      | OpArgK \<Rightarrow> if ISK r then INDEXK r < sizek pt else r < maxstacksize pt)"

text \<open>The loop that counts the instructions before \<open>dest\<close> that look like a \<open>SETLIST\<close> with a separate count.\<close>

function setlist_run :: "Proto \<Rightarrow> int \<Rightarrow> int \<Rightarrow> int vres" where
  "setlist_run pt dest j =
     (if j < dest
      then bindE (at (pf_code pt) (dest - 1 - j)) (\<lambda>d.
             if \<not> (is_op OP_SETLIST d \<and> GETARG_C d = 0) then Inr j else setlist_run pt dest (j + 1))
      else Inr j)"
  by auto
termination by (relation "measure (\<lambda>(pt, dest, j). nat (dest - j))") auto

declare setlist_run.simps [simp del]

text \<open>The first \<open>switch\<close>: the arguments b and c.\<close>

definition decode_args :: "Proto \<Rightarrow> int \<Rightarrow> Instruction \<Rightarrow> (int \<times> int) vres" where
  "decode_args pt pc i =
     (let op = nat (GET_OPCODE i)
      in case getOpMode op of
           Some iABC \<Rightarrow>
             check (checkArgMode pt (GETARG_B i) (getBMode op)) (
             check (checkArgMode pt (GETARG_C i) (getCMode op)) (
             Inr (GETARG_B i, GETARG_C i)))
         | Some iABx \<Rightarrow>
             check (getBMode op = OpArgK \<longrightarrow> GETARG_Bx i < sizek pt) (Inr (GETARG_Bx i, 0))
         | Some iAsBx \<Rightarrow>
             if getBMode op = OpArgR
             then let dest = pc + 1 + GETARG_sBx i
                  in check (0 \<le> dest \<and> dest < sizecode pt) (
                     if dest > 0
                     then bindE (setlist_run pt dest 0) (\<lambda>j. check (even j) (Inr (GETARG_sBx i, 0)))
                     else Inr (GETARG_sBx i, 0))
             else Inr (GETARG_sBx i, 0)
         | None \<Rightarrow> Inr (0, 0))"

text \<open>The checks of the pseudo-instructions after an \<open>OP_CLOSURE\<close>, for \<open>j\<close> from its value to \<open>nup\<close>.\<close>

function check_closure :: "Proto \<Rightarrow> int \<Rightarrow> int \<Rightarrow> int \<Rightarrow> unit vres" where
  "check_closure pt pc nup j =
     (if j \<le> nup
      then bindE (at (pf_code pt) (pc + j)) (\<lambda>op1.
             check (is_op OP_GETUPVAL op1 \<or> is_op OP_MOVE op1) (check_closure pt pc nup (j + 1)))
      else Inr ())"
  by auto
termination by (relation "measure (\<lambda>(pt, pc, nup, j). nat (nup + 1 - j))") auto

declare check_closure.simps [simp del]

text \<open>The second \<open>switch\<close>, with the new values of \<open>pc\<close> and \<open>last\<close> (\<open>lst\<close>).\<close>

definition exec_jump :: "int \<Rightarrow> int \<Rightarrow> int \<Rightarrow> int \<Rightarrow> int \<Rightarrow> (int \<times> int) vres" where
  "exec_jump lastpc reg b pc lst =
     (let dest = pc + 1 + b
      in if reg \<noteq> NO_REG \<and> pc < dest \<and> dest \<le> lastpc then Inr (pc + b, lst) else Inr (pc, lst))"

definition symb_call :: "Proto \<Rightarrow> int \<Rightarrow> int \<Rightarrow> int \<Rightarrow> int \<Rightarrow> int \<Rightarrow> int \<Rightarrow> (int \<times> int) vres" where
  "symb_call pt reg a b c pc lst =
     (let k = (let c = c - 1; k' = Inr (pc, if reg \<ge> a then pc else lst)
               in if c = LUA_MULTRET then checkopenop pt pc k'
                  else if c \<noteq> 0 then checkreg pt (a + c - 1) k' else k')
      in if b \<noteq> 0 then checkreg pt (a + b - 1) k else k)"

fun symb_op :: "Proto \<Rightarrow> int \<Rightarrow> int \<Rightarrow> OpCode \<Rightarrow> int \<Rightarrow> int \<Rightarrow> int \<Rightarrow> int \<Rightarrow> int \<Rightarrow> (int \<times> int) vres" where
  "symb_op pt lastpc reg OP_LOADBOOL a b c pc lst =
     (if c = 1
      then check (pc + 2 < sizecode pt) (
           bindE (at (pf_code pt) (pc + 1)) (\<lambda>d.
           check (\<not> is_op OP_SETLIST d \<or> GETARG_C d \<noteq> 0) (Inr (pc, lst))))
      else Inr (pc, lst))"
| "symb_op pt lastpc reg OP_LOADNIL a b c pc lst = Inr (pc, if a \<le> reg \<and> reg \<le> b then pc else lst)"
| "symb_op pt lastpc reg OP_GETUPVAL a b c pc lst = check (b < nups pt) (Inr (pc, lst))"
| "symb_op pt lastpc reg OP_SETUPVAL a b c pc lst = check (b < nups pt) (Inr (pc, lst))"
| "symb_op pt lastpc reg OP_GETGLOBAL a b c pc lst =
     bindE (at (pf_k pt) b) (\<lambda>v. check (ttype v = 4) (Inr (pc, lst)))"
| "symb_op pt lastpc reg OP_SETGLOBAL a b c pc lst =
     bindE (at (pf_k pt) b) (\<lambda>v. check (ttype v = 4) (Inr (pc, lst)))"
| "symb_op pt lastpc reg OP_SELF a b c pc lst =
     checkreg pt (a + 1) (Inr (pc, if reg = a + 1 then pc else lst))"
| "symb_op pt lastpc reg OP_CONCAT a b c pc lst = check (b < c) (Inr (pc, lst))"
| "symb_op pt lastpc reg OP_TFORLOOP a b c pc lst =
     check (c \<ge> 1) (checkreg pt (a + 2 + c) (Inr (pc, if reg \<ge> a + 2 then pc else lst)))"
| "symb_op pt lastpc reg OP_FORLOOP a b c pc lst = checkreg pt (a + 3) (exec_jump lastpc reg b pc lst)"
| "symb_op pt lastpc reg OP_FORPREP a b c pc lst = checkreg pt (a + 3) (exec_jump lastpc reg b pc lst)"
| "symb_op pt lastpc reg OP_JMP a b c pc lst = exec_jump lastpc reg b pc lst"
| "symb_op pt lastpc reg OP_CALL a b c pc lst = symb_call pt reg a b c pc lst"
| "symb_op pt lastpc reg OP_TAILCALL a b c pc lst = symb_call pt reg a b c pc lst"
| "symb_op pt lastpc reg OP_RETURN a b c pc lst =
     (let b = b - 1 in if b > 0 then checkreg pt (a + b - 1) (Inr (pc, lst)) else Inr (pc, lst))"
| "symb_op pt lastpc reg OP_SETLIST a b c pc lst =
     (let k = (if c = 0 then check (pc + 1 < sizecode pt - 1) (Inr (pc + 1, lst)) else Inr (pc, lst))
      in if b > 0 then checkreg pt (a + b) k else k)"
| "symb_op pt lastpc reg OP_CLOSURE a b c pc lst =
     check (b < sizep pt) (
     bindE (at (pf_p pt) b) (\<lambda>q.
       let nup = nups q
       in check (pc + nup < sizecode pt) (
          bindE (check_closure pt pc nup 1) (\<lambda>_.
            Inr (if reg \<noteq> NO_REG then pc + nup else pc, lst)))))"
| "symb_op pt lastpc reg OP_VARARG a b c pc lst =
     check (pf_is_vararg pt AND VARARG_ISVARARG \<noteq> 0 \<and> pf_is_vararg pt AND VARARG_NEEDSARG = 0) (
     let b = b - 1; k = checkreg pt (a + b - 1) (Inr (pc, lst))
     in if b = LUA_MULTRET then checkopenop pt pc k else k)"
| "symb_op pt lastpc reg _ a b c pc lst = Inr (pc, lst)"

text \<open>The body of the loop of \<open>symbexec\<close>.\<close>

definition symb_step :: "Proto \<Rightarrow> int \<Rightarrow> int \<Rightarrow> int \<Rightarrow> int \<Rightarrow> (int \<times> int) vres" where
  "symb_step pt lastpc reg pc lst =
     bindE (at (pf_code pt) pc) (\<lambda>i.
       let op = GET_OPCODE i; a = GETARG_A i
       in check (op < int NUM_OPCODES) (
          checkreg pt a (
          bindE (decode_args pt pc i) (\<lambda>(b, c).
            let lst = (if testAMode (nat op) \<and> a = reg then pc else lst);
                k = symb_op pt lastpc reg (opcodes ! nat op) a b c pc lst
            in if testTMode (nat op)
               then check (pc + 2 < sizecode pt) (
                    bindE (at (pf_code pt) (pc + 1)) (\<lambda>d. check (is_op OP_JMP d) k))
               else k))))"

text \<open>A step never moves back, so the loop ends.\<close>

lemma check_InrD: "check x k = Inr y \<Longrightarrow> x \<and> k = Inr y"
  by (simp add: check_def split: if_splits)

lemma symb_op_advances: "symb_op pt lastpc reg op a b c pc lst = Inr (pc', lst') \<Longrightarrow> pc \<le> pc'"
  by (cases op)
     (auto simp: exec_jump_def symb_call_def checkreg_def checkopenop_def Let_def nups_def bindE_eq_Inr
        dest!: check_InrD split: if_splits)

lemma symb_step_advances: "symb_step pt lastpc reg pc lst = Inr (pc', lst') \<Longrightarrow> pc \<le> pc'"
  by (auto simp: symb_step_def checkreg_def Let_def bindE_eq_Inr dest!: check_InrD symb_op_advances split: if_splits)

function symb_loop :: "Proto \<Rightarrow> int \<Rightarrow> int \<Rightarrow> int \<Rightarrow> int \<Rightarrow> int vres" where
  "symb_loop pt lastpc reg pc lst =
     (if pc < lastpc
      then bindE (symb_step pt lastpc reg pc lst) (\<lambda>(pc, lst). symb_loop pt lastpc reg (pc + 1) lst)
      else Inr lst)"
  by auto
termination by (relation "measure (\<lambda>(pt, lastpc, reg, pc, lst). nat (lastpc - pc))") (auto dest: symb_step_advances)

declare symb_loop.simps [simp del]

definition symbexec :: "Proto \<Rightarrow> int \<Rightarrow> int \<Rightarrow> Instruction vres" where
  "symbexec pt lastpc reg =
     bindE (precheck pt) (\<lambda>_.
     bindE (symb_loop pt lastpc reg 0 (sizecode pt - 1)) (\<lambda>lst. at (pf_code pt) lst))"

definition luaG_checkcode :: "Proto \<Rightarrow> bool vres" where
  "luaG_checkcode pt =
     (case symbexec pt (sizecode pt) NO_REG of
        Inr i \<Rightarrow> Inr (i \<noteq> 0) | Inl Rejected \<Rightarrow> Inr False | Inl Faults \<Rightarrow> Inl Faults)"

section \<open>What an instruction touches\<close>

text \<open>
  The slots that the case of each opcode in \<open>luaV_execute\<close> reads or writes: registers (offsets from
  \<open>base\<close>), constants, upvalues and inner functions, the instructions it reads besides itself, and the
  positions at which execution may continue in the same function. The function and the two arguments of
  the call in a generic \<open>for\<close> may lie above the frame, in the \<open>EXTRA_STACK\<close> slots that every stack has.
  The slots up to \<open>L->top\<close>, where the number of values is open, follow below.
\<close>

definition EXTRA_STACK :: int where "EXTRA_STACK = 5"

record access =
  ac_regs :: "int list"
  ac_extra :: "int list"      \<comment> \<open>slots of a call above the frame\<close>
  ac_consts :: "int list"
  ac_upvals :: "int list"
  ac_protos :: "int list"
  ac_code :: "int list"
  ac_next :: "int list"

definition rk_regs :: "int list \<Rightarrow> int list" where "rk_regs xs = filter (\<lambda>x. \<not> ISK x) xs"
definition rk_consts :: "int list \<Rightarrow> int list" where "rk_consts xs = map INDEXK (filter ISK xs)"

definition touch :: "int list \<Rightarrow> int list \<Rightarrow> int list \<Rightarrow> access" where
  "touch rs rks nx = \<lparr>ac_regs = rs @ rk_regs rks, ac_extra = [], ac_consts = rk_consts rks, ac_upvals = [], ac_protos = [], ac_code = [], ac_next = nx\<rparr>"

text \<open>A test: it skips the next instruction or executes the jump that stands there.\<close>

definition touch_test :: "Proto \<Rightarrow> int \<Rightarrow> int list \<Rightarrow> int list \<Rightarrow> access" where
  "touch_test pt pc rs rks =
     (touch rs rks [pc + 2, pc + 2 + GETARG_sBx (pf_code pt ! nat (pc + 1))])\<lparr>ac_code := [pc + 1]\<rparr>"

fun vm_access :: "Proto \<Rightarrow> int \<Rightarrow> OpCode \<Rightarrow> Instruction \<Rightarrow> access" where
  "vm_access pt pc OP_MOVE i = touch [GETARG_A i, GETARG_B i] [] [pc + 1]"
| "vm_access pt pc OP_LOADK i = (touch [GETARG_A i] [] [pc + 1])\<lparr>ac_consts := [GETARG_Bx i]\<rparr>"
| "vm_access pt pc OP_LOADBOOL i = touch [GETARG_A i] [] [if GETARG_C i \<noteq> 0 then pc + 2 else pc + 1]"
| "vm_access pt pc OP_LOADNIL i = touch (GETARG_B i # [GETARG_A i..GETARG_B i]) [] [pc + 1]"
| "vm_access pt pc OP_GETUPVAL i = (touch [GETARG_A i] [] [pc + 1])\<lparr>ac_upvals := [GETARG_B i]\<rparr>"
| "vm_access pt pc OP_GETGLOBAL i = (touch [GETARG_A i] [] [pc + 1])\<lparr>ac_consts := [GETARG_Bx i]\<rparr>"
| "vm_access pt pc OP_GETTABLE i = touch [GETARG_A i, GETARG_B i] [GETARG_C i] [pc + 1]"
| "vm_access pt pc OP_SETGLOBAL i = (touch [GETARG_A i] [] [pc + 1])\<lparr>ac_consts := [GETARG_Bx i]\<rparr>"
| "vm_access pt pc OP_SETUPVAL i = (touch [GETARG_A i] [] [pc + 1])\<lparr>ac_upvals := [GETARG_B i]\<rparr>"
| "vm_access pt pc OP_SETTABLE i = touch [GETARG_A i] [GETARG_B i, GETARG_C i] [pc + 1]"
| "vm_access pt pc OP_NEWTABLE i = touch [GETARG_A i] [] [pc + 1]"
| "vm_access pt pc OP_SELF i = touch [GETARG_A i, GETARG_A i + 1, GETARG_B i] [GETARG_C i] [pc + 1]"
| "vm_access pt pc OP_ADD i = touch [GETARG_A i] [GETARG_B i, GETARG_C i] [pc + 1]"
| "vm_access pt pc OP_SUB i = touch [GETARG_A i] [GETARG_B i, GETARG_C i] [pc + 1]"
| "vm_access pt pc OP_MUL i = touch [GETARG_A i] [GETARG_B i, GETARG_C i] [pc + 1]"
| "vm_access pt pc OP_DIV i = touch [GETARG_A i] [GETARG_B i, GETARG_C i] [pc + 1]"
| "vm_access pt pc OP_MOD i = touch [GETARG_A i] [GETARG_B i, GETARG_C i] [pc + 1]"
| "vm_access pt pc OP_POW i = touch [GETARG_A i] [GETARG_B i, GETARG_C i] [pc + 1]"
| "vm_access pt pc OP_UNM i = touch [GETARG_A i, GETARG_B i] [] [pc + 1]"
| "vm_access pt pc OP_NOT i = touch [GETARG_A i, GETARG_B i] [] [pc + 1]"
| "vm_access pt pc OP_LEN i = touch [GETARG_A i, GETARG_B i] [] [pc + 1]"
| "vm_access pt pc OP_CONCAT i = touch (GETARG_A i # [GETARG_B i..GETARG_C i]) [] [pc + 1]"
| "vm_access pt pc OP_JMP i = touch [] [] [pc + 1 + GETARG_sBx i]"
| "vm_access pt pc OP_EQ i = touch_test pt pc [] [GETARG_B i, GETARG_C i]"
| "vm_access pt pc OP_LT i = touch_test pt pc [] [GETARG_B i, GETARG_C i]"
| "vm_access pt pc OP_LE i = touch_test pt pc [] [GETARG_B i, GETARG_C i]"
| "vm_access pt pc OP_TEST i = touch_test pt pc [GETARG_A i] []"
| "vm_access pt pc OP_TESTSET i = touch_test pt pc [GETARG_A i, GETARG_B i] []"
| "vm_access pt pc OP_CALL i =
     touch (GETARG_A i # [GETARG_A i..GETARG_A i + GETARG_B i - 1] @ [GETARG_A i..GETARG_A i + GETARG_C i - 2]) [] [pc + 1]"
| "vm_access pt pc OP_TAILCALL i = touch (GETARG_A i # [GETARG_A i..GETARG_A i + GETARG_B i - 1]) [] [pc + 1]"
| "vm_access pt pc OP_RETURN i = touch [GETARG_A i..GETARG_A i + GETARG_B i - 2] [] []"
| "vm_access pt pc OP_FORLOOP i = touch [GETARG_A i..GETARG_A i + 3] [] [pc + 1, pc + 1 + GETARG_sBx i]"
| "vm_access pt pc OP_FORPREP i = touch [GETARG_A i..GETARG_A i + 2] [] [pc + 1 + GETARG_sBx i]"
| "vm_access pt pc OP_TFORLOOP i =
     (touch_test pt pc ([GETARG_A i..GETARG_A i + 2] @ [GETARG_A i + 3..GETARG_A i + 2 + GETARG_C i]) [])
       \<lparr>ac_extra := [GETARG_A i + 3..GETARG_A i + 5]\<rparr>"
| "vm_access pt pc OP_SETLIST i =
     (touch [GETARG_A i..GETARG_A i + GETARG_B i] [] [if GETARG_C i = 0 then pc + 2 else pc + 1])
       \<lparr>ac_code := (if GETARG_C i = 0 then [pc + 1] else [])\<rparr>"
| "vm_access pt pc OP_CLOSE i = touch [GETARG_A i] [] [pc + 1]"
| "vm_access pt pc OP_CLOSURE i =
     (let nup = nups (pf_p pt ! nat (GETARG_Bx i));
          ps = map (\<lambda>j. pf_code pt ! nat j) [pc + 1..pc + nup]
      in \<lparr>ac_regs = GETARG_A i # map GETARG_B (filter (\<lambda>q. \<not> is_op OP_GETUPVAL q) ps),
          ac_extra = [],
          ac_consts = [],
          ac_upvals = map GETARG_B (filter (is_op OP_GETUPVAL) ps),
          ac_protos = [GETARG_Bx i],
          ac_code = [pc + 1..pc + nup],
          ac_next = [pc + nup + 1]\<rparr>)"
| "vm_access pt pc OP_VARARG i = touch (GETARG_A i # [GETARG_A i..GETARG_A i + GETARG_B i - 2]) [] [pc + 1]"

definition accesses :: "Proto \<Rightarrow> int \<Rightarrow> access" where
  "accesses pt pc = (let i = pf_code pt ! nat pc in vm_access pt pc (opcodes ! nat (GET_OPCODE i)) i)"

text \<open>
  Where the number of values is open (argument B 0 of a call, a return, a table constructor or \<open>...\<close>), an
  instruction goes up to \<open>L->top\<close>: \<open>open_regs\<close> are these slots (offsets from \<open>base\<close>), when \<open>L->top\<close> is
  at \<open>tp\<close> and the function was called with \<open>nvar\<close> extra arguments. \<open>OP_VARARG\<close> reads the extra arguments
  below \<open>base\<close>, \<open>caller_regs\<close>.
\<close>

definition open_vararg :: "Instruction \<Rightarrow> bool" where
  "open_vararg i \<longleftrightarrow> is_op OP_VARARG i \<and> GETARG_B i = 0"

definition open_regs :: "int \<Rightarrow> int \<Rightarrow> Instruction \<Rightarrow> int list" where
  "open_regs nvar tp i =
     (if GETARG_B i \<noteq> 0 then []
      else if is_op OP_CALL i \<or> is_op OP_TAILCALL i \<or> is_op OP_RETURN i then [GETARG_A i..tp - 1]
      else if is_op OP_SETLIST i then [GETARG_A i + 1..tp - 1]
      else if is_op OP_VARARG i then [GETARG_A i..GETARG_A i + nvar - 1]
      else [])"

definition caller_regs :: "int \<Rightarrow> Instruction \<Rightarrow> int list" where
  "caller_regs nvar i =
     (if is_op OP_VARARG i
      then let b = (if GETARG_B i = 0 then nvar else GETARG_B i - 1) in map (\<lambda>j. j - nvar) [0..min b nvar - 1]
      else [])"

text \<open>
  The state of an activation: the position, \<open>L->top\<close> and the end of the stack (offsets from \<open>base\<close>). On
  entry and after every instruction the stack has the slots of the frame and the extra ones (that is what
  \<open>luaD_precall\<close> is for; for a vararg function that gets far fewer arguments than it has fixed parameters
  it asks for too little, as \<open>adjust_varargs\<close> then moves the base up); \<open>OP_VARARG\<close>
  makes room for \<open>nvar\<close> more values above \<open>L->top\<close> (\<open>luaD_checkstack\<close>) before it writes. An open call
  leaves \<open>L->top\<close> after its results, wherever the stack has room for them, and so does the tail call of
  a C function; other calls and the use of the open values set it back to the top of the frame. The
  checker does not compare the registers of two such instructions, so \<open>L->top\<close> may be below the register
  of the second one, which then gets no values.
\<close>

record vm_state =
  v_pc :: int
  v_top :: int
  v_room :: int

definition top_after :: "Proto \<Rightarrow> int \<Rightarrow> Instruction \<Rightarrow> int \<Rightarrow> int \<Rightarrow> int \<Rightarrow> bool" where
  "top_after pt nvar i tp room' tp' \<longleftrightarrow>
     (if is_op OP_CALL i \<and> GETARG_C i = 0 \<or> is_op OP_TAILCALL i
      then GETARG_A i \<le> tp' \<and> tp' + EXTRA_STACK \<le> room'
      else if open_vararg i then tp' = GETARG_A i + nvar
      else if is_op OP_CALL i \<or> is_op OP_TFORLOOP i \<or> is_op OP_SETLIST i \<and> GETARG_B i = 0 then tp' = maxstacksize pt
      else tp' = tp)"

inductive vm_runs :: "Proto \<Rightarrow> int \<Rightarrow> vm_state \<Rightarrow> bool" for pt nvar where
  enter: "maxstacksize pt + EXTRA_STACK \<le> room \<Longrightarrow> vm_runs pt nvar \<lparr>v_pc = 0, v_top = maxstacksize pt, v_room = room\<rparr>"
| exec: "vm_runs pt nvar s \<Longrightarrow> q \<in> set (ac_next (accesses pt (v_pc s))) \<Longrightarrow> i = pf_code pt ! nat (v_pc s) \<Longrightarrow>
    maxstacksize pt + EXTRA_STACK \<le> room' \<Longrightarrow> (open_vararg i \<longrightarrow> v_top s + nvar + EXTRA_STACK \<le> room') \<Longrightarrow>
    top_after pt nvar i (v_top s) room' tp' \<Longrightarrow> vm_runs pt nvar \<lparr>v_pc = q, v_top = tp', v_room = room'\<rparr>"

section \<open>Opcodes\<close>

lemma op_num_less: "op_num op < 38"
  by (cases op) (simp_all add: op_num_def opcodes_def)

lemma opcodes_nth [simp]: "opcodes ! op_num op = op"
  by (cases op) (simp_all add: op_num_def opcodes_def)

lemma op_num_eq [simp]: "op_num op = op_num op' \<longleftrightarrow> op = op'"
  by (metis opcodes_nth)

lemma NUM_OPCODES_38: "NUM_OPCODES = 38"
  by (simp add: NUM_OPCODES_def op_num_def opcodes_def)

lemma nth_opcodes_num: "n < 38 \<Longrightarrow> op_num (opcodes ! n) = n"
  by (simp add: opcodes_def op_num_def less_Suc_eq numeral_eq_Suc, elim disjE; simp)

lemma fields_nonneg [simp]:
  "0 \<le> GETARG_A i" "0 \<le> GETARG_B i" "0 \<le> GETARG_C i" "0 \<le> GETARG_Bx i" "0 \<le> GET_OPCODE i" "0 \<le> nups q"
  by (simp_all add: GETARG_A_def GETARG_B_def GETARG_C_def GETARG_Bx_def GET_OPCODE_def nups_def)

lemma INDEXK_nonneg [simp]: "0 \<le> r \<Longrightarrow> 0 \<le> INDEXK r"
  by (simp add: INDEXK_def)

lemma obtain_op:
  assumes "GET_OPCODE i < 38"
  obtains op where "is_op op i"
proof -
  have "op_num (opcodes ! nat (GET_OPCODE i)) = nat (GET_OPCODE i)" using assms by (intro nth_opcodes_num) simp
  then have "is_op (opcodes ! nat (GET_OPCODE i)) i" by (simp add: is_op_def)
  then show ?thesis by (rule that)
qed

lemma is_op_unique: "is_op op i \<Longrightarrow> is_op op' i \<longleftrightarrow> op' = op"
  by (auto simp: is_op_def)

lemma is_op_num: "is_op op i \<Longrightarrow> nat (GET_OPCODE i) = op_num op"
  by (simp add: is_op_def)

lemmas mode_defs = op_num_def opcodes_def luaP_opmodes_def opmode_def

lemma mode_of [simp]:
  "getOpMode (op_num op) =
     Some (if op \<in> {OP_JMP, OP_FORLOOP, OP_FORPREP} then iAsBx
           else if op \<in> {OP_LOADK, OP_GETGLOBAL, OP_SETGLOBAL, OP_CLOSURE} then iABx else iABC)"
  by (cases op) (simp_all add: mode_defs getOpMode_def OpMode_of_def)

lemma test_of [simp]: "testTMode (op_num op) \<longleftrightarrow> op \<in> {OP_EQ, OP_LT, OP_LE, OP_TEST, OP_TESTSET, OP_TFORLOOP}"
  by (cases op) (simp_all add: mode_defs testTMode_def)

lemma bmode_of [simp]:
  "getBMode (op_num op) =
     (if op \<in> {OP_TFORLOOP, OP_CLOSE} then OpArgN
      else if op \<in> {OP_MOVE, OP_LOADNIL, OP_GETTABLE, OP_SELF, OP_UNM, OP_NOT, OP_LEN, OP_CONCAT, OP_JMP,
         OP_TEST, OP_TESTSET, OP_FORLOOP, OP_FORPREP} then OpArgR
      else if op \<in> {OP_LOADK, OP_GETGLOBAL, OP_SETGLOBAL, OP_SETTABLE, OP_ADD, OP_SUB, OP_MUL, OP_DIV, OP_MOD, OP_POW,
         OP_EQ, OP_LT, OP_LE} then OpArgK
      else OpArgU)"
  by (cases op) (simp_all add: mode_defs getBMode_def OpArgMask_of_def)

lemma cmode_of [simp]:
  "getCMode (op_num op) =
     (if op = OP_CONCAT then OpArgR
      else if op \<in> {OP_GETTABLE, OP_SETTABLE, OP_SELF, OP_ADD, OP_SUB, OP_MUL, OP_DIV, OP_MOD, OP_POW, OP_EQ, OP_LT, OP_LE}
      then OpArgK
      else if op \<in> {OP_LOADBOOL, OP_NEWTABLE, OP_TEST, OP_TESTSET, OP_CALL, OP_TAILCALL, OP_TFORLOOP, OP_SETLIST} then OpArgU
      else OpArgN)"
  by (cases op) (simp_all add: mode_defs getCMode_def OpArgMask_of_def)

section \<open>The checker reads inside its arrays\<close>

abbreviation (input) unfaulted :: "('a \<Rightarrow> bool) \<Rightarrow> 'a vres \<Rightarrow> bool" where
  "unfaulted \<equiv> wpE (\<lambda>e. e = Rejected)"

lemma wp_check [intro]: "(x \<Longrightarrow> unfaulted P k) \<Longrightarrow> unfaulted P (check x k)"
  by (simp add: check_def)

lemma wp_checkreg [intro]: "(r < maxstacksize pt \<Longrightarrow> unfaulted P k) \<Longrightarrow> unfaulted P (checkreg pt r k)"
  by (auto simp: checkreg_def)

lemma wp_at:
  "0 \<le> i \<Longrightarrow> i < int (length xs) \<Longrightarrow> unfaulted P (f (xs ! nat i)) \<Longrightarrow> unfaulted P (bindE (at xs i) f)"
  by (simp add: at_def)

lemma wp_checkopenop:
  "0 \<le> pc \<Longrightarrow> pc + 1 < sizecode pt \<Longrightarrow> unfaulted P k \<Longrightarrow> unfaulted P (checkopenop pt pc k)"
  unfolding checkopenop_def by (rule wp_at) (auto simp: sizecode_def)

text \<open>Code that has passed \<open>precheck\<close> ends with a return.\<close>

definition code_at :: "Proto \<Rightarrow> int \<Rightarrow> Instruction" where "code_at pt pc = pf_code pt ! nat pc"

definition ends_in_return :: "Proto \<Rightarrow> bool" where
  "ends_in_return pt \<longleftrightarrow> 0 < sizecode pt \<and> maxstacksize pt \<le> MAXSTACK \<and> is_op OP_RETURN (code_at pt (sizecode pt - 1))"

lemma precheck_ok: "unfaulted (\<lambda>_. ends_in_return pt) (precheck pt)"
  unfolding precheck_def
  by (intro wp_check wp_at) (auto simp: ends_in_return_def code_at_def sizecode_def check_def)

lemma not_last: "ends_in_return pt \<Longrightarrow> pc < sizecode pt \<Longrightarrow> \<not> is_op OP_RETURN (code_at pt pc) \<Longrightarrow> pc + 1 < sizecode pt"
  by (cases "pc = sizecode pt - 1") (auto simp: ends_in_return_def)

lemma setlist_run_ok:
  "0 \<le> j \<Longrightarrow> dest \<le> sizecode pt \<Longrightarrow> unfaulted (\<lambda>_. True) (setlist_run pt dest j)"
proof (induction pt dest j rule: setlist_run.induct)
  case (1 pt dest j)
  show ?case
  proof (subst setlist_run.simps, rule wpE_if, rule wp_at)
    show "unfaulted (\<lambda>_. True) (if \<not> (is_op OP_SETLIST (pf_code pt ! nat (dest - 1 - j)) \<and> GETARG_C (pf_code pt ! nat (dest - 1 - j)) = 0)
        then Inr j else setlist_run pt dest (j + 1))" if "j < dest"
      by (rule wpE_if, simp) (rule 1(1); use 1(2,3) that in \<open>simp add: at_def sizecode_def\<close>)
  qed (use 1(2,3) in \<open>auto simp: sizecode_def\<close>)
qed

text \<open>The arguments that a checked instruction has.\<close>

definition args_ok :: "Proto \<Rightarrow> int \<Rightarrow> OpCode \<Rightarrow> Instruction \<Rightarrow> int \<times> int \<Rightarrow> bool" where
  "args_ok pt pc op i = (\<lambda>(b, c).
     case getOpMode (op_num op) of
       Some iABC \<Rightarrow> b = GETARG_B i \<and> c = GETARG_C i
         \<and> checkArgMode pt b (getBMode (op_num op)) \<and> checkArgMode pt c (getCMode (op_num op))
     | Some iABx \<Rightarrow> b = GETARG_Bx i \<and> (getBMode (op_num op) = OpArgK \<longrightarrow> b < sizek pt)
     | Some iAsBx \<Rightarrow> b = GETARG_sBx i \<and> 0 \<le> pc + 1 + b \<and> pc + 1 + b < sizecode pt
         \<and> (0 < pc + 1 + b \<longrightarrow> (\<exists>j. setlist_run pt (pc + 1 + b) 0 = Inr j \<and> even j))
     | None \<Rightarrow> False)"

lemma decode_args_ok:
  assumes "is_op op i"
  shows "unfaulted (args_ok pt pc op i) (decode_args pt pc i)"
proof -
  have run: "unfaulted (args_ok pt pc op i)
      (bindE (setlist_run pt (pc + 1 + GETARG_sBx i) 0) (\<lambda>j. check (even j) (Inr (GETARG_sBx i, 0))))"
    if "op \<in> {OP_JMP, OP_FORLOOP, OP_FORPREP}" "0 \<le> pc + 1 + GETARG_sBx i" "pc + 1 + GETARG_sBx i < sizecode pt"
    by (rule wpE_bind_eq [OF setlist_run_ok]) (use that in \<open>auto simp: args_ok_def check_def\<close>)
  show ?thesis
  proof (cases "op \<in> {OP_JMP, OP_FORLOOP, OP_FORPREP}")
    case True
    then have m: "getOpMode (op_num op) = Some iAsBx" "getBMode (op_num op) = OpArgR" by auto
    show ?thesis
      unfolding decode_args_def is_op_num [OF assms] m Let_def option.case OpMode.case simp_thms if_True
      by (intro wp_check wpE_if run) (use True in \<open>auto simp: args_ok_def\<close>)
  next
    case False
    then show ?thesis
      unfolding decode_args_def is_op_num [OF assms] Let_def
      by (auto simp: check_def args_ok_def)
  qed
qed

lemma check_closure_ok:
  "0 < j \<Longrightarrow> 0 \<le> pc \<Longrightarrow> pc + nup < sizecode pt \<Longrightarrow>
   unfaulted (\<lambda>_. \<forall>k. j \<le> k \<and> k \<le> nup \<longrightarrow> is_op OP_GETUPVAL (code_at pt (pc + k)) \<or> is_op OP_MOVE (code_at pt (pc + k)))
     (check_closure pt pc nup j)"
proof (induction pt pc nup j rule: check_closure.induct)
  case (1 pt pc nup j)
  let ?o = "\<lambda>k. is_op OP_GETUPVAL (code_at pt (pc + k)) \<or> is_op OP_MOVE (code_at pt (pc + k))"
  show ?case
  proof (cases "j \<le> nup")
    case True
    then have a: "at (pf_code pt) (pc + j) = Inr (code_at pt (pc + j))"
      using 1 by (simp add: at_def code_at_def sizecode_def)
    have step: "unfaulted (\<lambda>_. \<forall>k. j + 1 \<le> k \<and> k \<le> nup \<longrightarrow> ?o k) (check_closure pt pc nup (j + 1))"
      by (rule 1(1) [OF True a]) (use 1(2-4) in simp_all)
    have "unfaulted (\<lambda>_. \<forall>k. j \<le> k \<and> k \<le> nup \<longrightarrow> ?o k) (check_closure pt pc nup (j + 1))" if o: "?o j"
    proof (rule wpE_mono [OF step], intro allI impI)
      fix k assume "\<forall>k. j + 1 \<le> k \<and> k \<le> nup \<longrightarrow> ?o k" "j \<le> k \<and> k \<le> nup"
      then show "?o k" using o by (cases "k = j") simp_all
    qed
    then show ?thesis using True a by (subst check_closure.simps) (auto simp: check_def)
  qed (subst check_closure.simps, auto)
qed

lemma exec_jump_ok: "unfaulted (\<lambda>(pc', l). l = lst) (exec_jump lastpc reg b pc lst)"
  by (simp add: exec_jump_def Let_def)

lemma symb_call_ok:
  assumes "ends_in_return pt" "0 \<le> pc" "pc + 1 < sizecode pt"
  shows "unfaulted (\<lambda>(pc', l). l = lst \<or> l = pc) (symb_call pt reg a b c pc lst)"
  unfolding symb_call_def Let_def by (intro wpE_if wp_checkreg wp_checkopenop) (use assms in auto)

lemma symb_op_ok:
  assumes "ends_in_return pt" "0 \<le> pc" "pc < sizecode pt" "is_op op (code_at pt pc)" "args_ok pt pc op (code_at pt pc) (b, c)"
  shows "unfaulted (\<lambda>(pc', l). l = lst \<or> l = pc) (symb_op pt lastpc reg op a b c pc lst)"
proof -
  have nl: "pc + 1 < sizecode pt" if "op \<noteq> OP_RETURN"
    using not_last [OF assms(1,3)] assms(4) that by (simp add: is_op_unique)
  have kb: "unfaulted Q (bindE (at (pf_k pt) b) f)"
    if "op \<in> {OP_GETGLOBAL, OP_SETGLOBAL}" "\<And>v. unfaulted Q (f v)" for Q :: "int \<times> int \<Rightarrow> bool" and f
    by (rule wp_at) (use that assms(5) in \<open>auto simp: args_ok_def sizek_def\<close>)
  have clo: "unfaulted (\<lambda>(pc', l). l = lst \<or> l = pc) (symb_op pt lastpc reg OP_CLOSURE a b c pc lst)" if "op = OP_CLOSURE"
    unfolding symb_op.simps Let_def
    by (intro wp_check wp_at wpE_bind [OF check_closure_ok]) (use assms that in \<open>auto simp: args_ok_def sizep_def\<close>)
  show ?thesis
  proof (cases op)
    case OP_GETGLOBAL
    show ?thesis unfolding OP_GETGLOBAL symb_op.simps by (rule kb) (use OP_GETGLOBAL in auto)
  next
    case OP_SETGLOBAL
    show ?thesis unfolding OP_SETGLOBAL symb_op.simps by (rule kb) (use OP_SETGLOBAL in auto)
  next
    case OP_LOADBOOL
    show ?thesis unfolding OP_LOADBOOL symb_op.simps
      by (intro wpE_if wp_check wp_at) (use assms(2) in \<open>auto simp: sizecode_def\<close>)
  next
    case OP_VARARG
    show ?thesis unfolding OP_VARARG symb_op.simps Let_def
      by (intro wpE_if wp_check wp_checkreg wp_checkopenop) (use assms(2) nl OP_VARARG in auto)
  next
    case OP_SETLIST
    show ?thesis unfolding OP_SETLIST symb_op.simps Let_def by (intro wpE_if wp_check wp_checkreg) auto
  next
    case OP_RETURN
    show ?thesis unfolding OP_RETURN symb_op.simps Let_def by (intro wpE_if wp_checkreg) auto
  qed (use nl clo symb_call_ok [OF assms(1,2)] in
        \<open>auto intro!: wp_check wp_checkreg wpE_mono [OF exec_jump_ok]\<close>)
qed

text \<open>What the checker has established for an instruction that it has passed.\<close>

definition checked :: "Proto \<Rightarrow> int \<Rightarrow> int \<Rightarrow> int \<Rightarrow> int \<Rightarrow> OpCode \<Rightarrow> int \<times> int \<Rightarrow> bool" where
  "checked pt lastpc reg pc pc' op = (\<lambda>(b, c).
     is_op op (code_at pt pc) \<and> GETARG_A (code_at pt pc) < maxstacksize pt \<and> args_ok pt pc op (code_at pt pc) (b, c)
     \<and> (testTMode (op_num op) \<longrightarrow> pc + 2 < sizecode pt \<and> is_op OP_JMP (code_at pt (pc + 1)))
     \<and> (\<exists>l l'. symb_op pt lastpc reg op (GETARG_A (code_at pt pc)) b c pc l = Inr (pc', l')))"

lemma symb_step_ok:
  assumes "ends_in_return pt" "0 \<le> pc" "pc < sizecode pt"
  shows "unfaulted (\<lambda>(pc', l). (l = lst \<or> l = pc) \<and> (\<exists>op x. checked pt lastpc reg pc pc' op x)) (symb_step pt lastpc reg pc lst)"
proof -
  have i: "at (pf_code pt) pc = Inr (code_at pt pc)" using assms by (simp add: at_def code_at_def sizecode_def)
  have n: "unfaulted P (bindE (at (pf_code pt) (pc + 1)) f)" if "pc + 2 < sizecode pt" "unfaulted P (f (code_at pt (pc + 1)))"
    for P :: "int \<times> int \<Rightarrow> bool" and f
    using that assms(2) by (intro wp_at) (simp_all add: code_at_def sizecode_def)
  show ?thesis
    unfolding symb_step_def i bindE_Inr Let_def
  proof (intro wp_check wp_checkreg)
    assume "GET_OPCODE (code_at pt pc) < int NUM_OPCODES" and a: "GETARG_A (code_at pt pc) < maxstacksize pt"
    then obtain op where op: "is_op op (code_at pt pc)" using obtain_op by (auto simp: NUM_OPCODES_38)
    show "unfaulted (\<lambda>(pc', l). (l = lst \<or> l = pc) \<and> (\<exists>op x. checked pt lastpc reg pc pc' op x))
        (bindE (decode_args pt pc (code_at pt pc)) (\<lambda>(b, c).
            if testTMode (nat (GET_OPCODE (code_at pt pc)))
            then check (pc + 2 < sizecode pt) (bindE (at (pf_code pt) (pc + 1)) (\<lambda>d. check (is_op OP_JMP d)
               (symb_op pt lastpc reg (opcodes ! nat (GET_OPCODE (code_at pt pc))) (GETARG_A (code_at pt pc)) b c pc
                 (if testAMode (nat (GET_OPCODE (code_at pt pc))) \<and> GETARG_A (code_at pt pc) = reg then pc else lst))))
            else symb_op pt lastpc reg (opcodes ! nat (GET_OPCODE (code_at pt pc))) (GETARG_A (code_at pt pc)) b c pc
                 (if testAMode (nat (GET_OPCODE (code_at pt pc))) \<and> GETARG_A (code_at pt pc) = reg then pc else lst)))"
      unfolding is_op_num [OF op] opcodes_nth
    proof (rule wpE_bind [OF decode_args_ok [OF op]], clarify)
      fix b c assume args: "args_ok pt pc op (code_at pt pc) (b, c)"
      have s: "unfaulted (\<lambda>(pc', l). (l = lst \<or> l = pc) \<and> (\<exists>op x. checked pt lastpc reg pc pc' op x))
          (symb_op pt lastpc reg op (GETARG_A (code_at pt pc)) b c pc l0)"
        if "l0 = lst \<or> l0 = pc" "testTMode (op_num op) \<longrightarrow> pc + 2 < sizecode pt \<and> is_op OP_JMP (code_at pt (pc + 1))" for l0
      proof (cases "symb_op pt lastpc reg op (GETARG_A (code_at pt pc)) b c pc l0")
        case (Inl e)
        then show ?thesis using symb_op_ok [OF assms op args, of l0 lastpc reg "GETARG_A (code_at pt pc)"] by simp
      next
        case (Inr x)
        obtain pc' l' where x: "x = (pc', l')" by (cases x)
        have "checked pt lastpc reg pc pc' op (b, c)"
          unfolding checked_def prod.case using op a args that(2) Inr x by blast
        then show ?thesis using Inr x that(1) symb_op_ok [OF assms op args, of l0 lastpc reg "GETARG_A (code_at pt pc)"]
          by auto
      qed
      show "unfaulted (\<lambda>(pc', l). (l = lst \<or> l = pc) \<and> (\<exists>op x. checked pt lastpc reg pc pc' op x))
        (if testTMode (op_num op)
         then check (pc + 2 < sizecode pt) (bindE (at (pf_code pt) (pc + 1)) (\<lambda>d. check (is_op OP_JMP d)
               (symb_op pt lastpc reg op (GETARG_A (code_at pt pc)) b c pc
                 (if testAMode (op_num op) \<and> GETARG_A (code_at pt pc) = reg then pc else lst))))
         else symb_op pt lastpc reg op (GETARG_A (code_at pt pc)) b c pc
                 (if testAMode (op_num op) \<and> GETARG_A (code_at pt pc) = reg then pc else lst))"
        by (intro wpE_if wp_check n s; simp del: test_of)
    qed
  qed
qed

lemma symb_loop_ok:
  "ends_in_return pt \<Longrightarrow> 0 \<le> pc \<Longrightarrow> lastpc \<le> sizecode pt \<Longrightarrow> 0 \<le> lst \<Longrightarrow> lst < sizecode pt \<Longrightarrow>
   unfaulted (\<lambda>l. 0 \<le> l \<and> l < sizecode pt) (symb_loop pt lastpc reg pc lst)"
proof (induction pt lastpc reg pc lst rule: symb_loop.induct)
  case (1 pt lastpc reg pc lst)
  show ?case
  proof (subst symb_loop.simps, rule wpE_if)
    assume pc: "pc < lastpc"
    show "unfaulted (\<lambda>l. 0 \<le> l \<and> l < sizecode pt)
        (bindE (symb_step pt lastpc reg pc lst) (\<lambda>(pc, lst). symb_loop pt lastpc reg (pc + 1) lst))"
    proof (rule wpE_bind_eq [OF symb_step_ok [OF 1(2,3)]], use 1(4) pc in simp, clarify)
      fix pc' l assume step: "symb_step pt lastpc reg pc lst = Inr (pc', l)" and l: "l = lst \<or> l = pc"
      show "unfaulted (\<lambda>l. 0 \<le> l \<and> l < sizecode pt) (symb_loop pt lastpc reg (pc' + 1) l)"
        by (rule 1(1) [OF pc step refl]) (use 1(2-6) l pc symb_step_advances [OF step] in auto)
    qed
  qed (use 1(5,6) in simp)
qed

text \<open>
  C32: the checker reads only what is there. For any function, also one that is malformed in any way, and
  whether it checks the whole code or traces a register up to a position, symbolic execution reads no
  instruction, constant or inner function outside its array; \<open>luaG_checkcode\<close> always answers.
\<close>

theorem checker_total:
  assumes "lastpc \<le> sizecode pt"
  shows "symbexec pt lastpc reg \<noteq> Inl Faults \<and> (\<exists>b. luaG_checkcode pt = Inr b)"
proof -
  have s: "unfaulted (\<lambda>_. True) (symbexec pt lastpc reg)" if "lastpc \<le> sizecode pt" for lastpc reg
    unfolding symbexec_def
  proof (rule wpE_bind [OF precheck_ok])
    assume e: "ends_in_return pt"
    show "unfaulted (\<lambda>_. True) (bindE (symb_loop pt lastpc reg 0 (sizecode pt - 1)) (\<lambda>lst. at (pf_code pt) lst))"
      by (rule wpE_bind [OF symb_loop_ok [OF e]]) (use that e in \<open>auto simp: ends_in_return_def at_def sizecode_def\<close>)
  qed
  have "symbexec pt lastpc reg \<noteq> Inl Faults" using s [OF assms, of reg] by auto
  moreover have "\<exists>b. luaG_checkcode pt = Inr b"
    using s [OF order_refl, of NO_REG] by (cases "symbexec pt (sizecode pt) NO_REG") (auto simp: luaG_checkcode_def)
  ultimately show ?thesis by blast
qed

text \<open>A function with no code and a test of register 7.\<close>

theorem checker_total_witness:
  "symbexec (Proto None 0 0 0 0 0 2 [] [] [] [] [] []) 0 7 \<noteq> Inl Faults
   \<and> (\<exists>b. luaG_checkcode (Proto None 0 0 0 0 0 2 [] [] [] [] [] []) = Inr b)"
  by (rule checker_total) (simp add: sizecode_def)

section \<open>Which positions are instructions\<close>

definition setlist0 :: "Proto \<Rightarrow> int \<Rightarrow> bool" where
  "setlist0 pt q \<longleftrightarrow> is_op OP_SETLIST (code_at pt q) \<and> GETARG_C (code_at pt q) = 0"

text \<open>The word after a \<open>SETLIST\<close> instruction with argument C 0 is its count, not an instruction.\<close>

fun is_count :: "Proto \<Rightarrow> nat \<Rightarrow> bool" where
  "is_count pt 0 = False"
| "is_count pt (Suc q) = (\<not> is_count pt q \<and> setlist0 pt (int q))"

definition instr_at :: "Proto \<Rightarrow> int \<Rightarrow> bool" where
  "instr_at pt q \<longleftrightarrow> 0 \<le> q \<and> q < sizecode pt \<and> \<not> is_count pt (nat q)"

lemma is_count_next: "0 \<le> q \<Longrightarrow> is_count pt (nat (q + 1)) \<longleftrightarrow> \<not> is_count pt (nat q) \<and> setlist0 pt q"
  by (simp add: nat_add_distrib)

lemma instr_next: "instr_at pt q \<Longrightarrow> q + 1 < sizecode pt \<Longrightarrow> \<not> setlist0 pt q \<Longrightarrow> instr_at pt (q + 1)"
  using is_count_next [of q pt] by (auto simp: instr_at_def)

lemma setlist_run_even:
  assumes "setlist_run pt dest j0 = Inr j" "0 \<le> j0" "j0 \<le> dest" "dest \<le> sizecode pt"
  shows "j0 \<le> j \<and> j \<le> dest \<and> \<not> is_count pt (nat (dest - j)) \<and> (\<forall>k. j0 \<le> k \<and> k < j \<longrightarrow> setlist0 pt (dest - 1 - k))"
  using assms
proof (induction pt dest j0 rule: setlist_run.induct)
  case (1 pt dest j0)
  show ?case
  proof (cases "j0 < dest")
    case True
    have a: "at (pf_code pt) (dest - 1 - j0) = Inr (code_at pt (dest - 1 - j0))"
      using 1 True by (simp add: at_def code_at_def sizecode_def)
    show ?thesis
    proof (cases "setlist0 pt (dest - 1 - j0)")
      case s: True
      then have run: "setlist_run pt dest (j0 + 1) = Inr j"
        using 1(2) True a by (subst (asm) setlist_run.simps) (simp add: setlist0_def)
      have IH: "j0 + 1 \<le> j \<and> j \<le> dest \<and> \<not> is_count pt (nat (dest - j))
          \<and> (\<forall>k. j0 + 1 \<le> k \<and> k < j \<longrightarrow> setlist0 pt (dest - 1 - k))"
        by (rule 1(1) [OF True a _ run]) (use s 1(3-5) True in \<open>simp_all add: setlist0_def\<close>)
      moreover have "setlist0 pt (dest - 1 - k)" if "j0 \<le> k \<and> k < j" for k
        using that s IH by (cases "k = j0") simp_all
      ultimately show ?thesis by simp
    next
      case False
      then have "j = j0" using 1(2) True a by (subst (asm) setlist_run.simps) (auto simp: setlist0_def)
      moreover have "\<not> is_count pt (nat (dest - 1 - j0 + 1))" using False is_count_next [of "dest - 1 - j0" pt] True by simp
      ultimately show ?thesis using True by auto
    qed
  next
    case False
    then show ?thesis using 1(2,4) by (subst (asm) setlist_run.simps) auto
  qed
qed

lemma even_run_instr:
  assumes "setlist_run pt dest 0 = Inr j" "even j" "0 < dest" "dest < sizecode pt"
  shows "instr_at pt dest"
proof -
  have r: "0 \<le> j" "j \<le> dest" "\<not> is_count pt (nat (dest - j))" "\<forall>k. 0 \<le> k \<and> k < j \<longrightarrow> setlist0 pt (dest - 1 - k)"
    using setlist_run_even [OF assms(1)] assms(3,4) by auto
  have "is_count pt (nat (dest - j + int m)) \<longleftrightarrow> odd m" if "int m \<le> j" for m
    using that
  proof (induction m)
    case (Suc m)
    have "setlist0 pt (dest - j + int m)" using r(4) [rule_format, of "j - int m - 1"] Suc.prems by (simp add: algebra_simps)
    moreover have e: "dest - j + int (Suc m) = (dest - j + int m) + 1" by simp
    ultimately show ?case unfolding e using Suc is_count_next [of "dest - j + int m" pt] r(2) by simp
  qed (use r(3) in simp)
  from this [of "nat j"] have "\<not> is_count pt (nat dest)" using r(1) assms(2) by (simp add: even_nat_iff)
  then show ?thesis using assms(3,4) by (simp add: instr_at_def)
qed

section \<open>What checked code may do\<close>

lemma checked_next:
  assumes "checked pt lastpc NO_REG pc pc' op x"
  shows "pc' = (if setlist0 pt pc then pc + 1 else pc)"
proof -
  obtain b c where x: "x = (b, c)" by (cases x)
  obtain l l' where o: "symb_op pt lastpc NO_REG op (GETARG_A (code_at pt pc)) b c pc l = Inr (pc', l')"
    and op: "is_op op (code_at pt pc)" and args: "args_ok pt pc op (code_at pt pc) (b, c)"
    using assms unfolding x checked_def by auto
  have s: "setlist0 pt pc \<longleftrightarrow> op = OP_SETLIST \<and> c = 0"
    using op args by (auto simp: setlist0_def is_op_unique args_ok_def)
  show ?thesis using o s
    by (cases op)
       (auto simp: exec_jump_def symb_call_def checkreg_def checkopenop_def Let_def bindE_eq_Inr
          dest!: check_InrD split: if_splits)
qed

lemma all_checked:
  "symb_loop pt n NO_REG pc lst = Inr r \<Longrightarrow> ends_in_return pt \<Longrightarrow> n = sizecode pt \<Longrightarrow> 0 \<le> pc \<Longrightarrow> \<not> is_count pt (nat pc) \<Longrightarrow>
   pc \<le> q \<Longrightarrow> instr_at pt q \<Longrightarrow> \<exists>pc' op x. checked pt n NO_REG q pc' op x"
proof (induction "nat (n - pc)" arbitrary: pc lst rule: less_induct)
  case less
  have pc: "pc < n" using less.prems(3,6,7) by (simp add: instr_at_def)
  obtain pc' l where step: "symb_step pt n NO_REG pc lst = Inr (pc', l)" and rest: "symb_loop pt n NO_REG (pc' + 1) l = Inr r"
    using less.prems(1) pc by (subst (asm) symb_loop.simps) (auto simp: bindE_eq_Inr)
  have "\<exists>op x. checked pt n NO_REG pc pc' op x"
    using symb_step_ok [OF less.prems(2,4), of lst n NO_REG] pc less.prems(3) step by auto
  then obtain op x where c: "checked pt n NO_REG pc pc' op x" by blast
  show ?case
  proof (cases "q = pc")
    case False
    note e = checked_next [OF c]
    have nc: "\<not> is_count pt (nat (pc' + 1))"
    proof (cases "setlist0 pt pc")
      case True
      then have "is_count pt (nat (pc + 1))" using is_count_next [OF less.prems(4)] less.prems(5) by simp
      then have "\<not> is_count pt (nat (pc + 1 + 1))" using is_count_next [of "pc + 1" pt] less.prems(4) by simp
      then show ?thesis using e True by simp
    qed (use e is_count_next [OF less.prems(4)] in simp)
    have "pc' + 1 \<le> q"
    proof (cases "setlist0 pt pc")
      case True
      then have "is_count pt (nat (pc + 1))" using is_count_next [OF less.prems(4)] less.prems(5) by simp
      then have "q \<noteq> pc + 1" using less.prems(7) by (auto simp: instr_at_def)
      then show ?thesis using e True False less.prems(6) by simp
    qed (use e False less.prems(6) in simp)
    then show ?thesis
      by (intro less.hyps [OF _ rest less.prems(2,3) _ nc _ less.prems(7)])
         (use e pc less.prems(4) in \<open>auto split: if_splits\<close>)
  qed (use c in blast)
qed

text \<open>Every access of an instruction is inside the frame, the constants, the upvalues and the code.\<close>

definition access_ok :: "Proto \<Rightarrow> access \<Rightarrow> bool" where
  "access_ok pt ac \<longleftrightarrow>
     (\<forall>r \<in> set (ac_regs ac). 0 \<le> r \<and> r < maxstacksize pt)
     \<and> (\<forall>r \<in> set (ac_extra ac). 0 \<le> r \<and> r < maxstacksize pt + EXTRA_STACK)
     \<and> (\<forall>k \<in> set (ac_consts ac). 0 \<le> k \<and> k < sizek pt)
     \<and> (\<forall>u \<in> set (ac_upvals ac). 0 \<le> u \<and> u < nups pt)
     \<and> (\<forall>q \<in> set (ac_protos ac). 0 \<le> q \<and> q < sizep pt)
     \<and> (\<forall>q \<in> set (ac_code ac). 0 \<le> q \<and> q < sizecode pt)
     \<and> (\<forall>q \<in> set (ac_next ac). instr_at pt q)"

definition verified :: "Proto \<Rightarrow> bool" where
  "verified pt \<longleftrightarrow> ends_in_return pt
     \<and> (\<forall>q. instr_at pt q \<longrightarrow> (\<exists>pc' op x. checked pt (sizecode pt) NO_REG q pc' op x))"

lemma verifiedE:
  assumes "verified pt" "instr_at pt pc"
  obtains pc' op b c l l' where "is_op op (code_at pt pc)" "GETARG_A (code_at pt pc) < maxstacksize pt"
    "args_ok pt pc op (code_at pt pc) (b, c)"
    "testTMode (op_num op) \<longrightarrow> pc + 2 < sizecode pt \<and> is_op OP_JMP (code_at pt (pc + 1))"
    "symb_op pt (sizecode pt) NO_REG op (GETARG_A (code_at pt pc)) b c pc l = Inr (pc', l')"
  using assms unfolding verified_def checked_def by (auto simp del: test_of)

lemma instr_fall:
  assumes "verified pt" "instr_at pt pc" "is_op op (code_at pt pc)" "op \<noteq> OP_RETURN" "\<not> setlist0 pt pc"
  shows "instr_at pt (pc + 1)"
proof -
  have "pc + 1 < sizecode pt"
    by (rule not_last) (use assms in \<open>auto simp: verified_def instr_at_def is_op_unique\<close>)
  then show ?thesis using instr_next assms(2,5) by blast
qed

lemma instr_jump:
  assumes "verified pt" "instr_at pt pc" "is_op op (code_at pt pc)" "op \<in> {OP_JMP, OP_FORLOOP, OP_FORPREP}"
  shows "instr_at pt (pc + 1 + GETARG_sBx (code_at pt pc))"
proof -
  obtain pc' op' b c l l' where "is_op op' (code_at pt pc)" and a: "args_ok pt pc op' (code_at pt pc) (b, c)"
    using verifiedE [OF assms(1,2)] by metis
  then have "op' = op" using assms(3) by (simp add: is_op_unique)
  then have d: "0 \<le> pc + 1 + GETARG_sBx (code_at pt pc)" "pc + 1 + GETARG_sBx (code_at pt pc) < sizecode pt"
    "0 < pc + 1 + GETARG_sBx (code_at pt pc) \<longrightarrow> (\<exists>j. setlist_run pt (pc + 1 + GETARG_sBx (code_at pt pc)) 0 = Inr j \<and> even j)"
    using a assms(4) by (auto simp: args_ok_def)
  show ?thesis
  proof (cases "pc + 1 + GETARG_sBx (code_at pt pc) = 0")
    case True
    show ?thesis unfolding True using assms(1) by (simp add: instr_at_def verified_def ends_in_return_def)
  next
    case False
    then show ?thesis using d even_run_instr by auto
  qed
qed

lemma instr_test:
  assumes "verified pt" "instr_at pt pc" "is_op op (code_at pt pc)" "testTMode (op_num op)"
  shows "instr_at pt (pc + 2) \<and> instr_at pt (pc + 2 + GETARG_sBx (code_at pt (pc + 1))) \<and> pc + 1 < sizecode pt"
proof -
  obtain op' where "is_op op' (code_at pt pc)" and t: "testTMode (op_num op') \<longrightarrow> pc + 2 < sizecode pt \<and> is_op OP_JMP (code_at pt (pc + 1))"
    using verifiedE [OF assms(1,2)] by metis
  then have j: "pc + 2 < sizecode pt" "is_op OP_JMP (code_at pt (pc + 1))" using assms(3,4) is_op_unique by metis+
  have n: "op \<noteq> OP_RETURN" "op \<noteq> OP_SETLIST" using assms(4) by auto
  have i1: "instr_at pt (pc + 1)"
    by (rule instr_fall [OF assms(1-3) n(1)]) (use n(2) assms(3) in \<open>simp add: setlist0_def is_op_unique\<close>)
  have "instr_at pt (pc + 1 + 1)"
    by (rule instr_fall [OF assms(1) i1 j(2)]) (use j(2) in \<open>simp_all add: setlist0_def is_op_unique\<close>)
  moreover have "instr_at pt (pc + 1 + 1 + GETARG_sBx (code_at pt (pc + 1)))"
    by (rule instr_jump [OF assms(1) i1 j(2)]) simp
  moreover have "pc + 1 < sizecode pt" using i1 by (simp add: instr_at_def)
  ultimately show ?thesis by (simp add: add.assoc)
qed

lemma access_touch:
  "access_ok pt (touch rs rks nx) \<longleftrightarrow>
     (\<forall>r \<in> set rs. 0 \<le> r \<and> r < maxstacksize pt)
     \<and> (\<forall>x \<in> set rks. if ISK x then 0 \<le> INDEXK x \<and> INDEXK x < sizek pt else 0 \<le> x \<and> x < maxstacksize pt)
     \<and> (\<forall>q \<in> set nx. instr_at pt q)"
  by (auto simp: access_ok_def touch_def rk_regs_def rk_consts_def split: if_splits)

lemma checkArgMode_K:
  "checkArgMode pt x OpArgK \<Longrightarrow> 0 \<le> x \<Longrightarrow>
   if ISK x then 0 \<le> INDEXK x \<and> INDEXK x < sizek pt else 0 \<le> x \<and> x < maxstacksize pt"
  by (simp add: checkArgMode_def split: if_splits)

lemma checkArgMode_R: "checkArgMode pt x OpArgR \<longleftrightarrow> x < maxstacksize pt"
  by (simp add: checkArgMode_def)

lemma access_closure:
  assumes v: "verified pt" and i: "instr_at pt pc" "is_op OP_CLOSURE (code_at pt pc)"
    and a: "GETARG_A (code_at pt pc) < maxstacksize pt"
    and o: "symb_op pt (sizecode pt) NO_REG OP_CLOSURE (GETARG_A (code_at pt pc)) (GETARG_Bx (code_at pt pc)) c pc l = Inr (pc', l')"
  shows "access_ok pt (vm_access pt pc OP_CLOSURE (code_at pt pc))"
proof -
  let ?b = "GETARG_Bx (code_at pt pc)"
  let ?nup = "nups (pf_p pt ! nat ?b)"
  have b: "?b < sizep pt" and n: "pc + ?nup < sizecode pt" and cl: "check_closure pt pc ?nup 1 = Inr ()"
    using o by (auto simp: bindE_eq_Inr Let_def at_def dest!: check_InrD split: if_splits)
  have pc: "0 \<le> pc" using i by (simp add: instr_at_def)
  have ps: "is_op OP_GETUPVAL (code_at pt (pc + k)) \<or> is_op OP_MOVE (code_at pt (pc + k))" if "1 \<le> k" "k \<le> ?nup" for k
    using check_closure_ok [of 1 pc ?nup pt] cl n pc that by simp
  have at: "instr_at pt (pc + int k)" if "int k \<le> ?nup" for k
    using that
  proof (induction k)
    case (Suc k)
    have "instr_at pt (pc + int k + 1)"
    proof (cases k)
      case 0
      show ?thesis using instr_fall [OF v i] i 0 by (simp add: setlist0_def is_op_unique)
    next
      case (Suc m)
      then obtain op where "is_op op (code_at pt (pc + int k))" "op \<in> {OP_GETUPVAL, OP_MOVE}"
        using ps [of "int k"] Suc.prems \<open>int (Suc k) \<le> ?nup\<close> by auto
      then show ?thesis using instr_fall [OF v, of "pc + int k" op] Suc.IH \<open>int (Suc k) \<le> ?nup\<close>
        by (auto simp: setlist0_def is_op_unique)
    qed
    then show ?case by (simp add: add.commute add.left_commute)
  qed (use i in simp)
  have arg: "if is_op OP_GETUPVAL (code_at pt q) then GETARG_B (code_at pt q) < nups pt else GETARG_B (code_at pt q) < maxstacksize pt"
    if "pc + 1 \<le> q" "q \<le> pc + ?nup" for q
  proof -
    have q: "instr_at pt q" using at [of "nat (q - pc)"] that pc by simp
    have qo: "is_op OP_GETUPVAL (code_at pt q) \<or> is_op OP_MOVE (code_at pt q)" using ps [of "q - pc"] that by simp
    obtain pc' op b c l l' where "is_op op (code_at pt q)" "args_ok pt q op (code_at pt q) (b, c)"
      "symb_op pt (sizecode pt) NO_REG op (GETARG_A (code_at pt q)) b c q l = Inr (pc', l')"
      by (rule verifiedE [OF v q])
    then show ?thesis using qo
      by (auto simp: is_op_unique args_ok_def checkArgMode_R dest: check_InrD)
  qed
  have nx: "instr_at pt (pc + ?nup + 1)"
  proof (cases "?nup = 0")
    case True
    then show ?thesis using instr_fall [OF v i] i by (simp add: setlist0_def is_op_unique)
  next
    case False
    then have "1 \<le> ?nup" using fields_nonneg(6) [of "pf_p pt ! nat ?b"] by linarith
    then obtain op where "is_op op (code_at pt (pc + ?nup))" "op \<in> {OP_GETUPVAL, OP_MOVE}"
      using ps [of ?nup] by auto
    moreover have "instr_at pt (pc + ?nup)" using at [of "nat ?nup"] by simp
    ultimately show ?thesis using instr_fall [OF v, of "pc + ?nup" op] by (auto simp: setlist0_def is_op_unique)
  qed
  show ?thesis
    using b n pc a nx arg unfolding access_ok_def vm_access.simps Let_def
    by (auto simp: code_at_def [symmetric])
qed

lemma above_A: "GETARG_A i \<le> r \<Longrightarrow> 0 \<le> r"
  using fields_nonneg(1) by (rule order_trans)

lemma above_A1: "GETARG_A i + 1 \<le> r \<Longrightarrow> 0 \<le> r"
  by (rule above_A [of i]) simp

lemma access_call:
  assumes "symb_call pt NO_REG a b c pc l = Inr (pc', l')"
  shows "(\<forall>r \<in> set [a..a + b - 1]. r < maxstacksize pt) \<and> (\<forall>r \<in> set [a..a + c - 2]. r < maxstacksize pt)"
  using assms
  by (auto simp: symb_call_def Let_def checkreg_def checkopenop_def LUA_MULTRET_def bindE_eq_Inr
      dest!: check_InrD split: if_splits)

text \<open>
  The checker tests that a \<open>LOADBOOL\<close> with argument C 1 does not skip out of the code, but the virtual
  machine skips for every value other than 0.
\<close>

definition loadbool_flags :: "Proto \<Rightarrow> bool" where
  "loadbool_flags pt \<longleftrightarrow> (\<forall>i \<in> set (pf_code pt). is_op OP_LOADBOOL i \<longrightarrow> GETARG_C i \<le> 1)"

lemma loadbool_flag: "loadbool_flags pt \<Longrightarrow> instr_at pt pc \<Longrightarrow> is_op OP_LOADBOOL (code_at pt pc) \<Longrightarrow> GETARG_C (code_at pt pc) \<le> 1"
  by (auto simp: loadbool_flags_def instr_at_def code_at_def sizecode_def)

lemma verified_access:
  assumes v: "verified pt" and lb: "loadbool_flags pt" and i: "instr_at pt pc"
  shows "access_ok pt (accesses pt pc)"
proof -
  obtain pc' op b c l l' where op: "is_op op (code_at pt pc)" and a: "GETARG_A (code_at pt pc) < maxstacksize pt"
    and args: "args_ok pt pc op (code_at pt pc) (b, c)"
    and o: "symb_op pt (sizecode pt) NO_REG op (GETARG_A (code_at pt pc)) b c pc l = Inr (pc', l')"
    by (rule verifiedE [OF v i])
  have acc: "accesses pt pc = vm_access pt pc op (code_at pt pc)"
    by (simp add: accesses_def Let_def is_op_num [OF op] flip: code_at_def)
  have fall: "instr_at pt (pc + 1)" if "op \<noteq> OP_RETURN" "op \<noteq> OP_SETLIST"
    using instr_fall [OF v i op that(1)] op that(2) by (simp add: setlist0_def is_op_unique)
  note jump = instr_jump [OF v i op]
  note test = instr_test [OF v i op]
  note defs = acc args_ok_def checkArgMode_R access_touch touch_test_def
  note K = checkArgMode_K [OF _ fields_nonneg(2)] checkArgMode_K [OF _ fields_nonneg(3)]
  note upd = access_ok_def touch_def rk_regs_def rk_consts_def
  have pc: "0 \<le> pc" using i by (simp add: instr_at_def)
  note nn = fields_nonneg(1) [of "code_at pt pc"] fields_nonneg(2) [of "code_at pt pc"] fields_nonneg(3) [of "code_at pt pc"]
    fields_nonneg(4) [of "code_at pt pc"]
  note [simp del] = fields_nonneg
  note code_at_def [symmetric, simp]
  show ?thesis
  proof (cases op)
    case OP_LOADBOOL
    then have "GETARG_C (code_at pt pc) \<le> 1" using loadbool_flag [OF lb i] op by simp
    then have "GETARG_C (code_at pt pc) = 0 \<or> GETARG_C (code_at pt pc) = 1"
      using fields_nonneg(3) [of "code_at pt pc"] by linarith
    moreover have "instr_at pt (pc + 2)" if "GETARG_C (code_at pt pc) = 1"
    proof -
      have "pc + 2 < sizecode pt" "\<not> setlist0 pt (pc + 1)"
        using OP_LOADBOOL that o args pc
        by (auto simp: args_ok_def bindE_eq_Inr at_def setlist0_def dest!: check_InrD split: if_splits)
      then have "instr_at pt (pc + 1 + 1)" using instr_next [of pt "pc + 1"] fall OP_LOADBOOL by simp
      then show ?thesis by (simp add: add.assoc)
    qed
    ultimately show ?thesis using nn OP_LOADBOOL fall a by (auto simp: defs)
  next
    case OP_CLOSURE
    then show ?thesis using access_closure [OF v i] op a o args by (simp add: acc args_ok_def)
  next
    case OP_CALL
    have "symb_call pt NO_REG (GETARG_A (code_at pt pc)) (GETARG_B (code_at pt pc)) (GETARG_C (code_at pt pc)) pc l = Inr (pc', l')"
      using o args OP_CALL by (simp add: args_ok_def)
    from access_call [OF this] show ?thesis using nn fall a OP_CALL by (auto simp: defs)
  next
    case OP_TAILCALL
    have "symb_call pt NO_REG (GETARG_A (code_at pt pc)) (GETARG_B (code_at pt pc)) (GETARG_C (code_at pt pc)) pc l = Inr (pc', l')"
      using o args OP_TAILCALL by (simp add: args_ok_def)
    from access_call [OF this] show ?thesis using nn fall a OP_TAILCALL by (auto simp: defs)
  next
    case OP_TFORLOOP
    then have "1 \<le> GETARG_C (code_at pt pc)" "GETARG_A (code_at pt pc) + 2 + GETARG_C (code_at pt pc) < maxstacksize pt"
      using o args by (auto simp: args_ok_def checkreg_def dest!: check_InrD)
    then show ?thesis using nn OP_TFORLOOP test a pc by (auto simp: defs upd EXTRA_STACK_def)
  next
    case OP_SETLIST
    let ?c = "GETARG_C (code_at pt pc)"
    have r: "0 < GETARG_B (code_at pt pc) \<Longrightarrow> GETARG_A (code_at pt pc) + GETARG_B (code_at pt pc) < maxstacksize pt"
      and n: "?c = 0 \<Longrightarrow> pc + 1 < sizecode pt - 1"
      using o args OP_SETLIST by (auto simp: args_ok_def checkreg_def Let_def dest!: check_InrD split: if_splits)
    have "instr_at pt (if ?c = 0 then pc + 2 else pc + 1)"
    proof (cases "?c = 0")
      case True
      then have "is_count pt (nat (pc + 1))"
        using i op OP_SETLIST is_count_next [OF pc] by (simp add: instr_at_def setlist0_def is_op_unique)
      then have "\<not> is_count pt (nat (pc + 1 + 1))" using is_count_next [of "pc + 1" pt] pc by simp
      then show ?thesis using nn n [OF True] pc True by (simp add: instr_at_def add.assoc)
    next
      case False
      then show ?thesis using nn instr_fall [OF v i op] OP_SETLIST by (simp add: setlist0_def)
    qed
    moreover have "GETARG_A (code_at pt pc) + GETARG_B (code_at pt pc) < maxstacksize pt"
      using r a nn(2) by (cases "0 < GETARG_B (code_at pt pc)") simp_all
    ultimately show ?thesis using nn OP_SETLIST n a pc by (cases "?c = 0") (auto simp: defs upd)
  next
    case OP_VARARG
    then have "GETARG_A (code_at pt pc) + GETARG_B (code_at pt pc) - 2 < maxstacksize pt"
      using o args by (auto simp: args_ok_def checkreg_def checkopenop_def Let_def bindE_eq_Inr dest!: check_InrD split: if_splits)
    then show ?thesis using nn OP_VARARG fall a by (auto simp: defs)
  next
    case OP_LOADK
    then show ?thesis using nn fall a args by (auto simp: defs upd)
  next
    case OP_GETUPVAL
    then show ?thesis using nn fall a args o by (auto simp: defs upd dest: check_InrD)
  next
    case OP_SETUPVAL
    then show ?thesis using nn fall a args o by (auto simp: defs upd dest: check_InrD)
  next
    case OP_GETGLOBAL
    then show ?thesis using nn fall a args by (auto simp: defs upd)
  next
    case OP_SETGLOBAL
    then show ?thesis using nn fall a args by (auto simp: defs upd)
  next
    case OP_SELF
    then show ?thesis using nn fall a args o K by (auto simp: defs checkreg_def dest: check_InrD)
  next
    case OP_RETURN
    then show ?thesis using nn a args o
      by (auto simp: defs checkreg_def Let_def dest: check_InrD split: if_splits)
  next
    case OP_FORLOOP
    then show ?thesis using nn fall jump a args o by (auto simp: defs checkreg_def dest: check_InrD)
  next
    case OP_FORPREP
    then show ?thesis using nn jump a args o by (auto simp: defs checkreg_def dest: check_InrD)
  next
    case OP_JMP
    then show ?thesis using nn jump by (simp add: defs)
  next
    case OP_EQ
    then show ?thesis using nn test args K pc by (auto simp: defs upd) 
  next
    case OP_LT
    then show ?thesis using nn test args K pc by (auto simp: defs upd)
  next
    case OP_LE
    then show ?thesis using nn test args K pc by (auto simp: defs upd)
  next
    case OP_TEST
    then show ?thesis using nn test args a pc by (auto simp: defs upd)
  next
    case OP_TESTSET
    then show ?thesis using nn test args a pc by (auto simp: defs upd)
  qed (use nn fall a args K in \<open>auto simp: defs\<close>)
qed

lemma checkcode_verified:
  assumes "luaG_checkcode pt = Inr True"
  shows "verified pt"
proof -
  obtain i where "symbexec pt (sizecode pt) NO_REG = Inr i"
    using assms by (auto simp: luaG_checkcode_def split: sum.splits verdict.splits)
  then obtain l where p: "precheck pt = Inr ()" and l: "symb_loop pt (sizecode pt) NO_REG 0 (sizecode pt - 1) = Inr l"
    by (auto simp: symbexec_def bindE_eq_Inr)
  have e: "ends_in_return pt" using precheck_ok [of pt] p by simp
  show ?thesis
    unfolding verified_def using e all_checked [OF l e refl] by (auto simp: instr_at_def)
qed

text \<open>The positions that execution of a function can reach.\<close>

inductive vm_reaches :: "Proto \<Rightarrow> int \<Rightarrow> bool" for pt where
  start: "vm_reaches pt 0"
| step: "vm_reaches pt pc \<Longrightarrow> q \<in> set (ac_next (accesses pt pc)) \<Longrightarrow> vm_reaches pt q"

subsection \<open>Open values\<close>

text \<open>
  A tail call always leaves its results open, but the checker looks at the next instruction only if its
  argument C is 0.
\<close>

definition tailcall_flags :: "Proto \<Rightarrow> bool" where
  "tailcall_flags pt \<longleftrightarrow> (\<forall>i \<in> set (pf_code pt). is_op OP_TAILCALL i \<longrightarrow> GETARG_C i = 0)"

text \<open>The slots that are used when the number of values is open: in the stack, or arguments of the caller.\<close>

definition open_ok :: "Proto \<Rightarrow> int \<Rightarrow> vm_state \<Rightarrow> bool" where
  "open_ok pt nvar s \<longleftrightarrow>
     (let i = code_at pt (v_pc s); room = (if open_vararg i then max (v_room s) (v_top s + nvar + EXTRA_STACK) else v_room s)
      in (\<forall>r \<in> set (open_regs nvar (v_top s) i). 0 \<le> r \<and> r < room)
         \<and> (\<forall>r \<in> set (caller_regs nvar i). - nvar \<le> r \<and> r < 0))"

text \<open>What the virtual machine asserts before each instruction, with room for the extra slots.\<close>

definition top_ok :: "Proto \<Rightarrow> vm_state \<Rightarrow> bool" where
  "top_ok pt s \<longleftrightarrow>
     (v_top s = maxstacksize pt \<or> luaG_checkopenop (code_at pt (v_pc s)))
     \<and> 0 \<le> v_top s \<and> v_top s + EXTRA_STACK \<le> v_room s"

lemma open_follow:
  assumes v: "verified pt" and i: "instr_at pt pc"
    and op: "is_op OP_CALL (code_at pt pc) \<and> GETARG_C (code_at pt pc) = 0
      \<or> is_op OP_TAILCALL (code_at pt pc) \<and> GETARG_C (code_at pt pc) = 0 \<or> open_vararg (code_at pt pc)"
  shows "luaG_checkopenop (code_at pt (pc + 1))"
proof -
  obtain pc' op b c l l' where o: "is_op op (code_at pt pc)" "args_ok pt pc op (code_at pt pc) (b, c)"
    "symb_op pt (sizecode pt) NO_REG op (GETARG_A (code_at pt pc)) b c pc l = Inr (pc', l')"
    by (rule verifiedE [OF v i])
  have chk: "luaG_checkopenop (code_at pt (pc + 1))" if "checkopenop pt pc k = Inr y" for k :: "(int \<times> int) vres" and y
    using that by (auto simp: checkopenop_def at_def bindE_eq_Inr code_at_def dest!: check_InrD split: if_splits)
  have call: "luaG_checkopenop (code_at pt (pc + 1))"
    if "symb_call pt NO_REG a b 0 pc l = Inr (pc', l')" for a b
    using that by (auto simp: symb_call_def Let_def LUA_MULTRET_def checkreg_def dest!: check_InrD intro: chk split: if_splits)
  consider "op = OP_CALL" | "op = OP_TAILCALL" | "op = OP_VARARG"
    using op o(1) by (auto simp: is_op_unique open_vararg_def)
  then show ?thesis
  proof cases
    case 1
    then show ?thesis using op o by (auto simp: args_ok_def is_op_unique open_vararg_def intro: call)
  next
    case 2
    then show ?thesis using op o by (auto simp: args_ok_def is_op_unique open_vararg_def intro: call)
  next
    case 3
    then show ?thesis using op o
      by (auto simp: args_ok_def is_op_unique open_vararg_def Let_def LUA_MULTRET_def dest!: check_InrD intro: chk)
  qed
qed

lemma tailcall_flag: "tailcall_flags pt \<Longrightarrow> instr_at pt pc \<Longrightarrow> is_op OP_TAILCALL (code_at pt pc) \<Longrightarrow> GETARG_C (code_at pt pc) = 0"
  by (auto simp: tailcall_flags_def instr_at_def code_at_def sizecode_def)

lemma next_of_open:
  assumes "is_op OP_CALL (code_at pt pc) \<or> is_op OP_TAILCALL (code_at pt pc) \<or> is_op OP_VARARG (code_at pt pc)"
    and "q \<in> set (ac_next (accesses pt pc))"
  shows "q = pc + 1"
  using assms by (auto simp: accesses_def Let_def is_op_num touch_def simp flip: code_at_def)

lemma runs_instr:
  assumes "verified pt" "loadbool_flags pt"
  shows "vm_runs pt nvar s \<Longrightarrow> instr_at pt (v_pc s)"
proof (induction rule: vm_runs.induct)
  case (enter room)
  then show ?case using assms(1) by (simp add: instr_at_def verified_def ends_in_return_def)
next
  case (exec s q i room' tp')
  then show ?case using verified_access [OF assms] by (auto simp: access_ok_def)
qed

lemma runs_top:
  assumes v: "verified pt" "loadbool_flags pt" "tailcall_flags pt" and n: "0 \<le> nvar"
  shows "vm_runs pt nvar s \<Longrightarrow> top_ok pt s"
proof (induction rule: vm_runs.induct)
  case (enter room)
  then show ?case by (simp add: top_ok_def maxstacksize_def)
next
  case (exec s q i room' tp')
  let ?i = "code_at pt (v_pc s)"
  have i: "i = ?i" using exec.hyps(3) by (simp add: code_at_def)
  have ins: "instr_at pt (v_pc s)" by (rule runs_instr [OF v(1,2) exec.hyps(1)])
  have a: "0 \<le> GETARG_A ?i" "GETARG_A ?i < maxstacksize pt" using verifiedE [OF v(1) ins] by auto
  show ?case
  proof (cases "is_op OP_CALL ?i \<and> GETARG_C ?i = 0 \<or> is_op OP_TAILCALL ?i \<or> open_vararg ?i")
    case True
    have "luaG_checkopenop (code_at pt (v_pc s + 1))"
      using True tailcall_flag [OF v(3) ins] by (intro open_follow [OF v(1) ins]) auto
    moreover have "q = v_pc s + 1" using True exec.hyps(2) next_of_open by (auto simp: open_vararg_def)
    moreover have "0 \<le> tp' \<and> tp' + EXTRA_STACK \<le> room'"
    proof (cases "open_vararg ?i")
      case ov: True
      then have "\<not> luaG_checkopenop ?i" by (auto simp: open_vararg_def luaG_checkopenop_def is_op_unique)
      then have "v_top s = maxstacksize pt" using exec.IH by (simp add: top_ok_def)
      moreover have "tp' = GETARG_A ?i + nvar"
        using exec.hyps(6) ov unfolding i by (auto simp: top_after_def open_vararg_def is_op_unique)
      ultimately show ?thesis using exec.hyps(5) ov a n i by simp
    next
      case False
      then show ?thesis using True exec.hyps(6) unfolding i by (auto simp: top_after_def intro: above_A)
    qed
    ultimately show ?thesis by (simp add: top_ok_def)
  next
    case False
    have "tp' = maxstacksize pt"
    proof (cases "is_op OP_CALL ?i \<or> is_op OP_TFORLOOP ?i \<or> is_op OP_SETLIST ?i \<and> GETARG_B ?i = 0")
      case True
      then show ?thesis using False exec.hyps(6) unfolding i by (auto simp: top_after_def)
    next
      case k: False
      have nr: "\<not> is_op OP_RETURN ?i"
      proof
        assume "is_op OP_RETURN ?i"
        then have "ac_next (accesses pt (v_pc s)) = []" by (simp add: accesses_def Let_def is_op_num touch_def flip: code_at_def)
        then show False using exec.hyps(2) by simp
      qed
      have "\<not> luaG_checkopenop ?i" using False k nr by (auto simp: luaG_checkopenop_def)
      moreover have "tp' = v_top s" using False k exec.hyps(6) unfolding i by (auto simp: top_after_def)
      ultimately show ?thesis using exec.IH by (simp add: top_ok_def)
    qed
    then show ?thesis using exec.hyps(4) by (simp add: top_ok_def maxstacksize_def)
  qed
qed

lemma runs_open:
  assumes v: "verified pt" and i: "instr_at pt (v_pc s)" and t: "top_ok pt s" and n: "0 \<le> nvar"
  shows "open_ok pt nvar s"
proof -
  let ?i = "code_at pt (v_pc s)"
  have a: "0 \<le> GETARG_A ?i" "GETARG_A ?i < maxstacksize pt" using verifiedE [OF v i] by auto
  have "r < v_top s + nvar + EXTRA_STACK" if ov: "open_vararg ?i" and r: "r < GETARG_A ?i + nvar" for r
  proof -
    have "\<not> luaG_checkopenop ?i" using ov by (auto simp: open_vararg_def luaG_checkopenop_def is_op_unique)
    then show ?thesis using t a r by (simp add: top_ok_def EXTRA_STACK_def)
  qed
  then have "r < max (v_room s) (v_top s + nvar + EXTRA_STACK)" if "open_vararg ?i" "r < GETARG_A ?i + nvar" for r
    using that by (simp add: less_max_iff_disj)
  then have "\<forall>r \<in> set (open_regs nvar (v_top s) ?i). 0 \<le> r \<and>
      r < (if open_vararg ?i then max (v_room s) (v_top s + nvar + EXTRA_STACK) else v_room s)"
    using t a by (auto simp: open_regs_def open_vararg_def top_ok_def is_op_unique intro: above_A above_A1 split: if_splits)
       (simp_all add: EXTRA_STACK_def)
  moreover have "\<forall>r \<in> set (caller_regs nvar ?i). - nvar \<le> r \<and> r < 0"
    by (auto simp: caller_regs_def Let_def split: if_splits)
  ultimately show ?thesis by (simp add: open_ok_def Let_def)
qed

section \<open>Loaded chunks\<close>

fun all_protos :: "Proto \<Rightarrow> Proto list" where
  "all_protos (Proto src ldef lldef nu npar vararg mstack cd k ps li lv uv) =
     Proto src ldef lldef nu npar vararg mstack cd k ps li lv uv # concat (map all_protos ps)"

lemma all_protos_self: "f \<in> set (all_protos f)"
  by (cases f) simp

lemma load_times_each:
  "load_times n ld Z = Inr (xs, Z') \<Longrightarrow> x \<in> set xs \<Longrightarrow> \<exists>Z1 Z2. ld Z1 = Inr (x, Z2)"
  by (induction n arbitrary: Z xs) (auto simp: bindE_eq_Inr, blast)

lemma LoadFunction_checked:
  "LoadFunction d chk name p Z = Inr (f, Z') \<Longrightarrow> g \<in> set (all_protos f) \<Longrightarrow> chk g"
proof (induction d arbitrary: p Z f Z' g)
  case (Suc d)
  then obtain src ldef lldef nu npar vararg mstack cd k n Z1 ps Z2 li lv uv where
    f: "f = Proto src ldef lldef nu npar vararg mstack cd k ps li lv uv" "chk f"
    and ps: "load_times n (LoadFunction d chk name src) Z1 = Inr (ps, Z2)"
    by (auto simp: bindE_eq_Inr Let_def split: if_splits)
  show ?case
  proof (cases "g = f")
    case False
    then obtain h where "h \<in> set ps" "g \<in> set (all_protos h)" using Suc.prems(2) f(1) by auto
    then show ?thesis using load_times_each [OF ps] Suc.IH by blast
  qed (use f in simp)
qed simp

definition accepts :: "Proto \<Rightarrow> bool" where
  "accepts f \<longleftrightarrow> luaG_checkcode f = Inr True"

text \<open>
  C31: loaded code stays inside. Whatever the bytes of a precompiled chunk, every function of it that
  \<open>luaU_undump\<close> returns after \<open>luaG_checkcode\<close> has accepted it (and in which the flags of \<open>LOADBOOL\<close> are 0
  or 1 and tail calls have argument C 0, which the checker does not test) runs within bounds: execution
  never leaves its code and never takes the count of a table constructor for an instruction; each
  instruction it reaches touches only registers of its frame (a generic \<open>for\<close>, at most the extra slots
  of the stack), constants, upvalues and inner functions that exist. \<open>L->top\<close> is the top of the frame
  unless an instruction that uses open values is next, and always lies in the stack; the instructions
  that go up to \<open>L->top\<close> stay in the stack, and \<open>OP_VARARG\<close> reads only extra arguments of the call.
\<close>

theorem loaded_code_safe:
  assumes "luaU_undump d accepts name Z = Inr (f, Z')" and "g \<in> set (all_protos f)"
    and "loadbool_flags g" and "tailcall_flags g" and "0 \<le> nvar" and "vm_runs g nvar s"
  shows "instr_at g (v_pc s) \<and> access_ok g (accesses g (v_pc s))
    \<and> (v_top s = maxstacksize g \<or> luaG_checkopenop (code_at g (v_pc s))) \<and> 0 \<le> v_top s \<and> v_top s + EXTRA_STACK \<le> v_room s
    \<and> open_ok g nvar s"
proof -
  obtain Z1 where "LoadFunction d accepts (chunk_name name) (Some [61, 63]) Z1 = Inr (f, Z')"
    using assms(1) by (auto simp: luaU_undump_def Let_def bindE_eq_Inr)
  then have "accepts g" by (rule LoadFunction_checked [OF _ assms(2)])
  then have v: "verified g" unfolding accepts_def by (rule checkcode_verified)
  have i: "instr_at g (v_pc s)" by (rule runs_instr [OF v assms(3,6)])
  have t: "top_ok g s" by (rule runs_top [OF v assms(3-6)])
  show ?thesis using i verified_access [OF v assms(3) i] t runs_open [OF v i t assms(5)] by (simp add: top_ok_def)
qed

text \<open>
  A chunk of one function with extra arguments, \<open>LOADBOOL 0 0 1; LOADNIL 0 1; VARARG 0 0; RETURN 0 0\<close>, that skips
  the second instruction and returns its arguments, called with three of them.
\<close>

definition small_proto :: Proto where
  "small_proto = Proto None 0 0 0 0 2 2 [CREATE_ABC 2 0 0 1, CREATE_ABC 3 0 1 0, CREATE_ABC 37 0 0 0, CREATE_ABC 30 0 0 0] [] [] [] [] []"

definition small_chunk :: "byte list" where
  "small_chunk = snd (luaU_dump app_writer small_proto [] True)"

definition small_loaded :: Proto where
  "small_loaded = loaded True (Some [61, 63]) small_proto"

definition small_state :: vm_state where
  "small_state = \<lparr>v_pc = 3, v_top = 3, v_room = 10\<rparr>"

lemma small_runs: "vm_runs small_loaded 3 small_state"
proof -
  have m: "maxstacksize small_loaded = 2" by code_simp
  have n: "ac_next (accesses small_loaded 0) = [2]" "ac_next (accesses small_loaded 2) = [3]" by code_simp+
  have c: "pf_code small_loaded ! 0 = CREATE_ABC 2 0 0 1" "pf_code small_loaded ! 2 = CREATE_ABC 37 0 0 0" by code_simp+
  have t: "top_after small_loaded 3 (CREATE_ABC 2 0 0 1) 2 7 2" "\<not> open_vararg (CREATE_ABC 2 0 0 1)"
    "top_after small_loaded 3 (CREATE_ABC 37 0 0 0) 2 10 3" by code_simp+
  have e: "vm_runs small_loaded 3 \<lparr>v_pc = 0, v_top = maxstacksize small_loaded, v_room = 7\<rparr>"
    by (rule vm_runs.enter) (simp add: m EXTRA_STACK_def)
  have "vm_runs small_loaded 3 \<lparr>v_pc = 2, v_top = 2, v_room = 7\<rparr>"
    by (rule vm_runs.exec [OF e]) (use n c t m in \<open>simp_all add: EXTRA_STACK_def\<close>)
  then show ?thesis unfolding small_state_def
    by (rule vm_runs.exec) (use n c t m in \<open>simp_all add: EXTRA_STACK_def\<close>)
qed

theorem loaded_code_safe_witness:
  "instr_at small_loaded 3 \<and> luaG_checkopenop (code_at small_loaded 3) \<and> open_ok small_loaded 3 small_state"
proof -
  have u: "map_sum id fst (luaU_undump 2 accepts ''='' (luaZ_init [small_chunk])) = Inr small_loaded"
    by code_simp
  then obtain Z' where u': "luaU_undump 2 accepts ''='' (luaZ_init [small_chunk]) = Inr (small_loaded, Z')"
    by (cases "luaU_undump 2 accepts ''='' (luaZ_init [small_chunk])") auto
  have f: "small_loaded \<in> set (all_protos small_loaded)" "loadbool_flags small_loaded" "tailcall_flags small_loaded"
    "maxstacksize small_loaded = 2"
  proof -
    show "small_loaded \<in> set (all_protos small_loaded)" by (rule all_protos_self)
  qed code_simp+
  show ?thesis using loaded_code_safe [OF u' f(1-3) _ small_runs] f(4) by (simp add: small_state_def)
qed

text \<open>
  C33: the gap in the checker. The checker tests the skip of a \<open>LOADBOOL\<close> only when its argument C is 1,
  but the virtual machine skips for every C other than 0: there is a function that \<open>luaG_checkcode\<close> accepts
  and whose execution continues past the end of its code.
\<close>

theorem loadbool_gap:
  "\<exists>pt. luaG_checkcode pt = Inr True \<and> vm_reaches pt (sizecode pt)"
proof -
  let ?pt = "Proto None 0 0 0 0 0 2 [CREATE_ABC 2 0 0 2, CREATE_ABC 30 0 1 0] [] [] [] [] []"
  have "luaG_checkcode ?pt = Inr True" by code_simp
  moreover have "ac_next (accesses ?pt 0) = [sizecode ?pt]" by code_simp
  then have "vm_reaches ?pt (sizecode ?pt)" using vm_reaches.step [OF vm_reaches.start, of "sizecode ?pt" ?pt] by simp
  ultimately show ?thesis by blast
qed

text \<open>
  The same for tail calls: the checker looks at the instruction after a \<open>TAILCALL\<close> only when its argument C
  is 0, but a tail call of a C function always leaves \<open>L->top\<close> after the results.
\<close>

lemma tailcall_gap:
  "\<exists>pt s. luaG_checkcode pt = Inr True \<and> vm_runs pt 0 s
     \<and> v_top s \<noteq> maxstacksize pt \<and> \<not> luaG_checkopenop (code_at pt (v_pc s))"
proof -
  let ?pt = "Proto None 0 0 0 0 0 2 [CREATE_ABC 29 0 1 1, CREATE_ABC 3 0 1 0, CREATE_ABC 30 0 1 0] [] [] [] [] []"
  let ?s = "\<lparr>v_pc = 1, v_top = 0, v_room = 7\<rparr>"
  have c: "luaG_checkcode ?pt = Inr True" "ac_next (accesses ?pt 0) = [1]" "maxstacksize ?pt = 2"
    "top_after ?pt 0 (CREATE_ABC 29 0 1 1) 2 7 0" "\<not> open_vararg (CREATE_ABC 29 0 1 1)"
    "\<not> luaG_checkopenop (code_at ?pt 1)" by code_simp+
  have e: "vm_runs ?pt 0 \<lparr>v_pc = 0, v_top = maxstacksize ?pt, v_room = 7\<rparr>"
    by (rule vm_runs.enter) (simp add: c(3) EXTRA_STACK_def)
  have "vm_runs ?pt 0 ?s"
    by (rule vm_runs.exec [OF e]) (use c in \<open>simp_all add: EXTRA_STACK_def\<close>)
  then show ?thesis using c(1,3,6) by (intro exI [of _ ?pt] exI [of _ ?s]) simp
qed

end
