(* ===== verification/LuaTabLib.thy ===== *)
theory LuaTabLib
  imports LuaBuffer "HOL-Library.Multiset"
begin

text \<open>
  The table library (\<open>src/lua/src/ltablib.c\<close>): insertion, removal, concatenation and the quicksort, on the
  array part of a table seen through \<open>lua_rawgeti\<close> and \<open>lua_rawseti\<close>, a function from integers to values
  with nil where nothing is stored; and the order of strings (\<open>l_strcmp\<close> of \<open>lvm.c\<close>) by which it sorts.
  The length \<open>n\<close> of a table is an argument of the functions that ask for it.
\<close>

section \<open>Arrays\<close>

type_synonym 'v tarr = "int \<Rightarrow> 'v"

definition lua_rawgeti :: "'v tarr \<Rightarrow> int \<Rightarrow> 'v" where "lua_rawgeti t i = t i"
definition lua_rawseti :: "'v tarr \<Rightarrow> int \<Rightarrow> 'v \<Rightarrow> 'v tarr" where "lua_rawseti t i v = t(i := v)"

definition intE :: "int \<Rightarrow> int lres" where 
  "intE i = (if in_int i then Inr i else Inl (ErrUB IntOverflow))"

text \<open>\<open>set2\<close> with the values that are on the stack, the one for \<open>i\<close> on top.\<close>

definition set2 :: "'v tarr \<Rightarrow> int \<Rightarrow> int \<Rightarrow> 'v \<Rightarrow> 'v \<Rightarrow> 'v tarr" where
  "set2 t i j vi vj = lua_rawseti (lua_rawseti t i vi) j vj"

section \<open>Insertion, removal, concatenation\<close>

text \<open>The loop of \<open>tinsert\<close> from \<open>i\<close> down to \<open>pos\<close>, and that of \<open>tremove\<close> from \<open>pos\<close> up to \<open>e\<close>.\<close>

function move_up :: "int \<Rightarrow> int \<Rightarrow> 'v tarr \<Rightarrow> 'v tarr" where
  "move_up pos i t = (if i > pos then move_up pos (i - 1) (lua_rawseti t i (lua_rawgeti t (i - 1))) else t)"
  by auto
termination by (relation "measure (\<lambda>(pos, i, t). nat (i - pos))") auto

function move_down :: "int \<Rightarrow> int \<Rightarrow> 'v tarr \<Rightarrow> 'v tarr" where
  "move_down pos e t = (if pos < e then move_down (pos + 1) e (lua_rawseti t pos (lua_rawgeti t (pos + 1))) else t)"
  by auto
termination by (relation "measure (\<lambda>(pos, e, t). nat (e - pos))") auto

declare move_up.simps [simp del] move_down.simps [simp del]

text \<open>The position is absent when the function is called with two arguments.\<close>

definition tinsert :: "'v tarr \<Rightarrow> int \<Rightarrow> int option \<Rightarrow> 'v \<Rightarrow> 'v tarr lres" where
  "tinsert t n pos v =
     bindE (intE (n + 1)) (\<lambda>e.
       case pos of
         None \<Rightarrow> Inr (lua_rawseti t e v)
       | Some pos \<Rightarrow>
           let e = (if pos > e then pos else e)
           in Inr (lua_rawseti (move_up pos e t) pos v))"

definition tremove :: "'v \<Rightarrow> 'v tarr \<Rightarrow> int \<Rightarrow> int option \<Rightarrow> 'v option \<times> 'v tarr" where
  "tremove nil t e pos =
     (let pos = (case pos of None \<Rightarrow> e | Some p \<Rightarrow> p)
      in if \<not> (1 \<le> pos \<and> pos \<le> e) then (None, t)
         else (Some (lua_rawgeti t pos), lua_rawseti (move_down pos e t) e nil))"

text \<open>\<open>addfield\<close>; \<open>str\<close> gives the text of a string or number and nothing for another value.\<close>

definition addfield :: "('v \<Rightarrow> byte list option) \<Rightarrow> 'v tarr \<Rightarrow> int \<Rightarrow> luaL_Buffer \<Rightarrow> luaL_Buffer lres" where
  "addfield str t i b =
     (case str (lua_rawgeti t i) of
        None \<Rightarrow> Inl (ErrRun ''invalid value in table for concat'')
      | Some s \<Rightarrow> Inr (luaL_addvalue s b))"

function concat_loop :: "('v \<Rightarrow> byte list option) \<Rightarrow> byte list \<Rightarrow> 'v tarr \<Rightarrow> int \<Rightarrow> int \<Rightarrow> luaL_Buffer \<Rightarrow> luaL_Buffer lres" where
  "concat_loop str sep t i lst b =
     (if i < lst
      then bindE (addfield str t i b) (\<lambda>b. concat_loop str sep t (i + 1) lst (luaL_addlstring sep b))
      else if i = lst then addfield str t i b else Inr b)"
  by auto
termination by (relation "measure (\<lambda>(str, sep, t, i, lst, b). nat (lst - i))") auto

declare concat_loop.simps [simp del]

definition tconcat :: "('v \<Rightarrow> byte list option) \<Rightarrow> byte list \<Rightarrow> 'v tarr \<Rightarrow> int \<Rightarrow> int \<Rightarrow> byte list lres" where
  "tconcat str sep t i lst = bindE (concat_loop str sep t i lst luaL_buffinit) (\<lambda>b. Inr (luaL_pushresult b))"

section \<open>Sorting\<close>

type_synonym 'v comp = "'v \<Rightarrow> 'v \<Rightarrow> bool lres"

definition sort_error :: "'a lres" where
  "sort_error = Inl (ErrRun ''invalid order function for sorting'')"

text \<open>\<open>while (lua_rawgeti(L, 1, ++i), sort_comp(L, -1, -2))\<close>, and its counterpart for \<open>j\<close>.\<close>

function scan_up :: "'v comp \<Rightarrow> 'v tarr \<Rightarrow> 'v \<Rightarrow> int \<Rightarrow> int \<Rightarrow> int lres" where
  "scan_up lt t P u i =
     bindE (lt (lua_rawgeti t (i + 1)) P) (\<lambda>b.
       if b then if i + 1 > u then sort_error else scan_up lt t P u (i + 1) else Inr (i + 1))"
  by auto
termination by (relation "measure (\<lambda>(lt, t, P, u, i). nat (u - i))") auto

function scan_down :: "'v comp \<Rightarrow> 'v tarr \<Rightarrow> 'v \<Rightarrow> int \<Rightarrow> int \<Rightarrow> int lres" where
  "scan_down lt t P l j =
     bindE (lt P (lua_rawgeti t (j - 1))) (\<lambda>b.
       if b then if j - 1 < l then sort_error else scan_down lt t P l (j - 1) else Inr (j - 1))"
  by auto
termination by (relation "measure (\<lambda>(lt, t, P, l, j). nat (j - l))") auto

declare scan_up.simps [simp del] scan_down.simps [simp del]

lemma scan_up_moves: "scan_up lt t P u i = Inr i' \<Longrightarrow> i < i'"
proof (induction lt t P u i rule: scan_up.induct)
  case (1 lt t P u i)
  show ?case using 1(2)
    by (subst (asm) scan_up.simps) (auto simp: bindE_eq_Inr sort_error_def dest: 1(1) split: if_splits)
qed

lemma scan_down_moves: "scan_down lt t P l j = Inr j' \<Longrightarrow> j' < j"
proof (induction lt t P l j rule: scan_down.induct)
  case (1 lt t P l j)
  show ?case using 1(2)
    by (subst (asm) scan_down.simps) (auto simp: bindE_eq_Inr sort_error_def dest: 1(1) split: if_splits)
qed

text \<open>The \<open>for (;;)\<close> loop that partitions around the pivot \<open>P\<close>; it ends because \<open>i\<close> and \<open>j\<close> approach each other.\<close>

function part_loop :: "'v comp \<Rightarrow> 'v \<Rightarrow> int \<Rightarrow> int \<Rightarrow> 'v tarr \<Rightarrow> int \<Rightarrow> int \<Rightarrow> (int \<times> 'v tarr) lres" where
  "part_loop lt P l u t i j =
     bindE (scan_up lt t P u i) (\<lambda>i.
     bindE (scan_down lt t P l j) (\<lambda>j.
       if j < i then Inr (i, t)
       else part_loop lt P l u (set2 t i j (lua_rawgeti t j) (lua_rawgeti t i)) i j))"
  by auto
termination
  by (relation "measure (\<lambda>(lt, P, l, u, t, i, j). nat (j - i))") (auto dest!: scan_up_moves scan_down_moves)

declare part_loop.simps [simp del]

text \<open>Sorting of \<open>a[l]\<close>, \<open>a[i]\<close> and \<open>a[u]\<close>: the first and the second comparison with their swaps.\<close>

definition order_ends :: "'v comp \<Rightarrow> int \<Rightarrow> int \<Rightarrow> 'v tarr \<Rightarrow> 'v tarr lres" where
  "order_ends lt l u t =
     bindE (lt (lua_rawgeti t u) (lua_rawgeti t l)) (\<lambda>b.
       Inr (if b then set2 t l u (lua_rawgeti t u) (lua_rawgeti t l) else t))"

definition order_middle :: "'v comp \<Rightarrow> int \<Rightarrow> int \<Rightarrow> int \<Rightarrow> 'v tarr \<Rightarrow> 'v tarr lres" where
  "order_middle lt l i u t =
     bindE (lt (lua_rawgeti t i) (lua_rawgeti t l)) (\<lambda>b.
       if b then Inr (set2 t i l (lua_rawgeti t l) (lua_rawgeti t i))
       else bindE (lt (lua_rawgeti t u) (lua_rawgeti t i)) (\<lambda>b.
              Inr (if b then set2 t i u (lua_rawgeti t u) (lua_rawgeti t i) else t)))"

text \<open>\<open>auxsort\<close>: the \<open>while\<close> loop over the larger half is the second recursive call.\<close>

fun auxsort :: "nat \<Rightarrow> 'v comp \<Rightarrow> int \<Rightarrow> int \<Rightarrow> 'v tarr \<Rightarrow> 'v tarr lres" where
  "auxsort 0 lt l u t = Inl (ErrUB Diverges)"
| "auxsort (Suc f) lt l u t =
     (if l < u
      then bindE (order_ends lt l u t) (\<lambda>t.
           if u - l = 1 then Inr t
           else bindE (intE (l + u)) (\<lambda>s.
                let i = s div 2
                in bindE (order_middle lt l i u t) (\<lambda>t.
                   if u - l = 2 then Inr t
                   else let P = lua_rawgeti t i; t = set2 t i (u - 1) (lua_rawgeti t (u - 1)) P
                        in bindE (part_loop lt P l u t l (u - 1)) (\<lambda>(i, t).
                           let t = set2 t (u - 1) i (lua_rawgeti t i) (lua_rawgeti t (u - 1))
                           in if i - l < u - i
                              then bindE (auxsort f lt l (i - 1) t) (\<lambda>t. auxsort f lt (i + 1) u t)
                              else bindE (auxsort f lt (i + 1) u t) (\<lambda>t. auxsort f lt l (i - 1) t)))))
      else Inr t)"

definition sort_table :: "'v comp \<Rightarrow> 'v tarr \<Rightarrow> int \<Rightarrow> 'v tarr lres" where
  "sort_table lt t n = auxsort (nat n + 1) lt 1 n t"

section \<open>The order of strings\<close>

text \<open>\<open>strcoll\<close> in the C locale, on the bytes up to the first zero.\<close>

fun strcoll :: "byte list \<Rightarrow> byte list \<Rightarrow> int" where
  "strcoll [] [] = 0"
| "strcoll [] (d # r) = (if d = 0 then 0 else -1)"
| "strcoll (c # l) [] = (if c = 0 then 0 else 1)"
| "strcoll (c # l) (d # r) = (if c = d then if c = 0 then 0 else strcoll l r else if c < d then -1 else 1)"

definition strlen :: "byte list \<Rightarrow> nat" where "strlen s = length (takeWhile (\<lambda>c. c \<noteq> 0) s)"

lemma strlen_le: "strlen s \<le> length s"
  by (simp add: strlen_def length_takeWhile_le)

function l_strcmp :: "byte list \<Rightarrow> byte list \<Rightarrow> int" where
  "l_strcmp l r =
     (let temp = strcoll l r
      in if temp \<noteq> 0 then temp
         else let len = strlen l
              in if len = length r then if len = length l then 0 else 1
                 else if len = length l then -1
                 else l_strcmp (drop (len + 1) l) (drop (len + 1) r))"
  by auto
termination
proof (relation "measure (\<lambda>(l, r). length l)")
  fix l r :: "byte list" and temp len
  assume "len = strlen l" "len \<noteq> length l"
  then show "((drop (len + 1) l, drop (len + 1) r), l, r) \<in> measure (\<lambda>(l, r). length l)"
    using strlen_le [of l] by simp
qed simp

declare l_strcmp.simps [simp del]

end
