(* ===== verification/LuaSort.thy ===== *)
theory LuaSort
  imports LuaTabLib LuaObject
begin

text \<open>
  The quicksort of the table library ends and sorts for every comparison that is a strict weak order on
  the values present (locale \<open>sort_order\<close>); strings have such an order, and so have numbers that are not NaN.
\<close>

section \<open>Rearrangements of a segment\<close>

definition rearr :: "int \<Rightarrow> int \<Rightarrow> 'v tarr \<Rightarrow> 'v tarr \<Rightarrow> bool" where
  "rearr l u t t' \<longleftrightarrow> (\<forall>k. k < l \<or> k > u \<longrightarrow> t' k = t k) \<and> mset (map t' [l..u]) = mset (map t [l..u])"

lemma rearr_refl [simp]: "rearr l u t t"
  by (simp add: rearr_def)

lemma rearr_trans: "rearr l u t t1 \<Longrightarrow> rearr l u t1 t2 \<Longrightarrow> rearr l u t t2"
  by (simp add: rearr_def)

lemma rearr_wider:
  assumes "rearr l' u' t t'" "l \<le> l'" "u' \<le> u"
  shows "rearr l u t t'"
proof (cases "l' \<le> u'")
  case True
  then have "[l..u] = [l..l' - 1] @ [l'..u'] @ [u' + 1..u]"
    using upto_split1 [of l l' u] upto_split2 [of l' u' u] assms(2,3) by (cases "l = l'") auto
  then have m: "mset (map f [l..u]) = mset (map f [l..l' - 1]) + mset (map f [l'..u']) + mset (map f [u' + 1..u])"
    for f :: "'v tarr" by simp
  have e: "map t' [l..l' - 1] = map t [l..l' - 1]" "map t' [u' + 1..u] = map t [u' + 1..u]"
    using assms(1) by (auto simp: rearr_def)
  have "mset (map t' [l..u]) = mset (map t [l..u])" unfolding m e using assms(1) by (simp add: rearr_def)
  then show ?thesis using assms by (auto simp: rearr_def)
next
  case False
  then have "t' = t" using assms(1) by (auto simp: rearr_def fun_eq_iff)
  then show ?thesis by simp
qed

definition swap :: "int \<Rightarrow> int \<Rightarrow> 'v tarr \<Rightarrow> 'v tarr" where
  "swap i j t = t(i := t j, j := t i)"

lemma set2_swap [simp]: "set2 t i j (lua_rawgeti t j) (lua_rawgeti t i) = swap i j t"
  by (simp add: set2_def lua_rawseti_def lua_rawgeti_def swap_def)

lemma rearr_swap:
  assumes "i \<in> {l..u}" "j \<in> {l..u}"
  shows "rearr l u t (swap i j t)"
proof -
  let ?xs = "map t [l..u]" and ?i = "nat (i - l)" and ?j = "nat (j - l)"
  have ij: "?i < length ?xs" "?j < length ?xs" "?xs ! ?i = t i" "?xs ! ?j = t j" using assms by auto
  have "map (swap i j t) [l..u] = ?xs[?j := ?xs ! ?i, ?i := ?xs ! ?j]"
    by (rule nth_equalityI) (use assms ij in \<open>auto simp: swap_def nth_list_update\<close>)
  then have "mset (map (swap i j t) [l..u]) = mset ?xs" using mset_swap [OF ij(1,2)] by simp
  then show ?thesis using assms by (auto simp: rearr_def swap_def)
qed

lemma rearr_elem:
  assumes "rearr l u t t'" "l \<le> k" "k \<le> u"
  obtains k' where "l \<le> k'" "k' \<le> u" "t' k = t k'"
proof -
  have "t' k \<in> set (map t' [l..u])" using assms(2,3) by simp
  then have "t' k \<in> set (map t [l..u])" using assms(1) unfolding rearr_def by (metis set_mset_mset)
  then show ?thesis using that by auto
qed

lemma rearr_outside: "rearr l u t t' \<Longrightarrow> k < l \<or> u < k \<Longrightarrow> t' k = t k"
  by (auto simp: rearr_def)

section \<open>The order\<close>

text \<open>
  What sorting needs of a comparison: it answers for values of the carrier, and its answers are a strict
  weak order there.
\<close>

locale sort_order =
  fixes A :: "'v set" and lt :: "'v comp" and less :: "'v \<Rightarrow> 'v \<Rightarrow> bool"
  assumes answers: "x \<in> A \<Longrightarrow> y \<in> A \<Longrightarrow> lt x y = Inr (less x y)"
    and irrefl: "x \<in> A \<Longrightarrow> \<not> less x x"
    and negtrans: "x \<in> A \<Longrightarrow> y \<in> A \<Longrightarrow> z \<in> A \<Longrightarrow> less x z \<Longrightarrow> less x y \<or> less y z"
    and asym: "x \<in> A \<Longrightarrow> y \<in> A \<Longrightarrow> less x y \<Longrightarrow> \<not> less y x"
begin

definition le :: "'v \<Rightarrow> 'v \<Rightarrow> bool" where "le x y \<longleftrightarrow> \<not> less y x"

lemma le_trans: "x \<in> A \<Longrightarrow> y \<in> A \<Longrightarrow> z \<in> A \<Longrightarrow> le x y \<Longrightarrow> le y z \<Longrightarrow> le x z"
  using negtrans [of z y x] by (auto simp: le_def)

lemma less_le: "x \<in> A \<Longrightarrow> y \<in> A \<Longrightarrow> less x y \<Longrightarrow> le x y"
  using asym by (auto simp: le_def)

lemma le_refl: "x \<in> A \<Longrightarrow> le x x"
  using irrefl by (simp add: le_def)

definition within :: "int \<Rightarrow> int \<Rightarrow> 'v tarr \<Rightarrow> bool" where
  "within l u t \<longleftrightarrow> (\<forall>k \<in> {l..u}. t k \<in> A)"

lemma within_rearr: "within l u t \<Longrightarrow> rearr l u t t' \<Longrightarrow> within l u t'"
  unfolding within_def by (metis atLeastAtMost_iff rearr_elem)

lemma scan_up_ok:
  "within l u t \<Longrightarrow> P \<in> A \<Longrightarrow> l \<le> i \<Longrightarrow> i < s \<Longrightarrow> s \<le> u \<Longrightarrow> \<not> less (t s) P \<Longrightarrow>
   \<exists>i'. scan_up lt t P u i = Inr i' \<and> i < i' \<and> i' \<le> s \<and> \<not> less (t i') P \<and> (\<forall>k. i < k \<and> k < i' \<longrightarrow> less (t k) P)"
proof (induction "nat (s - i)" arbitrary: i rule: less_induct)
  case less
  have a: "lt (lua_rawgeti t (i + 1)) P = Inr (less (t (i + 1)) P)"
    unfolding lua_rawgeti_def by (rule answers) (use less.prems in \<open>auto simp: within_def\<close>)
  show ?case
  proof (cases "less (t (i + 1)) P")
    case False
    then show ?thesis using a less.prems(4) by (subst scan_up.simps) auto
  next
    case True
    then have ns: "i + 1 < s" using less.prems(4,6) by (cases "i + 1 = s") auto
    obtain i' where i': "scan_up lt t P u (i + 1) = Inr i'" "i + 1 < i'" "i' \<le> s" "\<not> less (t i') P"
        "\<forall>k. i + 1 < k \<and> k < i' \<longrightarrow> less (t k) P"
      using less.hyps [of "i + 1"] less.prems ns by auto
    have "scan_up lt t P u i = Inr i'" using a True ns less.prems(5) i'(1) by (subst scan_up.simps) simp
    moreover have "less (t k) P" if "i < k" "k < i'" for k
      using that i'(5) True by (cases "k = i + 1") auto
    ultimately show ?thesis using i' by auto
  qed
qed

lemma scan_down_ok:
  "within l u t \<Longrightarrow> P \<in> A \<Longrightarrow> s < j \<Longrightarrow> j \<le> u \<Longrightarrow> l \<le> s \<Longrightarrow> \<not> less P (t s) \<Longrightarrow>
   \<exists>j'. scan_down lt t P l j = Inr j' \<and> j' < j \<and> s \<le> j' \<and> \<not> less P (t j') \<and> (\<forall>k. j' < k \<and> k < j \<longrightarrow> less P (t k))"
proof (induction "nat (j - s)" arbitrary: j rule: less_induct)
  case less
  have a: "lt P (lua_rawgeti t (j - 1)) = Inr (less P (t (j - 1)))"
    unfolding lua_rawgeti_def by (rule answers) (use less.prems in \<open>auto simp: within_def\<close>)
  show ?case
  proof (cases "less P (t (j - 1))")
    case False
    then show ?thesis using a less.prems(3) by (subst scan_down.simps) auto
  next
    case True
    then have ns: "s < j - 1" using less.prems(3,6) by (cases "j - 1 = s") auto
    obtain j' where j': "scan_down lt t P l (j - 1) = Inr j'" "j' < j - 1" "s \<le> j'" "\<not> less P (t j')"
        "\<forall>k. j' < k \<and> k < j - 1 \<longrightarrow> less P (t k)"
      using less.hyps [of "j - 1"] less.prems ns by auto
    have "scan_down lt t P l j = Inr j'" using a True ns less.prems(5) j'(1) by (subst scan_down.simps) simp
    moreover have "less P (t k)" if "j' < k" "k < j" for k
      using that j'(5) True by (cases "k = j - 1") auto
    ultimately show ?thesis using j' by auto
  qed
qed

text \<open>A segment is split at \<open>i\<close>: values up to \<open>P\<close> before, values from \<open>P\<close> on after.\<close>

definition split_at :: "int \<Rightarrow> int \<Rightarrow> 'v \<Rightarrow> int \<Rightarrow> 'v tarr \<Rightarrow> bool" where
  "split_at l u P i t \<longleftrightarrow> (\<forall>k. l \<le> k \<and> k < i \<longrightarrow> le (t k) P) \<and> (\<forall>k. i \<le> k \<and> k \<le> u \<longrightarrow> le P (t k))"

lemma part_loop_ok:
  "within l u t \<Longrightarrow> P \<in> A \<Longrightarrow> l \<le> i \<Longrightarrow> i < u - 1 \<Longrightarrow> l < j \<Longrightarrow> j \<le> u - 1 \<Longrightarrow> t (u - 1) = P \<Longrightarrow>
   (\<forall>k. l \<le> k \<and> k \<le> i \<longrightarrow> le (t k) P) \<Longrightarrow> (\<forall>k. j \<le> k \<and> k \<le> u \<longrightarrow> le P (t k)) \<Longrightarrow>
   \<exists>i' t'. part_loop lt P l u t i j = Inr (i', t') \<and> rearr l u t t' \<and> l < i' \<and> i' \<le> u - 1 \<and> t' (u - 1) = P \<and> split_at l u P i' t'"
proof (induction "nat (j - i)" arbitrary: t i j rule: less_induct)
  case less
  note pr = less.prems
  have "\<not> less (t (u - 1)) P" using pr(2,7) irrefl by simp
  then obtain i' where i': "scan_up lt t P u i = Inr i'" "i < i'" "i' \<le> u - 1" "\<not> less (t i') P"
      "\<forall>k. i < k \<and> k < i' \<longrightarrow> less (t k) P"
    using scan_up_ok [OF pr(1,2), of i "u - 1"] pr(3,4) by auto
  have "\<not> less P (t l)" using pr(8,3) by (auto simp: le_def)
  then obtain j' where j': "scan_down lt t P l j = Inr j'" "j' < j" "l \<le> j'" "\<not> less P (t j')"
      "\<forall>k. j' < k \<and> k < j \<longrightarrow> less P (t k)"
    using scan_down_ok [OF pr(1,2), of l j] pr(5,6) by auto
  have inA: "t k \<in> A" if "l \<le> k" "k \<le> u" for k using pr(1) that by (simp add: within_def)
  have lo: "le (t k) P" if "l \<le> k" "k < i'" for k
    using pr(8) i'(5) that less_le [OF inA [of k] pr(2)] i'(3) by (cases "k \<le> i") auto
  have hi: "le P (t k)" if "j' < k" "k \<le> u" for k
    using pr(9) j'(5) that less_le [OF pr(2) inA [of k]] j'(3) by (cases "j \<le> k") auto
  show ?case
  proof (cases "j' < i'")
    case True
    have "le P (t k)" if "i' \<le> k" "k \<le> u" for k
      using that True hi i'(4) by (cases "k = i'") (auto simp: le_def)
    then have "split_at l u P i' t" using lo by (simp add: split_at_def)
    moreover have "part_loop lt P l u t i j = Inr (i', t)" using i'(1) j'(1) True by (subst part_loop.simps) simp
    ultimately show ?thesis using i' pr by auto
  next
    case False
    let ?t = "swap i' j' t"
    have b: "l \<le> i'" "i' \<le> u" "l \<le> j'" "j' \<le> u" using i' j' pr False by auto
    have r: "rearr l u t ?t" using b by (intro rearr_swap) auto
    have "\<exists>i2 t2. part_loop lt P l u ?t i' j' = Inr (i2, t2) \<and> rearr l u ?t t2 \<and> l < i2 \<and> i2 \<le> u - 1 \<and> t2 (u - 1) = P \<and> split_at l u P i2 t2"
    proof (rule less.hyps)
      show "nat (j' - i') < nat (j - i)" using i'(2) j'(2) False by simp
      show "within l u ?t" by (rule within_rearr [OF pr(1) r])
      show "?t (u - 1) = P" using pr(6,7) i'(3) j'(2) False by (auto simp: swap_def)
      show "\<forall>k. l \<le> k \<and> k \<le> i' \<longrightarrow> le (?t k) P" using lo j'(4) False by (auto simp: swap_def le_def)
      show "\<forall>k. j' \<le> k \<and> k \<le> u \<longrightarrow> le P (?t k)" using hi i'(4) False by (auto simp: swap_def le_def)
    qed (use i' j' pr False in auto)
    moreover have "part_loop lt P l u t i j = part_loop lt P l u ?t i' j'"
      using i'(1) j'(1) False by (subst part_loop.simps) simp
    ultimately show ?thesis using rearr_trans [OF r] by auto
  qed
qed

lemma order_ends_ok:
  assumes "within l u t" "l < u"
  obtains t' where "order_ends lt l u t = Inr t'" "rearr l u t t'" "le (t' l) (t' u)"
proof -
  have A: "t l \<in> A" "t u \<in> A" using assms by (auto simp: within_def)
  then have "order_ends lt l u t = Inr (if less (t u) (t l) then swap l u t else t)"
    by (simp add: order_ends_def answers lua_rawgeti_def set2_swap [unfolded lua_rawgeti_def])
  moreover have "rearr l u t (swap l u t)" using assms(2) by (intro rearr_swap) auto
  ultimately show ?thesis
    using that asym [OF A(2,1)] assms(2) by (auto simp: le_def swap_def split: if_splits)
qed

lemma order_middle_ok:
  assumes "within l u t" "l < i" "i < u" "le (t l) (t u)"
  obtains t' where "order_middle lt l i u t = Inr t'" "rearr l u t t'" "le (t' l) (t' i)" "le (t' i) (t' u)"
proof -
  have A: "t l \<in> A" "t u \<in> A" "t i \<in> A" using assms by (auto simp: within_def)
  have e: "order_middle lt l i u t = Inr (if less (t i) (t l) then swap i l t else if less (t u) (t i) then swap i u t else t)"
    using A by (simp add: order_middle_def answers lua_rawgeti_def set2_swap [unfolded lua_rawgeti_def])
  have r: "rearr l u t (swap i l t)" "rearr l u t (swap i u t)" using assms by (auto intro!: rearr_swap)
  consider "less (t i) (t l)" | "\<not> less (t i) (t l)" "less (t u) (t i)" | "\<not> less (t i) (t l)" "\<not> less (t u) (t i)" by blast
  then show ?thesis
  proof cases
    case 1
    show ?thesis
      by (rule that [of "swap i l t"]) (use e r 1 assms asym [OF A(3,1)] in \<open>auto simp: swap_def le_def\<close>)
  next
    case 2
    show ?thesis
      by (rule that [of "swap i u t"]) (use e r 2 assms asym [OF A(2,3)] in \<open>auto simp: swap_def le_def\<close>)
  next
    case 3
    then show ?thesis using that [of t] e by (auto simp: le_def)
  qed
qed

definition sorted_seg :: "int \<Rightarrow> int \<Rightarrow> 'v tarr \<Rightarrow> bool" where
  "sorted_seg l u t \<longleftrightarrow> (\<forall>p q. l \<le> p \<and> p < q \<and> q \<le> u \<longrightarrow> le (t p) (t q))"

text \<open>The two sides of a pivot, sorted one after the other in any order.\<close>

lemma sort_side:
  assumes "split_at l u P i t" "l \<le> i" "i \<le> u" "t i = P" "rearr a b t t'" "b < i \<or> i < a" "l \<le> a" "b \<le> u"
  shows "split_at l u P i t' \<and> t' i = P"
proof -
  have "t' i = P" using assms(4,5,6) by (auto simp: rearr_def)
  moreover have "le (t' k) P" if "l \<le> k" "k < i" for k
  proof (cases "a \<le> k \<and> k \<le> b")
    case True
    then obtain k' where "a \<le> k'" "k' \<le> b" "t' k = t k'" using rearr_elem [OF assms(5)] by metis
    then show ?thesis using assms(1,6,7) that True by (auto simp: split_at_def)
  qed (use that assms(1,5) in \<open>auto simp: split_at_def rearr_def\<close>)
  moreover have "le P (t' k)" if "i \<le> k" "k \<le> u" for k
  proof (cases "a \<le> k \<and> k \<le> b")
    case True
    then obtain k' where "a \<le> k'" "k' \<le> b" "t' k = t k'" using rearr_elem [OF assms(5)] by metis
    then show ?thesis using assms(1,6,8) that True by (auto simp: split_at_def)
  qed (use that assms(1,5) in \<open>auto simp: split_at_def rearr_def\<close>)
  ultimately show ?thesis by (simp add: split_at_def)
qed

lemma sorted_join:
  assumes "within l u t" "P \<in> A" "split_at l u P i t" "t i = P" "l \<le> i" "i \<le> u" "sorted_seg l (i - 1) t" "sorted_seg (i + 1) u t"
  shows "sorted_seg l u t"
  unfolding sorted_seg_def
proof (intro allI impI)
  fix p q assume pq: "l \<le> p \<and> p < q \<and> q \<le> u"
  then have inA: "t p \<in> A" "t q \<in> A" using assms(1) by (auto simp: within_def)
  consider "q < i" | "i < p" | "p \<le> i" "i \<le> q" by linarith
  then show "le (t p) (t q)"
  proof cases
    case 1
    then show ?thesis using assms(7) pq by (auto simp: sorted_seg_def)
  next
    case 2
    then show ?thesis using assms(8) pq by (auto simp: sorted_seg_def)
  next
    case 3
    have "le (t p) P" using assms(3,4) 3 pq le_refl [OF assms(2)] by (cases "p = i") (auto simp: split_at_def)
    moreover have "le P (t q)" using assms(3) 3 pq by (auto simp: split_at_def)
    ultimately show ?thesis using le_trans [OF inA(1) assms(2) inA(2)] by blast
  qed
qed

lemma sorted_frame: "sorted_seg a b t \<Longrightarrow> rearr l u t t' \<Longrightarrow> b < l \<or> u < a \<Longrightarrow> sorted_seg a b t'"
  by (auto simp: sorted_seg_def rearr_def)

text \<open>The partition step, from the ordered triple to the pivot in its place.\<close>

lemma partition_ok:
  assumes w: "within l u t" and i: "l < i" "i < u" "2 < u - l" and le: "le (t l) (t i)" "le (t i) (t u)"
  obtains i' t4 where "part_loop lt (t i) l u (swap i (u - 1) t) l (u - 1) = Inr (i', t4)"
    "rearr l u t (swap (u - 1) i' t4)" "l < i'" "i' \<le> u - 1" "split_at l u (t i) i' (swap (u - 1) i' t4)"
    "swap (u - 1) i' t4 i' = t i" "t i \<in> A"
proof -
  let ?P = "t i" and ?t3 = "swap i (u - 1) t"
  have P: "?P \<in> A" using w i by (auto simp: within_def)
  have r3: "rearr l u t ?t3" using i by (intro rearr_swap) auto
  have "\<exists>i' t'. part_loop lt ?P l u ?t3 l (u - 1) = Inr (i', t') \<and> rearr l u ?t3 t' \<and> l < i' \<and> i' \<le> u - 1 \<and> t' (u - 1) = ?P \<and> split_at l u ?P i' t'"
  proof (rule part_loop_ok [OF within_rearr [OF w r3] P])
    show "\<forall>k. l \<le> k \<and> k \<le> l \<longrightarrow> le (?t3 k) ?P" using le(1) i by (auto simp: swap_def)
    show "\<forall>k. u - 1 \<le> k \<and> k \<le> u \<longrightarrow> le ?P (?t3 k)"
    proof (intro allI impI)
      fix k assume "u - 1 \<le> k \<and> k \<le> u"
      then consider "k = u - 1" | "k = u" by linarith
      then show "le ?P (?t3 k)" using le(2) le_refl [OF P] i by cases (auto simp: swap_def)
    qed
  qed (use i in \<open>auto simp: swap_def\<close>)
  then obtain i' t4 where t4: "part_loop lt ?P l u ?t3 l (u - 1) = Inr (i', t4)" "rearr l u ?t3 t4" "l < i'" "i' \<le> u - 1"
    "t4 (u - 1) = ?P" "split_at l u ?P i' t4" by blast
  have "rearr l u t (swap (u - 1) i' t4)" using t4(2,3,4) i
    by (intro rearr_trans [OF r3] rearr_trans [OF t4(2)] rearr_swap) auto
  moreover have "split_at l u ?P i' (swap (u - 1) i' t4)" "swap (u - 1) i' t4 i' = ?P"
    using t4(4,5,6) le_refl [OF P] by (auto simp: split_at_def swap_def)
  ultimately show ?thesis using that t4(1,3,4) P by blast
qed

text \<open>Sorting the two sides of the pivot in either order.\<close>

lemma both_sides_ok:
  assumes w: "within l u t" and i: "l < i" "i < u" and P: "P \<in> A" and s: "split_at l u P i t" "t i = P"
    and ab: "a = l \<and> b = i - 1 \<and> c = i + 1 \<and> d = u \<or> a = i + 1 \<and> b = u \<and> c = l \<and> d = i - 1"
    and ih1: "\<And>t. within a b t \<Longrightarrow> \<exists>t'. f t = Inr t' \<and> rearr a b t t' \<and> sorted_seg a b t'"
    and ih2: "\<And>t. within c d t \<Longrightarrow> \<exists>t'. g t = Inr t' \<and> rearr c d t t' \<and> sorted_seg c d t'"
  shows "\<exists>t'. bindE (f t) g = (Inr t' :: 'v tarr lres) \<and> rearr l u t t' \<and> sorted_seg l u t'"
proof -
  have "within a b t" using w ab i by (auto simp: within_def)
  then obtain t6 where t6: "f t = Inr t6" "rearr a b t t6" "sorted_seg a b t6" using ih1 by blast
  have r6: "rearr l u t t6" by (rule rearr_wider [OF t6(2)]) (use ab i in auto)
  have "within c d t6" using within_rearr [OF w r6] ab i by (auto simp: within_def)
  then obtain t7 where t7: "g t6 = Inr t7" "rearr c d t6 t7" "sorted_seg c d t7" using ih2 by blast
  have r7: "rearr l u t t7" by (rule rearr_trans [OF r6 rearr_wider [OF t7(2)]]) (use ab i in auto)
  have s6: "split_at l u P i t6 \<and> t6 i = P"
    by (rule sort_side [OF s(1) _ _ s(2) t6(2)]) (use ab i in auto)
  have s7: "split_at l u P i t7 \<and> t7 i = P"
    by (rule sort_side [OF conjunct1 [OF s6] _ _ conjunct2 [OF s6] t7(2)]) (use ab i in auto)
  have "sorted_seg a b t7" by (rule sorted_frame [OF t6(3) t7(2)]) (use ab in auto)
  then have "sorted_seg l u t7"
    using sorted_join [OF within_rearr [OF w r7] P conjunct1 [OF s7] conjunct2 [OF s7]] t7(3) ab i by auto
  then show ?thesis using t6(1) t7(1) r7 by auto
qed

lemma sorted_two: "u - l = 1 \<Longrightarrow> le (t l) (t u) \<Longrightarrow> sorted_seg l u t"
  unfolding sorted_seg_def
proof (intro allI impI)
  fix p q assume "u - l = 1" "le (t l) (t u)" "l \<le> p \<and> p < q \<and> q \<le> u"
  moreover from this have "p = l" "q = u" by auto
  ultimately show "le (t p) (t q)" by simp
qed

lemma sorted_three:
  assumes "within l u t" "u - l = 2" "le (t l) (t (l + 1))" "le (t (l + 1)) (t u)"
  shows "sorted_seg l u t"
  unfolding sorted_seg_def
proof (intro allI impI)
  fix p q assume "l \<le> p \<and> p < q \<and> q \<le> u"
  then have "p = l \<and> (q = l + 1 \<or> q = u) \<or> p = l + 1 \<and> q = u" using assms(2) by auto
  moreover have "t l \<in> A" "t (l + 1) \<in> A" "t u \<in> A" using assms(1,2) by (auto simp: within_def)
  ultimately show "le (t p) (t q)" using assms(3,4) le_trans by blast
qed

lemma auxsort_ok:
  "within l u t \<Longrightarrow> nat (u - l + 1) < f \<Longrightarrow> 0 \<le> l \<Longrightarrow> u \<le> 2 ^ 30 \<Longrightarrow>
   \<exists>t'. auxsort f lt l u t = Inr t' \<and> rearr l u t t' \<and> sorted_seg l u t'"
proof (induction f arbitrary: l u t)
  case (Suc f)
  note pr = Suc.prems
  consider "\<not> l < u" | "l < u" "u - l = 1" | "l < u" "u - l \<noteq> 1" by blast
  then show ?case
  proof cases
    case 1
    then show ?thesis by (auto simp: sorted_seg_def intro!: exI [of _ t])
  next
    case 2
    obtain t1 where "order_ends lt l u t = Inr t1" "rearr l u t t1" "le (t1 l) (t1 u)"
      by (rule order_ends_ok [OF pr(1) 2(1)])
    then show ?thesis using 2 sorted_two by auto
  next
    case lu: 3
    obtain t1 where t1: "order_ends lt l u t = Inr t1" "rearr l u t t1" "le (t1 l) (t1 u)"
      by (rule order_ends_ok [OF pr(1) lu(1)])
    let ?i = "(l + u) div 2"
    have i: "l < ?i" "?i < u" "intE (l + u) = Inr (l + u)"
      using lu pr(3,4) by (auto simp: intE_def in_int_numeral_bounds)
    obtain t2 where t2: "order_middle lt l ?i u t1 = Inr t2" "rearr l u t1 t2" "le (t2 l) (t2 ?i)" "le (t2 ?i) (t2 u)"
      by (rule order_middle_ok [OF within_rearr [OF pr(1) t1(2)] i(1,2) t1(3)])
    have r2: "rearr l u t t2" by (rule rearr_trans [OF t1(2) t2(2)])
    have w2: "within l u t2" by (rule within_rearr [OF pr(1) r2])
    show ?thesis
    proof (cases "u - l = 2")
      case True
      then have m: "?i = l + 1" using lu by auto
      have "sorted_seg l u t2" by (rule sorted_three [OF w2 True t2(3,4) [unfolded m]])
      then show ?thesis using t1(1) t2(1) r2 True lu i by (auto simp: Let_def)
    next
      case False
      then have b: "2 < u - l" using lu by simp
      obtain i' t4 where p: "part_loop lt (t2 ?i) l u (swap ?i (u - 1) t2) l (u - 1) = Inr (i', t4)"
        "rearr l u t2 (swap (u - 1) i' t4)" "l < i'" "i' \<le> u - 1" "split_at l u (t2 ?i) i' (swap (u - 1) i' t4)"
        "swap (u - 1) i' t4 i' = t2 ?i" "t2 ?i \<in> A"
        by (rule partition_ok [OF w2 i(1,2) b t2(3,4)])
      let ?t5 = "swap (u - 1) i' t4"
      have r5: "rearr l u t ?t5" by (rule rearr_trans [OF r2 p(2)])
      have "\<exists>t'. bindE (auxsort f lt a b ?t5) (auxsort f lt c d) = Inr t' \<and> rearr l u ?t5 t' \<and> sorted_seg l u t'"
        if "a = l \<and> b = i' - 1 \<and> c = i' + 1 \<and> d = u \<or> a = i' + 1 \<and> b = u \<and> c = l \<and> d = i' - 1" for a b c d
        by (rule both_sides_ok [OF within_rearr [OF pr(1) r5] p(3) _ p(7,5,6) that])
           (use that p(3,4) pr(2,3,4) in \<open>auto intro!: Suc.IH\<close>)
      moreover have e: "set2 t2 ?i (u - 1) (lua_rawgeti t2 (u - 1)) (lua_rawgeti t2 ?i) = swap ?i (u - 1) t2" by simp
      have "auxsort (Suc f) lt l u t =
          (if i' - l < u - i' then bindE (auxsort f lt l (i' - 1) ?t5) (auxsort f lt (i' + 1) u)
           else bindE (auxsort f lt (i' + 1) u ?t5) (auxsort f lt l (i' - 1)))"
        using lu False i(3) t1(1) t2(1) p(1)
        by (simp add: Let_def lua_rawgeti_def [of t2 ?i] e [unfolded lua_rawgeti_def [of t2 ?i]])
      ultimately show ?thesis using rearr_trans [OF r5] by (cases "i' - l < u - i'") fastforce+
    qed
  qed
qed simp

lemma sort_table_ok:
  "within 1 n t \<Longrightarrow> n \<le> 2 ^ 30 \<Longrightarrow> \<exists>t'. sort_table lt t n = Inr t' \<and> rearr 1 n t t' \<and> sorted_seg 1 n t'"
  unfolding sort_table_def by (rule auxsort_ok) auto

lemma sort_table_list:
  assumes "t ` {1..n} \<subseteq> A" "n \<le> 2 ^ 30"
  shows "\<exists>t'. sort_table lt t n = Inr t' \<and> mset (map t' [1..n]) = mset (map t [1..n]) \<and>
           sorted_wrt le (map t' [1..n]) \<and> (\<forall>k. k \<notin> {1..n} \<longrightarrow> t' k = t k)"
proof -
  have "within 1 n t" using assms(1) by (auto simp: within_def)
  from sort_table_ok [OF this assms(2)]
  obtain t' where t': "sort_table lt t n = Inr t'" "rearr 1 n t t'" "sorted_seg 1 n t'" by blast
  have "le (map t' [1..n] ! i) (map t' [1..n] ! j)" if "i < j" "j < length (map t' [1..n])" for i j
    using t'(3) that by (simp add: sorted_seg_def nth_upto)
  then have "sorted_wrt le (map t' [1..n])" by (auto simp: sorted_wrt_iff_nth_less)
  then show ?thesis using t'(1,2) by (auto simp: rearr_def)
qed

end

section \<open>Strings and numbers have such an order\<close>

text \<open>The order of the C library and the loop over the parts between zeros give the lexicographic order of the bytes.\<close>

fun lex_cmp :: "byte list \<Rightarrow> byte list \<Rightarrow> int" where
  "lex_cmp [] [] = 0"
| "lex_cmp [] (d # r) = -1"
| "lex_cmp (c # l) [] = 1"
| "lex_cmp (c # l) (d # r) = (if c = d then lex_cmp l r else if c < d then -1 else 1)"

lemma strcoll_lex: "strcoll l r \<noteq> 0 \<Longrightarrow> lex_cmp l r = strcoll l r"
  by (induction l r rule: strcoll.induct) (auto split: if_splits)

lemma strcoll_0:
  "strcoll l r = 0 \<Longrightarrow> strlen l = strlen r \<and> lex_cmp l r = lex_cmp (drop (strlen l) l) (drop (strlen l) r)"
  by (induction l r rule: strcoll.induct) (auto simp: strlen_def split: if_splits)

lemma at_strlen: "strlen s < length s \<Longrightarrow> drop (strlen s) s = 0 # drop (strlen s + 1) s"
  using nth_length_takeWhile [of "\<lambda>c. c \<noteq> 0" s] by (simp add: strlen_def Cons_nth_drop_Suc [symmetric])

lemma l_strcmp_lex: "l_strcmp l r = lex_cmp l r"
proof (induction l r rule: l_strcmp.induct)
  case (1 l r)
  show ?case
  proof (cases "strcoll l r = 0")
    case False
    then show ?thesis using strcoll_lex by (subst l_strcmp.simps) (simp add: Let_def)
  next
    case True
    note z = strcoll_0 [OF True]
    have le: "strlen l \<le> length l" "strlen l \<le> length r" using strlen_le [of l] strlen_le [of r] z by auto
    consider "strlen l = length r" "strlen l = length l" | "strlen l = length r" "strlen l < length l"
      | "strlen l < length r" "strlen l = length l" | "strlen l < length r" "strlen l < length l" using le by linarith
    then show ?thesis
    proof cases
      case 4
      have "l_strcmp l r = l_strcmp (drop (strlen l + 1) l) (drop (strlen l + 1) r)"
        using True 4 by (subst l_strcmp.simps) (simp add: Let_def)
      also have "\<dots> = lex_cmp (drop (strlen l + 1) l) (drop (strlen l + 1) r)"
        by (rule 1) (use True 4 in auto)
      finally show ?thesis using z at_strlen [OF 4(2)] at_strlen [of r] 4(1) by simp
    qed (use True z at_strlen [of l] at_strlen [of r] in \<open>subst l_strcmp.simps, simp add: Let_def\<close>)+
  qed
qed

lemma lex_cmp_refl: "lex_cmp l l = 0"
  by (induction l) auto

lemma lex_cmp_negtrans: "lex_cmp x z < 0 \<Longrightarrow> lex_cmp x y < 0 \<or> lex_cmp y z < 0"
proof (induction x z arbitrary: y rule: lex_cmp.induct)
  case (2 d r)
  then show ?case by (cases y) auto
next
  case (4 c l d r)
  show ?case
  proof (cases y)
    case (Cons e y')
    then show ?thesis using 4 by (auto split: if_splits)
  qed (use 4 in \<open>auto split: if_splits\<close>)
qed auto

lemma lex_cmp_asym: "lex_cmp x y < 0 \<Longrightarrow> \<not> lex_cmp y x < 0"
  by (induction x y rule: lex_cmp.induct) (auto split: if_splits)

lemma lex_cmp_swap: "lex_cmp y x = - lex_cmp x y"
  by (induction x y rule: lex_cmp.induct) auto

interpretation string_order: sort_order UNIV "\<lambda>x y. Inr (l_strcmp x y < 0)" "\<lambda>x y. l_strcmp x y < 0"
  by unfold_locales (auto simp: l_strcmp_lex lex_cmp_refl lex_cmp_negtrans lex_cmp_asym dest: lex_cmp_negtrans)

text \<open>Numbers other than NaN; \<open>lua_lessthan\<close> on two numbers is \<open>luai_numlt\<close>.\<close>

interpretation number_order: sort_order "{x. \<not> luai_numisnan x}" "\<lambda>x y. Inr (luai_numlt x y)" luai_numlt
  by unfold_locales (auto simp: luai_numlt_def)

end
