(* ===== verification/LuaTabMain.thy ===== *)
theory LuaTabMain
  imports LuaSort
begin

text \<open>
  What the functions of the table library do to the sequence that a table holds: \<open>table.sort\<close>,
  \<open>table.insert\<close>, \<open>table.remove\<close> and \<open>table.concat\<close>; and what sorting does to a table when the comparison
  is not a strict order.
\<close>

section \<open>Sorting\<close>

text \<open>
  C38: sorting. If the comparison function answers for the values in \<open>1..n\<close>, and its answers are a strict
  weak order on them, the sort returns (no call runs out of its bound or overflows, for \<open>n\<close> up to \<open>2^30\<close>),
  the values in \<open>1..n\<close> are those that were there before, each as often, no later one is less than an
  earlier one, and nothing outside \<open>1..n\<close> is changed.
\<close>

theorem sort_sorts:
  fixes prec :: "'v \<Rightarrow> 'v \<Rightarrow> bool" and t :: "'v tarr"
  assumes answers: "\<And>x y. x \<in> t ` {1..n} \<Longrightarrow> y \<in> t ` {1..n} \<Longrightarrow> lt x y = Inr (prec x y)"
    and irrefl: "\<And>x. x \<in> t ` {1..n} \<Longrightarrow> \<not> prec x x"
    and trans: "\<And>x y z. x \<in> t ` {1..n} \<Longrightarrow> y \<in> t ` {1..n} \<Longrightarrow> z \<in> t ` {1..n} \<Longrightarrow> prec x y \<Longrightarrow> prec y z \<Longrightarrow> prec x z"
    and weak: "\<And>x y z. x \<in> t ` {1..n} \<Longrightarrow> y \<in> t ` {1..n} \<Longrightarrow> z \<in> t ` {1..n} \<Longrightarrow> prec x z \<Longrightarrow> prec x y \<or> prec y z"
    and n: "n \<le> 2 ^ 30"
  shows "\<exists>t'. sort_table lt t n = Inr t' \<and> mset (map t' [1..n]) = mset (map t [1..n]) \<and>
           sorted_wrt (\<lambda>x y. \<not> prec y x) (map t' [1..n]) \<and> (\<forall>k. k \<notin> {1..n} \<longrightarrow> t' k = t k)"
proof -
  have "sort_order (t ` {1..n}) lt prec"
  proof
    fix x y assume m: "x \<in> t ` {1..n}" "y \<in> t ` {1..n}"
    show "prec x y \<Longrightarrow> \<not> prec y x" using trans [OF m m(1)] irrefl [OF m(1)] by blast
  qed (fact answers irrefl weak)+
  then have "sort_order (t ` {1..n}) lt prec" and "sort_order.le prec = (\<lambda>x y. \<not> prec y x)"
    by (simp_all add: sort_order.le_def fun_eq_iff)
  then show ?thesis using sort_order.sort_table_list [OF _ order_refl n] by metis
qed

theorem sort_sorts_witness:
  "\<exists>t'. sort_table (\<lambda>x y. Inr (x < y)) (\<lambda>k. - k * k :: int) 5 = Inr t' \<and>
     mset (map t' [1..5]) = mset (map (\<lambda>k. - k * k) [1..5]) \<and> sorted_wrt (\<lambda>x y. \<not> y < x) (map t' [1..5]) \<and>
     (\<forall>k. k \<notin> {1..5} \<longrightarrow> t' k = - k * k)"
  by (rule sort_sorts [where t = "\<lambda>k. - k * k :: int" and n = 5 and lt = "\<lambda>x y. Inr (x < y)" and prec = "(<)"]) auto

text \<open>
  C39: a table of strings is sorted in the lexicographic order of their bytes, zeros included, although the
  comparison is made of calls of \<open>strcoll\<close>, which see only the part up to a zero.
\<close>

theorem sort_strings:
  assumes "n \<le> 2 ^ 30"
  shows "\<exists>t'. sort_table (\<lambda>x y. Inr (l_strcmp x y < 0)) t n = Inr t' \<and> mset (map t' [1..n]) = mset (map t [1..n]) \<and>
           sorted_wrt (\<lambda>x y. lex_cmp x y \<le> 0) (map t' [1..n])"
proof -
  have le: "string_order.le x y \<longleftrightarrow> lex_cmp x y \<le> 0" for x y
    using lex_cmp_swap [of x y] by (simp add: string_order.le_def [unfolded l_strcmp_lex] l_strcmp_lex not_less)
  have "string_order.le = (\<lambda>x y. lex_cmp x y \<le> 0)" by (rule ext)+ (rule le)
  moreover note string_order.sort_table_list [OF subset_UNIV assms, of t]
  ultimately show ?thesis by auto
qed

theorem sort_strings_witness:
  "\<exists>t'. sort_table (\<lambda>x y. Inr (l_strcmp x y < 0)) (\<lambda>k. [word_of_int (9 - k), 0, word_of_int k]) 3 = Inr t' \<and>
     mset (map t' [1..3]) = mset (map (\<lambda>k. [word_of_int (9 - k), 0, word_of_int k]) [1..3]) \<and>
     sorted_wrt (\<lambda>x y. lex_cmp x y \<le> 0) (map t' [1..3])"
  by (rule sort_strings) simp

text \<open>
  With a comparison that is not a strict order, here the frequent mistake of writing \<open>\<ge>\<close> for \<open>>\<close> (with nil
  as 0), the test \<open>i>u\<close> comes too late: sorting \<open>1, 1, 1, 2\<close> reports no error, but moves a value to the
  position \<open>n+1\<close> and puts nil in its place.
\<close>

theorem sort_loses_value:
  "case sort_table (\<lambda>x y. Inr (y \<le> x)) ((\<lambda>_. 0)(1 := 1, 2 := 1, 3 := 1, 4 := 2 :: nat)) 4 of
     Inr t' \<Rightarrow> t' 4 = 0 \<and> t' 5 = 1 | Inl _ \<Rightarrow> False"
  by code_simp

section \<open>Insertion and removal\<close>

lemma move_up_fun: "move_up pos i t = (\<lambda>k. if pos < k \<and> k \<le> i then t (k - 1) else t k)"
proof (induction pos i t rule: move_up.induct)
  case (1 pos i t)
  show ?case
    by (rule ext, cases "i > pos") (auto simp: move_up.simps [of pos i t] 1 [unfolded lua_rawseti_def lua_rawgeti_def] lua_rawseti_def lua_rawgeti_def)
qed

lemma move_down_fun: "move_down pos e t = (\<lambda>k. if pos \<le> k \<and> k < e then t (k + 1) else t k)"
proof (induction pos e t rule: move_down.induct)
  case (1 pos e t)
  show ?case
    by (rule ext, cases "pos < e") (auto simp: move_down.simps [of pos e t] 1 [unfolded lua_rawseti_def lua_rawgeti_def] lua_rawseti_def lua_rawgeti_def)
qed

lemma map_shift: "map (\<lambda>k. f (k - 1)) [a + 1..b + 1] = map f [a..b :: int]"
  by (rule nth_equalityI) auto

text \<open>
  C40: insertion and removal. Inserting at a position of \<open>1..n+1\<close> puts the value between the values
  before and from that position, and removing at the same position then returns the value and leaves
  exactly the table that there was before.
\<close>

theorem insert_remove:
  assumes "1 \<le> pos" "pos \<le> n + 1" "n < INT_MAX" "t (n + 1) = nil"
  shows "\<exists>t'. tinsert t n (Some pos) v = Inr t' \<and>
           map t' [1..n + 1] = map t [1..pos - 1] @ v # map t [pos..n] \<and>
           tremove nil t' (n + 1) (Some pos) = (Some v, t)"
proof -
  let ?t' = "(move_up pos (n + 1) t)(pos := v)"
  have ins: "tinsert t n (Some pos) v = Inr ?t'"
    using assms by (simp add: tinsert_def intE_def in_int_def INT_MAX_def INT_MIN_def lua_rawseti_def)
  have "[1..n + 1] = [1..pos - 1] @ pos # [pos + 1..n + 1]"
    using assms upto_split2 [of 1 pos "n + 1"] upto_split3 [of 1 pos "n + 1"] by simp
  moreover have "map ?t' [1..pos - 1] = map t [1..pos - 1]" by (auto simp: move_up_fun)
  moreover have "map ?t' [pos + 1..n + 1] = map (\<lambda>k. t (k - 1)) [pos + 1..n + 1]" by (auto simp: move_up_fun)
  ultimately have seq: "map ?t' [1..n + 1] = map t [1..pos - 1] @ v # map t [pos..n]" by (simp add: map_shift)
  have "tremove nil ?t' (n + 1) (Some pos) = (Some v, t)"
    using assms by (auto simp: tremove_def lua_rawgeti_def lua_rawseti_def move_up_fun move_down_fun fun_eq_iff)
  with ins seq show ?thesis by blast
qed

theorem insert_remove_witness:
  "\<exists>t'. tinsert ((\<lambda>_. 0)(1 := 7, 2 := 8)) 2 (Some 2) 9 = Inr t' \<and>
     map t' [1..2 + 1] = map ((\<lambda>_. 0)(1 := 7, 2 := 8 :: nat)) [1..2 - 1] @ 9 # map ((\<lambda>_. 0)(1 := 7, 2 := 8)) [2..2] \<and>
     tremove 0 t' (2 + 1) (Some 2) = (Some 9, (\<lambda>_. 0)(1 := 7, 2 := 8))"
  by (rule insert_remove) (simp_all add: INT_MAX_def)

section \<open>Concatenation\<close>

fun join :: "byte list \<Rightarrow> byte list list \<Rightarrow> byte list" where
  "join sep [] = []"
| "join sep [x] = x"
| "join sep (x # y # xs) = x @ sep @ join sep (y # xs)"

lemma concat_loop_ok:
  "buffer_ok b \<Longrightarrow>
   (if \<exists>k \<in> {i..lst}. str (t k) = None then concat_loop str sep t i lst b = Inl (ErrRun ''invalid value in table for concat'')
    else \<exists>b'. concat_loop str sep t i lst b = Inr b' \<and> buffer_ok b' \<and>
           contents b' = contents b @ join sep (map (\<lambda>k. the (str (t k))) [i..lst]))"
proof (induction str sep t i lst b rule: concat_loop.induct)
  case (1 str sep t i lst b)
  consider "i > lst" | "i = lst" | "i < lst" by linarith
  then show ?case
  proof cases
    case 3
    then have sp: "{i..lst} = insert i {i + 1..lst}" "[i..lst] = i # (i + 1) # [i + 1 + 1..lst]"
      "[i + 1..lst] = (i + 1) # [i + 1 + 1..lst]" by (auto simp: upto_rec1)
    show ?thesis
    proof (cases "str (t i)")
      case (Some s)
      have ok: "buffer_ok (luaL_addlstring sep (luaL_addvalue s b))"
        "contents (luaL_addlstring sep (luaL_addvalue s b)) = contents b @ s @ sep"
        using 1(2) lbuf.adds_ok lbuf.addv_ok by auto
      have "addfield str t i b = Inr (luaL_addvalue s b)" using Some by (simp add: addfield_def lua_rawgeti_def)
      then show ?thesis using 1(1) [OF 3 _ ok(1)] ok(2) 3 Some
        by (auto simp: concat_loop.simps [of str sep t i lst b] sp split: if_splits)
    next
      case None
      then have "concat_loop str sep t i lst b = Inl (ErrRun ''invalid value in table for concat'')"
        using 3 by (subst concat_loop.simps) (simp add: addfield_def lua_rawgeti_def)
      then show ?thesis using 3 None by auto
    qed
  qed (use 1(2) addvalue_ok in \<open>auto simp: concat_loop.simps [of str sep t i lst b] concat_loop.simps [of str sep t lst lst b] addfield_def lua_rawgeti_def split: option.splits\<close>)
qed

text \<open>
  \<open>table.concat\<close> of \<open>i..last\<close> is the concatenation of the texts of the values with the separator
  between them, and the empty string for an empty range; if a value has no text it is an error.
\<close>

theorem concat_joins:
  "tconcat str sep t i lst =
     (if \<exists>k \<in> {i..lst}. str (t k) = None then Inl (ErrRun ''invalid value in table for concat'')
      else Inr (join sep (map (\<lambda>k. the (str (t k))) [i..lst])))"
  using concat_loop_ok [OF lbuf.init_ok(1), of i lst str t sep]
  by (auto simp: tconcat_def lbuf.finish_ok lbuf.init_ok split: if_splits)

end
