(* ===== verification/LuaGC.thy ===== *)
theory LuaGC
  imports LuaString
begin

text \<open>
  The incremental collector (\<open>src/lua/src/lgc.c\<close>): marking, write barriers, the atomic step and sweeping,
  over a heap of objects with their mark bits; with it the open upvalues of \<open>lfunc.c\<close>.

  An address is a number; the heap gives the object there, or nothing where none is allocated, and an
  access to it is the error \<open>UseAfterFree\<close>. The lists that the collector threads through the \<open>gclist\<close>
  fields of objects are lists of addresses (that no object is ever in two of them is part of the
  invariant), and so are the lists through \<open>next\<close>. The list of all objects is \<open>swept @ rootgc\<close>, where
  \<open>swept\<close> lies before the position \<open>sweepgc\<close>, which matters only in the phase \<open>GCSsweep\<close>. Amounts of work and memory, which only decide when the next step is made, are
  left out, and so are the sizes of stacks and buffers that the collector shrinks.
\<close>

section \<open>Objects\<close>

type_synonym ref = nat

text \<open>Values: nil, those that are not collectable, references, and dead keys, whose object may be gone.\<close>

datatype gval = VNil | VPlain nat | VRef ref | VDead ref

fun gcref :: "gval \<Rightarrow> ref option" where
  "gcref (VRef a) = Some a" | "gcref (VDead a) = Some a" | "gcref _ = None"

datatype upv = UvOpen ref nat | UvClosed gval

datatype gbody =
    OString "byte list"
  | OUserdata "ref option" ref                      \<comment> \<open>metatable, env\<close>
  | OUpVal upv
  | OCClosure ref "gval list"                       \<comment> \<open>env, upvalues\<close>
  | OLClosure ref ref "ref list"                    \<comment> \<open>env, prototype, upvalues\<close>
  | OTable "ref option" "gval list" "(gval \<times> gval) list"   \<comment> \<open>metatable, array part, nodes\<close>
  | OProto "ref option" "gval list" "ref option list" "ref option list" "ref option list"
      \<comment> \<open>source, constants, names of upvalues, inner functions, names of local variables\<close>
  | OThread gval "gval list" nat "nat list" "ref list"
      \<comment> \<open>globals, stack, top, tops of the active calls, open upvalues\<close>

record gcobj =
  o_marked :: byte
  o_body :: gbody

datatype gcphase = GCSpause | GCSpropagate | GCSsweepstring | GCSsweep | GCSfinalize

record gstate =
  heap :: "ref \<Rightarrow> gcobj option"
  g_white :: byte              \<comment> \<open>\<open>currentwhite\<close>\<close>
  gcstate :: gcphase
  gray :: "ref list"
  grayagain :: "ref list"
  weak :: "ref list"
  tmudata :: "ref list"        \<comment> \<open>first to last\<close>
  swept :: "ref list"
  rootgc :: "ref list"
  strhash :: "ref list list"   \<comment> \<open>\<open>strt.hash\<close>\<close>
  sweepstrgc :: nat
  mainthread :: ref
  registry :: gval
  mts :: "ref option list"     \<comment> \<open>\<open>mt[NUM_TAGS]\<close>\<close>
  uvhead :: "ref list"         \<comment> \<open>all open upvalues\<close>
  tm_mode :: ref               \<comment> \<open>the strings \<open>tmname[TM_MODE]\<close> and \<open>tmname[TM_GC]\<close>\<close>
  tm_gc :: ref

section \<open>Mark bits\<close>

definition BLACKMASK :: byte where "BLACKMASK = 4"
definition FINALIZED :: byte where "FINALIZED = 8"
definition KEYWEAK :: byte where "KEYWEAK = 8"
definition VALUEWEAK :: byte where "VALUEWEAK = 16"

definition iswhite :: "byte \<Rightarrow> bool" where "iswhite m \<longleftrightarrow> m AND WHITEBITS \<noteq> 0"
definition isblack :: "byte \<Rightarrow> bool" where "isblack m \<longleftrightarrow> m AND BLACKMASK \<noteq> 0"
definition isgray :: "byte \<Rightarrow> bool" where "isgray m \<longleftrightarrow> \<not> isblack m \<and> \<not> iswhite m"
definition o_isdead :: "byte \<Rightarrow> byte \<Rightarrow> bool" where "o_isdead w m \<longleftrightarrow> m AND otherwhite w AND WHITEBITS \<noteq> 0"
definition o_changewhite :: "byte \<Rightarrow> byte" where "o_changewhite m = m XOR WHITEBITS"
definition white2gray :: "byte \<Rightarrow> byte" where "white2gray m = m AND NOT WHITEBITS"
definition gray2black :: "byte \<Rightarrow> byte" where "gray2black m = m OR BLACKMASK"
definition black2gray :: "byte \<Rightarrow> byte" where "black2gray m = m AND NOT BLACKMASK"
definition maskmarks :: byte where "maskmarks = NOT (BLACKMASK OR WHITEBITS)"
definition makewhite :: "byte \<Rightarrow> byte \<Rightarrow> byte" where "makewhite w m = (m AND maskmarks) OR luaC_white w"
definition isfinalized :: "byte \<Rightarrow> bool" where "isfinalized m \<longleftrightarrow> m AND FINALIZED \<noteq> 0"
definition markfinalized :: "byte \<Rightarrow> byte" where "markfinalized m = m OR FINALIZED"

section \<open>Access to the heap\<close>

definition get_obj :: "ref \<Rightarrow> gstate \<Rightarrow> gcobj res" where
  "get_obj a s = (case heap s a of None \<Rightarrow> Inl UseAfterFree | Some ob \<Rightarrow> Inr ob)"

definition set_obj :: "ref \<Rightarrow> gcobj \<Rightarrow> gstate \<Rightarrow> gstate" where
  "set_obj a ob s = s\<lparr>heap := (heap s)(a \<mapsto> ob)\<rparr>"

definition upd_mark :: "ref \<Rightarrow> (byte \<Rightarrow> byte) \<Rightarrow> gstate \<Rightarrow> gstate res" where
  "upd_mark a f s = bindE (get_obj a s) (\<lambda>ob. Inr (set_obj a (ob\<lparr>o_marked := f (o_marked ob)\<rparr>) s))"

definition set_body :: "ref \<Rightarrow> gbody \<Rightarrow> gstate \<Rightarrow> gstate res" where
  "set_body a b s = bindE (get_obj a s) (\<lambda>ob. Inr (set_obj a (ob\<lparr>o_body := b\<rparr>) s))"

fun foldE :: "('a \<Rightarrow> 's \<Rightarrow> 's res) \<Rightarrow> 'a list \<Rightarrow> 's \<Rightarrow> 's res" where
  "foldE f [] s = Inr s"
| "foldE f (x # xs) s = bindE (f x s) (foldE f xs)"

definition opt :: "('a \<Rightarrow> 's \<Rightarrow> 's res) \<Rightarrow> 'a option \<Rightarrow> 's \<Rightarrow> 's res" where
  "opt f x s = (case x of None \<Rightarrow> Inr s | Some y \<Rightarrow> f y s)"

text \<open>\<open>uv->v\<close>: the value of an upvalue, in the stack of its thread while it is open.\<close>

definition uv_value :: "upv \<Rightarrow> gstate \<Rightarrow> gval res" where
  "uv_value u s =
     (case u of
        UvClosed v \<Rightarrow> Inr v
      | UvOpen th i \<Rightarrow>
          bindE (get_obj th s) (\<lambda>ob.
            case o_body ob of
              OThread _ st _ _ _ \<Rightarrow> if i < length st then Inr (st ! i) else Inl OutOfBounds
            | _ \<Rightarrow> Inl OutOfBounds))"

section \<open>Marking\<close>

text \<open>
  \<open>markobject\<close> and \<open>markvalue\<close> with the function that marks a white object. The recursion of
  \<open>reallymarkobject\<close> goes from an upvalue to a userdata to its tables and ends there, so three levels are
  enough (\<open>MARKDEPTH\<close>).
\<close>

definition mark_if :: "(ref \<Rightarrow> gstate \<Rightarrow> gstate res) \<Rightarrow> ref \<Rightarrow> gstate \<Rightarrow> gstate res" where
  "mark_if rm a s = bindE (get_obj a s) (\<lambda>ob. if iswhite (o_marked ob) then rm a s else Inr s)"

definition markv_if :: "(ref \<Rightarrow> gstate \<Rightarrow> gstate res) \<Rightarrow> gval \<Rightarrow> gstate \<Rightarrow> gstate res" where
  "markv_if rm v s = opt (mark_if rm) (gcref v) s"

primrec reallymarkobject :: "nat \<Rightarrow> ref \<Rightarrow> gstate \<Rightarrow> gstate res" where
  "reallymarkobject 0 a s = Inl Diverges"
| "reallymarkobject (Suc n) a s =
     bindE (upd_mark a white2gray s) (\<lambda>s.
     bindE (get_obj a s) (\<lambda>ob.
       case o_body ob of
         OString _ \<Rightarrow> Inr s
       | OUserdata mt env \<Rightarrow>
           bindE (upd_mark a gray2black s) (\<lambda>s.
           bindE (opt (mark_if (reallymarkobject n)) mt s) (\<lambda>s.
             mark_if (reallymarkobject n) env s))
       | OUpVal u \<Rightarrow>
           bindE (uv_value u s) (\<lambda>v.
           bindE (markv_if (reallymarkobject n) v s) (\<lambda>s.
             case u of UvClosed _ \<Rightarrow> upd_mark a gray2black s | UvOpen _ _ \<Rightarrow> Inr s))
       | _ \<Rightarrow> Inr (s\<lparr>gray := a # gray s\<rparr>)))"

definition MARKDEPTH :: nat where "MARKDEPTH = 3"

definition markobject :: "ref \<Rightarrow> gstate \<Rightarrow> gstate res" where
  "markobject = mark_if (reallymarkobject MARKDEPTH)"

definition markvalue :: "gval \<Rightarrow> gstate \<Rightarrow> gstate res" where
  "markvalue = markv_if (reallymarkobject MARKDEPTH)"

definition stringmark :: "ref \<Rightarrow> gstate \<Rightarrow> gstate res" where
  "stringmark a s = upd_mark a white2gray s"

section \<open>Traversal of gray objects\<close>

definition removeentry :: "gval \<times> gval \<Rightarrow> gval \<times> gval" where
  "removeentry n = (case gcref (fst n) of Some a \<Rightarrow> (VDead a, snd n) | None \<Rightarrow> n)"

text \<open>\<open>fasttm\<close> and \<open>gfasttm\<close>: the value of a name in a metatable, if it has one that is not nil.\<close>

definition fasttm :: "ref option \<Rightarrow> ref \<Rightarrow> gstate \<Rightarrow> gval option res" where
  "fasttm mt name s =
     (case mt of
        None \<Rightarrow> Inr None
      | Some t \<Rightarrow>
          bindE (get_obj t s) (\<lambda>ob.
            case o_body ob of
              OTable _ _ node \<Rightarrow>
                Inr (case map_of node (VRef name) of None \<Rightarrow> None | Some v \<Rightarrow> if v = VNil then None else Some v)
            | _ \<Rightarrow> Inl OutOfBounds))"

definition has_char :: "byte \<Rightarrow> byte list \<Rightarrow> bool" where   \<comment> \<open>\<open>strchr(s, c) != NULL\<close>\<close>
  "has_char c bs \<longleftrightarrow> c \<in> set (takeWhile (\<lambda>x. x \<noteq> 0) bs)"

definition weak_mode :: "gval option \<Rightarrow> gstate \<Rightarrow> (bool \<times> bool) res" where
  "weak_mode mode s =
     (case mode of
        Some (VRef a) \<Rightarrow>
          bindE (get_obj a s) (\<lambda>ob.
            case o_body ob of
              OString bs \<Rightarrow> Inr (has_char 107 bs, has_char 118 bs)
            | _ \<Rightarrow> Inr (False, False))
      | _ \<Rightarrow> Inr (False, False))"

fun traverse_nodes :: "bool \<Rightarrow> bool \<Rightarrow> (gval \<times> gval) list \<Rightarrow> gstate \<Rightarrow> ((gval \<times> gval) list \<times> gstate) res" where
  "traverse_nodes weakkey weakvalue [] s = Inr ([], s)"
| "traverse_nodes weakkey weakvalue (n # ns) s =
     bindE (traverse_nodes weakkey weakvalue ns s) (\<lambda>(ns, s).
       if snd n = VNil then Inr (removeentry n # ns, s)
       else bindE (if weakkey then Inr s else markvalue (fst n) s) (\<lambda>s.
            bindE (if weakvalue then Inr s else markvalue (snd n) s) (\<lambda>s. Inr (n # ns, s))))"

definition set_weak_bits :: "bool \<Rightarrow> bool \<Rightarrow> byte \<Rightarrow> byte" where
  "set_weak_bits weakkey weakvalue m =
     (m AND NOT (KEYWEAK OR VALUEWEAK)) OR ((if weakkey then KEYWEAK else 0) OR (if weakvalue then VALUEWEAK else 0))"

definition traversetable :: "ref \<Rightarrow> ref option \<Rightarrow> gval list \<Rightarrow> (gval \<times> gval) list \<Rightarrow> gstate \<Rightarrow> (bool \<times> gstate) res" where
  "traversetable h mt arr node s =
     bindE (opt markobject mt s) (\<lambda>s.
     bindE (fasttm mt (tm_mode s) s) (\<lambda>mode.
     bindE (weak_mode mode s) (\<lambda>(weakkey, weakvalue).
     bindE (if weakkey \<or> weakvalue
            then bindE (upd_mark h (set_weak_bits weakkey weakvalue) s) (\<lambda>s. Inr (s\<lparr>weak := h # weak s\<rparr>))
            else Inr s) (\<lambda>s.
     if weakkey \<and> weakvalue then Inr (True, s)
     else bindE (if weakvalue then Inr s else foldE markvalue (rev arr) s) (\<lambda>s.
          bindE (traverse_nodes weakkey weakvalue node s) (\<lambda>(node, s).
          bindE (set_body h (OTable mt arr node) s) (\<lambda>s.
            Inr (weakkey \<or> weakvalue, s))))))))"

definition traverseproto ::
    "ref option \<Rightarrow> gval list \<Rightarrow> ref option list \<Rightarrow> ref option list \<Rightarrow> ref option list \<Rightarrow> gstate \<Rightarrow> gstate res" where
  "traverseproto source k upvalues p locvars s =
     bindE (opt stringmark source s) (\<lambda>s.
     bindE (foldE markvalue k s) (\<lambda>s.
     bindE (foldE (opt stringmark) upvalues s) (\<lambda>s.
     bindE (foldE (opt markobject) p s) (\<lambda>s.
       foldE (opt stringmark) locvars s))))"

definition traverseclosure :: "gbody \<Rightarrow> gstate \<Rightarrow> gstate res" where
  "traverseclosure b s =
     (case b of
        OCClosure env upvalue \<Rightarrow> bindE (markobject env s) (foldE markvalue upvalue)
      | OLClosure env p upvals \<Rightarrow>
          bindE (markobject env s) (\<lambda>s. bindE (markobject p s) (foldE markobject upvals))
      | _ \<Rightarrow> Inr s)"

text \<open>\<open>traversestack\<close>: the part of the stack in use is marked, the rest up to the top of any active call is cleared.\<close>

definition stack_lim :: "nat \<Rightarrow> nat list \<Rightarrow> nat" where
  "stack_lim tp ci_tops = fold max ci_tops tp"

definition clear_stack :: "nat \<Rightarrow> nat \<Rightarrow> gval list \<Rightarrow> gval list res" where
  "clear_stack tp lim st =
     (if lim < length st then Inr (take tp st @ replicate (lim + 1 - tp) VNil @ drop (lim + 1) st) else Inl OutOfBounds)"

definition traversestack :: "ref \<Rightarrow> gval \<Rightarrow> gval list \<Rightarrow> nat \<Rightarrow> nat list \<Rightarrow> ref list \<Rightarrow> gstate \<Rightarrow> gstate res" where
  "traversestack l gt st tp ci_tops openupval s =
     bindE (markvalue gt s) (\<lambda>s.
     bindE (foldE markvalue (take tp st) s) (\<lambda>s.
     bindE (clear_stack tp (stack_lim tp ci_tops) st) (\<lambda>st.
       set_body l (OThread gt st tp ci_tops openupval) s)))"

definition propagatemark :: "gstate \<Rightarrow> gstate res" where
  "propagatemark s =
     (case gray s of
        [] \<Rightarrow> Inl NullDeref
      | a # rest \<Rightarrow>
          bindE (upd_mark a gray2black s) (\<lambda>s.
          bindE (get_obj a s) (\<lambda>ob.
            case o_body ob of
              OTable mt arr node \<Rightarrow>
                let s = s\<lparr>gray := rest\<rparr>
                in bindE (traversetable a mt arr node s) (\<lambda>(w, s). if w then upd_mark a black2gray s else Inr s)
            | OCClosure _ _ \<Rightarrow> traverseclosure (o_body ob) (s\<lparr>gray := rest\<rparr>)
            | OLClosure _ _ _ \<Rightarrow> traverseclosure (o_body ob) (s\<lparr>gray := rest\<rparr>)
            | OThread gt st tp ci_tops openupval \<Rightarrow>
                bindE (upd_mark a black2gray (s\<lparr>gray := rest, grayagain := a # grayagain s\<rparr>)) (\<lambda>s.
                  traversestack a gt st tp ci_tops openupval s)
            | OProto source k upvalues p locvars \<Rightarrow> traverseproto source k upvalues p locvars (s\<lparr>gray := rest\<rparr>)
            | _ \<Rightarrow> Inr s)))"

fun propagateall :: "nat \<Rightarrow> gstate \<Rightarrow> gstate res" where
  "propagateall 0 s = Inl Diverges"
| "propagateall (Suc n) s = (if gray s = [] then Inr s else bindE (propagatemark s) (propagateall n))"

section \<open>The atomic step\<close>

text \<open>\<open>luaC_separateudata\<close>: the userdata that need finalisation, and the rest; both with their bits.\<close>

fun separateudata :: "bool \<Rightarrow> ref list \<Rightarrow> gstate \<Rightarrow> (ref list \<times> ref list \<times> gstate) res" where
  "separateudata al [] s = Inr ([], [], s)"
| "separateudata al (cur # p) s =
     bindE (get_obj cur s) (\<lambda>ob.
       case o_body ob of
         OUserdata mt env \<Rightarrow>
           if \<not> (iswhite (o_marked ob) \<or> al) \<or> isfinalized (o_marked ob)
           then bindE (separateudata al p s) (\<lambda>(kept, moved, s). Inr (cur # kept, moved, s))
           else bindE (fasttm mt (tm_gc s) s) (\<lambda>tm.
                bindE (upd_mark cur markfinalized s) (\<lambda>s.
                bindE (separateudata al p s) (\<lambda>(kept, moved, s).
                  Inr (if tm = None then (cur # kept, moved, s) else (kept, cur # moved, s)))))
       | _ \<Rightarrow> Inl OutOfBounds)"

text \<open>The userdata are the objects after the main thread in the list of all objects.\<close>

definition after_main :: "gstate \<Rightarrow> ref list" where
  "after_main s = tl (dropWhile (\<lambda>a. a \<noteq> mainthread s) (swept s @ rootgc s))"

definition up_to_main :: "gstate \<Rightarrow> ref list" where
  "up_to_main s = takeWhile (\<lambda>a. a \<noteq> mainthread s) (swept s @ rootgc s) @ [mainthread s]"

definition luaC_separateudata :: "bool \<Rightarrow> gstate \<Rightarrow> gstate res" where
  "luaC_separateudata al s =
     bindE (separateudata al (after_main s) s) (\<lambda>(kept, moved, s).
       Inr (s\<lparr>rootgc := up_to_main s @ kept, swept := [], tmudata := tmudata s @ moved\<rparr>))"

definition marktmu :: "gstate \<Rightarrow> gstate res" where
  "marktmu s =
     foldE (\<lambda>u s. bindE (upd_mark u (makewhite (g_white s)) s) (reallymarkobject MARKDEPTH u)) (tmudata s) s"

definition iscleared :: "gval \<Rightarrow> bool \<Rightarrow> gstate \<Rightarrow> (bool \<times> gstate) res" where
  "iscleared v iskey s =
     (case v of
        VRef a \<Rightarrow>
          bindE (get_obj a s) (\<lambda>ob.
            case o_body ob of
              OString _ \<Rightarrow> bindE (stringmark a s) (\<lambda>s. Inr (False, s))
            | OUserdata _ _ \<Rightarrow> Inr (iswhite (o_marked ob) \<or> \<not> iskey \<and> isfinalized (o_marked ob), s)
            | _ \<Rightarrow> Inr (iswhite (o_marked ob), s))
      | VDead a \<Rightarrow> bindE (get_obj a s) (\<lambda>ob. Inr (iswhite (o_marked ob), s))
      | _ \<Rightarrow> Inr (False, s))"

fun clear_array :: "gval list \<Rightarrow> gstate \<Rightarrow> (gval list \<times> gstate) res" where
  "clear_array [] s = Inr ([], s)"
| "clear_array (v # vs) s =
     bindE (clear_array vs s) (\<lambda>(vs, s).
     bindE (iscleared v False s) (\<lambda>(c, s). Inr ((if c then VNil else v) # vs, s)))"

text \<open>The value of an entry is looked at only if its key is kept, as \<open>||\<close> does.\<close>

definition entry_cleared :: "gval \<times> gval \<Rightarrow> gstate \<Rightarrow> (bool \<times> gstate) res" where
  "entry_cleared n s =
     bindE (iscleared (fst n) True s) (\<lambda>(c, s). if c then Inr (True, s) else iscleared (snd n) False s)"

fun clear_nodes :: "(gval \<times> gval) list \<Rightarrow> gstate \<Rightarrow> ((gval \<times> gval) list \<times> gstate) res" where
  "clear_nodes [] s = Inr ([], s)"
| "clear_nodes (n # ns) s =
     bindE (clear_nodes ns s) (\<lambda>(ns, s).
       if snd n = VNil then Inr (n # ns, s)
       else bindE (entry_cleared n s) (\<lambda>(c, s). Inr ((if c then removeentry (fst n, VNil) else n) # ns, s)))"

definition cleartable1 :: "ref \<Rightarrow> gstate \<Rightarrow> gstate res" where
  "cleartable1 h s =
     bindE (get_obj h s) (\<lambda>ob.
       case o_body ob of
         OTable mt arr node \<Rightarrow>
           bindE (if o_marked ob AND VALUEWEAK \<noteq> 0 then clear_array arr s else Inr (arr, s)) (\<lambda>(arr, s).
           bindE (clear_nodes node s) (\<lambda>(node, s). set_body h (OTable mt arr node) s))
       | _ \<Rightarrow> Inl OutOfBounds)"

definition cleartable :: "ref list \<Rightarrow> gstate \<Rightarrow> gstate res" where
  "cleartable = foldE cleartable1"

definition markmt :: "gstate \<Rightarrow> gstate res" where
  "markmt s = foldE (opt markobject) (mts s) s"

definition markroot :: "gstate \<Rightarrow> gstate res" where
  "markroot s =
     (let s = s\<lparr>gray := [], grayagain := [], weak := []\<rparr>
      in bindE (markobject (mainthread s) s) (\<lambda>s.
         bindE (get_obj (mainthread s) s) (\<lambda>ob.
         bindE (case o_body ob of OThread gt _ _ _ _ \<Rightarrow> markvalue gt s | _ \<Rightarrow> Inl OutOfBounds) (\<lambda>s.
         bindE (markvalue (registry s) s) (\<lambda>s.
         bindE (markmt s) (\<lambda>s. Inr (s\<lparr>gcstate := GCSpropagate\<rparr>)))))))"

definition remarkupval :: "ref \<Rightarrow> gstate \<Rightarrow> gstate res" where
  "remarkupval uv s =
     bindE (get_obj uv s) (\<lambda>ob.
       if isgray (o_marked ob)
       then case o_body ob of
              OUpVal u \<Rightarrow> bindE (uv_value u s) (\<lambda>v. markvalue v s)
            | _ \<Rightarrow> Inl OutOfBounds
       else Inr s)"

definition remarkupvals :: "gstate \<Rightarrow> gstate res" where
  "remarkupvals s = foldE remarkupval (uvhead s) s"

text \<open>\<open>atomic\<close>, called with the running thread \<open>L\<close>; \<open>n\<close> bounds each \<open>propagateall\<close>.\<close>

definition atomic :: "nat \<Rightarrow> ref \<Rightarrow> gstate \<Rightarrow> gstate res" where
  "atomic n L s =
     bindE (remarkupvals s) (\<lambda>s.
     bindE (propagateall n s) (\<lambda>s.
     bindE (markobject L (s\<lparr>gray := weak s, weak := []\<rparr>)) (\<lambda>s.
     bindE (markmt s) (\<lambda>s.
     bindE (propagateall n s) (\<lambda>s.
     bindE (propagateall n (s\<lparr>gray := grayagain s, grayagain := []\<rparr>)) (\<lambda>s.
     bindE (luaC_separateudata False s) (\<lambda>s.
     bindE (marktmu s) (\<lambda>s.
     bindE (propagateall n s) (\<lambda>s.
     bindE (cleartable (weak s) s) (\<lambda>s.
       Inr (s\<lparr>g_white := otherwhite (g_white s), sweepstrgc := 0, rootgc := swept s @ rootgc s, swept := [],
              gcstate := GCSsweepstring\<rparr>)))))))))))"

section \<open>Write barriers and new objects\<close>

definition luaC_barrierf :: "ref \<Rightarrow> ref \<Rightarrow> gstate \<Rightarrow> gstate res" where
  "luaC_barrierf a v s =
     (if gcstate s = GCSpropagate then reallymarkobject MARKDEPTH v s else upd_mark a (makewhite (g_white s)) s)"

definition luaC_barrierback :: "ref \<Rightarrow> gstate \<Rightarrow> gstate res" where
  "luaC_barrierback t s = bindE (upd_mark t black2gray s) (\<lambda>s. Inr (s\<lparr>grayagain := t # grayagain s\<rparr>))"

definition luaC_objbarrier :: "ref \<Rightarrow> ref \<Rightarrow> gstate \<Rightarrow> gstate res" where
  "luaC_objbarrier p v s =
     bindE (get_obj v s) (\<lambda>ov. bindE (get_obj p s) (\<lambda>op.
       if iswhite (o_marked ov) \<and> isblack (o_marked op) then luaC_barrierf p v s else Inr s))"

definition luaC_barrier :: "ref \<Rightarrow> gval \<Rightarrow> gstate \<Rightarrow> gstate res" where
  "luaC_barrier p v s = opt (luaC_objbarrier p) (gcref v) s"

definition luaC_objbarriert :: "ref \<Rightarrow> ref \<Rightarrow> gstate \<Rightarrow> gstate res" where
  "luaC_objbarriert t v s =
     bindE (get_obj v s) (\<lambda>ov. bindE (get_obj t s) (\<lambda>ot.
       if iswhite (o_marked ov) \<and> isblack (o_marked ot) then luaC_barrierback t s else Inr s))"

definition luaC_barriert :: "ref \<Rightarrow> gval \<Rightarrow> gstate \<Rightarrow> gstate res" where
  "luaC_barriert t v s = opt (luaC_objbarriert t) (gcref v) s"

text \<open>
  A new object at the address \<open>a\<close> that the allocator gave. It goes before the position of the sweep,
  unless that is still the head of the list.
\<close>

definition link_root :: "ref \<Rightarrow> gstate \<Rightarrow> gstate" where
  "link_root a s = (if swept s = [] then s\<lparr>rootgc := a # rootgc s\<rparr> else s\<lparr>swept := a # swept s\<rparr>)"

definition luaC_link :: "ref \<Rightarrow> gbody \<Rightarrow> gstate \<Rightarrow> gstate" where
  "luaC_link a b s = link_root a (set_obj a \<lparr>o_marked = luaC_white (g_white s), o_body = b\<rparr> s)"

section \<open>Open upvalues\<close>

definition get_thread :: "ref \<Rightarrow> gstate \<Rightarrow> (gval \<times> gval list \<times> nat \<times> nat list \<times> ref list) res" where
  "get_thread th s =
     bindE (get_obj th s) (\<lambda>ob.
       case o_body ob of OThread gt st tp cis op \<Rightarrow> Inr (gt, st, tp, cis, op) | _ \<Rightarrow> Inl OutOfBounds)"

definition uv_level :: "ref \<Rightarrow> gstate \<Rightarrow> nat res" where
  "uv_level p s =
     bindE (get_obj p s) (\<lambda>ob. case o_body ob of OUpVal (UvOpen _ i) \<Rightarrow> Inr i | _ \<Rightarrow> Inl OutOfBounds)"

text \<open>
  The search of \<open>luaF_findupval\<close> in the list of open upvalues, sorted from higher to lower stack
  positions: the upvalues before the place, the one found, and those after it.
\<close>

fun find_open :: "nat \<Rightarrow> ref list \<Rightarrow> gstate \<Rightarrow> (ref list \<times> ref option \<times> ref list) res" where
  "find_open level [] s = Inr ([], None, [])"
| "find_open level (p # ps) s =
     bindE (uv_level p s) (\<lambda>i.
       if i > level then bindE (find_open level ps s) (\<lambda>(before, r, after). Inr (p # before, r, after))
       else if i = level then Inr ([], Some p, ps)
       else Inr ([], None, p # ps))"

definition luaF_findupval :: "ref \<Rightarrow> ref \<Rightarrow> nat \<Rightarrow> gstate \<Rightarrow> (ref \<times> gstate) res" where
  "luaF_findupval new th level s =
     bindE (get_thread th s) (\<lambda>(gt, st, tp, cis, op).
     bindE (find_open level op s) (\<lambda>(before, r, after).
       case r of
         Some p \<Rightarrow>
           bindE (get_obj p s) (\<lambda>ob.
           bindE (if o_isdead (g_white s) (o_marked ob) then upd_mark p o_changewhite s else Inr s) (\<lambda>s. Inr (p, s)))
       | None \<Rightarrow>
           let s = set_obj new \<lparr>o_marked = luaC_white (g_white s), o_body = OUpVal (UvOpen th level)\<rparr> s
           in bindE (set_body th (OThread gt st tp cis (before @ new # after)) s) (\<lambda>s.
              Inr (new, s\<lparr>uvhead := new # uvhead s\<rparr>))))"

definition unlinkupval :: "ref \<Rightarrow> gstate \<Rightarrow> gstate" where
  "unlinkupval uv s = s\<lparr>uvhead := remove1 uv (uvhead s)\<rparr>"

definition free_obj :: "ref \<Rightarrow> gstate \<Rightarrow> gstate" where
  "free_obj a s = s\<lparr>heap := (heap s)(a := None)\<rparr>"

definition luaF_freeupval :: "ref \<Rightarrow> gstate \<Rightarrow> gstate res" where
  "luaF_freeupval uv s =
     bindE (get_obj uv s) (\<lambda>ob.
       Inr (free_obj uv (case o_body ob of OUpVal (UvOpen _ _) \<Rightarrow> unlinkupval uv s | _ \<Rightarrow> s)))"

definition luaC_linkupval :: "ref \<Rightarrow> gval \<Rightarrow> gstate \<Rightarrow> gstate res" where
  "luaC_linkupval uv v s =
     (let s = link_root uv s
      in bindE (get_obj uv s) (\<lambda>ob.
         if isgray (o_marked ob)
         then if gcstate s = GCSpropagate
              then bindE (upd_mark uv gray2black s) (luaC_barrier uv v)
              else upd_mark uv (makewhite (g_white s)) s
         else Inr s))"

text \<open>The loop of \<open>luaF_close\<close> over the list of open upvalues of the thread, whose rest it gives back.\<close>

fun luaF_close_loop :: "nat \<Rightarrow> ref list \<Rightarrow> gstate \<Rightarrow> (ref list \<times> gstate) res" where
  "luaF_close_loop level [] s = Inr ([], s)"
| "luaF_close_loop level (uv # op) s =
     bindE (get_obj uv s) (\<lambda>ob.
       case o_body ob of
         OUpVal (UvOpen th i) \<Rightarrow>
           if i \<ge> level
           then bindE (if o_isdead (g_white s) (o_marked ob) then luaF_freeupval uv s
                       else bindE (uv_value (UvOpen th i) s) (\<lambda>v.
                            bindE (set_body uv (OUpVal (UvClosed v)) (unlinkupval uv s)) (\<lambda>s.
                              luaC_linkupval uv v s))) (luaF_close_loop level op)
           else Inr (uv # op, s)
       | _ \<Rightarrow> Inl OutOfBounds)"

definition luaF_close :: "ref \<Rightarrow> nat \<Rightarrow> gstate \<Rightarrow> gstate res" where
  "luaF_close th level s =
     bindE (get_thread th s) (\<lambda>(_, _, _, _, op).
     bindE (luaF_close_loop level op s) (\<lambda>(op, s).
     bindE (get_thread th s) (\<lambda>(gt, st, tp, cis, _).
       set_body th (OThread gt st tp cis op) s)))"

section \<open>Sweeping\<close>

definition freeobj :: "ref \<Rightarrow> gstate \<Rightarrow> gstate res" where
  "freeobj a s =
     bindE (get_obj a s) (\<lambda>ob.
       case o_body ob of
         OUpVal _ \<Rightarrow> luaF_freeupval a s
       | OThread _ _ _ _ _ \<Rightarrow> bindE (luaF_close a 0 s) (\<lambda>s. Inr (free_obj a s))
       | _ \<Rightarrow> Inr (free_obj a s))"

definition not_dead :: "byte \<Rightarrow> byte \<Rightarrow> bool" where
  "not_dead deadmask m \<longleftrightarrow> (m XOR WHITEBITS) AND deadmask \<noteq> 0"

text \<open>
  \<open>sweeplist\<close> on a whole list without threads, a chain of strings or the open upvalues of a thread: what
  it keeps.
\<close>

fun sweep_whole :: "byte \<Rightarrow> ref list \<Rightarrow> gstate \<Rightarrow> (ref list \<times> gstate) res" where
  "sweep_whole deadmask [] s = Inr ([], s)"
| "sweep_whole deadmask (cur # p) s =
     bindE (get_obj cur s) (\<lambda>ob.
       if not_dead deadmask (o_marked ob)
       then bindE (upd_mark cur (makewhite (g_white s)) s) (\<lambda>s.
            bindE (sweep_whole deadmask p s) (\<lambda>(kept, s). Inr (cur # kept, s)))
       else bindE (freeobj cur s) (sweep_whole deadmask p))"

definition sweep_thread :: "byte \<Rightarrow> ref \<Rightarrow> gstate \<Rightarrow> gstate res" where
  "sweep_thread deadmask a s =
     bindE (get_obj a s) (\<lambda>ob.
       case o_body ob of
         OThread gt st tp cis op \<Rightarrow>
           bindE (sweep_whole deadmask op s) (\<lambda>(op, s). set_body a (OThread gt st tp cis op) s)
       | _ \<Rightarrow> Inr s)"

text \<open>\<open>sweeplist\<close> on the list of all objects, from the position \<open>sweepgc\<close> on.\<close>

fun sweeplist :: "byte \<Rightarrow> nat \<Rightarrow> gstate \<Rightarrow> gstate res" where
  "sweeplist deadmask 0 s = Inr s"
| "sweeplist deadmask (Suc cnt) s =
     (case rootgc s of
        [] \<Rightarrow> Inr s
      | cur # p \<Rightarrow>
          bindE (sweep_thread deadmask cur s) (\<lambda>s.
          bindE (get_obj cur s) (\<lambda>ob.
            if not_dead deadmask (o_marked ob)
            then bindE (upd_mark cur (makewhite (g_white s)) s) (\<lambda>s.
                   sweeplist deadmask cnt (s\<lparr>swept := swept s @ [cur], rootgc := p\<rparr>))
            else bindE (freeobj cur (s\<lparr>rootgc := p\<rparr>)) (sweeplist deadmask cnt))))"

section \<open>Steps of the collector\<close>

text \<open>\<open>GCTM\<close> up to the call of the finaliser, which is code of the program.\<close>

definition GCTM :: "gstate \<Rightarrow> gstate res" where
  "GCTM s =
     (case tmudata s of
        [] \<Rightarrow> Inl NullDeref
      | u # us \<Rightarrow>
          upd_mark u (makewhite (g_white s))
            (s\<lparr>tmudata := us, rootgc := up_to_main s @ u # after_main s, swept := []\<rparr>))"

definition GCSWEEPMAX :: nat where "GCSWEEPMAX = 40"

definition sweepstrings :: "gstate \<Rightarrow> gstate res" where
  "sweepstrings s =
     (if sweepstrgc s < length (strhash s)
      then bindE (sweep_whole (otherwhite (g_white s)) (strhash s ! sweepstrgc s) s) (\<lambda>(kept, s).
           let s = s\<lparr>strhash := (strhash s)[sweepstrgc s := kept], sweepstrgc := sweepstrgc s + 1\<rparr>
           in Inr (if sweepstrgc s \<ge> length (strhash s) then s\<lparr>gcstate := GCSsweep\<rparr> else s))
      else Inl OutOfBounds)"

definition singlestep :: "nat \<Rightarrow> ref \<Rightarrow> gstate \<Rightarrow> gstate res" where
  "singlestep n L s =
     (case gcstate s of
        GCSpause \<Rightarrow> markroot s
      | GCSpropagate \<Rightarrow> if gray s \<noteq> [] then propagatemark s else atomic n L s
      | GCSsweepstring \<Rightarrow> sweepstrings s
      | GCSsweep \<Rightarrow>
          bindE (sweeplist (otherwhite (g_white s)) GCSWEEPMAX s) (\<lambda>s.
            Inr (if rootgc s = [] then s\<lparr>gcstate := GCSfinalize\<rparr> else s))
      | GCSfinalize \<Rightarrow> if tmudata s \<noteq> [] then GCTM s else Inr (s\<lparr>gcstate := GCSpause\<rparr>))"

end
