(* ===== verification/LuaGCMark.thy ===== *)
theory LuaGCMark
  imports LuaGC
begin

text \<open>
  The invariant of marking and its preservation by \<open>reallymarkobject\<close> and everything built from it. A
  black object refers to no white one; a gray object is in the list of those to be traversed, or is one
  of the kinds that stay gray (strings, open upvalues, weak tables and threads). Sets of objects that are
  being traversed are excluded. Flags say which of the gray ones have been dealt with in the atomic step.
\<close>

section \<open>Colours\<close>

lemma bit_WHITEBITS: "bit WHITEBITS n \<longleftrightarrow> n < 2"
proof -
  have w: "WHITEBITS = mask 2" by (simp add: WHITEBITS_def mask_eq_decr_exp)
  show ?thesis unfolding w by (auto simp: bit_mask_iff)
qed

lemma iswhite_bits: "iswhite m \<longleftrightarrow> bit m 0 \<or> bit m 1"
proof -
  have "m AND WHITEBITS = 0 \<longleftrightarrow> (\<forall>n < 8. \<not> (bit m n \<and> n < 2))"
    by (simp add: bit_eq_iff bit_simps bit_WHITEBITS)
  also have "\<dots> \<longleftrightarrow> \<not> bit m 0 \<and> \<not> bit m 1"
  proof
    assume h: "\<forall>n < 8. \<not> (bit m n \<and> n < 2)"
    show "\<not> bit m 0 \<and> \<not> bit m 1" using h [rule_format, of 0] h [rule_format, of 1] by simp
  next
    assume h: "\<not> bit m 0 \<and> \<not> bit m 1"
    have "n = 0 \<or> n = 1" if "n < 2" for n :: nat using that by auto
    then show "\<forall>n < 8. \<not> (bit m n \<and> n < 2)" using h by metis
  qed
  finally show ?thesis by (auto simp: iswhite_def)
qed

lemma isblack_bits: "isblack m \<longleftrightarrow> bit m 2"
  using and_exp_eq_0_iff_not_bit [of m 2] by (simp add: isblack_def BLACKMASK_def)

lemma bit_BLACKMASK: "bit BLACKMASK n \<longleftrightarrow> n = 2"
proof -
  have b: "BLACKMASK = 2 ^ 2" by (simp add: BLACKMASK_def)
  show ?thesis unfolding b bit_exp_iff by auto
qed

lemmas mark_bits = iswhite_bits isblack_bits bit_WHITEBITS bit_BLACKMASK isgray_def white2gray_def gray2black_def
  black2gray_def makewhite_def maskmarks_def luaC_white_def bit_simps

text \<open>The bits that say how a table is weak.\<close>

definition weakbits :: "byte \<Rightarrow> bool \<times> bool" where "weakbits m = (bit m 3, bit m 4)"

lemma colours [simp]:
  "\<not> iswhite (white2gray m)" "isblack (white2gray m) = isblack m" "weakbits (white2gray m) = weakbits m"
  "iswhite (gray2black m) = iswhite m" "isblack (gray2black m)" "weakbits (gray2black m) = weakbits m"
  "iswhite (black2gray m) = iswhite m" "\<not> isblack (black2gray m)" "weakbits (black2gray m) = weakbits m"
  by (auto simp: mark_bits weakbits_def)

section \<open>References\<close>

definition refs_of :: "gbody \<Rightarrow> gval list" where
  "refs_of b =
     (case b of
        OString _ \<Rightarrow> []
      | OUserdata mt env \<Rightarrow> map VRef (case mt of None \<Rightarrow> [] | Some t \<Rightarrow> [t]) @ [VRef env]
      | OUpVal u \<Rightarrow> (case u of UvClosed v \<Rightarrow> [v] | UvOpen _ _ \<Rightarrow> [])
      | OCClosure env vs \<Rightarrow> VRef env # vs
      | OLClosure env p us \<Rightarrow> VRef env # VRef p # map VRef us
      | OTable mt arr node \<Rightarrow>
          map VRef (case mt of None \<Rightarrow> [] | Some t \<Rightarrow> [t]) @ arr @
          concat (map (\<lambda>(k, v). if v = VNil then [] else [k, v]) node)
      | OProto src k us ps lv \<Rightarrow>
          map VRef (case src of None \<Rightarrow> [] | Some t \<Rightarrow> [t]) @ k @
          concat (map (\<lambda>x. case x of None \<Rightarrow> [] | Some t \<Rightarrow> [VRef t]) (us @ ps @ lv))
      | OThread gt st tp _ _ \<Rightarrow> gt # take tp st)"

definition vrefs :: "gval list \<Rightarrow> ref set" where "vrefs vs = {r. \<exists>v \<in> set vs. gcref v = Some r}"

lemma vrefs_simps [simp]:
  "vrefs [] = {}" "vrefs (v # vs) = set_option (gcref v) \<union> vrefs vs" "vrefs (vs @ ws) = vrefs vs \<union> vrefs ws"
  "vrefs (map VRef rs) = set rs" "vrefs (concat vss) = (\<Union>vs \<in> set vss. vrefs vs)" "vrefs (rev vs) = vrefs vs"
  by (auto simp: vrefs_def)

text \<open>What is reached from an object in one step: its references, and for an open upvalue the slot of the stack.\<close>

definition stack_slot :: "gstate \<Rightarrow> ref \<Rightarrow> nat \<Rightarrow> gval" where
  "stack_slot s th i = (case heap s th of Some ob \<Rightarrow> (case o_body ob of OThread _ st _ _ _ \<Rightarrow> st ! i | _ \<Rightarrow> VNil) | None \<Rightarrow> VNil)"

definition succs :: "gstate \<Rightarrow> gbody \<Rightarrow> ref set" where
  "succs s b = vrefs (refs_of b) \<union> (case b of OUpVal (UvOpen th i) \<Rightarrow> set_option (gcref (stack_slot s th i)) | _ \<Rightarrow> {})"

text \<open>What a weak table keeps alive, by its mark bits.\<close>

definition strong_refs :: "byte \<Rightarrow> gbody \<Rightarrow> ref set" where
  "strong_refs m b =
     (case b of
        OTable mt arr node \<Rightarrow>
          set_option mt \<union> (if bit m 4 then {} else vrefs arr) \<union>
          (\<Union>(k, v) \<in> set node. if v = VNil then {}
             else (if bit m 3 then {} else set_option (gcref k)) \<union> (if bit m 4 then {} else set_option (gcref v)))
      | _ \<Rightarrow> vrefs (refs_of b))"

section \<open>Well-formed heaps\<close>

text \<open>
  The depth of marking below an object of each kind. Userdata refer to tables only, upvalues to values,
  and only functions of Lua refer to upvalues.
\<close>

definition rank :: "gbody \<Rightarrow> nat" where
  "rank b = (case b of OUpVal _ \<Rightarrow> 3 | OUserdata _ _ \<Rightarrow> 2 | _ \<Rightarrow> 1)"

definition child_rank :: "gbody \<Rightarrow> nat" where
  "child_rank b = (case b of OLClosure _ _ _ \<Rightarrow> 3 | OUserdata _ _ \<Rightarrow> 1 | _ \<Rightarrow> 2)"

definition obj_is :: "(gbody \<Rightarrow> bool) \<Rightarrow> gstate \<Rightarrow> ref \<Rightarrow> bool" where
  "obj_is P s r \<longleftrightarrow> (\<exists>ob. heap s r = Some ob \<and> P (o_body ob))"

definition is_table :: "gbody \<Rightarrow> bool" where "is_table b \<longleftrightarrow> (case b of OTable _ _ _ \<Rightarrow> True | _ \<Rightarrow> False)"
definition is_string :: "gbody \<Rightarrow> bool" where "is_string b \<longleftrightarrow> (case b of OString _ \<Rightarrow> True | _ \<Rightarrow> False)"

definition has_slot :: "nat \<Rightarrow> gbody \<Rightarrow> bool" where
  "has_slot i b \<longleftrightarrow> (\<exists>gt st tp cis op. b = OThread gt st tp cis op \<and> i < tp \<and> tp \<le> length st)"

definition body_ok :: "gstate \<Rightarrow> gbody \<Rightarrow> bool" where
  "body_ok s b \<longleftrightarrow>
     (\<forall>r \<in> succs s b. obj_is (\<lambda>c. rank c \<le> child_rank b) s r) \<and>
     (case b of
        OUpVal (UvOpen th i) \<Rightarrow> obj_is (has_slot i) s th
      | OThread _ st tp cis op \<Rightarrow>
          tp \<le> length st \<and> stack_lim tp cis < length st
      | OUserdata mt _ \<Rightarrow> (\<forall>t \<in> set_option mt. obj_is is_table s t)
      | OTable mt _ _ \<Rightarrow> (\<forall>t \<in> set_option mt. obj_is is_table s t)
      | OProto src _ us _ lv \<Rightarrow> (\<forall>t \<in> set_option src \<union> \<Union> (set_option ` set (us @ lv)). obj_is is_string s t)
      | _ \<Rightarrow> True)"

definition heap_ok :: "gstate \<Rightarrow> bool" where
  "heap_ok s \<longleftrightarrow> finite (dom (heap s)) \<and> (\<forall>a ob. heap s a = Some ob \<longrightarrow> body_ok s (o_body ob))"

section \<open>The invariant of marking\<close>

datatype flag = FUpv | FAgain | FWeak

definition nw :: "gstate \<Rightarrow> ref \<Rightarrow> bool" where
  "nw s r \<longleftrightarrow> (\<exists>ob. heap s r = Some ob \<and> \<not> iswhite (o_marked ob))"

definition gray_ok :: "flag set \<Rightarrow> gstate \<Rightarrow> ref \<Rightarrow> gcobj \<Rightarrow> bool" where
  "gray_ok F s a ob \<longleftrightarrow>
     (case o_body ob of
        OString _ \<Rightarrow> True
      | OUserdata _ _ \<Rightarrow> False
      | OUpVal u \<Rightarrow> (case u of UvClosed _ \<Rightarrow> False | UvOpen _ _ \<Rightarrow> FUpv \<in> F \<longrightarrow> (\<forall>r \<in> succs s (OUpVal u). nw s r))
      | b \<Rightarrow> a \<in> set (gray s) \<or> (a \<in> set (grayagain s) \<and> (FAgain \<in> F \<longrightarrow> (\<forall>r \<in> vrefs (refs_of b). nw s r))) \<or>
             (a \<in> set (weak s) \<and> (FWeak \<in> F \<longrightarrow> (\<forall>r \<in> strong_refs (o_marked ob) b. nw s r))))"

definition is_open :: "gbody \<Rightarrow> bool" where
  "is_open b \<longleftrightarrow> (case b of OUpVal (UvOpen _ _) \<Rightarrow> True | _ \<Rightarrow> False)"

text \<open>Open upvalues and threads are never black.\<close>

definition is_thread :: "gbody \<Rightarrow> bool" where "is_thread b \<longleftrightarrow> (case b of OThread _ _ _ _ _ \<Rightarrow> True | _ \<Rightarrow> False)"

definition stays_gray :: "gbody \<Rightarrow> bool" where "stays_gray b \<longleftrightarrow> is_open b \<or> is_thread b"

definition node_ok :: "flag set \<Rightarrow> gstate \<Rightarrow> ref \<Rightarrow> gcobj \<Rightarrow> bool" where
  "node_ok F s a ob \<longleftrightarrow>
     iswhite (o_marked ob) \<or>
     (if isblack (o_marked ob)
      then \<not> stays_gray (o_body ob) \<and> a \<notin> set (gray s @ grayagain s @ weak s) \<and> (\<forall>r \<in> vrefs (refs_of (o_body ob)). nw s r)
      else gray_ok F s a ob)"

definition traversable :: "gbody \<Rightarrow> bool" where
  "traversable b \<longleftrightarrow> (case b of OString _ \<Rightarrow> False | OUserdata _ _ \<Rightarrow> False | OUpVal _ \<Rightarrow> False | _ \<Rightarrow> True)"

definition lists_ok :: "gstate \<Rightarrow> bool" where
  "lists_ok s \<longleftrightarrow>
     distinct (gray s @ grayagain s @ weak s) \<and>
     (\<forall>a \<in> set (gray s @ grayagain s @ weak s). \<exists>ob. heap s a = Some ob \<and> \<not> iswhite (o_marked ob) \<and> traversable (o_body ob)) \<and>
     (\<forall>a \<in> set (weak s). obj_is is_table s a)"

definition colour_ok :: "gstate \<Rightarrow> bool" where
  "colour_ok s \<longleftrightarrow>
     (\<forall>a ob. heap s a = Some ob \<longrightarrow> iswhite (o_marked ob) \<longrightarrow> \<not> isblack (o_marked ob) \<and> \<not> o_isdead (g_white s) (o_marked ob))"

definition mark_ok :: "flag set \<Rightarrow> ref set \<Rightarrow> gstate \<Rightarrow> bool" where
  "mark_ok F S s \<longleftrightarrow> (\<forall>a ob. heap s a = Some ob \<longrightarrow> a \<notin> S \<longrightarrow> node_ok F s a ob) \<and> lists_ok s \<and> colour_ok s"

text \<open>Marking whitens nothing and changes no body; it only adds to the gray list.\<close>

definition obj_mk :: "gcobj option \<Rightarrow> gcobj option \<Rightarrow> bool" where
  "obj_mk x y \<longleftrightarrow>
     (case x of None \<Rightarrow> y = None
      | Some ob \<Rightarrow> \<exists>ob'. y = Some ob' \<and> o_body ob' = o_body ob \<and> (iswhite (o_marked ob') \<longrightarrow> iswhite (o_marked ob)) \<and>
          (isblack (o_marked ob) \<longrightarrow> isblack (o_marked ob')) \<and> weakbits (o_marked ob') = weakbits (o_marked ob) \<and>
          (\<not> iswhite (o_marked ob) \<longrightarrow> o_marked ob' = o_marked ob))"

definition whites :: "gstate \<Rightarrow> ref set" where
  "whites s = {a. \<exists>ob. heap s a = Some ob \<and> iswhite (o_marked ob)}"

definition mk :: "gstate \<Rightarrow> gstate \<Rightarrow> bool" where
  "mk s s' \<longleftrightarrow> (\<exists>h g. s' = s\<lparr>heap := h, gray := g\<rparr>) \<and> set (gray s) \<subseteq> set (gray s') \<and>
     set (gray s') \<subseteq> set (gray s) \<union> whites s \<and> (\<forall>a. obj_mk (heap s a) (heap s' a))"

definition work :: "gstate \<Rightarrow> nat" where   \<comment> \<open>what is left to be done\<close>
  "work s = card (whites s) + length (gray s)"

section \<open>What marking leaves alone\<close>

lemma obj_mk_refl [simp]: "obj_mk x x"
  by (auto simp: obj_mk_def split: option.splits)

lemma obj_mk_trans: "obj_mk x y \<Longrightarrow> obj_mk y z \<Longrightarrow> obj_mk x z"
  by (auto simp: obj_mk_def split: option.splits)

lemma mk_refl [simp]: "mk s s"
proof -
  have "\<exists>h g. s = s\<lparr>heap := h, gray := g\<rparr>" by (intro exI [of _ "heap s"] exI [of _ "gray s"]) simp
  then show ?thesis unfolding mk_def by simp
qed

lemma whites_obj_mk: "(\<And>a. obj_mk (heap s a) (heap s' a)) \<Longrightarrow> whites s' \<subseteq> whites s"
  by (fastforce simp: whites_def obj_mk_def split: option.splits)

lemma mk_trans:
  assumes "mk s s1" "mk s1 s2"
  shows "mk s s2"
proof -
  have "whites s1 \<subseteq> whites s" using assms(1) by (intro whites_obj_mk) (simp add: mk_def)
  then show ?thesis using assms unfolding mk_def by (elim conjE exE) (auto intro: obj_mk_trans)
qed

lemma mk_fields [simp]:
  "mk s s' \<Longrightarrow> g_white s' = g_white s" "mk s s' \<Longrightarrow> gcstate s' = gcstate s" "mk s s' \<Longrightarrow> grayagain s' = grayagain s"
  "mk s s' \<Longrightarrow> weak s' = weak s" "mk s s' \<Longrightarrow> tmudata s' = tmudata s" "mk s s' \<Longrightarrow> swept s' = swept s"
  "mk s s' \<Longrightarrow> rootgc s' = rootgc s" "mk s s' \<Longrightarrow> strhash s' = strhash s" "mk s s' \<Longrightarrow> sweepstrgc s' = sweepstrgc s"
  "mk s s' \<Longrightarrow> mainthread s' = mainthread s" "mk s s' \<Longrightarrow> registry s' = registry s" "mk s s' \<Longrightarrow> mts s' = mts s"
  "mk s s' \<Longrightarrow> uvhead s' = uvhead s" "mk s s' \<Longrightarrow> tm_mode s' = tm_mode s" "mk s s' \<Longrightarrow> tm_gc s' = tm_gc s"
  by (auto simp: mk_def)

lemma mkI:
  assumes "s' = s\<lparr>heap := heap s', gray := gray s'\<rparr>" "set (gray s) \<subseteq> set (gray s')"
    "set (gray s') \<subseteq> set (gray s) \<union> whites s" "\<And>a. obj_mk (heap s a) (heap s' a)"
  shows "mk s s'"
  unfolding mk_def using assms by metis

lemma mk_eq: "mk s s' \<Longrightarrow> s' = s\<lparr>heap := heap s', gray := gray s'\<rparr>"
  by (auto simp: mk_def)

lemma mk_obj: "mk s s' \<Longrightarrow> obj_mk (heap s a) (heap s' a)"
  by (simp add: mk_def)

lemma mk_heap:
  assumes "mk s s'"
  shows "heap s a = None \<Longrightarrow> heap s' a = None"
    and "heap s a = Some ob \<Longrightarrow> \<exists>ob'. heap s' a = Some ob' \<and> o_body ob' = o_body ob \<and>
           weakbits (o_marked ob') = weakbits (o_marked ob) \<and> (\<not> iswhite (o_marked ob) \<longrightarrow> ob' = ob)"
  using mk_obj [OF assms, of a] by (auto simp: obj_mk_def)

lemma nw_mk: "mk s s' \<Longrightarrow> nw s r \<Longrightarrow> nw s' r"
  using mk_heap(2) by (fastforce simp: nw_def)

lemma heap_mk_back:
  assumes "mk s s'" "heap s' a = Some ob'"
  obtains ob where "heap s a = Some ob" "o_body ob' = o_body ob" "weakbits (o_marked ob') = weakbits (o_marked ob)"
    "\<not> iswhite (o_marked ob) \<Longrightarrow> ob' = ob"
  using mk_heap [OF assms(1), of a] assms(2) by (cases "heap s a") fastforce+

lemma obj_is_mk [simp]: "mk s s' \<Longrightarrow> obj_is P s' r = obj_is P s r"
  unfolding obj_is_def by (metis heap_mk_back mk_heap(2))

lemma slot_mk [simp]: "mk s s' \<Longrightarrow> stack_slot s' th i = stack_slot s th i"
  using mk_heap [of s s' th] by (cases "heap s th") (auto simp: stack_slot_def)

lemma succs_mk [simp]: "mk s s' \<Longrightarrow> succs s' b = succs s b"
  by (auto simp: succs_def split: gbody.splits upv.splits)

lemma body_ok_mk [simp]: "mk s s' \<Longrightarrow> body_ok s' b = body_ok s b"
  by (simp add: body_ok_def cong: gbody.case_cong upv.case_cong)

lemma dom_mk: "mk s s' \<Longrightarrow> dom (heap s') = dom (heap s)"
  using mk_heap [of s s'] heap_mk_back [of s s'] by (auto simp: dom_def) blast+

lemma heap_ok_mk: "mk s s' \<Longrightarrow> heap_ok s \<Longrightarrow> heap_ok s'"
  unfolding heap_ok_def by (metis body_ok_mk dom_mk heap_mk_back)

lemma strong_refs_cong: "weakbits m = weakbits m' \<Longrightarrow> strong_refs m b = strong_refs m' b"
proof -
  assume "weakbits m = weakbits m'"
  then have "bit m 3 = bit m' 3" "bit m 4 = bit m' 4" by (simp_all add: weakbits_def)
  then show ?thesis by (simp only: strong_refs_def)
qed

text \<open>An object that has not been touched stays in order when others are marked.\<close>

lemma node_ok_mono:
  assumes "node_ok F s a ob" "\<And>r. nw s r \<Longrightarrow> nw s' r" "succs s' (o_body ob) = succs s (o_body ob)"
    "set (gray s) - A \<subseteq> set (gray s')" "set (grayagain s) \<subseteq> set (grayagain s')" "set (weak s) \<subseteq> set (weak s')" "a \<notin> A"
    "a \<in> set (gray s' @ grayagain s' @ weak s') \<Longrightarrow> a \<in> set (gray s @ grayagain s @ weak s)"
  shows "node_ok F s' a ob"
proof -
  have "gray_ok F s a ob \<Longrightarrow> gray_ok F s' a ob"
    using assms(2-7) by (fastforce simp: gray_ok_def split: gbody.splits upv.splits)
  then show ?thesis using assms(1,2,8) by (auto simp: node_ok_def)
qed

lemma listed:
  assumes "lists_ok s" "a \<in> set (gray s @ grayagain s @ weak s)"
  obtains ob where "heap s a = Some ob" "\<not> iswhite (o_marked ob)" "traversable (o_body ob)"
proof -
  have "\<forall>a \<in> set (gray s @ grayagain s @ weak s). \<exists>ob. heap s a = Some ob \<and> \<not> iswhite (o_marked ob) \<and> traversable (o_body ob)"
    using assms(1) unfolding lists_ok_def by (elim conjE)
  from bspec [OF this assms(2)] show ?thesis using that by blast
qed

section \<open>Changing the colour of one object\<close>

lemma set_obj_simps [simp]:
  "heap (set_obj a ob s) = (heap s)(a \<mapsto> ob)" "gray (set_obj a ob s) = gray s" "grayagain (set_obj a ob s) = grayagain s"
  "weak (set_obj a ob s) = weak s" "g_white (set_obj a ob s) = g_white s" "tmudata (set_obj a ob s) = tmudata s"
  by (simp_all add: set_obj_def)

definition remark :: "ref \<Rightarrow> gcobj \<Rightarrow> byte \<Rightarrow> gstate \<Rightarrow> gstate" where
  "remark a ob m s = set_obj a (ob\<lparr>o_marked := m\<rparr>) s"

lemma remark_lists [simp]:
  "gray (remark a ob m s) = gray s" "grayagain (remark a ob m s) = grayagain s" "weak (remark a ob m s) = weak s"
  "g_white (remark a ob m s) = g_white s" "tmudata (remark a ob m s) = tmudata s"
  by (simp_all add: remark_def)

lemma upd_mark_ok: "heap s a = Some ob \<Longrightarrow> upd_mark a f s = Inr (remark a ob (f (o_marked ob)) s)"
  by (simp add: upd_mark_def get_obj_def remark_def)

lemma get_obj_ok: "heap s a = Some ob \<Longrightarrow> get_obj a s = Inr ob"
  by (simp add: get_obj_def)

lemma slot_remark [simp]: "heap s a = Some ob \<Longrightarrow> stack_slot (remark a ob m s) th i = stack_slot s th i"
  by (auto simp: stack_slot_def remark_def)

lemma succs_remark [simp]: "heap s a = Some ob \<Longrightarrow> succs (remark a ob m s) b = succs s b"
  by (auto simp: succs_def split: gbody.splits upv.splits)

lemma obj_is_remark [simp]: "heap s a = Some ob \<Longrightarrow> obj_is P (remark a ob m s) r = obj_is P s r"
  by (auto simp: obj_is_def remark_def)

lemma heap_ok_remark:
  assumes "heap s a = Some ob"
  shows "heap_ok (remark a ob m s) = heap_ok s"
proof -
  have "body_ok (remark a ob m s) b = body_ok s b" for b
    by (simp add: body_ok_def assms cong: gbody.case_cong upv.case_cong)
  moreover have "dom (heap (remark a ob m s)) = dom (heap s)" using assms by (auto simp: remark_def)
  ultimately show ?thesis using assms by (auto simp: heap_ok_def remark_def)
qed

lemma nw_remark: "heap s a = Some ob \<Longrightarrow> \<not> iswhite m \<Longrightarrow> nw s r \<Longrightarrow> nw (remark a ob m s) r"
  by (auto simp: nw_def remark_def)

lemma whites_remark: "heap s a = Some ob \<Longrightarrow> \<not> iswhite m \<Longrightarrow> whites (remark a ob m s) = whites s - {a}"
  by (auto simp: whites_def remark_def split: if_splits)

lemma mark_ok_remark:
  assumes at_a: "heap s a = Some ob" and m: "mark_ok F S s" "\<not> iswhite m"
  shows "mark_ok F (insert a S) (remark a ob m s)"
proof -
  have "node_ok F (remark a ob m s) x obx" if "heap s x = Some obx" "x \<noteq> a" "x \<notin> S" for x obx
    by (rule node_ok_mono [where A = "{}", OF _ nw_remark [OF at_a m(2)] succs_remark [OF at_a]])
       (use m(1) that in \<open>auto simp: mark_ok_def remark_def\<close>)
  moreover have g: "\<exists>ob'. heap (remark a ob m s) x = Some ob' \<and> \<not> iswhite (o_marked ob') \<and> traversable (o_body ob')"
    if "x \<in> set (gray s @ grayagain s @ weak s)" for x
  proof -
    have "lists_ok s" using m(1) by (simp add: mark_ok_def)
    from listed [OF this that]
    obtain obx where "heap s x = Some obx" "\<not> iswhite (o_marked obx)" "traversable (o_body obx)" .
    then show ?thesis using m(2) that at_a by (cases "x = a") (auto simp: remark_def isgray_def)
  qed
  have "lists_ok (remark a ob m s)"
    unfolding lists_ok_def obj_is_remark [OF at_a] remark_lists
    by (intro conjI ballI g) (use m(1) in \<open>simp_all add: mark_ok_def lists_ok_def\<close>)
  moreover have "colour_ok (remark a ob m s)"
    using m at_a by (auto simp: colour_ok_def mark_ok_def remark_def)
  ultimately show ?thesis by (auto simp: mark_ok_def remark_def)
qed

lemma mark_ok_discharge:
  "mark_ok F (insert a S) s \<Longrightarrow> heap s a = Some ob \<Longrightarrow> node_ok F s a ob \<Longrightarrow> mark_ok F S s"
  unfolding mark_ok_def by (metis insertE option.inject)

lemma mark_ok_weaken: "mark_ok F S s \<Longrightarrow> S \<subseteq> S' \<Longrightarrow> mark_ok F S' s"
  by (auto simp: mark_ok_def)

lemma mk_remark:
  assumes "mk s s'" "heap s a = Some ob0" "iswhite (o_marked ob0)" "heap s' a = Some ob" "\<not> iswhite m"
    "weakbits m = weakbits (o_marked ob0)" "isblack (o_marked ob0) \<Longrightarrow> isblack m"
  shows "mk s (remark a ob m s')"
proof -
  have "o_body ob = o_body ob0" using mk_heap(2) [OF assms(1,2)] assms(4) by auto
  then have "obj_mk (heap s x) (heap (remark a ob m s') x)" for x
    using mk_obj [OF assms(1), of x] assms(2-) by (auto simp: remark_def obj_mk_def)
  moreover have "remark a ob m s' = s\<lparr>heap := heap (remark a ob m s'), gray := gray (remark a ob m s')\<rparr>"
    by (subst mk_eq [OF assms(1)]) (simp add: remark_def set_obj_def)
  ultimately show ?thesis using assms(1) by (intro mkI) (auto simp: mk_def remark_def)
qed

lemma mk_push:
  assumes "mk s s'" "a \<in> whites s"
  shows "mk s (s'\<lparr>gray := a # gray s'\<rparr>)"
proof -
  have "s'\<lparr>gray := a # gray s'\<rparr> = s\<lparr>heap := heap s', gray := a # gray s'\<rparr>" by (subst mk_eq [OF assms(1)]) simp
  then show ?thesis using assms by (intro mkI) (auto simp: mk_def)
qed

lemma white_not_listed:
  assumes "lists_ok s" "heap s a = Some ob" "iswhite (o_marked ob)"
  shows "a \<notin> set (gray s @ grayagain s @ weak s)"
proof
  assume "a \<in> set (gray s @ grayagain s @ weak s)"
  with assms(1) obtain ob' where "heap s a = Some ob'" "\<not> iswhite (o_marked ob')" by (rule listed)
  then show False using assms(2,3) by simp
qed

section \<open>Functions that mark\<close>

definition minv :: "flag set \<Rightarrow> ref set \<Rightarrow> gstate \<Rightarrow> bool" where
  "minv F S s \<longleftrightarrow> heap_ok s \<and> mark_ok F S s"

definition marks :: "flag set \<Rightarrow> ref set \<Rightarrow> gstate \<Rightarrow> gstate \<Rightarrow> bool" where
  "marks F S s s' \<longleftrightarrow> mk s s' \<and> minv F S s' \<and> work s' \<le> work s"

lemma marks_refl: "minv F S s \<Longrightarrow> marks F S s s"
  by (simp add: marks_def)

lemma marks_trans: "marks F S s s1 \<Longrightarrow> marks F S s1 s2 \<Longrightarrow> marks F S s s2"
  by (auto simp: marks_def intro: mk_trans)

lemma marks_inv: "marks F S s s' \<Longrightarrow> minv F S s'"
  by (simp add: marks_def)

lemma marks_nw: "marks F S s s' \<Longrightarrow> nw s r \<Longrightarrow> nw s' r"
  by (auto simp: marks_def intro: nw_mk)

lemma marks_obj_is: "marks F S s s' \<Longrightarrow> obj_is P s' r = obj_is P s r"
  by (simp add: marks_def)

text \<open>A function that marks white objects down to a rank.\<close>

locale marker =
  fixes n :: nat and rm :: "ref \<Rightarrow> gstate \<Rightarrow> gstate res"
  assumes rm_ok: "minv F S s \<Longrightarrow> heap s a = Some ob \<Longrightarrow> iswhite (o_marked ob) \<Longrightarrow> rank (o_body ob) \<le> n \<Longrightarrow>
    wpE (\<lambda>_. False) (\<lambda>s'. marks F S s s' \<and> nw s' a) (rm a s)"
begin

lemma mark_if_ok:
  assumes "minv F S s" "obj_is (\<lambda>b. rank b \<le> n) s a"
  shows "wpE (\<lambda>_. False) (\<lambda>s'. marks F S s s' \<and> nw s' a) (mark_if rm a s)"
proof -
  obtain ob where "heap s a = Some ob" "rank (o_body ob) \<le> n" using assms(2) by (auto simp: obj_is_def)
  then show ?thesis using assms(1) rm_ok marks_refl by (auto simp: mark_if_def get_obj_ok nw_def)
qed

lemma opt_mark_ok:
  "minv F S s \<Longrightarrow> (\<And>r. x = Some r \<Longrightarrow> obj_is (\<lambda>b. rank b \<le> n) s r) \<Longrightarrow>
   wpE (\<lambda>_. False) (\<lambda>s'. marks F S s s' \<and> (\<forall>r \<in> set_option x. nw s' r)) (opt (mark_if rm) x s)"
  by (cases x) (auto simp: opt_def marks_refl intro: wpE_mono [OF mark_if_ok])

lemma markv_if_ok:
  "minv F S s \<Longrightarrow> (\<And>r. gcref v = Some r \<Longrightarrow> obj_is (\<lambda>b. rank b \<le> n) s r) \<Longrightarrow>
   wpE (\<lambda>_. False) (\<lambda>s'. marks F S s s' \<and> (\<forall>r \<in> set_option (gcref v). nw s' r)) (markv_if rm v s)"
  unfolding markv_if_def by (rule opt_mark_ok)

end

lemma rank_pos: "0 < rank b"
  by (simp add: rank_def split: gbody.split)

lemma whites_finite: "heap_ok s \<Longrightarrow> finite (whites s)"
  by (rule finite_subset [of _ "dom (heap s)"]) (auto simp: whites_def heap_ok_def)

text \<open>The first step on a white object: it is gray and counted as being traversed.\<close>

lemma first_step:
  assumes "minv F S s" "heap s a = Some ob" "iswhite (o_marked ob)"
  defines "s1 \<equiv> remark a ob (white2gray (o_marked ob)) s"
  shows "minv F (insert a S) s1" "mk s s1" "work s1 + 1 = work s" "heap s1 a = Some (ob\<lparr>o_marked := white2gray (o_marked ob)\<rparr>)"
    "gray s1 = gray s" "a \<notin> set (gray s @ grayagain s @ weak s)" "\<not> isblack (o_marked ob)"
proof -
  have a: "a \<in> whites s" using assms(2,3) by (simp add: whites_def)
  show nl: "a \<notin> set (gray s @ grayagain s @ weak s)"
    using white_not_listed [OF _ assms(2,3)] assms(1) by (simp add: minv_def mark_ok_def)
  show "minv F (insert a S) s1"
    using assms(1) nl unfolding s1_def by (auto simp: minv_def heap_ok_remark [OF assms(2)] intro!: mark_ok_remark [OF assms(2)])
  show "mk s s1" unfolding s1_def by (rule mk_remark [OF mk_refl assms(2,3,2)]) auto
  have "finite (whites s)" using assms(1) by (simp add: minv_def whites_finite)
  then show "work s1 + 1 = work s"
    using a card_gt_0_iff [of "whites s"] unfolding s1_def by (auto simp: work_def whites_remark [OF assms(2)])
  show "heap s1 a = Some (ob\<lparr>o_marked := white2gray (o_marked ob)\<rparr>)" "gray s1 = gray s"
    by (simp_all add: s1_def remark_def)
  show "\<not> isblack (o_marked ob)" using assms(1-3) by (auto simp: minv_def mark_ok_def colour_ok_def)
qed

lemma minv_discharge: "minv F (insert a S) s \<Longrightarrow> heap s a = Some ob \<Longrightarrow> node_ok F s a ob \<Longrightarrow> minv F S s"
  by (auto simp: minv_def intro: mark_ok_discharge)

lemma minv_remark:
  "minv F S s \<Longrightarrow> heap s a = Some ob \<Longrightarrow> \<not> iswhite m \<Longrightarrow>
   minv F (insert a S) (remark a ob m s)"
  by (auto simp: minv_def heap_ok_remark intro: mark_ok_remark)

lemma heap_ok_gray [simp]: "heap_ok (s\<lparr>gray := g\<rparr>) = heap_ok s"
proof -
  have "succs (s\<lparr>gray := g\<rparr>) b = succs s b" for b
    by (auto simp: succs_def stack_slot_def split: gbody.splits upv.splits)
  then have "body_ok (s\<lparr>gray := g\<rparr>) b = body_ok s b" for b
    by (simp add: body_ok_def obj_is_def cong: gbody.case_cong upv.case_cong)
  then show ?thesis by (simp add: heap_ok_def)
qed

lemma minv_push:
  assumes "minv F (insert a S) s" "heap s a = Some ob" "isgray (o_marked ob)" "traversable (o_body ob)"
    "a \<notin> set (gray s @ grayagain s @ weak s)"
  shows "minv F S (s\<lparr>gray := a # gray s\<rparr>)"
proof -
  let ?s = "s\<lparr>gray := a # gray s\<rparr>"
  have "node_ok F ?s x obx" if "heap s x = Some obx" "x \<noteq> a" "x \<notin> S" for x obx
    by (rule node_ok_mono [where s = s and A = "{}"])
       (use assms(1) that in \<open>auto simp: minv_def mark_ok_def nw_def succs_def stack_slot_def split: gbody.splits upv.splits\<close>)
  moreover have "node_ok F ?s a ob"
    using assms(3,4) by (auto simp: node_ok_def isgray_def gray_ok_def traversable_def split: gbody.splits)
  moreover have "lists_ok ?s"
    using assms by (auto simp: minv_def mark_ok_def lists_ok_def obj_is_def isgray_def)
  ultimately show ?thesis using assms(1,2) by (fastforce simp: minv_def mark_ok_def colour_ok_def)
qed

lemma nw_remark_self: "heap s a = Some ob \<Longrightarrow> \<not> iswhite m \<Longrightarrow> nw (remark a ob m s) a"
  by (simp add: nw_def remark_def)

lemma uv_value_ok:
  assumes "heap_ok s" "heap s a = Some ob" "o_body ob = OUpVal u"
  obtains v where "uv_value u s = Inr v" "succs s (OUpVal u) = set_option (gcref v)"
    "\<And>r. gcref v = Some r \<Longrightarrow> obj_is (\<lambda>b. rank b \<le> 2) s r"
proof -
  have b: "body_ok s (OUpVal u)" using assms by (metis heap_ok_def)
  show ?thesis
  proof (cases u)
    case (UvClosed v)
    then show ?thesis using b that [of v] by (auto simp: uv_value_def succs_def refs_of_def body_ok_def child_rank_def)
  next
    case (UvOpen th i)
    then obtain obt gt st tp cis op where t: "heap s th = Some obt" "o_body obt = OThread gt st tp cis op" "i < tp" "tp \<le> length st"
      using b by (auto simp: body_ok_def obj_is_def has_slot_def)
    then show ?thesis
      using b UvOpen that [of "st ! i"]
      by (auto simp: uv_value_def get_obj_ok succs_def stack_slot_def refs_of_def body_ok_def child_rank_def)
  qed
qed

lemma not_listed:
  assumes "minv F S s" "heap s a = Some ob" "\<not> traversable (o_body ob)"
  shows "a \<notin> set (gray s @ grayagain s @ weak s)"
proof
  have "lists_ok s" using assms(1) by (simp add: minv_def mark_ok_def)
  moreover assume "a \<in> set (gray s @ grayagain s @ weak s)"
  ultimately obtain ob' where "heap s a = Some ob'" "traversable (o_body ob')" by (rule listed)
  then show False using assms(2,3) by simp
qed

lemma work_remark: "heap_ok s \<Longrightarrow> heap s a = Some ob \<Longrightarrow> \<not> iswhite m \<Longrightarrow> work (remark a ob m s) \<le> work s"
  using card_mono [OF whites_finite, of s "whites s - {a}"] by (auto simp: work_def whites_remark)

lemma marker_mono: "marker n rm \<Longrightarrow> m \<le> n \<Longrightarrow> marker m rm"
  unfolding marker_def by (meson order_trans)

lemma obj_is_mono: "obj_is P s r \<Longrightarrow> (\<And>b. P b \<Longrightarrow> Q b) \<Longrightarrow> obj_is Q s r"
  by (auto simp: obj_is_def)

lemma mark_userdata:
  assumes rm: "marker n rm" and s: "minv F S s" "heap s a = Some ob" "iswhite (o_marked ob)"
    and b: "o_body ob = OUserdata mt env" "1 \<le> n"
  defines "s1 \<equiv> remark a ob (white2gray (o_marked ob)) s"
  shows "wpE (\<lambda>_. False) (\<lambda>s'. marks F S s s' \<and> nw s' a)
    (bindE (upd_mark a gray2black s1) (\<lambda>s. bindE (opt (mark_if rm) mt s) (\<lambda>s. mark_if rm env s)))"
proof -
  note f = first_step [OF s, folded s1_def]
  let ?ob = "ob\<lparr>o_marked := gray2black (white2gray (o_marked ob))\<rparr>"
  define s2 where "s2 = remark a (ob\<lparr>o_marked := white2gray (o_marked ob)\<rparr>) (gray2black (white2gray (o_marked ob))) s1"
  have s2: "minv F (insert a S) s2" using minv_remark [OF f(1,4), of "gray2black (white2gray (o_marked ob))"] by (simp add: s2_def)
  have mk2: "mk s s2" unfolding s2_def by (rule mk_remark [OF f(2) s(2,3) f(4)]) auto
  have h2: "heap s2 a = Some ?ob" by (simp add: s2_def remark_def)
  have "heap_ok s1" using f(1) by (simp add: minv_def)
  then have w2: "work s2 \<le> work s"
    using work_remark [OF _ f(4), of "gray2black (white2gray (o_marked ob))"] f(3) by (simp add: s2_def)
  have "body_ok s2 (o_body ?ob)" using s2 h2 unfolding minv_def heap_ok_def by blast
  then have r: "obj_is (\<lambda>c. rank c \<le> n) s2 env" "\<And>t. mt = Some t \<Longrightarrow> obj_is (\<lambda>c. rank c \<le> n) s2 t"
    using b by (auto simp: body_ok_def succs_def refs_of_def child_rank_def intro: obj_is_mono)
  have st: "upd_mark a gray2black s1 = Inr s2" using upd_mark_ok [OF f(4)] by (simp add: s2_def)
  show ?thesis unfolding st bindE_Inr
  proof (rule wpE_bind [OF marker.opt_mark_ok [OF rm s2 r(2)]], assumption, elim conjE)
    fix s3 assume s3: "marks F (insert a S) s2 s3" "\<forall>r \<in> set_option mt. nw s3 r"
    show "wpE (\<lambda>_. False) (\<lambda>s'. marks F S s s' \<and> nw s' a) (mark_if rm env s3)"
    proof (rule wpE_mono [OF marker.mark_if_ok [OF rm marks_inv [OF s3(1)] r(1) [folded marks_obj_is [OF s3(1)]]]], elim conjE)
      fix s4 assume s4: "marks F (insert a S) s3 s4" "nw s4 env"
      have m: "marks F (insert a S) s2 s4" by (rule marks_trans [OF s3(1) s4(1)])
      then have h4: "heap s4 a = Some ?ob" using mk_heap(2) [OF _ h2, of s4] by (auto simp: marks_def)
      have "a \<notin> set (gray s4 @ grayagain s4 @ weak s4)"
        by (rule not_listed [OF marks_inv [OF m] h4]) (simp add: traversable_def b(1))
      then have "node_ok F s4 a ?ob"
        using b(1) s4(2) s3(2) marks_nw [OF s4(1)] by (auto simp: node_ok_def refs_of_def stays_gray_def is_open_def is_thread_def split: option.splits)
      then have "minv F S s4" by (rule minv_discharge [OF marks_inv [OF m] h4])
      then show "marks F S s s4 \<and> nw s4 a" using m mk2 w2 h4 by (auto simp: marks_def nw_def intro: mk_trans)
    qed
  qed
qed

lemma mark_upvalue:
  assumes rm: "marker n rm" and s: "minv F S s" "heap s a = Some ob" "iswhite (o_marked ob)"
    and b: "o_body ob = OUpVal u" "2 \<le> n"
  defines "s1 \<equiv> remark a ob (white2gray (o_marked ob)) s"
  shows "wpE (\<lambda>_. False) (\<lambda>s'. marks F S s s' \<and> nw s' a)
    (bindE (uv_value u s1) (\<lambda>v. bindE (markv_if rm v s1) (\<lambda>s.
       case u of UvClosed _ \<Rightarrow> upd_mark a gray2black s | UvOpen _ _ \<Rightarrow> Inr s)))"
proof -
  note f = first_step [OF s, folded s1_def]
  let ?m = "white2gray (o_marked ob)"
  have h1: "heap_ok s1" using f(1) by (simp add: minv_def)
  obtain v where v: "uv_value u s1 = Inr v" "succs s1 (OUpVal u) = set_option (gcref v)"
    "\<And>r. gcref v = Some r \<Longrightarrow> obj_is (\<lambda>b. rank b \<le> 2) s1 r"
    using uv_value_ok [OF h1 f(4)] b(1) by auto
  have r: "gcref v = Some r \<Longrightarrow> obj_is (\<lambda>b. rank b \<le> n) s1 r" for r
    using v(3) b(2) by (auto intro: obj_is_mono)
  show ?thesis unfolding v(1) bindE_Inr
  proof (rule wpE_bind [OF marker.markv_if_ok [OF rm f(1) r]], assumption, elim conjE)
    fix s2 assume s2: "marks F (insert a S) s1 s2" "\<forall>r \<in> set_option (gcref v). nw s2 r"
    have h2: "heap s2 a = Some (ob\<lparr>o_marked := ?m\<rparr>)" using mk_heap(2) [OF _ f(4), of s2] s2(1) by (auto simp: marks_def)
    have mk2: "mk s s2" using f(2) s2(1) by (auto simp: marks_def intro: mk_trans)
    have w2: "work s2 \<le> work s" using s2(1) f(3) by (simp add: marks_def)
    have nl: "a \<notin> set (grayagain s2 @ weak s2)" using f(6) mk2 by simp
    have "succs s2 (OUpVal u) = succs s1 (OUpVal u)" by (rule succs_mk) (use s2(1) in \<open>simp add: marks_def\<close>)
    then have nw2: "\<forall>r \<in> succs s2 (OUpVal u). nw s2 r" using s2(2) v(2) by simp
    show "wpE (\<lambda>_. False) (\<lambda>s'. marks F S s s' \<and> nw s' a)
      (case u of UvClosed _ \<Rightarrow> upd_mark a gray2black s2 | UvOpen _ _ \<Rightarrow> Inr s2)"
    proof (cases u)
      case (UvOpen th i)
      then have "node_ok F s2 a (ob\<lparr>o_marked := ?m\<rparr>)"
        using nw2 b(1) f(7) by (auto simp: node_ok_def gray_ok_def)
      then have "minv F S s2" by (rule minv_discharge [OF marks_inv [OF s2(1)] h2])
      then show ?thesis using UvOpen mk2 w2 h2 by (auto simp: marks_def nw_def)
    next
      case (UvClosed w)
      define s3 where "s3 = remark a (ob\<lparr>o_marked := ?m\<rparr>) (gray2black ?m) s2"
      have s3: "minv F (insert a S) s3"
        using minv_remark [OF marks_inv [OF s2(1)] h2, of "gray2black ?m"] by (simp add: s3_def)
      moreover have h3: "heap s3 a = Some (ob\<lparr>o_marked := gray2black ?m\<rparr>)" by (simp add: s3_def remark_def)
      moreover have "a \<notin> set (gray s3 @ grayagain s3 @ weak s3)"
        by (rule not_listed [OF s3 h3]) (simp add: traversable_def b(1))
      ultimately have "node_ok F s3 a (ob\<lparr>o_marked := gray2black ?m\<rparr>)"
        using nw2 b(1) UvClosed nw_remark [OF h2, of "gray2black ?m"]
        by (auto simp: node_ok_def stays_gray_def is_open_def is_thread_def s3_def succs_def)
      then have "minv F S s3" by (rule minv_discharge [OF s3 h3])
      moreover have "mk s s3" unfolding s3_def by (rule mk_remark [OF mk2 s(2,3) h2]) auto
      moreover have "work s3 \<le> work s"
        using work_remark [OF _ h2, of "gray2black ?m"] w2 s2(1) by (simp add: s3_def marks_def minv_def)
      ultimately show ?thesis using UvClosed h3 upd_mark_ok [OF h2, of gray2black] by (simp add: marks_def nw_def s3_def)
    qed
  qed
qed

lemma marker_reallymarkobject: "marker n (reallymarkobject n)"
proof (induction n)
  case 0
  show ?case by unfold_locales (metis le_zero_eq less_numeral_extra(3) rank_pos)
next
  case (Suc n)
  show ?case
  proof
    fix F S s a ob
    assume s: "minv F S s" "heap s a = Some ob" "iswhite (o_marked ob)" and rk: "rank (o_body ob) \<le> Suc n"
    define s1 where "s1 = remark a ob (white2gray (o_marked ob)) s"
    note f = first_step [OF s, folded s1_def]
    have start: "reallymarkobject (Suc n) a s =
       (case o_body ob of
         OString _ \<Rightarrow> Inr s1
       | OUserdata mt env \<Rightarrow>
           bindE (upd_mark a gray2black s1) (\<lambda>s.
           bindE (opt (mark_if (reallymarkobject n)) mt s) (\<lambda>s.
             mark_if (reallymarkobject n) env s))
       | OUpVal u \<Rightarrow>
           bindE (uv_value u s1) (\<lambda>v.
           bindE (markv_if (reallymarkobject n) v s1) (\<lambda>s.
             case u of UvClosed _ \<Rightarrow> upd_mark a gray2black s | UvOpen _ _ \<Rightarrow> Inr s))
       | _ \<Rightarrow> Inr (s1\<lparr>gray := a # gray s1\<rparr>))"
      using upd_mark_ok [OF s(2), of white2gray, folded s1_def] get_obj_ok [OF f(4)] by (simp split: gbody.split)
    have nl: "a \<notin> set (gray s1 @ grayagain s1 @ weak s1)" using f(6) by (simp add: s1_def)
    consider "is_string (o_body ob)" | mt env where "o_body ob = OUserdata mt env" | u where "o_body ob = OUpVal u"
      | "traversable (o_body ob)" by (cases "o_body ob") (auto simp: traversable_def is_string_def)
    then show "wpE (\<lambda>_. False) (\<lambda>s'. marks F S s s' \<and> nw s' a) (reallymarkobject (Suc n) a s)"
    proof cases
      case 1
      then have "node_ok F s1 a (ob\<lparr>o_marked := white2gray (o_marked ob)\<rparr>)"
        using f(7) by (auto simp: node_ok_def gray_ok_def is_string_def split: gbody.splits)
      then have "minv F S s1" by (rule minv_discharge [OF f(1,4)])
      then show ?thesis using 1 start f by (auto simp: marks_def nw_def is_string_def split: gbody.splits)
    next
      case 2
      then show ?thesis
        using mark_userdata [OF Suc s 2] rk start by (simp add: s1_def rank_def)
    next
      case 3
      then show ?thesis using mark_upvalue [OF Suc s 3] rk start by (simp add: s1_def rank_def)
    next
      case 4
      have "minv F S (s1\<lparr>gray := a # gray s1\<rparr>)"
        by (rule minv_push [OF f(1,4)]) (use 4 f(7) nl in \<open>auto simp: isgray_def\<close>)
      moreover have "work (s1\<lparr>gray := a # gray s1\<rparr>) = work s" using f(3) by (simp add: work_def whites_def)
      moreover have "reallymarkobject (Suc n) a s = Inr (s1\<lparr>gray := a # gray s1\<rparr>)"
        using 4 start by (auto simp: traversable_def split: gbody.splits)
      ultimately show ?thesis using mk_push [OF f(2), of a] f(4) s(2,3) by (simp add: marks_def nw_def whites_def)
    qed
  qed
qed

interpretation mark: marker MARKDEPTH "reallymarkobject MARKDEPTH"
  by (rule marker_reallymarkobject)

end
