(* ===== verification/LuaGCStep.thy ===== *)
theory LuaGCStep
  imports LuaGCMark
begin

text \<open>
  Propagation: one gray object is traversed (\<open>propagatemark\<close>), which keeps the invariant of marking and
  leaves less to be done, so \<open>propagateall\<close> ends.
\<close>

section \<open>Marking values and lists of values\<close>

definition alloc :: "gstate \<Rightarrow> ref \<Rightarrow> bool" where "alloc s r \<longleftrightarrow> heap s r \<noteq> None"

lemma rank_le: "rank b \<le> MARKDEPTH"
  by (simp add: rank_def MARKDEPTH_def split: gbody.split)

lemma alloc_obj_is: "alloc s r \<longleftrightarrow> obj_is (\<lambda>b. rank b \<le> MARKDEPTH) s r"
  by (auto simp: alloc_def obj_is_def rank_le)

lemma obj_is_alloc: "obj_is P s r \<Longrightarrow> alloc s r"
  by (auto simp: alloc_def obj_is_def)

lemma marks_alloc: "marks F S s s' \<Longrightarrow> alloc s' r = alloc s r"
  by (simp add: alloc_obj_is marks_obj_is)

abbreviation marked :: "flag set \<Rightarrow> ref set \<Rightarrow> gstate \<Rightarrow> ref set \<Rightarrow> gstate res \<Rightarrow> bool" where
  "marked F S s R m \<equiv> wpE (\<lambda>_. False) (\<lambda>s'. marks F S s s' \<and> (\<forall>r \<in> R. nw s' r)) m"

lemma markobject_ok: "minv F S s \<Longrightarrow> alloc s a \<Longrightarrow> marked F S s {a} (markobject a s)"
  using mark.mark_if_ok by (simp add: markobject_def alloc_obj_is)

lemma markvalue_ok: "minv F S s \<Longrightarrow> \<forall>r \<in> vrefs [v]. alloc s r \<Longrightarrow> marked F S s (vrefs [v]) (markvalue v s)"
  using mark.markv_if_ok by (simp add: markvalue_def alloc_obj_is)

lemma opt_markobject_ok: "minv F S s \<Longrightarrow> \<forall>r \<in> set_option x. alloc s r \<Longrightarrow> marked F S s (set_option x) (opt markobject x s)"
  using mark.opt_mark_ok by (simp add: markobject_def alloc_obj_is)

lemma marked_bind:
  assumes "marked F S s R m" "\<And>s'. marks F S s s' \<Longrightarrow> \<forall>r \<in> R. nw s' r \<Longrightarrow> marked F S s' R' (f s')"
  shows "marked F S s (R \<union> R') (bindE m f)"
  by (rule wpE_bind [OF assms(1)]) (auto intro!: wpE_mono [OF assms(2)] intro: marks_trans marks_nw)

lemma marked_foldE:
  assumes "minv F S s" "\<forall>x \<in> set xs. C s x"
    and f: "\<And>s x. minv F S s \<Longrightarrow> C s x \<Longrightarrow> marked F S s (R x) (f x s)"
    and stable: "\<And>s s' x. marks F S s s' \<Longrightarrow> C s x \<Longrightarrow> C s' x"
  shows "marked F S s (\<Union>x \<in> set xs. R x) (foldE f xs s)"
  using assms(1,2)
proof (induction xs arbitrary: s)
  case (Cons x xs)
  have "marked F S s (R x \<union> (\<Union>y \<in> set xs. R y)) (bindE (f x s) (foldE f xs))"
  proof (rule marked_bind [OF f])
    fix s' assume s': "marks F S s s'"
    show "marked F S s' (\<Union>y \<in> set xs. R y) (foldE f xs s')"
      by (rule Cons.IH [OF marks_inv [OF s']]) (use Cons.prems(2) stable [OF s'] in auto)
  qed (use Cons.prems in auto)
  then show ?case by simp
qed (simp add: marks_refl)

lemma markvalues_ok:
  assumes "minv F S s" "\<forall>r \<in> vrefs vs. alloc s r"
  shows "marked F S s (vrefs vs) (foldE markvalue vs s)"
proof -
  have "marked F S s (\<Union>v \<in> set vs. vrefs [v]) (foldE markvalue vs s)"
    by (rule marked_foldE [where C = "\<lambda>s v. \<forall>r \<in> vrefs [v]. alloc s r", OF assms(1) _ markvalue_ok])
       (use assms(2) in \<open>auto simp: vrefs_def marks_alloc\<close>)
  moreover have "(\<Union>v \<in> set vs. vrefs [v]) = vrefs vs" by (auto simp: vrefs_def)
  ultimately show ?thesis by (simp only:)
qed

lemma markobjects_ok:
  assumes "minv F S s" "\<forall>r \<in> set rs. alloc s r"
  shows "marked F S s (set rs) (foldE markobject rs s)"
  using marked_foldE [where C = alloc and R = "\<lambda>r. {r}", OF assms markobject_ok] by (simp add: marks_alloc)

lemma opt_markobjects_ok:
  assumes "minv F S s" "\<forall>x \<in> set xs. \<forall>r \<in> set_option x. alloc s r"
  shows "marked F S s (\<Union>x \<in> set xs. set_option x) (foldE (opt markobject) xs s)"
  by (rule marked_foldE [where C = "\<lambda>s x. \<forall>r \<in> set_option x. alloc s r", OF assms opt_markobject_ok])
     (auto simp: marks_alloc)

text \<open>Strings become gray and stay so.\<close>

lemma white2gray_id: "\<not> iswhite m \<Longrightarrow> white2gray m = m"
  by (rule bit_word_eqI) (auto simp: white2gray_def iswhite_bits bit_simps bit_WHITEBITS not_less [symmetric] dest: less_2_cases)

lemma stringmark_ok:
  assumes "minv F S s" "obj_is is_string s a"
  shows "marked F S s {a} (stringmark a s)"
proof -
  obtain ob where ob: "heap s a = Some ob" "is_string (o_body ob)" using assms(2) by (auto simp: obj_is_def)
  show ?thesis
  proof (cases "iswhite (o_marked ob)")
    case True
    then have "wpE (\<lambda>_. False) (\<lambda>s'. marks F S s s' \<and> nw s' a) (reallymarkobject 1 a s)"
      using marker.rm_ok [OF marker_reallymarkobject, of F S s a ob 1] assms(1) ob
      by (simp add: rank_def is_string_def split: gbody.splits)
    moreover have "reallymarkobject 1 a s = stringmark a s"
      using ob by (simp add: stringmark_def upd_mark_ok get_obj_ok remark_def is_string_def split: gbody.splits)
    ultimately show ?thesis by simp
  next
    case False
    then have "stringmark a s = Inr s" using ob(1)
      by (simp add: stringmark_def upd_mark_ok white2gray_id remark_def set_obj_def fun_upd_idem)
    then show ?thesis using False assms(1) ob(1) by (simp add: marks_refl nw_def)
  qed
qed

lemma opt_stringmark_ok:
  "minv F S s \<Longrightarrow> \<forall>r \<in> set_option x. obj_is is_string s r \<Longrightarrow> marked F S s (set_option x) (opt stringmark x s)"
  using stringmark_ok by (cases x) (auto simp: opt_def marks_refl)

lemma opt_stringmarks_ok:
  assumes "minv F S s" "\<forall>x \<in> set xs. \<forall>r \<in> set_option x. obj_is is_string s r"
  shows "marked F S s (\<Union>x \<in> set xs. set_option x) (foldE (opt stringmark) xs s)"
  by (rule marked_foldE [where C = "\<lambda>s x. \<forall>r \<in> set_option x. obj_is is_string s r", OF assms opt_stringmark_ok])
     (auto simp: marks_obj_is)

section \<open>Objects that only lose references\<close>

text \<open>
  Traversal removes the keys of empty entries of tables and clears what lies above the top of a stack;
  clearing weak tables removes entries. The kind of an object, and the part of a stack in use, stay.
\<close>

definition lost_value :: "gval \<Rightarrow> gval \<Rightarrow> bool" where "lost_value v v' \<longleftrightarrow> v' = v \<or> v' = VNil"

definition lost_entry :: "gval \<times> gval \<Rightarrow> gval \<times> gval \<Rightarrow> bool" where
  "lost_entry n n' \<longleftrightarrow> n' = n \<or> n' = removeentry (fst n, VNil)"

definition sim :: "gbody \<Rightarrow> gbody \<Rightarrow> bool" where
  "sim b b' \<longleftrightarrow>
     b' = b \<or>
     (\<exists>mt arr node arr' node'. b = OTable mt arr node \<and> b' = OTable mt arr' node' \<and>
        list_all2 lost_value arr arr' \<and> list_all2 lost_entry node node') \<or>
     (\<exists>gt st tp cis op st'. b = OThread gt st tp cis op \<and> b' = OThread gt st' tp cis op \<and>
        length st' = length st \<and> take tp st' = take tp st)"

lemma sim_refl [simp]: "sim b b"
  by (simp add: sim_def)

lemma lost_trans: "lost_value x y \<Longrightarrow> lost_value y z \<Longrightarrow> lost_value x z"
  by (auto simp: lost_value_def)

lemma lost_entry_trans: "lost_entry x y \<Longrightarrow> lost_entry y z \<Longrightarrow> lost_entry x z"
  by (auto simp: lost_entry_def removeentry_def split: option.splits)

lemma lost_refl: "list_all2 lost_value arr arr" "list_all2 lost_entry node node"
  by (auto simp: lost_value_def lost_entry_def intro: list_all2_refl)

lemma sim_table: "sim (OTable mt arr node) d \<longleftrightarrow>
    (\<exists>arr' node'. d = OTable mt arr' node' \<and> list_all2 lost_value arr arr' \<and> list_all2 lost_entry node node')"
  using lost_refl by (auto simp: sim_def)

lemma sim_thread: "sim (OThread gt st tp cis op) d \<longleftrightarrow>
    (\<exists>st'. d = OThread gt st' tp cis op \<and> length st' = length st \<and> take tp st' = take tp st)"
  by (auto simp: sim_def)

lemma sim_trans: "sim b c \<Longrightarrow> sim c d \<Longrightarrow> sim b d"
proof (cases b)
  case (OTable mt arr node)
  assume s: "sim b c" "sim c d"
  obtain arr1 node1 where 1: "c = OTable mt arr1 node1" "list_all2 lost_value arr arr1" "list_all2 lost_entry node node1"
    using s(1) OTable by (auto simp: sim_table)
  obtain arr2 node2 where 2: "d = OTable mt arr2 node2" "list_all2 lost_value arr1 arr2" "list_all2 lost_entry node1 node2"
    using s(2) 1(1) by (auto simp: sim_table)
  show ?thesis unfolding OTable 2(1) sim_table
    using list_all2_trans [OF lost_trans 1(2) 2(2)] list_all2_trans [OF lost_entry_trans 1(3) 2(3)] by auto
next
  case (OThread gt st tp cis op)
  assume "sim b c" "sim c d"
  then show ?thesis using OThread by (auto simp: sim_thread)
qed (auto simp: sim_def)

lemma lost_refs: "list_all2 lost_value vs vs' \<Longrightarrow> vrefs vs' \<subseteq> vrefs vs"
  by (induction rule: list_all2_induct) (auto simp: lost_value_def)

lemma lost_entry_refs:
  "list_all2 lost_entry node node' \<Longrightarrow>
   vrefs (concat (map (\<lambda>(k, v). if v = VNil then [] else [k, v]) node'))
     \<subseteq> vrefs (concat (map (\<lambda>(k, v). if v = VNil then [] else [k, v]) node))"
proof (induction rule: list_all2_induct)
  case (Cons n ns n' ns')
  have "n' = n \<or> snd n' = VNil" using Cons(1) by (auto simp: lost_entry_def removeentry_def split: option.splits)
  then show ?case using Cons(3) by (cases n; cases n') (auto split: if_splits)
qed simp

lemma sim_kinds:
  assumes "sim b b'"
  shows "rank b' = rank b" "is_table b' = is_table b" "is_string b' = is_string b" "traversable b' = traversable b"
    "child_rank b' = child_rank b" "has_slot i b' = has_slot i b" "is_open b' = is_open b" "is_thread b' = is_thread b"
  using assms by (auto simp: is_thread_def sim_def rank_def is_table_def is_string_def traversable_def child_rank_def has_slot_def is_open_def)

lemma sim_refs: "sim b b' \<Longrightarrow> vrefs (refs_of b') \<subseteq> vrefs (refs_of b)"
proof -
  assume s: "sim b b'"
  have t: "vrefs (refs_of (OTable mt arr' node')) \<subseteq> vrefs (refs_of (OTable mt arr node))"
    if "list_all2 lost_value arr arr'" "list_all2 lost_entry node node'" for mt arr arr' node node'
    using lost_refs [OF that(1)] lost_entry_refs [OF that(2)] by (simp only: refs_of_def gbody.case vrefs_simps(3)) blast
  consider "b' = b" | mt arr node arr' node' where "b = OTable mt arr node" "b' = OTable mt arr' node'"
      "list_all2 lost_value arr arr'" "list_all2 lost_entry node node'"
    | gt st tp cis op st' where "b = OThread gt st tp cis op" "b' = OThread gt st' tp cis op" "take tp st' = take tp st"
    using s unfolding sim_def by blast
  then show ?thesis by cases (use t in \<open>auto simp: refs_of_def simp del: vrefs_simps\<close>)
qed

lemma sim_succs: "sim b b' \<Longrightarrow> succs s b' \<subseteq> succs s b"
proof -
  assume "sim b b'"
  from sim_refs [OF this] show ?thesis
    using \<open>sim b b'\<close> unfolding succs_def sim_def by (auto split: gbody.splits upv.splits)
qed

definition change :: "ref \<Rightarrow> gcobj \<Rightarrow> gbody \<Rightarrow> gstate \<Rightarrow> gstate" where
  "change a ob b s = set_obj a (ob\<lparr>o_body := b\<rparr>) s"

lemma set_body_ok: "heap s a = Some ob \<Longrightarrow> set_body a b s = Inr (change a ob b s)"
  by (simp add: set_body_def get_obj_def change_def)

lemma change_lists [simp]:
  "gray (change a ob b s) = gray s" "grayagain (change a ob b s) = grayagain s" "weak (change a ob b s) = weak s"
  "g_white (change a ob b s) = g_white s" "tmudata (change a ob b s) = tmudata s"
  "heap (change a ob b s) = (heap s)(a \<mapsto> ob\<lparr>o_body := b\<rparr>)"
  by (simp_all add: change_def)

lemma nw_change: "heap s a = Some ob \<Longrightarrow> sim (o_body ob) b \<Longrightarrow> nw (change a ob b s) r = nw s r"
  by (auto simp: nw_def)

lemma obj_is_change:
  "heap s a = Some ob \<Longrightarrow> sim (o_body ob) b \<Longrightarrow> (\<And>b b'. sim b b' \<Longrightarrow> P b' = P b) \<Longrightarrow>
   obj_is P (change a ob b s) r = obj_is P s r"
  by (auto simp: obj_is_def)

lemma slot_change:
  assumes "heap s a = Some ob" "sim (o_body ob) b" "obj_is (has_slot i) s th"
  shows "stack_slot (change a ob b s) th i = stack_slot s th i"
  using assms by (auto simp: stack_slot_def sim_def obj_is_def has_slot_def split: gbody.splits) (metis nth_take)+

lemma succs_change:
  assumes "heap s a = Some ob" "sim (o_body ob) b" "body_ok s c"
  shows "succs (change a ob b s) c = succs s c"
  using assms(3) by (auto simp: succs_def body_ok_def slot_change [OF assms(1,2)] split: gbody.splits upv.splits)

lemma obj_kinds_change:
  assumes "heap s a = Some ob" "sim (o_body ob) b"
  shows "obj_is (\<lambda>c. rank c \<le> k) (change a ob b s) = obj_is (\<lambda>c. rank c \<le> k) s"
    "obj_is is_table (change a ob b s) = obj_is is_table s" "obj_is is_string (change a ob b s) = obj_is is_string s"
    "obj_is (has_slot i) (change a ob b s) = obj_is (has_slot i) s"
  by (auto simp: fun_eq_iff sim_kinds intro!: obj_is_change [OF assms])

lemma body_ok_change:
  assumes "heap s a = Some ob" "sim (o_body ob) b" "body_ok s c"
  shows "body_ok (change a ob b s) c"
  using assms(3) succs_change [OF assms] unfolding body_ok_def obj_kinds_change [OF assms(1,2)]
  by (simp cong: gbody.case_cong upv.case_cong)

lemma body_ok_sim: "sim b b' \<Longrightarrow> body_ok s b \<Longrightarrow> body_ok s b'"
  using sim_succs [of b b' s] sim_kinds(5) [of b b'] by (auto simp: sim_def body_ok_def)

lemma minv_change:
  assumes at_a: "heap s a = Some ob" and sim: "sim (o_body ob) b" and m: "minv F S s" "a \<in> S"
  shows "minv F S (change a ob b s)"
proof -
  have ok: "body_ok s (o_body obx)" if "heap s x = Some obx" for x obx
    using m(1) that by (auto simp: minv_def heap_ok_def)
  have "body_ok s b" by (rule body_ok_sim [OF sim]) (rule ok [OF at_a])
  then have "heap_ok (change a ob b s)"
    using ok body_ok_change [OF at_a sim] m(1) by (auto simp: heap_ok_def minv_def)
  moreover have "node_ok F (change a ob b s) x obx" if "heap s x = Some obx" "x \<notin> S" for x obx
    by (rule node_ok_mono [where A = "{}" and s = s])
       (use m that in \<open>auto simp: minv_def mark_ok_def nw_change [OF at_a sim] succs_change [OF at_a sim ok [OF that(1)]]\<close>)
  moreover have "lists_ok (change a ob b s)"
  proof -
    have l: "lists_ok s" using m(1) by (simp add: minv_def mark_ok_def)
    have g: "\<exists>ob'. heap (change a ob b s) x = Some ob' \<and> \<not> iswhite (o_marked ob') \<and> traversable (o_body ob')"
      if "x \<in> set (gray s @ grayagain s @ weak s)" for x
      by (rule listed [OF l that]) (use at_a sim_kinds(4) [OF sim] in \<open>cases "x = a", auto\<close>)
    show ?thesis unfolding lists_ok_def change_lists(1-3) obj_kinds_change [OF at_a sim]
      by (intro conjI ballI g) (use l in \<open>simp_all add: lists_ok_def\<close>)
  qed
  ultimately show ?thesis using m at_a by (auto simp: minv_def mark_ok_def colour_ok_def split: if_splits)
qed

lemma work_change: "heap s a = Some ob \<Longrightarrow> sim (o_body ob) b \<Longrightarrow> work (change a ob b s) = work s"
proof -
  assume "heap s a = Some ob"
  then have "whites (change a ob b s) = whites s" by (auto simp: whites_def)
  then show ?thesis by (simp add: work_def)
qed

section \<open>How the heap evolves\<close>

definition evolves :: "gstate \<Rightarrow> gstate \<Rightarrow> bool" where
  "evolves s s' \<longleftrightarrow>
     (\<exists>h g ga w. s' = s\<lparr>heap := h, gray := g, grayagain := ga, weak := w\<rparr>) \<and>
     (\<forall>a. case heap s a of
            None \<Rightarrow> heap s' a = None
          | Some ob \<Rightarrow> \<exists>ob'. heap s' a = Some ob' \<and> sim (o_body ob) (o_body ob') \<and> (iswhite (o_marked ob') \<longrightarrow> iswhite (o_marked ob)))"

lemma evolvesI:
  assumes "s' = s\<lparr>heap := heap s', gray := gray s', grayagain := grayagain s', weak := weak s'\<rparr>"
    "\<And>a. heap s a = None \<Longrightarrow> heap s' a = None"
    "\<And>a ob. heap s a = Some ob \<Longrightarrow>
       \<exists>ob'. heap s' a = Some ob' \<and> sim (o_body ob) (o_body ob') \<and> (iswhite (o_marked ob') \<longrightarrow> iswhite (o_marked ob))"
  shows "evolves s s'"
proof -
  have "\<exists>h g ga w. s' = s\<lparr>heap := h, gray := g, grayagain := ga, weak := w\<rparr>" using assms(1) by blast
  then show ?thesis using assms(2,3) by (simp add: evolves_def split: option.split)
qed

lemma evolves_eq: "evolves s s' \<Longrightarrow> s' = s\<lparr>heap := heap s', gray := gray s', grayagain := grayagain s', weak := weak s'\<rparr>"
  by (auto simp: evolves_def)

lemma evolves_heap:
  assumes "evolves s s'"
  shows "heap s a = None \<Longrightarrow> heap s' a = None"
    and "heap s a = Some ob \<Longrightarrow>
      \<exists>ob'. heap s' a = Some ob' \<and> sim (o_body ob) (o_body ob') \<and> (iswhite (o_marked ob') \<longrightarrow> iswhite (o_marked ob))"
proof -
  have c: "case heap s a of None \<Rightarrow> heap s' a = None
    | Some ob \<Rightarrow> \<exists>ob'. heap s' a = Some ob' \<and> sim (o_body ob) (o_body ob') \<and> (iswhite (o_marked ob') \<longrightarrow> iswhite (o_marked ob))"
    using assms unfolding evolves_def by blast
  show "heap s a = None \<Longrightarrow> heap s' a = None" using c by simp
  show "heap s a = Some ob \<Longrightarrow>
      \<exists>ob'. heap s' a = Some ob' \<and> sim (o_body ob) (o_body ob') \<and> (iswhite (o_marked ob') \<longrightarrow> iswhite (o_marked ob))"
    using c by simp
qed

lemma evolves_refl [simp]: "evolves s s"
  by (rule evolvesI) auto

lemma evolves_trans: "evolves s s1 \<Longrightarrow> evolves s1 s2 \<Longrightarrow> evolves s s2"
proof (rule evolvesI)
  assume e: "evolves s s1" "evolves s1 s2"
  show "s2 = s\<lparr>heap := heap s2, gray := gray s2, grayagain := grayagain s2, weak := weak s2\<rparr>"
    by (subst evolves_eq [OF e(2)], subst evolves_eq [OF e(1)]) simp
  show "heap s a = None \<Longrightarrow> heap s2 a = None" for a using evolves_heap(1) e by blast
  show "\<exists>ob'. heap s2 a = Some ob' \<and> sim (o_body ob) (o_body ob') \<and> (iswhite (o_marked ob') \<longrightarrow> iswhite (o_marked ob))"
    if "heap s a = Some ob" for a ob
    using evolves_heap(2) [OF e(1) that] evolves_heap(2) [OF e(2), of a] sim_trans by blast
qed

lemma evolves_mk: "mk s s' \<Longrightarrow> evolves s s'"
proof (rule evolvesI)
  assume m: "mk s s'"
  show "s' = s\<lparr>heap := heap s', gray := gray s', grayagain := grayagain s', weak := weak s'\<rparr>"
    by (subst mk_eq [OF m]) (simp add: m)
  show "heap s a = None \<Longrightarrow> heap s' a = None" for a using mk_heap(1) [OF m] .
  show "\<exists>ob'. heap s' a = Some ob' \<and> sim (o_body ob) (o_body ob') \<and> (iswhite (o_marked ob') \<longrightarrow> iswhite (o_marked ob))"
    if "heap s a = Some ob" for a ob using mk_obj [OF m, of a] that by (auto simp: obj_mk_def)
qed

lemma evolves_marks: "marks F S s s' \<Longrightarrow> evolves s s'"
  by (simp add: marks_def evolves_mk)

lemma evolves_remark: "heap s a = Some ob \<Longrightarrow> \<not> iswhite m \<Longrightarrow> evolves s (remark a ob m s)"
  by (rule evolvesI) (auto simp: remark_def set_obj_def)

lemma evolves_change: "heap s a = Some ob \<Longrightarrow> sim (o_body ob) b \<Longrightarrow> evolves s (change a ob b s)"
  by (rule evolvesI) (auto simp: change_def set_obj_def)

lemma evolves_lists: "evolves s (s\<lparr>gray := g, grayagain := ga, weak := w\<rparr>)"
  by (rule evolvesI) auto

lemma evolves_nw: "evolves s s' \<Longrightarrow> nw s r \<Longrightarrow> nw s' r"
  using evolves_heap(2) by (fastforce simp: nw_def)

lemma evolves_obj_is: "evolves s s' \<Longrightarrow> obj_is P s r \<Longrightarrow> (\<And>b b'. sim b b' \<Longrightarrow> P b \<Longrightarrow> P b') \<Longrightarrow> obj_is P s' r"
  using evolves_heap(2) by (fastforce simp: obj_is_def)

lemma evolves_alloc: "evolves s s' \<Longrightarrow> alloc s r \<Longrightarrow> alloc s' r"
  by (metis alloc_obj_is evolves_obj_is sim_kinds(1))

section \<open>Moving an object between the lists\<close>

lemma relist:
  assumes m: "minv F S s" and a: "a \<in> S" "heap s a = Some ob" "\<not> iswhite (o_marked ob)" "traversable (o_body ob)"
    and s': "s' = s\<lparr>gray := g, grayagain := ga, weak := w\<rparr>"
    and sub: "set (gray s) - {a} \<subseteq> set g" "set (grayagain s) \<subseteq> set ga" "set (weak s) \<subseteq> set w"
    and new: "set (g @ ga @ w) \<subseteq> insert a (set (gray s @ grayagain s @ weak s))" "distinct (g @ ga @ w)"
    and w: "set w \<subseteq> set (weak s) \<or> is_table (o_body ob) \<and> set w \<subseteq> insert a (set (weak s))"
  shows "minv F S s'"
proof -
  have e: "obj_is P s' = obj_is P s" "stack_slot s' = stack_slot s" "heap s' = heap s" "nw s' = nw s" for P
    by (auto simp: s' obj_is_def stack_slot_def nw_def fun_eq_iff)
  have f: "gray s' = g" "grayagain s' = ga" "weak s' = w" "g_white s' = g_white s" by (simp_all add: s')
  have su: "succs s' b = succs s b" for b unfolding succs_def e(2) by (rule refl)
  then have "body_ok s' b = body_ok s b" for b by (simp add: body_ok_def e cong: gbody.case_cong upv.case_cong)
  then have h: "heap_ok s'" using m by (simp add: minv_def heap_ok_def e)
  have "node_ok F s' x obx" if "heap s x = Some obx" "x \<notin> S" for x obx
    by (rule node_ok_mono [where A = "{a}" and s = s])
       (use m that a sub new in \<open>auto simp: minv_def mark_ok_def e su f\<close>)
  moreover have "lists_ok s'"
  proof -
    have l: "lists_ok s" using m by (simp add: minv_def mark_ok_def)
    have "\<exists>ob. heap s' x = Some ob \<and> \<not> iswhite (o_marked ob) \<and> traversable (o_body ob)"
      if "x \<in> set (gray s' @ grayagain s' @ weak s')" for x
    proof (cases "x = a")
      case False
      then have "x \<in> set (gray s @ grayagain s @ weak s)" using that new(1) by (auto simp: f)
      then show ?thesis using listed [OF l] e(3) by metis
    qed (use a e(3) in auto)
    moreover have "obj_is is_table s x" if "x \<in> set w" for x
      using l w that a(2) by (auto simp: lists_ok_def obj_is_def)
    ultimately show ?thesis using new(2) by (simp add: lists_ok_def e f)
  qed
  moreover have "colour_ok s'" using m by (simp add: minv_def mark_ok_def colour_ok_def e f)
  ultimately show ?thesis using h by (auto simp: minv_def mark_ok_def e)
qed

end
