(* ===== verification/LuaGCProp.thy ===== *)
theory LuaGCProp
  imports LuaGCStep
begin

text \<open>
  One step of propagation: each kind of gray object is traversed, and all that it refers to is marked,
  except what a weak table holds weakly. The list of gray objects is worked off.
\<close>

lemma body_at: "minv F S s \<Longrightarrow> heap s a = Some ob \<Longrightarrow> body_ok s (o_body ob)"
  unfolding minv_def heap_ok_def by blast

section \<open>Tables\<close>

lemma entry_refs: "(k, v) \<in> set node \<Longrightarrow> v \<noteq> VNil \<Longrightarrow> vrefs [k, v] \<subseteq> vrefs (refs_of (OTable mt arr node))"
  by (fastforce simp: refs_of_def)

lemma is_table_iff: "is_table b \<longleftrightarrow> (\<exists>mt arr node. b = OTable mt arr node)"
  by (cases b) (auto simp: is_table_def)

lemma fasttm_ok:
  assumes "heap_ok s" "\<forall>t \<in> set_option mt. obj_is is_table s t"
  obtains r where "fasttm mt name s = Inr r" "\<forall>v. r = Some v \<longrightarrow> v \<noteq> VNil \<and> (\<forall>x \<in> vrefs [v]. alloc s x)"
proof (cases mt)
  case (Some t)
  then obtain ob mt' arr node where t: "heap s t = Some ob" "o_body ob = OTable mt' arr node"
    using assms(2) by (auto simp: obj_is_def is_table_iff)
  then have b: "\<forall>r \<in> vrefs (refs_of (OTable mt' arr node)). alloc s r"
    using assms(1) by (fastforce simp: heap_ok_def body_ok_def succs_def intro: obj_is_alloc)
  have *: "alloc s x" if "map_of node (VRef name) = Some v" "v \<noteq> VNil" "x \<in> vrefs [v]" for v x
    using entry_refs [OF map_of_SomeD [OF that(1)] that(2), of mt' arr] b that(3) by auto
  let ?r = "case map_of node (VRef name) of None \<Rightarrow> None | Some v \<Rightarrow> if v = VNil then None else Some v"
  have "v \<noteq> VNil \<and> (\<forall>x \<in> vrefs [v]. alloc s x)" if "?r = Some v" for v
    using that * by (auto split: option.splits if_splits)
  moreover have "fasttm mt name s = Inr ?r" using Some t by (simp add: fasttm_def get_obj_ok)
  ultimately show ?thesis using that by blast
qed (use that in \<open>auto simp: fasttm_def\<close>)

lemma weak_mode_ok:
  assumes "\<forall>v. r = Some v \<longrightarrow> v \<noteq> VNil \<and> (\<forall>x \<in> vrefs [v]. alloc s x)"
  obtains wk wv where "weak_mode r s = Inr (wk, wv)"
proof (cases "\<exists>a. r = Some (VRef a)")
  case True
  then obtain a ob where "r = Some (VRef a)" "heap s a = Some ob" using assms by (fastforce simp: alloc_def)
  then show ?thesis using that by (cases "o_body ob") (auto simp: weak_mode_def get_obj_ok)
next
  case False
  then have "weak_mode r s = Inr (False, False)" by (auto simp: weak_mode_def split: option.split gval.split)
  then show ?thesis by (rule that)
qed

definition clean :: "(gval \<times> gval) list \<Rightarrow> (gval \<times> gval) list" where
  "clean node = map (\<lambda>n. if snd n = VNil then removeentry n else n) node"

definition kept_refs :: "bool \<Rightarrow> bool \<Rightarrow> (gval \<times> gval) list \<Rightarrow> ref set" where
  "kept_refs wk wv node =
     (\<Union>(k, v) \<in> set node. if v = VNil then {} else (if wk then {} else vrefs [k]) \<union> (if wv then {} else vrefs [v]))"

lemma kept_refs_Cons:
  "kept_refs wk wv (n # ns) =
     (if snd n = VNil then {} else (if wk then {} else vrefs [fst n]) \<union> (if wv then {} else vrefs [snd n])) \<union> kept_refs wk wv ns"
  by (simp add: kept_refs_def split: prod.split)

lemma kept_refs_none: "kept_refs True True node = {}"
  by (auto simp: kept_refs_def split: if_splits)

lemma kept_refs_clean [simp]: "kept_refs wk wv (clean node) = kept_refs wk wv node"
proof (induction node)
  case (Cons n ns)
  then show ?case by (auto simp: clean_def kept_refs_Cons removeentry_def split: option.splits)
qed (simp add: clean_def)

lemma table_refs: "vrefs (refs_of (OTable mt arr node)) = set_option mt \<union> vrefs arr \<union> kept_refs False False node"
  by (cases mt) (auto simp: refs_of_def kept_refs_def split: if_splits)

lemma strong_refs_table:
  "strong_refs m (OTable mt arr node) = set_option mt \<union> (if bit m 4 then {} else vrefs arr) \<union> kept_refs (bit m 3) (bit m 4) node"
  by (auto simp: strong_refs_def kept_refs_def split: if_splits)

lemma marked_if: "minv F S s \<Longrightarrow> (\<not> b \<Longrightarrow> marked F S s R m) \<Longrightarrow> marked F S s (if b then {} else R) (if b then Inr s else m)"
  by (simp add: marks_refl)

lemma traverse_nodes_ok:
  "minv F S s \<Longrightarrow> \<forall>r \<in> kept_refs False False node. alloc s r \<Longrightarrow>
   wpE (\<lambda>_. False) (\<lambda>(node', s'). node' = clean node \<and> marks F S s s' \<and> (\<forall>r \<in> kept_refs wk wv node. nw s' r))
     (traverse_nodes wk wv node s)"
proof (induction node)
  case Nil
  then show ?case by (simp add: clean_def kept_refs_def marks_refl)
next
  case (Cons n ns)
  have al: "\<forall>r \<in> kept_refs False False ns. alloc s r" using Cons.prems(2) by (simp add: kept_refs_Cons)
  show ?case unfolding traverse_nodes.simps
  proof (rule wpE_bind [OF Cons.IH [OF Cons.prems(1) al]], clarify)
    fix s1 assume s1: "marks F S s s1" "\<forall>r \<in> kept_refs wk wv ns. nw s1 r"
    let ?R = "(if wk then {} else vrefs [fst n]) \<union> (if wv then {} else vrefs [snd n])"
    show "wpE (\<lambda>_. False) (\<lambda>(node', s'). node' = clean (n # ns) \<and> marks F S s s' \<and> (\<forall>r \<in> kept_refs wk wv (n # ns). nw s' r))
       (if snd n = VNil then Inr (removeentry n # clean ns, s1)
        else bindE (if wk then Inr s1 else markvalue (fst n) s1) (\<lambda>s.
             bindE (if wv then Inr s else markvalue (snd n) s) (\<lambda>s. Inr (n # clean ns, s))))"
    proof (cases "snd n = VNil")
      case True
      then show ?thesis using s1 by (simp add: clean_def kept_refs_Cons)
    next
      case False
      then have an: "\<forall>r \<in> vrefs [fst n]. alloc s1 r" "\<forall>r \<in> vrefs [snd n]. alloc s1 r"
        using Cons.prems(2) marks_alloc [OF s1(1)] by (simp_all add: kept_refs_Cons)
      have "marked F S s1 ?R (bindE (if wk then Inr s1 else markvalue (fst n) s1) (\<lambda>s. if wv then Inr s else markvalue (snd n) s))"
        by (intro marked_bind marked_if marks_inv [OF s1(1)] markvalue_ok an)
           (use an in \<open>auto simp: marks_alloc intro: marks_inv\<close>)
      then have "wpE (\<lambda>_. False) (\<lambda>(node', s'). node' = clean (n # ns) \<and> marks F S s s' \<and> (\<forall>r \<in> kept_refs wk wv (n # ns). nw s' r))
        (bindE (bindE (if wk then Inr s1 else markvalue (fst n) s1) (\<lambda>s. if wv then Inr s else markvalue (snd n) s))
          (\<lambda>s. Inr (n # clean ns, s)))"
        by (rule wpE_bind)
           (use False s1 in \<open>auto simp: clean_def kept_refs_Cons intro: marks_trans marks_nw split: if_splits\<close>)
      then show ?thesis using False by (simp add: bindE_assoc)
    qed
  qed
qed

text \<open>The mark bits of a weak table.\<close>

lemma bit_weak_masks: "bit KEYWEAK n \<longleftrightarrow> n = 3" "bit VALUEWEAK n \<longleftrightarrow> n = 4"
proof -
  have m: "KEYWEAK = 2 ^ 3" "VALUEWEAK = 2 ^ 4" by (simp_all add: KEYWEAK_def VALUEWEAK_def)
  show "bit KEYWEAK n \<longleftrightarrow> n = 3" "bit VALUEWEAK n \<longleftrightarrow> n = 4" unfolding m bit_exp_iff by auto
qed

lemma set_weak_bits [simp]:
  "iswhite (set_weak_bits wk wv m) = iswhite m" "isblack (set_weak_bits wk wv m) = isblack m"
  "bit (set_weak_bits wk wv m) 3 = wk" "bit (set_weak_bits wk wv m) 4 = wv"
  by (auto simp: set_weak_bits_def mark_bits bit_weak_masks)

definition in_lists :: "gstate \<Rightarrow> ref set" where "in_lists s = set (gray s @ grayagain s @ weak s)"

lemma marks_lists:
  assumes "marks F S s s'" "heap s h = Some ob" "\<not> iswhite (o_marked ob)"
  shows "heap s' h = Some ob" "h \<in> set (gray s') \<longleftrightarrow> h \<in> set (gray s)" "grayagain s' = grayagain s" "weak s' = weak s"
    "g_white s' = g_white s" "tm_mode s' = tm_mode s" "h \<in> in_lists s' \<longleftrightarrow> h \<in> in_lists s"
proof -
  have m: "mk s s'" using assms(1) by (simp add: marks_def)
  then show "heap s' h = Some ob" using mk_heap(2) [OF m assms(2)] assms(3) by auto
  show g: "h \<in> set (gray s') \<longleftrightarrow> h \<in> set (gray s)"
    using m assms(2,3) by (auto simp: mk_def whites_def)
  show f: "grayagain s' = grayagain s" "weak s' = weak s" "g_white s' = g_white s" "tm_mode s' = tm_mode s"
    using m by simp_all
  show "h \<in> in_lists s' \<longleftrightarrow> h \<in> in_lists s" using g f by (simp add: in_lists_def)
qed

text \<open>What a traversal leaves: the invariant, less work, and the object either weak or fully marked.\<close>

definition table_done :: "flag set \<Rightarrow> ref set \<Rightarrow> gstate \<Rightarrow> ref \<Rightarrow> gcobj \<Rightarrow> bool \<times> gstate \<Rightarrow> bool" where
  "table_done F S s h ob r \<longleftrightarrow>
     (case r of (w, s') \<Rightarrow>
        minv F S s' \<and> evolves s s' \<and> work s' \<le> work s \<and>
        (\<exists>ob'. heap s' h = Some ob' \<and> is_table (o_body ob') \<and> \<not> iswhite (o_marked ob') \<and> isblack (o_marked ob') = isblack (o_marked ob) \<and>
           (if w then h \<in> set (weak s') \<and> (\<forall>r \<in> strong_refs (o_marked ob') (o_body ob'). nw s' r)
            else h \<notin> in_lists s' \<and> (\<forall>r \<in> vrefs (refs_of (o_body ob')). nw s' r))))"

lemma sim_clean: "sim (OTable mt arr node) (OTable mt arr (clean node))"
proof -
  have "list_all2 lost_entry node (clean node)"
    by (auto simp: clean_def list_all2_map2 lost_entry_def intro!: list_all2_refl)
  moreover have "list_all2 lost_value arr arr" by (rule list_all2_refl) (simp add: lost_value_def)
  ultimately show ?thesis by (simp add: sim_def)
qed

text \<open>The part of the traversal after the mode of the table is known.\<close>

lemma traverse_entries_ok:
  assumes s: "minv F S s" and h: "h \<in> S" "heap s h = Some ob" "\<not> iswhite (o_marked ob)"
    and b: "o_body ob = OTable mt arr node" and mt: "\<forall>r \<in> set_option mt. nw s r"
    and w: "if wk \<or> wv then h \<in> set (weak s) \<and> bit (o_marked ob) 3 = wk \<and> bit (o_marked ob) 4 = wv else h \<notin> in_lists s"
  shows "wpE (\<lambda>_. False) (table_done F S s h ob)
    (bindE (if wv then Inr s else foldE markvalue (rev arr) s) (\<lambda>s.
     bindE (traverse_nodes wk wv node s) (\<lambda>(node, s).
     bindE (set_body h (OTable mt arr node) s) (\<lambda>s. Inr (wk \<or> wv, s)))))"
proof -
  have al: "\<forall>r \<in> vrefs (refs_of (OTable mt arr node)). alloc s r"
    using s h(2) b by (fastforce simp: minv_def heap_ok_def body_ok_def succs_def intro: obj_is_alloc)
  then have a: "\<forall>r \<in> vrefs (rev arr). alloc s r" by (simp add: table_refs)
  show ?thesis
  proof (rule wpE_bind [OF marked_if [OF s markvalues_ok [OF s a]]], elim conjE)
    fix s1 assume s1: "marks F S s s1" "\<forall>r \<in> if wv then {} else vrefs (rev arr). nw s1 r"
    have n: "\<forall>r \<in> kept_refs False False node. alloc s1 r"
      using al marks_alloc [OF s1(1)] by (simp add: table_refs)
    show "wpE (\<lambda>_. False) (table_done F S s h ob)
      (bindE (traverse_nodes wk wv node s1) (\<lambda>(node, s). bindE (set_body h (OTable mt arr node) s) (\<lambda>s. Inr (wk \<or> wv, s))))"
    proof (rule wpE_bind [OF traverse_nodes_ok [OF marks_inv [OF s1(1)] n, of wk wv]], clarify)
      fix s2 assume s2: "marks F S s1 s2" "\<forall>r \<in> kept_refs wk wv node. nw s2 r"
      have m: "marks F S s s2" by (rule marks_trans [OF s1(1) s2(1)])
      note ml = marks_lists [OF m h(2,3)]
      define s3 where "s3 = change h ob (OTable mt arr (clean node)) s2"
      have sm: "sim (o_body ob) (OTable mt arr (clean node))" using b sim_clean by simp
      have f3: "weak s3 = weak s2" "in_lists s3 = in_lists s2" by (simp_all add: s3_def in_lists_def)
      have nws: "nw s3 r = nw s2 r" for r by (simp add: s3_def nw_change [OF ml(1) sm])
      have "minv F S s3" unfolding s3_def by (rule minv_change [OF ml(1) sm marks_inv [OF m] h(1)])
      moreover have "evolves s s3"
        unfolding s3_def by (rule evolves_trans [OF evolves_marks [OF m] evolves_change [OF ml(1) sm]])
      moreover have "work s3 \<le> work s" using m by (simp add: s3_def work_change [OF ml(1) sm] marks_def)
      moreover have "heap s3 h = Some (ob\<lparr>o_body := OTable mt arr (clean node)\<rparr>)" by (simp add: s3_def)
      moreover have "h \<in> set (weak s3) \<and> (\<forall>r \<in> strong_refs (o_marked ob) (OTable mt arr (clean node)). nw s3 r)" if "wk \<or> wv"
        using that w mt s1(2) s2(2) ml marks_nw [OF m] marks_nw [OF s2(1)]
        by (auto simp: strong_refs_table nws f3 split: if_splits)
      moreover have "h \<notin> in_lists s3 \<and> (\<forall>r \<in> vrefs (refs_of (OTable mt arr (clean node))). nw s3 r)" if "\<not> (wk \<or> wv)"
        using that w mt s1(2) s2(2) ml marks_nw [OF m] marks_nw [OF s2(1)]
        by (auto simp: table_refs nws f3)
      ultimately have "table_done F S s h ob (wk \<or> wv, s3)"
        using h(3) by (simp add: table_done_def is_table_iff)
      then show "wpE (\<lambda>_. False) (table_done F S s h ob)
        (bindE (set_body h (OTable mt arr (clean node)) s2) (\<lambda>s. Inr (wk \<or> wv, s)))"
        by (simp add: set_body_ok [OF ml(1)] s3_def)
    qed
  qed
qed

lemma table_done_from:
  "table_done F S s1 h ob1 r \<Longrightarrow> evolves s s1 \<Longrightarrow> work s1 \<le> work s \<Longrightarrow> isblack (o_marked ob1) = isblack (o_marked ob) \<Longrightarrow>
   table_done F S s h ob r"
  unfolding table_done_def by (auto intro: evolves_trans split: prod.splits if_splits)

lemma push_weak:
  assumes "minv F S s" "h \<in> S" "heap s h = Some ob" "\<not> iswhite (o_marked ob)" "is_table (o_body ob)" "h \<notin> in_lists s" "\<not> iswhite m"
  defines "s' \<equiv> (remark h ob m s)\<lparr>weak := h # weak s\<rparr>"
  shows "minv F S s'" "evolves s s'" "work s' \<le> work s" "heap s' h = Some (ob\<lparr>o_marked := m\<rparr>)" "h \<in> set (weak s')"
proof -
  let ?r = "remark h ob m s"
  have r: "minv F S ?r" using minv_remark [OF assms(1,3,7)] assms(2) by (simp add: insert_absorb)
  have s': "s' = ?r\<lparr>gray := gray ?r, grayagain := grayagain ?r, weak := h # weak ?r\<rparr>" by (simp add: s'_def)
  have l: "lists_ok ?r" using r by (simp add: minv_def mark_ok_def)
  show "minv F S s'"
    by (rule relist [OF r assms(2) _ _ _ s', where ob = "ob\<lparr>o_marked := m\<rparr>"])
       (use assms l in \<open>auto simp: remark_def traversable_def is_table_iff lists_ok_def in_lists_def\<close>)
  have "evolves ?r s'" unfolding s' by (rule evolves_lists)
  then show "evolves s s'" using evolves_trans [OF evolves_remark [OF assms(3,7)]] by blast
  have "heap_ok s" using assms(1) by (simp add: minv_def)
  then show "work s' \<le> work s" using work_remark [OF _ assms(3,7)] by (simp add: s'_def work_def whites_def)
  show "heap s' h = Some (ob\<lparr>o_marked := m\<rparr>)" "h \<in> set (weak s')" by (simp_all add: s'_def remark_def)
qed

lemma traversetable_ok:
  assumes s: "minv F S s" and h: "h \<in> S" "heap s h = Some ob" "\<not> iswhite (o_marked ob)" "h \<notin> in_lists s"
    and b: "o_body ob = OTable mt arr node"
  shows "wpE (\<lambda>_. False) (table_done F S s h ob) (traversetable h mt arr node s)"
proof -
  have bo: "body_ok s (OTable mt arr node)" using s h(2) b by (metis heap_ok_def minv_def)
  then have t: "\<forall>t \<in> set_option mt. obj_is is_table s t" by (simp add: body_ok_def)
  then have a: "\<forall>r \<in> set_option mt. alloc s r" by (auto intro: obj_is_alloc)
  show ?thesis unfolding traversetable_def
  proof (rule wpE_bind [OF opt_markobject_ok [OF s a]], elim conjE)
    fix s1 assume m1: "marks F S s s1" and nm: "\<forall>r \<in> set_option mt. nw s1 r"
    have s1: "minv F S s1" by (rule marks_inv [OF m1])
    note l1 = marks_lists [OF m1 h(2,3)]
    have from_s1: "table_done F S s1 h ob r \<Longrightarrow> table_done F S s h ob r" for r
      using m1 by (auto intro: table_done_from simp: marks_def evolves_mk)
    have t1: "\<forall>t \<in> set_option mt. obj_is is_table s1 t" using t marks_obj_is [OF m1] by simp
    have h1: "heap_ok s1" using s1 by (simp add: minv_def)
    obtain r where r: "fasttm mt (tm_mode s1) s1 = Inr r" "\<forall>v. r = Some v \<longrightarrow> v \<noteq> VNil \<and> (\<forall>x \<in> vrefs [v]. alloc s1 x)"
      by (rule fasttm_ok [OF h1 t1, of "tm_mode s1"])
    obtain wk wv where w: "weak_mode r s1 = Inr (wk, wv)" using weak_mode_ok [OF r(2)] by blast
    let ?rest = "\<lambda>s. if wk \<and> wv then Inr (True, s)
       else bindE (if wv then Inr s else foldE markvalue (rev arr) s) (\<lambda>s.
            bindE (traverse_nodes wk wv node s) (\<lambda>(node, s).
            bindE (set_body h (OTable mt arr node) s) (\<lambda>s. Inr (wk \<or> wv, s))))"
    have "wpE (\<lambda>_. False) (table_done F S s1 h ob)
      (bindE (if wk \<or> wv then bindE (upd_mark h (set_weak_bits wk wv) s1) (\<lambda>s. Inr (s\<lparr>weak := h # weak s\<rparr>)) else Inr s1) ?rest)"
    proof (cases "wk \<or> wv")
      case False
      then show ?thesis
        using traverse_entries_ok [OF s1 h(1) l1(1) h(3) b nm, of wk wv] h(4) l1(7) by simp
    next
      case True
      define s2 where "s2 = (remark h ob (set_weak_bits wk wv (o_marked ob)) s1)\<lparr>weak := h # weak s1\<rparr>"
      let ?ob = "ob\<lparr>o_marked := set_weak_bits wk wv (o_marked ob)\<rparr>"
      note p = push_weak [OF s1 h(1) l1(1) h(3), of "set_weak_bits wk wv (o_marked ob)", folded s2_def]
      have q: "is_table (o_body ob)" "h \<notin> in_lists s1" "\<not> iswhite (set_weak_bits wk wv (o_marked ob))"
        using b h(3,4) l1(7) by (simp_all add: is_table_iff)
      note p = p [OF q]
      have nm2: "\<forall>r \<in> set_option mt. nw s2 r" using nm evolves_nw [OF p(2)] by simp
      have st: "bindE (upd_mark h (set_weak_bits wk wv) s1) (\<lambda>s. Inr (s\<lparr>weak := h # weak s\<rparr>)) = Inr s2"
        by (simp add: upd_mark_ok [OF l1(1)] s2_def)
      have "wpE (\<lambda>_. False) (table_done F S s2 h ?ob) (?rest s2)"
      proof (cases "wk \<and> wv")
        case both: True
        then have "strong_refs (o_marked ?ob) (o_body ?ob) = set_option mt"
          using b by (simp add: strong_refs_table kept_refs_none)
        then have "table_done F S s2 h ?ob (True, s2)"
          using p(1,4,5) q nm2 by (simp add: table_done_def)
        then show ?thesis using both by simp
      next
        case False
        have "wpE (\<lambda>_. False) (table_done F S s2 h ?ob)
          (bindE (if wv then Inr s2 else foldE markvalue (rev arr) s2) (\<lambda>s.
           bindE (traverse_nodes wk wv node s) (\<lambda>(node, s).
           bindE (set_body h (OTable mt arr node) s) (\<lambda>s. Inr (wk \<or> wv, s)))))"
          by (rule traverse_entries_ok [OF p(1) h(1) p(4) _ _ nm2]) (use True p(5) q(3) b in simp_all)
        then show ?thesis by (simp only: False if_False)
      qed
      then have "wpE (\<lambda>_. False) (table_done F S s1 h ob) (?rest s2)"
        by (rule wpE_mono) (auto intro: table_done_from [OF _ p(2,3)])
      then show ?thesis using True by (simp add: st)
    qed
    then show "wpE (\<lambda>_. False) (table_done F S s h ob)
      (bindE (fasttm mt (tm_mode s1) s1) (\<lambda>mode. bindE (weak_mode mode s1) (\<lambda>(weakkey, weakvalue).
        bindE (if weakkey \<or> weakvalue then bindE (upd_mark h (set_weak_bits weakkey weakvalue) s1) (\<lambda>s. Inr (s\<lparr>weak := h # weak s\<rparr>))
               else Inr s1) (\<lambda>s.
        if weakkey \<and> weakvalue then Inr (True, s)
        else bindE (if weakvalue then Inr s else foldE markvalue (rev arr) s) (\<lambda>s.
             bindE (traverse_nodes weakkey weakvalue node s) (\<lambda>(node, s).
             bindE (set_body h (OTable mt arr node) s) (\<lambda>s. Inr (weakkey \<or> weakvalue, s))))))))"
      unfolding r(1) bindE_Inr w prod.case by (rule wpE_mono) (rule from_s1)
  qed
qed

section \<open>The step\<close>

text \<open>The first object of the gray list is taken off and made black; it is being traversed.\<close>

lemma pop_gray:
  assumes s: "minv F S s" "gray s = a # rest" and ob: "heap s a = Some ob"
  defines "s' \<equiv> (remark a ob (gray2black (o_marked ob)) s)\<lparr>gray := rest\<rparr>"
  shows "minv F (insert a S) s'" "evolves s s'" "work s' < work s"
    "heap s' a = Some (ob\<lparr>o_marked := gray2black (o_marked ob)\<rparr>)" "a \<notin> in_lists s'" "\<not> iswhite (o_marked ob)" "traversable (o_body ob)"
proof -
  let ?m = "gray2black (o_marked ob)" and ?r = "remark a ob (gray2black (o_marked ob)) s"
  have "lists_ok s" using s(1) by (simp add: minv_def mark_ok_def)
  then show w: "\<not> iswhite (o_marked ob)" and t: "traversable (o_body ob)"
    by (rule listed [of s a]; use s(2) ob in simp)+
  have r: "minv F (insert a S) ?r" using minv_remark [OF s(1) ob] w by simp
  then have l: "lists_ok ?r" by (simp add: minv_def mark_ok_def)
  have s': "s' = ?r\<lparr>gray := rest, grayagain := grayagain ?r, weak := weak ?r\<rparr>" by (simp add: s'_def)
  show "minv F (insert a S) s'"
    by (rule relist [OF r insertI1 _ _ _ s', where ob = "ob\<lparr>o_marked := ?m\<rparr>"])
       (use s(2) w t l in \<open>auto simp: remark_def lists_ok_def\<close>)
  have "evolves ?r s'" unfolding s' by (rule evolves_lists)
  then show "evolves s s'" using evolves_trans [OF evolves_remark [OF ob, of ?m]] w by simp
  have "heap_ok s" using s(1) by (simp add: minv_def)
  then have "work ?r \<le> work s" using work_remark [OF _ ob] w by simp
  moreover have "work s' < work ?r" using s(2) by (simp add: work_def s'_def whites_def)
  ultimately show "work s' < work s" by simp
  show "heap s' a = Some (ob\<lparr>o_marked := ?m\<rparr>)" by (simp add: s'_def remark_def)
  show "a \<notin> in_lists s'" using l s(2) by (simp add: s'_def in_lists_def lists_ok_def)
qed

definition step_done :: "flag set \<Rightarrow> ref set \<Rightarrow> gstate \<Rightarrow> gstate \<Rightarrow> bool" where
  "step_done F S s s' \<longleftrightarrow> minv F S s' \<and> evolves s s' \<and> work s' < work s"

lemma strong_refs_bits: "weakbits m = weakbits m' \<Longrightarrow> strong_refs m b = strong_refs m' b"
  by (rule strong_refs_cong)

lemma propagate_table:
  assumes s: "minv F (insert a S) s1" "heap s1 a = Some ob" "\<not> iswhite (o_marked ob)" "isblack (o_marked ob)" "a \<notin> in_lists s1"
    and b: "o_body ob = OTable mt arr node" and e: "evolves s s1" "work s1 < work s"
  shows "wpE (\<lambda>_. False) (step_done F S s)
    (bindE (traversetable a mt arr node s1) (\<lambda>(w, s). if w then upd_mark a black2gray s else Inr s))"
proof (rule wpE_bind [OF traversetable_ok [OF s(1) insertI1 s(2,3,5) b]], clarify)
  fix w s2 assume d: "table_done F (insert a S) s1 a ob (w, s2)"
  then obtain ob' where o: "heap s2 a = Some ob'" "is_table (o_body ob')" "\<not> iswhite (o_marked ob')" "isblack (o_marked ob')"
    and m: "minv F (insert a S) s2" "evolves s1 s2" "work s2 \<le> work s1"
    and w: "if w then a \<in> set (weak s2) \<and> (\<forall>r \<in> strong_refs (o_marked ob') (o_body ob'). nw s2 r)
            else a \<notin> in_lists s2 \<and> (\<forall>r \<in> vrefs (refs_of (o_body ob')). nw s2 r)"
    using s(4) by (auto simp: table_done_def)
  have e2: "evolves s s2" "work s2 < work s" using evolves_trans [OF e(1) m(2)] m(3) e(2) by auto
  show "wpE (\<lambda>_. False) (step_done F S s) (if w then upd_mark a black2gray s2 else Inr s2)"
  proof (cases w)
    case False
    then have "node_ok F s2 a ob'" using w o by (auto simp: node_ok_def in_lists_def stays_gray_def is_open_def is_thread_def is_table_iff)
    then show ?thesis using minv_discharge [OF m(1) o(1)] e2 False by (simp add: step_done_def)
  next
    case True
    let ?m = "black2gray (o_marked ob')"
    define s3 where "s3 = remark a ob' ?m s2"
    have h3: "heap s3 a = Some (ob'\<lparr>o_marked := ?m\<rparr>)" by (simp add: s3_def remark_def)
    have "minv F (insert a (insert a S)) s3" unfolding s3_def by (rule minv_remark [OF m(1) o(1)]) (simp add: o(3))
    then have m3: "minv F (insert a S) s3" by simp
    have "nw s3 r" if "nw s2 r" for r unfolding s3_def by (rule nw_remark [OF o(1) _ that]) (simp add: o(3))
    moreover have "strong_refs ?m (o_body ob') = strong_refs (o_marked ob') (o_body ob')" by (rule strong_refs_bits) simp
    moreover have "a \<in> set (weak s3)" using w True by (simp add: s3_def)
    ultimately have "node_ok F s3 a (ob'\<lparr>o_marked := ?m\<rparr>)"
      using o w True by (auto simp: node_ok_def gray_ok_def is_table_iff)
    then have "minv F S s3" by (rule minv_discharge [OF m3 h3])
    moreover have "evolves s s3" unfolding s3_def
      by (rule evolves_trans [OF e2(1) evolves_remark [OF o(1)]]) (simp add: o(3))
    moreover have "work s3 < work s"
      using work_remark [OF _ o(1), of ?m] m(1) o(3) e2(2) by (simp add: s3_def minv_def)
    ultimately show ?thesis using True by (simp add: upd_mark_ok [OF o(1)] s3_def step_done_def)
  qed
qed

text \<open>Objects whose traversal only marks.\<close>

lemma propagate_marks:
  assumes s: "minv F (insert a S) s1" "heap s1 a = Some ob" "\<not> iswhite (o_marked ob)" "isblack (o_marked ob)" "a \<notin> in_lists s1"
    and b: "\<not> stays_gray (o_body ob)" and e: "evolves s s1" "work s1 < work s"
    and f: "marked F (insert a S) s1 (vrefs (refs_of (o_body ob))) f"
  shows "wpE (\<lambda>_. False) (step_done F S s) f"
proof (rule wpE_mono [OF f], elim conjE)
  fix s2 assume m: "marks F (insert a S) s1 s2" and nw: "\<forall>r \<in> vrefs (refs_of (o_body ob)). nw s2 r"
  note l = marks_lists [OF m s(2,3)]
  have "node_ok F s2 a ob" using nw s(4,5) b l(7) by (simp add: node_ok_def in_lists_def)
  then have "minv F S s2" by (rule minv_discharge [OF marks_inv [OF m] l(1)])
  then show "step_done F S s s2"
    using e m evolves_trans [OF e(1) evolves_marks [OF m]] by (simp add: step_done_def marks_def)
qed

lemma traverseclosure_ok:
  assumes "minv F S s" "\<forall>r \<in> vrefs (refs_of b). alloc s r" "case b of OCClosure _ _ \<Rightarrow> True | OLClosure _ _ _ \<Rightarrow> True | _ \<Rightarrow> False"
  shows "marked F S s (vrefs (refs_of b)) (traverseclosure b s)"
proof (cases b)
  case (OCClosure env vs)
  then have "marked F S s ({env} \<union> vrefs vs) (bindE (markobject env s) (foldE markvalue vs))"
    using assms(1,2) by (intro marked_bind markobject_ok markvalues_ok) (auto simp: refs_of_def marks_alloc intro: marks_inv)
  then show ?thesis using OCClosure by (simp add: traverseclosure_def refs_of_def)
next
  case (OLClosure env p us)
  then have "marked F S s ({env} \<union> ({p} \<union> set us)) (bindE (markobject env s) (\<lambda>s. bindE (markobject p s) (foldE markobject us)))"
    using assms(1,2) by (intro marked_bind markobject_ok markobjects_ok) (auto simp: refs_of_def marks_alloc intro: marks_inv)
  then show ?thesis using OLClosure by (simp add: traverseclosure_def refs_of_def)
qed (use assms(3) in simp_all)

lemma proto_refs:
  "vrefs (refs_of (OProto src k us ps lv)) =
     set_option src \<union> (vrefs k \<union> ((\<Union>x \<in> set us. set_option x) \<union> ((\<Union>x \<in> set ps. set_option x) \<union> (\<Union>x \<in> set lv. set_option x))))"
proof -
  have o: "vrefs (case x of None \<Rightarrow> [] | Some t \<Rightarrow> [VRef t]) = set_option x" for x by (cases x) auto
  then have c: "vrefs (concat (map (\<lambda>x. case x of None \<Rightarrow> [] | Some t \<Rightarrow> [VRef t]) xs)) = (\<Union>x \<in> set xs. set_option x)" for xs
    by (induction xs) simp_all
  show ?thesis by (cases src) (simp_all add: refs_of_def c Un_assoc del: vrefs_simps(5))
qed

lemma traverseproto_ok:
  assumes "minv F S s" "body_ok s (OProto src k us ps lv)"
  shows "marked F S s (vrefs (refs_of (OProto src k us ps lv))) (traverseproto src k us ps lv s)"
proof -
  have al: "\<forall>r \<in> vrefs k. alloc s r" "\<forall>x \<in> set ps. \<forall>r \<in> set_option x. alloc s r"
    using assms(2) by (auto simp: body_ok_def succs_def proto_refs intro: obj_is_alloc)
  have st: "\<forall>r \<in> set_option src. obj_is is_string s r" "\<forall>x \<in> set us. \<forall>r \<in> set_option x. obj_is is_string s r"
    "\<forall>x \<in> set lv. \<forall>r \<in> set_option x. obj_is is_string s r"
    using assms(2) by (auto simp: body_ok_def)
  show ?thesis unfolding proto_refs traverseproto_def
  proof (intro marked_bind opt_stringmark_ok [OF assms(1) st(1)])
    fix s1 assume s1: "marks F S s s1"
    then show "marked F S s1 (vrefs k) (foldE markvalue k s1)"
      using al(1) by (intro markvalues_ok) (simp_all add: marks_inv marks_alloc)
    fix s2 assume "marks F S s1 s2"
    then have s2: "marks F S s s2" by (rule marks_trans [OF s1])
    then show "marked F S s2 (\<Union>x \<in> set us. set_option x) (foldE (opt stringmark) us s2)"
      using st(2) by (intro opt_stringmarks_ok) (simp_all add: marks_inv marks_obj_is)
    fix s3 assume "marks F S s2 s3"
    then have s3: "marks F S s s3" by (rule marks_trans [OF s2])
    then show "marked F S s3 (\<Union>x \<in> set ps. set_option x) (foldE (opt markobject) ps s3)"
      using al(2) by (intro opt_markobjects_ok) (simp_all add: marks_inv marks_alloc)
    fix s4 assume "marks F S s3 s4"
    then have s4: "marks F S s s4" by (rule marks_trans [OF s3])
    then show "marked F S s4 (\<Union>x \<in> set lv. set_option x) (foldE (opt stringmark) lv s4)"
      using st(3) by (intro opt_stringmarks_ok) (simp_all add: marks_inv marks_obj_is)
  qed
qed

lemma stack_lim_ge: "tp \<le> stack_lim tp cis"
  unfolding stack_lim_def by (induction cis arbitrary: tp) (auto, meson le_trans max.cobounded2)

lemma clear_stack_ok:
  assumes "tp \<le> length st" "stack_lim tp cis < length st"
  obtains st' where "clear_stack tp (stack_lim tp cis) st = Inr st'" "length st' = length st" "take tp st' = take tp st"
  using that [of "take tp st @ replicate (stack_lim tp cis + 1 - tp) VNil @ drop (stack_lim tp cis + 1) st"]
    assms stack_lim_ge [of tp cis] by (simp add: clear_stack_def)

lemma propagate_thread:
  assumes s: "minv F (insert a S) s1" "heap s1 a = Some ob" "\<not> iswhite (o_marked ob)" "a \<notin> in_lists s1"
    and b: "o_body ob = OThread gt st tp cis op" and e: "evolves s s1" "work s1 < work s"
  shows "wpE (\<lambda>_. False) (step_done F S s)
    (bindE (upd_mark a black2gray (s1\<lparr>grayagain := a # grayagain s1\<rparr>)) (\<lambda>s. traversestack a gt st tp cis op s))"
proof -
  let ?s = "s1\<lparr>grayagain := a # grayagain s1\<rparr>" and ?ob = "ob\<lparr>o_marked := black2gray (o_marked ob)\<rparr>"
  have l: "lists_ok s1" using s(1) by (simp add: minv_def mark_ok_def)
  have s': "?s = s1\<lparr>gray := gray s1, grayagain := a # grayagain s1, weak := weak s1\<rparr>" by simp
  have m0: "minv F (insert a S) ?s"
    by (rule relist [OF s(1) insertI1 s(2,3) _ s'])
       (use b s(4) l in \<open>auto simp: traversable_def lists_ok_def in_lists_def\<close>)
  have h0: "heap ?s a = Some ob" using s(2) by simp
  define s2 where "s2 = remark a ob (black2gray (o_marked ob)) ?s"
  have "minv F (insert a (insert a S)) s2" unfolding s2_def by (rule minv_remark [OF m0 h0]) (simp add: s(3))
  then have m2: "minv F (insert a S) s2" by simp
  have h2: "heap s2 a = Some ?ob" by (simp add: s2_def remark_def)
  have e2: "evolves s1 s2" unfolding s2_def
    by (rule evolves_trans [OF _ evolves_remark [OF h0]]) (use s(3) evolves_lists [where s = s1 and g = "gray s1" and ga = "a # grayagain s1" and w = "weak s1"] in simp_all)
  have w2: "work s2 \<le> work s1"
    using work_remark [OF _ h0, of "black2gray (o_marked ob)"] m0 s(3)
    by (simp add: s2_def minv_def work_def whites_def)
  have bo: "body_ok s2 (OThread gt st tp cis op)" using body_at [OF m2 h2] b by simp
  then have al: "\<forall>r \<in> vrefs [gt]. alloc s2 r" "\<forall>r \<in> vrefs (take tp st). alloc s2 r"
    by (auto simp: body_ok_def succs_def refs_of_def intro: obj_is_alloc)
  obtain st' where st': "clear_stack tp (stack_lim tp cis) st = Inr st'" "length st' = length st" "take tp st' = take tp st"
    using clear_stack_ok [of tp st cis] bo by (auto simp: body_ok_def)
  have st0: "upd_mark a black2gray ?s = Inr s2" using upd_mark_ok [OF h0] by (simp add: s2_def)
  have "marked F (insert a S) s2 (vrefs [gt] \<union> vrefs (take tp st)) (bindE (markvalue gt s2) (foldE markvalue (take tp st)))"
    using m2 al by (intro marked_bind markvalue_ok markvalues_ok) (simp_all add: marks_alloc marks_inv)
  then have "wpE (\<lambda>_. False) (step_done F S s)
    (bindE (bindE (markvalue gt s2) (foldE markvalue (take tp st))) (\<lambda>s. set_body a (OThread gt st' tp cis op) s))"
  proof (rule wpE_bind, elim conjE)
    fix s3 assume m: "marks F (insert a S) s2 s3" and nw: "\<forall>r \<in> vrefs [gt] \<union> vrefs (take tp st). nw s3 r"
    have wh: "\<not> iswhite (o_marked ?ob)" using s(3) by simp
    note ml = marks_lists [OF m h2 wh]
    have sm: "sim (o_body ?ob) (OThread gt st' tp cis op)" using b st'(2,3) by (simp add: sim_def)
    define s4 where "s4 = change a ?ob (OThread gt st' tp cis op) s3"
    have m4: "minv F (insert a S) s4" unfolding s4_def by (rule minv_change [OF ml(1) sm marks_inv [OF m] insertI1])
    have h4: "heap s4 a = Some (?ob\<lparr>o_body := OThread gt st' tp cis op\<rparr>)" by (simp add: s4_def)
    have nw4: "nw s4 r = nw s3 r" for r by (simp add: s4_def nw_change [OF ml(1) sm])
    have "a \<in> set (grayagain s4)" using ml(3) by (simp add: s4_def s2_def)
    then have "node_ok F s4 a (?ob\<lparr>o_body := OThread gt st' tp cis op\<rparr>)"
      using nw s(3) st'(3) by (simp add: node_ok_def gray_ok_def nw4 refs_of_def)
    then have "minv F S s4" by (rule minv_discharge [OF m4 h4])
    moreover have "evolves s s4" unfolding s4_def
      by (rule evolves_trans [OF evolves_trans [OF e(1) e2] evolves_trans [OF evolves_marks [OF m] evolves_change [OF ml(1) sm]]])
    moreover have "work s4 < work s" using m w2 e(2) by (simp add: s4_def work_change [OF ml(1) sm] marks_def)
    ultimately show "wpE (\<lambda>_. False) (step_done F S s) (set_body a (OThread gt st' tp cis op) s3)"
      by (simp add: set_body_ok [OF ml(1)] s4_def step_done_def)
  qed
  then show ?thesis by (simp add: st0 traversestack_def st'(1) bindE_assoc)
qed

theorem propagatemark_ok:
  assumes s: "minv F S s" "gray s \<noteq> []"
  shows "wpE (\<lambda>_. False) (step_done F S s) (propagatemark s)"
proof -
  obtain a rest where g: "gray s = a # rest" using s(2) by (cases "gray s") auto
  have "lists_ok s" using s(1) by (simp add: minv_def mark_ok_def)
  then obtain ob where ob: "heap s a = Some ob" by (rule listed [of s a]) (use g in auto)
  let ?ob = "ob\<lparr>o_marked := gray2black (o_marked ob)\<rparr>"
  define s1 where "s1 = (remark a ob (gray2black (o_marked ob)) s)\<lparr>gray := rest\<rparr>"
  note p = pop_gray [OF s(1) g ob, folded s1_def]
  have c: "\<not> iswhite (o_marked ?ob)" "isblack (o_marked ?ob)" using p(6) by simp_all
  have bo: "body_ok s1 (o_body ob)" using body_at [OF p(1,4)] by simp
  then have al: "\<forall>r \<in> vrefs (refs_of (o_body ob)). alloc s1 r" by (auto simp: body_ok_def succs_def intro: obj_is_alloc)
  have start: "propagatemark s =
    (case o_body ob of
       OTable mt arr node \<Rightarrow> bindE (traversetable a mt arr node s1) (\<lambda>(w, s). if w then upd_mark a black2gray s else Inr s)
     | OThread gt st tp cis op \<Rightarrow>
         bindE (upd_mark a black2gray (s1\<lparr>grayagain := a # grayagain s1\<rparr>)) (\<lambda>s. traversestack a gt st tp cis op s)
     | OProto src k us ps lv \<Rightarrow> traverseproto src k us ps lv s1
     | OString x \<Rightarrow> Inr (s1\<lparr>gray := a # rest\<rparr>) | OUserdata mt env \<Rightarrow> Inr (s1\<lparr>gray := a # rest\<rparr>) | OUpVal u \<Rightarrow> Inr (s1\<lparr>gray := a # rest\<rparr>)
     | b \<Rightarrow> traverseclosure b s1)"
    using g by (auto simp: propagatemark_def upd_mark_ok [OF ob] get_obj_def remark_def s1_def split: gbody.splits) 
  have closure: "wpE (\<lambda>_. False) (step_done F S s) (traverseclosure (o_body ob) s1)"
    if "case o_body ob of OCClosure _ _ \<Rightarrow> True | OLClosure _ _ _ \<Rightarrow> True | _ \<Rightarrow> False"
    using propagate_marks [OF p(1,4) c p(5) _ p(2,3)] traverseclosure_ok [OF p(1) al that] that
    by (auto simp: stays_gray_def is_open_def is_thread_def split: gbody.splits)
  show ?thesis
  proof (cases "o_body ob")
    case (OTable mt arr node)
    then show ?thesis using propagate_table [OF p(1,4) c p(5) _ p(2,3)] start by simp
  next
    case (OThread gt st tp cis op)
    then show ?thesis using propagate_thread [OF p(1,4) c(1) p(5) _ p(2,3)] start by simp
  next
    case (OProto src k us ps lv)
    then show ?thesis
      using propagate_marks [OF p(1,4) c p(5) _ p(2,3) ] traverseproto_ok [OF p(1)] bo start by (simp add: stays_gray_def is_open_def is_thread_def)
  qed (use closure p(7) start in \<open>simp_all add: traversable_def\<close>)
qed

section \<open>Working off the gray list\<close>

theorem propagateall_ok:
  "minv F S s \<Longrightarrow> work s < n \<Longrightarrow>
   wpE (\<lambda>_. False) (\<lambda>s'. minv F S s' \<and> evolves s s' \<and> work s' \<le> work s \<and> gray s' = []) (propagateall n s)"
proof (induction n arbitrary: s)
  case (Suc n)
  show ?case
  proof (cases "gray s = []")
    case False
    have "wpE (\<lambda>_. False) (\<lambda>s'. minv F S s' \<and> evolves s s' \<and> work s' \<le> work s \<and> gray s' = [])
      (bindE (propagatemark s) (propagateall n))"
    proof (rule wpE_bind [OF propagatemark_ok [OF Suc.prems(1) False]])
      fix s1 assume d: "step_done F S s s1"
      have "wpE (\<lambda>_. False) (\<lambda>s'. minv F S s' \<and> evolves s1 s' \<and> work s' \<le> work s1 \<and> gray s' = []) (propagateall n s1)"
        by (rule Suc.IH) (use d Suc.prems(2) in \<open>simp_all add: step_done_def\<close>)
      then show "wpE (\<lambda>_. False) (\<lambda>s'. minv F S s' \<and> evolves s s' \<and> work s' \<le> work s \<and> gray s' = []) (propagateall n s1)"
        by (rule wpE_mono) (use d in \<open>auto simp: step_done_def intro: evolves_trans\<close>)
    qed
    then show ?thesis using False by simp
  qed (use Suc.prems in simp)
qed simp

end
