(* ===== verification/LuaGCAtomic.thy ===== *)
theory LuaGCAtomic
  imports LuaGCProp
begin

text \<open>
  The atomic step that ends marking: after it nothing that is not white refers to something white, and
  the roots are not white, so that what the program can reach is alive when the current white is flipped.
\<close>

lemma wpE_conj: "wpE E P m \<Longrightarrow> wpE E Q m \<Longrightarrow> wpE E (\<lambda>x. P x \<and> Q x) m"
  by (cases m) simp_all

lemma minv_node: "minv F S s \<Longrightarrow> heap s a = Some ob \<Longrightarrow> a \<notin> S \<Longrightarrow> node_ok F s a ob"
  unfolding minv_def mark_ok_def by blast

text \<open>Marking keeps every variant of the invariant at once.\<close>

lemma marked_both:
  assumes "marked F S s R m" "marked F' S' s R' m"
  shows "wpE (\<lambda>_. False) (\<lambda>s'. marks F S s s' \<and> marks F' S' s s' \<and> (\<forall>r \<in> R. nw s' r)) m"
  using wpE_conj [OF assms] by (rule wpE_mono) auto

section \<open>Open upvalues\<close>

definition opens :: "gstate \<Rightarrow> ref set" where "opens s = {a. obj_is is_open s a}"

lemma opens_marks: "marks F S s s' \<Longrightarrow> opens s' = opens s"
  by (simp add: opens_def marks_obj_is)

lemma start_upvals:
  assumes "minv {} S s" "opens s \<subseteq> U"
  shows "minv {FUpv} (S \<union> U) s"
proof -
  have "node_ok {FUpv} s a ob" if "heap s a = Some ob" "a \<notin> S \<union> U" for a ob
  proof -
    have "\<not> is_open (o_body ob)" using that assms(2) by (auto simp: opens_def obj_is_def stays_gray_def)
    moreover have "node_ok {} s a ob" using that assms(1) by (auto simp: minv_def mark_ok_def)
    ultimately show ?thesis by (auto simp: node_ok_def gray_ok_def stays_gray_def is_open_def split: gbody.splits upv.splits)
  qed
  then show ?thesis using assms(1) by (simp add: minv_def mark_ok_def)
qed

lemma remarkupval_ok:
  assumes m: "minv {} S s" "minv {FUpv} (insert u S') s" and u: "u \<in> opens s" "u \<notin> S"
  shows "wpE (\<lambda>_. False) (\<lambda>s'. marks {} S s s' \<and> minv {FUpv} S' s') (remarkupval u s)"
proof -
  obtain ob where ob: "heap s u = Some ob" "is_open (o_body ob)" using u(1) by (auto simp: opens_def obj_is_def)
  then obtain x where x: "o_body ob = OUpVal x" by (auto simp: is_open_def split: gbody.splits)
  have nb: "\<not> isblack (o_marked ob) \<or> iswhite (o_marked ob)"
    using minv_node [OF m(1) ob(1) u(2)] ob(2) by (auto simp: node_ok_def stays_gray_def)
  show ?thesis
  proof (cases "isgray (o_marked ob)")
    case False
    then have "node_ok {FUpv} s u ob" using nb by (auto simp: node_ok_def isgray_def)
    then have "minv {FUpv} S' s" by (rule minv_discharge [OF m(2) ob(1)])
    then show ?thesis using False marks_refl [OF m(1)] by (simp add: remarkupval_def get_obj_ok [OF ob(1)])
  next
    case True
    have "heap_ok s" using m(1) by (simp add: minv_def)
    from uv_value_ok [OF this ob(1) x] obtain v where v: "uv_value x s = Inr v" "succs s (OUpVal x) = set_option (gcref v)"
      "\<And>r. gcref v = Some r \<Longrightarrow> obj_is (\<lambda>b. rank b \<le> 2) s r" by blast
    have al: "\<forall>r \<in> vrefs [v]. alloc s r" using v(3) by (auto intro: obj_is_alloc)
    have "wpE (\<lambda>_. False) (\<lambda>s'. marks {} S s s' \<and> minv {FUpv} S' s') (markvalue v s)"
    proof (rule wpE_mono [OF marked_both [OF markvalue_ok [OF m(1) al] markvalue_ok [OF m(2) al]]], elim conjE)
      fix s' assume s': "marks {} S s s'" "marks {FUpv} (insert u S') s s'" "\<forall>r \<in> vrefs [v]. nw s' r"
      have w: "\<not> iswhite (o_marked ob)" using True by (simp add: isgray_def)
      note l = marks_lists [OF s'(1) ob(1) w]
      have "mk s s'" using s'(1) by (simp add: marks_def)
      then have "succs s' (OUpVal x) = set_option (gcref v)" using v(2) by simp
      then have "node_ok {FUpv} s' u ob"
        using s'(3) True ob(2) x by (auto simp: node_ok_def gray_ok_def isgray_def is_open_def split: upv.splits)
      then have "minv {FUpv} S' s'" by (rule minv_discharge [OF marks_inv [OF s'(2)] l(1)])
      then show "marks {} S s s' \<and> minv {FUpv} S' s'" using s'(1) by simp
    qed
    then show ?thesis using True v(1) x by (simp add: remarkupval_def get_obj_ok [OF ob(1)])
  qed
qed

lemma remarkupvals_ok:
  assumes "minv {} S s" "set us \<subseteq> opens s" "S \<inter> opens s = {}" "minv {FUpv} (S \<union> set us) s"
  shows "wpE (\<lambda>_. False) (\<lambda>s'. marks {} S s s' \<and> minv {FUpv} S s') (foldE remarkupval us s)"
  using assms
proof (induction us arbitrary: s)
  case (Cons u us)
  have u: "u \<in> opens s" "u \<notin> S" using Cons.prems by auto
  have i: "minv {FUpv} (insert u (S \<union> set us)) s" using Cons.prems(4) by simp
  show ?case unfolding foldE.simps
  proof (rule wpE_bind [OF remarkupval_ok [OF Cons.prems(1) i u]], elim conjE)
    fix s1 assume s1: "marks {} S s s1" "minv {FUpv} (S \<union> set us) s1"
    have "wpE (\<lambda>_. False) (\<lambda>s'. marks {} S s1 s' \<and> minv {FUpv} S s') (foldE remarkupval us s1)"
      by (rule Cons.IH [OF marks_inv [OF s1(1)] _ _ s1(2)]) (use Cons.prems opens_marks [OF s1(1)] in auto)
    then show "wpE (\<lambda>_. False) (\<lambda>s'. marks {} S s s' \<and> minv {FUpv} S s') (foldE remarkupval us s1)"
      by (rule wpE_mono) (use s1(1) in \<open>auto intro: marks_trans\<close>)
  qed
qed (simp add: marks_refl)

section \<open>Moving whole lists\<close>

lemma same_heap:
  assumes "heap s' = heap s"
  shows "obj_is P s' = obj_is P s" "succs s' b = succs s b" "heap_ok s' = heap_ok s" "nw s' = nw s"
proof -
  have sl: "stack_slot s' = stack_slot s" using assms by (simp add: stack_slot_def fun_eq_iff)
  show o: "obj_is P s' = obj_is P s" for P using assms by (simp add: obj_is_def fun_eq_iff)
  show su: "succs s' b = succs s b" for b unfolding succs_def sl by (rule refl)
  show "nw s' = nw s" using assms by (simp add: nw_def fun_eq_iff)
  have "body_ok s' b = body_ok s b" for b by (simp add: body_ok_def o su cong: gbody.case_cong upv.case_cong)
  then show "heap_ok s' = heap_ok s" by (simp add: heap_ok_def assms)
qed

lemma move_weak:
  assumes "minv F S s" "gray s = []"
  shows "minv (insert FWeak F) S (s\<lparr>gray := weak s, weak := []\<rparr>)" (is "minv _ _ ?s")
proof -
  have e: "heap ?s = heap s" by simp
  note h = same_heap [OF e]
  have "node_ok (insert FWeak F) ?s a ob" if "heap s a = Some ob" "a \<notin> S" for a ob
  proof -
    have "node_ok F s a ob" using assms(1) that by (simp add: minv_def mark_ok_def)
    then show ?thesis using assms(2)
      by (auto simp: node_ok_def gray_ok_def h split: gbody.splits upv.splits)
  qed
  moreover have "lists_ok ?s" using assms by (auto simp: minv_def mark_ok_def lists_ok_def)
  ultimately show ?thesis using assms(1) by (simp add: minv_def mark_ok_def h colour_ok_def)
qed

lemma move_again:
  assumes "minv F S s" "gray s = []"
  shows "minv (insert FAgain F) S (s\<lparr>gray := grayagain s, grayagain := []\<rparr>)" (is "minv _ _ ?s")
proof -
  have e: "heap ?s = heap s" by simp
  note h = same_heap [OF e]
  have "node_ok (insert FAgain F) ?s a ob" if "heap s a = Some ob" "a \<notin> S" for a ob
  proof -
    have "node_ok F s a ob" using assms(1) that by (simp add: minv_def mark_ok_def)
    then show ?thesis using assms(2)
      by (auto simp: node_ok_def gray_ok_def h split: gbody.splits upv.splits)
  qed
  moreover have "lists_ok ?s" using assms by (auto simp: minv_def mark_ok_def lists_ok_def h)
  ultimately show ?thesis using assms(1) by (simp add: minv_def mark_ok_def h colour_ok_def)
qed

text \<open>The work is never more than the number of objects.\<close>

lemma work_bound:
  assumes "minv F S s"
  shows "work s \<le> card (dom (heap s))"
proof -
  have f: "finite (dom (heap s))" using assms by (simp add: minv_def heap_ok_def)
  have l: "lists_ok s" using assms by (simp add: minv_def mark_ok_def)
  have g: "set (gray s) \<subseteq> dom (heap s) - whites s"
  proof
    fix a assume "a \<in> set (gray s)"
    then have "a \<in> set (gray s @ grayagain s @ weak s)" by simp
    then obtain ob where "heap s a = Some ob" "\<not> iswhite (o_marked ob)" by (rule listed [OF l])
    then show "a \<in> dom (heap s) - whites s" by (simp add: whites_def dom_def)
  qed
  have w: "whites s \<subseteq> dom (heap s)" by (auto simp: whites_def)
  have "length (gray s) = card (set (gray s))" using l by (simp add: lists_ok_def distinct_card)
  moreover have "card (whites s \<union> set (gray s)) = card (whites s) + card (set (gray s))"
    by (rule card_Un_disjoint) (use g w f in \<open>auto intro: finite_subset\<close>)
  ultimately have "work s = card (whites s \<union> set (gray s))" by (simp add: work_def)
  also have "\<dots> \<le> card (dom (heap s))" by (rule card_mono [OF f]) (use g w in auto)
  finally show ?thesis .
qed

lemma evolves_dom: "evolves s s' \<Longrightarrow> dom (heap s') = dom (heap s)"
proof -
  assume e: "evolves s s'"
  have "(heap s' a = None) = (heap s a = None)" for a
    using evolves_heap(1) [OF e, of a] evolves_heap(2) [OF e, of a] by (cases "heap s a") auto
  then show ?thesis by (auto simp: dom_def)
qed

lemma propagateall_all:
  assumes "minv F S s" "card (dom (heap s)) < n"
  shows "wpE (\<lambda>_. False) (\<lambda>s'. minv F S s' \<and> evolves s s' \<and> gray s' = []) (propagateall n s)"
  by (rule wpE_mono [OF propagateall_ok [OF assms(1)]]) (use work_bound [OF assms(1)] assms(2) in auto)

section \<open>Userdata to be finalised\<close>

definition is_udata :: "gbody \<Rightarrow> bool" where "is_udata b \<longleftrightarrow> (case b of OUserdata _ _ \<Rightarrow> True | _ \<Rightarrow> False)"

lemma is_udata_iff: "is_udata b \<longleftrightarrow> (\<exists>mt env. b = OUserdata mt env)"
  by (cases b) (auto simp: is_udata_def)

lemma sim_udata: "sim b b' \<Longrightarrow> is_udata b \<Longrightarrow> is_udata b'"
  by (auto simp: sim_def is_udata_iff)

lemma o_isdead_bits: "o_isdead w m \<longleftrightarrow> bit m 0 \<and> \<not> bit w 0 \<or> bit m 1 \<and> \<not> bit w 1"
proof -
  have "o_isdead w m \<longleftrightarrow> iswhite (m AND otherwhite w)" by (simp add: o_isdead_def iswhite_def and.assoc)
  then show ?thesis by (simp add: iswhite_bits otherwhite_def bit_simps bit_WHITEBITS)
qed

lemma bit_FINALIZED: "bit FINALIZED n \<longleftrightarrow> n = 3"
proof -
  have m: "FINALIZED = 2 ^ 3" by (simp add: FINALIZED_def)
  show ?thesis unfolding m bit_exp_iff by auto
qed

lemma markfinalized_bits [simp]:
  "iswhite (markfinalized m) = iswhite m" "isblack (markfinalized m) = isblack m" "o_isdead w (markfinalized m) = o_isdead w m"
  by (auto simp: markfinalized_def iswhite_bits isblack_bits o_isdead_bits bit_simps bit_FINALIZED)

lemma minv_recolour:
  assumes "minv F S s" "heap s a = Some ob" "iswhite m = iswhite (o_marked ob)" "isblack m = isblack (o_marked ob)"
    "o_isdead (g_white s) m = o_isdead (g_white s) (o_marked ob)" "is_udata (o_body ob)"
  shows "minv F S (remark a ob m s)" "evolves s (remark a ob m s)"
proof -
  let ?s = "remark a ob m s"
  have n: "nw ?s r = nw s r" for r using assms(2,3) by (auto simp: nw_def remark_def)
  have i: "obj_is P ?s r = obj_is P s r" for P r by (rule obj_is_remark [OF assms(2)])
  have h: "heap ?s x = (if x = a then Some (ob\<lparr>o_marked := m\<rparr>) else heap s x)" for x by (simp add: remark_def)
  have na: "node_ok F ?s a (ob\<lparr>o_marked := m\<rparr>)" if "a \<notin> S"
    using minv_node [OF assms(1,2) that] assms(3,4,6) by (auto simp: node_ok_def gray_ok_def n is_udata_iff)
  have nx: "node_ok F ?s x obx" if "heap s x = Some obx" "x \<notin> S" for x obx
    by (rule node_ok_mono [OF minv_node [OF assms(1) that], where A = "{}"])
       (simp_all add: n succs_remark [OF assms(2)])
  have x: "node_ok F ?s x obx" if "heap ?s x = Some obx" "x \<notin> S" for x obx
    using that na nx [of x obx] unfolding h by (auto split: if_splits)
  have l: "lists_ok s" using assms(1) by (simp add: minv_def mark_ok_def)
  have "\<exists>ob'. heap ?s y = Some ob' \<and> \<not> iswhite (o_marked ob') \<and> traversable (o_body ob')"
    if "y \<in> set (gray s @ grayagain s @ weak s)" for y
    by (rule listed [OF l that]) (use assms(2,3) in \<open>cases "y = a", auto simp: remark_def\<close>)
  then have "lists_ok ?s" unfolding lists_ok_def i remark_lists by (intro conjI) (use l in \<open>simp_all add: lists_ok_def\<close>)
  moreover have "colour_ok ?s" using assms by (auto simp: minv_def mark_ok_def colour_ok_def remark_def)
  moreover have "heap_ok ?s" using assms(1,2) by (simp add: minv_def heap_ok_remark)
  ultimately show "minv F S ?s" using x unfolding minv_def mark_ok_def by blast
  show "evolves s ?s" by (rule evolvesI) (use assms(2,3) in \<open>auto simp: remark_def set_obj_def\<close>)
qed

lemma evolves_remark_lists:
  "heap s u = Some ob \<Longrightarrow> gray (remark u ob m s) = gray s \<and> grayagain (remark u ob m s) = grayagain s"
  by simp

definition separated :: "flag set \<Rightarrow> ref set \<Rightarrow> gstate \<Rightarrow> ref list \<Rightarrow> ref list \<times> ref list \<times> gstate \<Rightarrow> bool" where
  "separated F S s p r \<longleftrightarrow>
     (case r of (kept, moved, s') \<Rightarrow> minv F S s' \<and> evolves s s' \<and> gray s' = gray s \<and> set moved \<subseteq> set p)"

lemma separateudata_ok:
  "minv F S s \<Longrightarrow> \<forall>a \<in> set p. obj_is is_udata s a \<Longrightarrow> wpE (\<lambda>_. False) (separated F S s p) (separateudata al p s)"
proof (induction p arbitrary: s)
  case (Cons u p)
  obtain ob mt env where ob: "heap s u = Some ob" "o_body ob = OUserdata mt env"
    using Cons.prems(2) by (auto simp: obj_is_def is_udata_iff)
  have "\<forall>t \<in> set_option mt. obj_is is_table s t" using body_at [OF Cons.prems(1) ob(1)] ob(2) by (simp add: body_ok_def)
  moreover have "heap_ok s" using Cons.prems(1) by (simp add: minv_def)
  ultimately obtain tm where tm: "fasttm mt (tm_gc s) s = Inr tm" using fasttm_ok by metis
  have rest: "wpE (\<lambda>_. False) (\<lambda>(kept, moved, s'). minv F S s' \<and> evolves s s' \<and> gray s' = gray s \<and> set moved \<subseteq> set p)
      (separateudata al p s1)"
    if "minv F S s1" "evolves s s1" "gray s1 = gray s" for s1
  proof -
    have "\<forall>a \<in> set p. obj_is is_udata s1 a"
      using Cons.prems(2) evolves_obj_is [OF that(2)] sim_udata by auto
    from Cons.IH [OF that(1) this] show ?thesis
      by (rule wpE_mono) (use that in \<open>auto simp: separated_def intro: evolves_trans [OF that(2)]\<close>)
  qed
  let ?s = "remark u ob (markfinalized (o_marked ob)) s"
  have r: "minv F S ?s" "evolves s ?s"
    by (rule minv_recolour [OF Cons.prems(1) ob(1)]; use ob(2) in \<open>simp add: is_udata_iff\<close>)+
  show ?case
    unfolding separateudata.simps get_obj_ok [OF ob(1)] bindE_Inr ob(2) gbody.case tm upd_mark_ok [OF ob(1)]
    by (split if_split, intro conjI impI; rule wpE_bind [OF rest]) (auto simp: Cons.prems(1) r separated_def)
qed (simp add: separated_def)

section \<open>Marking the userdata that are kept for their finalisers\<close>

lemma mark_tmu_ok:
  assumes s: "minv F (insert u S) s" "obj_is is_udata s u"
  shows "wpE (\<lambda>_. False) (\<lambda>s'. minv F S s' \<and> evolves s s' \<and> nw s' u)
    (bindE (upd_mark u (makewhite (g_white s)) s) (reallymarkobject MARKDEPTH u))"
proof -
  obtain ob mt env where ob: "heap s u = Some ob" "o_body ob = OUserdata mt env"
    using s(2) by (auto simp: obj_is_def is_udata_iff)
  define m where "m = gray2black (white2gray (makewhite (g_white s) (o_marked ob)))"
  define s1 where "s1 = remark u ob m s"
  have m: "\<not> iswhite m" "isblack m" by (simp_all add: m_def)
  have "minv F (insert u (insert u S)) s1" unfolding s1_def by (rule minv_remark [OF s(1) ob(1) m(1)])
  then have m1: "minv F (insert u S) s1" by simp
  have e1: "evolves s s1" unfolding s1_def by (rule evolves_remark [OF ob(1) m(1)])
  have h1: "heap s1 u = Some (ob\<lparr>o_marked := m\<rparr>)" by (simp add: s1_def remark_def)
  have st: "bindE (upd_mark u (makewhite (g_white s)) s) (reallymarkobject MARKDEPTH u) =
      bindE (opt (mark_if (reallymarkobject 2)) mt s1) (mark_if (reallymarkobject 2) env)"
    using ob by (simp add: MARKDEPTH_def numeral_3_eq_3 numeral_2_eq_2 upd_mark_def get_obj_def set_obj_def remark_def s1_def m_def)
  have b: "body_ok s1 (OUserdata mt env)" using body_at [OF m1 h1] ob(2) by simp
  have r: "obj_is (\<lambda>c. rank c \<le> 2) s1 env" "\<And>t. mt = Some t \<Longrightarrow> obj_is (\<lambda>c. rank c \<le> 2) s1 t"
    using b by (auto simp: body_ok_def succs_def refs_of_def child_rank_def intro: obj_is_mono)
  note rm = marker_reallymarkobject [of 2]
  show ?thesis unfolding st
  proof (rule wpE_bind [OF marker.opt_mark_ok [OF rm m1 r(2)]], assumption, elim conjE)
    fix s2 assume s2: "marks F (insert u S) s1 s2" "\<forall>r \<in> set_option mt. nw s2 r"
    show "wpE (\<lambda>_. False) (\<lambda>s'. minv F S s' \<and> evolves s s' \<and> nw s' u) (mark_if (reallymarkobject 2) env s2)"
    proof (rule wpE_mono [OF marker.mark_if_ok [OF rm marks_inv [OF s2(1)] r(1) [folded marks_obj_is [OF s2(1)]]]], elim conjE)
      fix s3 assume s3: "marks F (insert u S) s2 s3" "nw s3 env"
      have m3: "marks F (insert u S) s1 s3" by (rule marks_trans [OF s2(1) s3(1)])
      have w: "\<not> iswhite (o_marked (ob\<lparr>o_marked := m\<rparr>))" using m by simp
      note l = marks_lists [OF m3 h1 w]
      have "u \<notin> set (gray s3 @ grayagain s3 @ weak s3)"
        by (rule not_listed [OF marks_inv [OF m3] l(1)]) (simp add: traversable_def ob(2))
      then have "node_ok F s3 u (ob\<lparr>o_marked := m\<rparr>)"
        using ob(2) m s3(2) s2(2) marks_nw [OF s3(1)] by (auto simp: node_ok_def refs_of_def stays_gray_def is_open_def is_thread_def split: option.splits)
      then have "minv F S s3" by (rule minv_discharge [OF marks_inv [OF m3] l(1)])
      then show "minv F S s3 \<and> evolves s s3 \<and> nw s3 u"
        using evolves_trans [OF e1 evolves_marks [OF m3]] l(1) m(1) by (auto simp: nw_def)
    qed
  qed
qed

lemma marktmu_ok:
  "minv F (S \<union> set us) s \<Longrightarrow> \<forall>u \<in> set us. obj_is is_udata s u \<Longrightarrow>
   wpE (\<lambda>_. False) (\<lambda>s'. minv F S s' \<and> evolves s s' \<and> (\<forall>u \<in> set us. nw s' u))
     (foldE (\<lambda>u s. bindE (upd_mark u (makewhite (g_white s)) s) (reallymarkobject MARKDEPTH u)) us s)"
proof (induction us arbitrary: s)
  case (Cons u us)
  have i: "minv F (insert u (S \<union> set us)) s" using Cons.prems(1) by simp
  have u: "obj_is is_udata s u" using Cons.prems(2) by simp
  show ?case unfolding foldE.simps
  proof (rule wpE_bind [OF mark_tmu_ok [OF i u]], elim conjE)
    fix s1 assume s1: "minv F (S \<union> set us) s1" "evolves s s1" "nw s1 u"
    have "\<forall>x \<in> set us. obj_is is_udata s1 x"
      using Cons.prems(2) evolves_obj_is [OF s1(2)] sim_udata by auto
    from Cons.IH [OF s1(1) this]
    show "wpE (\<lambda>_. False) (\<lambda>s'. minv F S s' \<and> evolves s s' \<and> (\<forall>x \<in> set (u # us). nw s' x))
      (foldE (\<lambda>u s. bindE (upd_mark u (makewhite (g_white s)) s) (reallymarkobject MARKDEPTH u)) us s1)"
      by (rule wpE_mono) (use s1 in \<open>auto intro: evolves_trans evolves_nw\<close>)
  qed
qed simp

end
