(* ===== verification/LuaGCClear.thy ===== *)
theory LuaGCClear
  imports LuaGCAtomic
begin

text \<open>
  Clearing weak tables: an entry stays only if neither its key nor its value is white, and the strings in
  it are marked, so that afterwards the table refers to nothing white.
\<close>

definition quiet :: "flag set \<Rightarrow> ref set \<Rightarrow> gstate \<Rightarrow> gstate \<Rightarrow> bool" where
  "quiet F S s s' \<longleftrightarrow> marks F S s s' \<and> gray s' = gray s"

lemma quiet_refl: "minv F S s \<Longrightarrow> quiet F S s s"
  by (simp add: quiet_def marks_refl)

lemma quiet_trans: "quiet F S s s1 \<Longrightarrow> quiet F S s1 s2 \<Longrightarrow> quiet F S s s2"
  by (auto simp: quiet_def intro: marks_trans)

lemma quiet_rules:
  assumes "quiet F S s s'"
  shows "minv F S s'" "nw s r \<Longrightarrow> nw s' r" "alloc s' r = alloc s r"
  using assms by (auto simp: quiet_def marks_inv marks_nw marks_alloc)

lemma stringmark_gray: "wpE (\<lambda>_. True) (\<lambda>s'. gray s' = gray s) (stringmark a s)"
  by (cases "heap s a") (simp_all add: stringmark_def upd_mark_def get_obj_def)

lemma stringmark_quiet:
  assumes "minv F S s" "obj_is is_string s a"
  shows "wpE (\<lambda>_. False) (\<lambda>s'. quiet F S s s' \<and> nw s' a) (stringmark a s)"
  using stringmark_ok [OF assms] stringmark_gray [of s a] by (cases "stringmark a s") (auto simp: quiet_def)

lemma wpE_bind2:
  "wpE E (\<lambda>(a, b). P a b) m \<Longrightarrow> (\<And>a b. P a b \<Longrightarrow> wpE E Q (f a b)) \<Longrightarrow> wpE E Q (bindE m (\<lambda>(a, b). f a b))"
  by (cases m) auto

lemma iscleared_ok:
  assumes s: "minv F S s" "\<forall>r \<in> vrefs [v]. alloc s r"
  shows "wpE (\<lambda>_. False) (\<lambda>(c, s'). quiet F S s s' \<and> (\<not> c \<longrightarrow> (\<forall>r \<in> vrefs [v]. nw s' r))) (iscleared v k s)"
proof (cases "gcref v")
  case None
  then show ?thesis using s(1) by (cases v) (simp_all add: iscleared_def quiet_refl)
next
  case (Some a)
  then obtain ob where ob: "heap s a = Some ob" using s(2) by (auto simp: alloc_def)
  show ?thesis
  proof (cases "v = VRef a \<and> is_string (o_body ob)")
    case True
    then have "obj_is is_string s a" using ob by (simp add: obj_is_def)
    moreover have "iscleared v k s = bindE (stringmark a s) (\<lambda>s. Inr (False, s))"
      using True ob by (simp add: iscleared_def get_obj_ok is_string_def split: gbody.splits)
    ultimately show ?thesis using Some by (auto intro!: wpE_bind [OF stringmark_quiet [OF s(1)]])
  next
    case False
    then obtain c where "iscleared v k s = Inr (iswhite (o_marked ob) \<or> c, s)"
      using Some ob by (cases v) (auto simp: iscleared_def get_obj_ok is_string_def split: gbody.splits)
    then show ?thesis using Some ob s(1) by (auto simp: nw_def quiet_refl)
  qed
qed

lemma clear_array_ok:
  "minv F S s \<Longrightarrow> \<forall>r \<in> vrefs vs. alloc s r \<Longrightarrow>
   wpE (\<lambda>_. False) (\<lambda>(vs', s'). quiet F S s s' \<and> list_all2 lost_value vs vs' \<and> (\<forall>r \<in> vrefs vs'. nw s' r)) (clear_array vs s)"
proof (induction vs)
  case (Cons v vs)
  have al: "\<forall>r \<in> vrefs vs. alloc s r" "\<forall>r \<in> vrefs [v]. alloc s r" using Cons.prems(2) by auto
  show ?case unfolding clear_array.simps
  proof (rule wpE_bind [OF Cons.IH [OF Cons.prems(1) al(1)]], clarify)
    fix vs1 s1 assume s1: "quiet F S s s1" "list_all2 lost_value vs vs1" "\<forall>r \<in> vrefs vs1. nw s1 r"
    have "\<forall>r \<in> vrefs [v]. alloc s1 r" using al(2) quiet_rules(3) [OF s1(1)] by simp
    from iscleared_ok [OF quiet_rules(1) [OF s1(1)] this, of False]
    show "wpE (\<lambda>_. False) (\<lambda>(vs', s'). quiet F S s s' \<and> list_all2 lost_value (v # vs) vs' \<and> (\<forall>r \<in> vrefs vs'. nw s' r))
      (bindE (iscleared v False s1) (\<lambda>(c, s). Inr ((if c then VNil else v) # vs1, s)))"
    proof (rule wpE_bind2)
      fix c s2 assume s2: "quiet F S s1 s2 \<and> (\<not> c \<longrightarrow> (\<forall>r \<in> vrefs [v]. nw s2 r))"
      then have "quiet F S s s2" by (auto intro: quiet_trans [OF s1(1)])
      then show "wpE (\<lambda>_. False) (\<lambda>(vs', s'). quiet F S s s' \<and> list_all2 lost_value (v # vs) vs' \<and> (\<forall>r \<in> vrefs vs'. nw s' r))
        (Inr ((if c then VNil else v) # vs1, s2))"
        using s1(2,3) s2 quiet_rules(2) [of F S s1 s2] by (auto simp: lost_value_def)
    qed
  qed
qed (simp add: quiet_refl)

lemma entry_cleared_ok:
  assumes s: "minv F S s" "\<forall>r \<in> vrefs [k, v]. alloc s r"
  shows "wpE (\<lambda>_. False) (\<lambda>(c, s'). quiet F S s s' \<and> (\<not> c \<longrightarrow> (\<forall>r \<in> vrefs [k, v]. nw s' r))) (entry_cleared (k, v) s)"
proof -
  have al: "\<forall>r \<in> vrefs [k]. alloc s r" "\<forall>r \<in> vrefs [v]. alloc s r" using s(2) by auto
  show ?thesis unfolding entry_cleared_def fst_conv snd_conv
  proof (rule wpE_bind [OF iscleared_ok [OF s(1) al(1)]], clarify)
    fix c s1 assume s1: "quiet F S s s1" "\<not> c \<longrightarrow> (\<forall>r \<in> vrefs [k]. nw s1 r)"
    have "\<forall>r \<in> vrefs [v]. alloc s1 r" using al(2) quiet_rules(3) [OF s1(1)] by simp
    from iscleared_ok [OF quiet_rules(1) [OF s1(1)] this, of False]
    have "wpE (\<lambda>_. False) (\<lambda>(c, s'). quiet F S s s' \<and> (\<not> c \<longrightarrow> (\<forall>r \<in> vrefs [k, v]. nw s' r))) (iscleared v False s1)" if "\<not> c"
      by (rule wpE_mono) (use s1 that in \<open>auto intro: quiet_trans [OF s1(1)] quiet_rules(2)\<close>)
    then show "wpE (\<lambda>_. False) (\<lambda>(c, s'). quiet F S s s' \<and> (\<not> c \<longrightarrow> (\<forall>r \<in> vrefs [k, v]. nw s' r)))
      (if c then Inr (True, s1) else iscleared v False s1)"
      using s1(1) by (auto intro: wpE_if)
  qed
qed

lemma clear_nodes_ok:
  "minv F S s \<Longrightarrow> \<forall>r \<in> kept_refs False False ns. alloc s r \<Longrightarrow>
   wpE (\<lambda>_. False) (\<lambda>(ns', s'). quiet F S s s' \<and> list_all2 lost_entry ns ns' \<and>
      (\<forall>r \<in> kept_refs False False ns'. nw s' r)) (clear_nodes ns s)"
proof (induction ns)
  case Nil
  then show ?case by (simp add: quiet_refl kept_refs_def)
next
  case (Cons n ns)
  obtain k v where n: "n = (k, v)" by (cases n)
  have al: "\<forall>r \<in> kept_refs False False ns. alloc s r" "v \<noteq> VNil \<Longrightarrow> \<forall>r \<in> vrefs [k, v]. alloc s r"
    using Cons.prems(2) n by (auto simp: kept_refs_Cons)
  show ?case unfolding clear_nodes.simps
  proof (rule wpE_bind [OF Cons.IH [OF Cons.prems(1) al(1)]], clarify)
    fix ns1 s1 assume s1: "quiet F S s s1" "list_all2 lost_entry ns ns1"
      "\<forall>r \<in> kept_refs False False ns1. nw s1 r"
    show "wpE (\<lambda>_. False) (\<lambda>(ns', s'). quiet F S s s' \<and> list_all2 lost_entry (n # ns) ns' \<and>
        (\<forall>r \<in> kept_refs False False ns'. nw s' r))
      (if snd n = VNil then Inr (n # ns1, s1)
       else bindE (entry_cleared n s1) (\<lambda>(c, s). Inr ((if c then removeentry (fst n, VNil) else n) # ns1, s)))"
    proof (cases "v = VNil")
      case True
      then show ?thesis using s1 n by (simp add: kept_refs_Cons lost_entry_def)
    next
      case False
      have al1: "\<forall>r \<in> vrefs [k, v]. alloc s1 r" using al(2) [OF False] quiet_rules(3) [OF s1(1)] by simp
      have r: "snd (removeentry (k, VNil)) = VNil" by (simp add: removeentry_def split: option.split)
      have "wpE (\<lambda>_. False) (\<lambda>(ns', s'). quiet F S s s' \<and> list_all2 lost_entry (n # ns) ns' \<and>
          (\<forall>r \<in> kept_refs False False ns'. nw s' r))
        (bindE (entry_cleared (k, v) s1) (\<lambda>(c, s). Inr ((if c then removeentry (k, VNil) else (k, v)) # ns1, s)))"
      proof (rule wpE_bind2 [OF entry_cleared_ok [OF quiet_rules(1) [OF s1(1)] al1]])
        fix c s2 assume s2: "quiet F S s1 s2 \<and> (\<not> c \<longrightarrow> (\<forall>r \<in> vrefs [k, v]. nw s2 r))"
        then have "quiet F S s s2" by (auto intro: quiet_trans [OF s1(1)])
        then show "wpE (\<lambda>_. False) (\<lambda>(ns', s'). quiet F S s s' \<and> list_all2 lost_entry (n # ns) ns' \<and>
            (\<forall>r \<in> kept_refs False False ns'. nw s' r)) (Inr ((if c then removeentry (k, VNil) else (k, v)) # ns1, s2))"
          using s1(2,3) s2 n False r quiet_rules(2) [of F S s1 s2] by (auto simp: kept_refs_Cons lost_entry_def)
      qed
      then show ?thesis unfolding n fst_conv snd_conv using False by simp
    qed
  qed
qed

section \<open>The list of weak tables\<close>

definition full :: "gstate \<Rightarrow> ref \<Rightarrow> bool" where
  "full s h \<longleftrightarrow> (\<exists>ob. heap s h = Some ob \<and> (\<forall>r \<in> vrefs (refs_of (o_body ob)). nw s r))"

lemma full_evolves: "evolves s s' \<Longrightarrow> full s h \<Longrightarrow> full s' h"
  using evolves_heap(2) [of s s' h] sim_refs evolves_nw unfolding full_def by blast

lemma weak_table:
  assumes s: "minv F {} s" "FWeak \<in> F" "h \<in> set (weak s)"
  obtains ob mt arr node where "heap s h = Some ob" "o_body ob = OTable mt arr node" "isgray (o_marked ob)"
    "\<forall>r \<in> strong_refs (o_marked ob) (o_body ob). nw s r"
proof -
  have l: "lists_ok s" using s(1) by (simp add: minv_def mark_ok_def)
  obtain ob where ob: "heap s h = Some ob" "\<not> iswhite (o_marked ob)" by (rule listed [OF l, of h]) (use s(3) in auto)
  have "obj_is is_table s h" using l s(3) by (simp add: lists_ok_def)
  then obtain mt arr node where b: "o_body ob = OTable mt arr node" using ob(1) by (auto simp: obj_is_def is_table_iff)
  have d: "h \<notin> set (gray s)" "h \<notin> set (grayagain s)" using l s(3) by (auto simp: lists_ok_def)
  have n: "node_ok F s h ob" using minv_node [OF s(1) ob(1)] by simp
  then have "isgray (o_marked ob)" using ob(2) s(3) by (auto simp: node_ok_def isgray_def split: if_splits)
  moreover have "\<forall>r \<in> strong_refs (o_marked ob) (o_body ob). nw s r"
    using n d b s(2,3) ob(2) by (auto simp: node_ok_def gray_ok_def split: if_splits)
  ultimately show ?thesis using that ob(1) b by blast
qed

lemma test_VALUEWEAK: "m AND VALUEWEAK \<noteq> 0 \<longleftrightarrow> bit m 4"
  using and_exp_eq_0_iff_not_bit [of m 4] by (simp add: VALUEWEAK_def)

lemma strong_refs_sub: "strong_refs m b \<subseteq> vrefs (refs_of b)"
  by (cases b) (auto simp: strong_refs_table table_refs kept_refs_def strong_refs_def split: if_splits)

lemma minv_weaken: "minv F S s \<Longrightarrow> S \<subseteq> S' \<Longrightarrow> minv F S' s"
  by (auto simp: minv_def intro: mark_ok_weaken)

definition cleared :: "flag set \<Rightarrow> gstate \<Rightarrow> gstate \<Rightarrow> bool" where
  "cleared F s s' \<longleftrightarrow> minv F {} s' \<and> evolves s s' \<and> gray s' = gray s \<and> grayagain s' = grayagain s \<and> weak s' = weak s"

lemma cleartable1_ok:
  assumes s: "minv F {} s" "FWeak \<in> F" "h \<in> set (weak s)"
  shows "wpE (\<lambda>_. False) (\<lambda>s'. cleared F s s' \<and> full s' h) (cleartable1 h s)"
proof -
  obtain ob mt arr node where ob: "heap s h = Some ob" "o_body ob = OTable mt arr node" "isgray (o_marked ob)"
    and st: "\<forall>r \<in> strong_refs (o_marked ob) (o_body ob). nw s r" by (rule weak_table [OF s])
  have s0: "minv F {h} s" by (rule minv_weaken [OF s(1)]) simp
  have w: "\<not> iswhite (o_marked ob)" "\<not> isblack (o_marked ob)" using ob(3) by (simp_all add: isgray_def)
  have "\<forall>r \<in> vrefs (refs_of (OTable mt arr node)). alloc s r"
    using body_at [OF s0 ob(1)] ob(2) by (auto simp: body_ok_def succs_def intro: obj_is_alloc)
  then have al: "\<forall>r \<in> vrefs arr. alloc s r" "\<forall>r \<in> kept_refs False False node. alloc s r" by (simp_all add: table_refs)
  have arr: "wpE (\<lambda>_. False) (\<lambda>(arr', s'). quiet F {h} s s' \<and> list_all2 lost_value arr arr' \<and> (\<forall>r \<in> vrefs arr'. nw s' r))
      (if o_marked ob AND VALUEWEAK \<noteq> 0 then clear_array arr s else Inr (arr, s))"
    unfolding test_VALUEWEAK
    by (intro wpE_if clear_array_ok s0 al) (use st ob(2) in \<open>simp add: strong_refs_table quiet_refl s0 lost_refl\<close>)
  show ?thesis unfolding cleartable1_def get_obj_ok [OF ob(1)] bindE_Inr ob(2) gbody.case
  proof (rule wpE_bind [OF arr], clarify)
    fix arr1 s1 assume s1: "quiet F {h} s s1" "list_all2 lost_value arr arr1" "\<forall>r \<in> vrefs arr1. nw s1 r"
    have "\<forall>r \<in> kept_refs False False node. alloc s1 r" using al(2) quiet_rules(3) [OF s1(1)] by simp
    from clear_nodes_ok [OF quiet_rules(1) [OF s1(1)] this]
    show "wpE (\<lambda>_. False) (\<lambda>s'. cleared F s s' \<and> full s' h)
      (bindE (clear_nodes node s1) (\<lambda>(node, s). set_body h (OTable mt arr1 node) s))"
    proof (rule wpE_bind, clarify)
      fix node2 s2 assume s2: "quiet F {h} s1 s2" "list_all2 lost_entry node node2"
        "\<forall>r \<in> kept_refs False False node2. nw s2 r"
      have q: "quiet F {h} s s2" by (rule quiet_trans [OF s1(1) s2(1)])
      then have m: "marks F {h} s s2" by (simp add: quiet_def)
      note l = marks_lists [OF m ob(1) w(1)]
      let ?b = "OTable mt arr1 node2"
      have sm: "sim (o_body ob) ?b" using ob(2) s1(2) s2(2) by (simp add: sim_table)
      define s3 where "s3 = change h ob ?b s2"
      have m3: "minv F {h} s3" unfolding s3_def by (rule minv_change [OF l(1) sm marks_inv [OF m]]) simp
      have h3: "heap s3 h = Some (ob\<lparr>o_body := ?b\<rparr>)" by (simp add: s3_def)
      have "\<forall>r \<in> set_option mt. nw s2 r" using st ob(2) marks_nw [OF m] by (simp add: strong_refs_table)
      then have n: "\<forall>r \<in> vrefs (refs_of ?b). nw s3 r"
        using s1(3) s2(3) quiet_rules(2) [OF s2(1)] by (auto simp: table_refs s3_def nw_change [OF l(1) sm])
      have "h \<in> set (weak s3)" using s(3) l(4) by (simp add: s3_def)
      then have "node_ok F s3 h (ob\<lparr>o_body := ?b\<rparr>)"
        using w n strong_refs_sub [of "o_marked ob" ?b] by (auto simp: node_ok_def gray_ok_def)
      then have "minv F {} s3" by (rule minv_discharge [OF m3 h3])
      moreover have "evolves s s3" unfolding s3_def
        by (rule evolves_trans [OF evolves_marks [OF m] evolves_change [OF l(1) sm]])
      moreover have "full s3 h" using h3 n by (simp add: full_def)
      ultimately have "cleared F s s3 \<and> full s3 h" using q l(3,4) by (simp add: cleared_def quiet_def s3_def)
      then show "wpE (\<lambda>_. False) (\<lambda>s'. cleared F s s' \<and> full s' h) (set_body h ?b s2)"
        by (simp add: set_body_ok [OF l(1)] s3_def)
    qed
  qed
qed

lemma cleared_trans: "cleared F s s1 \<Longrightarrow> cleared F s1 s2 \<Longrightarrow> cleared F s s2"
  by (auto simp: cleared_def intro: evolves_trans)

lemma cleartable_ok:
  "minv F {} s \<Longrightarrow> FWeak \<in> F \<Longrightarrow> set hs \<subseteq> set (weak s) \<Longrightarrow>
   wpE (\<lambda>_. False) (\<lambda>s'. cleared F s s' \<and> (\<forall>h \<in> set hs. full s' h)) (cleartable hs s)"
  unfolding cleartable_def
proof (induction hs arbitrary: s)
  case Nil
  then show ?case by (simp add: cleared_def)
next
  case (Cons h hs)
  have h: "h \<in> set (weak s)" using Cons.prems(3) by simp
  show ?case unfolding foldE.simps
  proof (rule wpE_bind [OF cleartable1_ok [OF Cons.prems(1,2) h]], elim conjE)
    fix s1 assume s1: "cleared F s s1" "full s1 h"
    then have "minv F {} s1" "set hs \<subseteq> set (weak s1)" using Cons.prems(3) by (simp_all add: cleared_def)
    from Cons.IH [OF this(1) Cons.prems(2) this(2)]
    show "wpE (\<lambda>_. False) (\<lambda>s'. cleared F s s' \<and> (\<forall>x \<in> set (h # hs). full s' x)) (foldE cleartable1 hs s1)"
    proof (rule wpE_mono, elim conjE)
      fix s2 assume s2: "cleared F s1 s2" "\<forall>x \<in> set hs. full s2 x"
      then have "full s2 h" using full_evolves s1(2) unfolding cleared_def by blast
      then show "cleared F s s2 \<and> (\<forall>x \<in> set (h # hs). full s2 x)" using cleared_trans [OF s1(1) s2(1)] s2(2) by simp
    qed
  qed
qed

end
