(* ===== verification/LuaGCSafe.thy ===== *)
theory LuaGCSafe
  imports LuaGCClear
begin

text \<open>
  The atomic step as a whole: started when nothing gray is left, it returns, and everything that the
  program can reach from the roots afterwards is alive under the flipped white.
\<close>

section \<open>Reachable objects\<close>

definition gc_roots :: "ref \<Rightarrow> gstate \<Rightarrow> ref set" where
  "gc_roots L s = {mainthread s, L} \<union> vrefs [registry s] \<union> \<Union> (set_option ` set (mts s)) \<union> set (tmudata s)"

inductive reach :: "gstate \<Rightarrow> ref set \<Rightarrow> ref \<Rightarrow> bool" for s R where
  reach_root: "r \<in> R \<Longrightarrow> reach s R r"
| reach_step: "reach s R a \<Longrightarrow> heap s a = Some ob \<Longrightarrow> r \<in> succs s (o_body ob) \<Longrightarrow> reach s R r"

lemma reach_nw:
  assumes "\<forall>r \<in> R. nw s r" "\<And>a ob r. nw s a \<Longrightarrow> heap s a = Some ob \<Longrightarrow> r \<in> succs s (o_body ob) \<Longrightarrow> nw s r"
  shows "reach s R r \<Longrightarrow> nw s r"
  by (induction rule: reach.induct) (use assms in blast)+

abbreviation done_flags :: "flag set" where "done_flags \<equiv> {FAgain, FWeak, FUpv}"

text \<open>At the end no object that is not white refers to a white one.\<close>

lemma closed:
  assumes s: "minv F {} s" "FUpv \<in> F" "FAgain \<in> F" "gray s = []" "\<forall>h \<in> set (weak s). full s h"
    and a: "nw s a" "heap s a = Some ob" "r \<in> succs s (o_body ob)"
  shows "nw s r"
proof -
  have n: "node_ok F s a ob" using minv_node [OF s(1) a(2)] by simp
  have w: "\<not> iswhite (o_marked ob)" using a(1,2) by (simp add: nw_def)
  have e: "\<not> is_open (o_body ob) \<Longrightarrow> succs s (o_body ob) = vrefs (refs_of (o_body ob))"
    by (auto simp: succs_def is_open_def split: gbody.splits upv.splits)
  show ?thesis
  proof (cases "isblack (o_marked ob)")
    case True
    then show ?thesis using n w a(3) e by (auto simp: node_ok_def stays_gray_def)
  next
    case False
    then have g: "gray_ok F s a ob" using n w by (simp add: node_ok_def)
    have f: "\<forall>r \<in> vrefs (refs_of (o_body ob)). nw s r" if "a \<in> set (weak s)"
      using s(5) that a(2) by (auto simp: full_def)
    consider "is_string (o_body ob)" | "is_open (o_body ob)" | "\<not> is_open (o_body ob)" "\<not> is_string (o_body ob)" by blast
    then show ?thesis
    proof cases
      case 1
      then show ?thesis using a(3) by (auto simp: is_string_def succs_def refs_of_def split: gbody.splits)
    next
      case 2
      then show ?thesis using g a(3) s(2) by (auto simp: gray_ok_def is_open_def split: gbody.splits upv.splits)
    next
      case 3
      then have "a \<in> set (weak s) \<or> (\<forall>r \<in> vrefs (refs_of (o_body ob)). nw s r)"
        using g s(3,4) by (auto simp: gray_ok_def is_open_def is_string_def split: gbody.splits upv.splits)
      then show ?thesis using f a(3) e [OF 3(1)] by auto
    qed
  qed
qed

section \<open>What holds before\<close>

definition atomic_pre :: "ref \<Rightarrow> gstate \<Rightarrow> bool" where
  "atomic_pre L s \<longleftrightarrow>
     minv {} (set (tmudata s)) s \<and> gray s = [] \<and> set (uvhead s) = opens s \<and>
     (\<forall>a \<in> set (tmudata s) \<union> set (after_main s). obj_is is_udata s a) \<and>
     nw s (mainthread s) \<and> (\<forall>r \<in> vrefs [registry s]. nw s r) \<and>
     alloc s L \<and> (\<forall>r \<in> \<Union> (set_option ` set (mts s)). alloc s r)"

section \<open>The step as a whole\<close>

text \<open>What stays during the step: the roots, the objects, and the colour of what is not white.\<close>

definition grows :: "gstate \<Rightarrow> gstate \<Rightarrow> bool" where
  "grows s s' \<longleftrightarrow>
     mainthread s' = mainthread s \<and> registry s' = registry s \<and> mts s' = mts s \<and> g_white s' = g_white s \<and>
     (\<forall>a. heap s a = None \<longrightarrow> heap s' a = None) \<and>
     (\<forall>a ob. heap s a = Some ob \<longrightarrow>
        (\<exists>ob'. heap s' a = Some ob' \<and> sim (o_body ob) (o_body ob') \<and> (iswhite (o_marked ob') \<longrightarrow> iswhite (o_marked ob))))"

lemma evolves_fields:
  assumes "evolves s s'"
  shows "tmudata s' = tmudata s" "mainthread s' = mainthread s" "swept s' = swept s" "rootgc s' = rootgc s"
  using assms unfolding evolves_def by auto

lemma grows_evolves: "evolves s s' \<Longrightarrow> grows s s'"
proof -
  assume e: "evolves s s'"
  have "mainthread s' = mainthread s \<and> registry s' = registry s \<and> mts s' = mts s \<and> g_white s' = g_white s"
    by (subst (1 2 3 4) evolves_eq [OF e]) simp
  then show ?thesis using evolves_heap [OF e] by (simp add: grows_def)
qed

lemma grows_heap:
  assumes "grows s s'"
  shows "heap s a = None \<Longrightarrow> heap s' a = None"
    and "heap s a = Some ob \<Longrightarrow>
      \<exists>ob'. heap s' a = Some ob' \<and> sim (o_body ob) (o_body ob') \<and> (iswhite (o_marked ob') \<longrightarrow> iswhite (o_marked ob))"
  using assms unfolding grows_def by blast+

lemma grows_trans:
  assumes "grows s s1" "grows s1 s2"
  shows "grows s s2"
proof -
  have "\<exists>ob'. heap s2 a = Some ob' \<and> sim (o_body ob) (o_body ob') \<and> (iswhite (o_marked ob') \<longrightarrow> iswhite (o_marked ob))"
    if "heap s a = Some ob" for a ob
    using grows_heap(2) [OF assms(1) that] grows_heap(2) [OF assms(2), of a] sim_trans by blast
  moreover have "heap s a = None \<Longrightarrow> heap s2 a = None" for a using grows_heap(1) assms by blast
  moreover have "mainthread s2 = mainthread s \<and> registry s2 = registry s \<and> mts s2 = mts s \<and> g_white s2 = g_white s"
    using assms by (simp add: grows_def)
  ultimately show ?thesis unfolding grows_def by blast
qed

lemma grows_nw: "grows s s' \<Longrightarrow> nw s r \<Longrightarrow> nw s' r"
  using grows_heap(2) unfolding nw_def by blast

lemma grows_obj_is: "grows s s' \<Longrightarrow> obj_is P s r \<Longrightarrow> (\<And>b b'. sim b b' \<Longrightarrow> P b \<Longrightarrow> P b') \<Longrightarrow> obj_is P s' r"
  using grows_heap(2) unfolding obj_is_def by blast

lemma grows_alloc: "grows s s' \<Longrightarrow> alloc s r \<Longrightarrow> alloc s' r"
  using grows_heap(2) unfolding alloc_def by blast

lemma grows_dom: "grows s s' \<Longrightarrow> dom (heap s') = dom (heap s)"
proof -
  assume g: "grows s s'"
  have "(heap s' a = None) = (heap s a = None)" for a
    using grows_heap [OF g, of a] by (cases "heap s a") auto
  then show ?thesis by (auto simp: dom_def)
qed

lemma minv_same:
  assumes "heap s' = heap s" "gray s' = gray s" "grayagain s' = grayagain s" "weak s' = weak s" "g_white s' = g_white s"
  shows "minv F S s' = minv F S s"
proof -
  note h = same_heap [OF assms(1)]
  have "node_ok F s' a ob = node_ok F s a ob" for a ob
    by (simp add: node_ok_def gray_ok_def assms h cong: gbody.case_cong upv.case_cong)
  then show ?thesis by (simp add: minv_def mark_ok_def lists_ok_def colour_ok_def assms h)
qed

lemma separate_phase:
  assumes "minv F S s" "\<forall>a \<in> set (after_main s). obj_is is_udata s a"
  shows "wpE (\<lambda>_. False) (\<lambda>s'. minv F S s' \<and> grows s s' \<and> gray s' = gray s \<and>
      set (tmudata s) \<subseteq> set (tmudata s') \<and> set (tmudata s') \<subseteq> set (tmudata s) \<union> set (after_main s)) (luaC_separateudata al s)"
  unfolding luaC_separateudata_def
proof (rule wpE_bind [OF separateudata_ok [OF assms]], clarify)
  fix kept moved s1 assume "separated F S s (after_main s) (kept, moved, s1)"
  then have s1: "minv F S s1" "evolves s s1" "gray s1 = gray s" "set moved \<subseteq> set (after_main s)"
    by (simp_all add: separated_def)
  have "tmudata s1 = tmudata s" by (subst evolves_eq [OF s1(2)]) simp
  moreover have "grows s (s1\<lparr>rootgc := up_to_main s1 @ kept, swept := [], tmudata := tmudata s1 @ moved\<rparr>)"
    using grows_evolves [OF s1(2)] by (simp add: grows_def)
  moreover have "minv F S (s1\<lparr>rootgc := up_to_main s1 @ kept, swept := [], tmudata := tmudata s1 @ moved\<rparr>)"
    using s1(1) by (subst minv_same) auto
  ultimately show "wpE (\<lambda>_. False) (\<lambda>s'. minv F S s' \<and> grows s s' \<and> gray s' = gray s \<and>
      set (tmudata s) \<subseteq> set (tmudata s') \<and> set (tmudata s') \<subseteq> set (tmudata s) \<union> set (after_main s))
    (Inr (s1\<lparr>rootgc := up_to_main s1 @ kept, swept := [], tmudata := tmudata s1 @ moved\<rparr>))"
    using s1 by auto
qed

text \<open>A phase that ends with \<open>propagateall\<close>.\<close>

lemma propagate_phase:
  assumes "minv F S s1" "grows s s1" "card (dom (heap s)) < n"
  shows "wpE (\<lambda>_. False) (\<lambda>s'. minv F S s' \<and> grows s s' \<and> evolves s1 s' \<and> gray s' = []) (propagateall n s1)"
  by (rule wpE_mono [OF propagateall_all [OF assms(1)]])
     (use assms(3) grows_dom [OF assms(2)] in \<open>auto intro: grows_trans [OF assms(2)] grows_evolves\<close>)

lemma upvals_phase:
  assumes "atomic_pre L s"
  shows "wpE (\<lambda>_. False) (\<lambda>s'. minv {FUpv} (set (tmudata s)) s' \<and> evolves s s') (remarkupvals s)"
proof -
  have a: "minv {} (set (tmudata s)) s" "set (uvhead s) = opens s" "\<forall>a \<in> set (tmudata s). obj_is is_udata s a"
    using assms by (auto simp: atomic_pre_def)
  have "set (tmudata s) \<inter> opens s = {}" using a(3) by (fastforce simp: opens_def obj_is_def is_udata_iff is_open_def)
  moreover have "minv {FUpv} (set (tmudata s) \<union> set (uvhead s)) s" by (rule start_upvals [OF a(1)]) (simp add: a(2))
  ultimately show ?thesis unfolding remarkupvals_def using a
    by (intro wpE_mono [OF remarkupvals_ok [OF a(1)]]) (auto intro: evolves_marks)
qed

text \<open>The invariant with the roots marked, as it is between the phases.\<close>

definition marked_roots :: "ref \<Rightarrow> gstate \<Rightarrow> bool" where
  "marked_roots L s \<longleftrightarrow> (\<forall>r \<in> {mainthread s, L} \<union> vrefs [registry s] \<union> \<Union> (set_option ` set (mts s)). nw s r)"

lemma marked_roots_grows: "grows s s' \<Longrightarrow> marked_roots L s \<Longrightarrow> marked_roots L s'"
  unfolding marked_roots_def using grows_nw [of s s'] by (simp add: grows_def)

lemma roots_phase:
  assumes "minv F S s1" "grows s s1" "atomic_pre L s"
  shows "wpE (\<lambda>_. False) (\<lambda>s'. minv F S s' \<and> evolves s1 s' \<and> marked_roots L s') (bindE (markobject L s1) markmt)"
proof -
  have f: "mainthread s1 = mainthread s" "registry s1 = registry s" "mts s1 = mts s"
    using assms(2) by (auto simp: grows_def)
  have p: "nw s1 (mainthread s1)" "\<forall>r \<in> vrefs [registry s1]. nw s1 r" "alloc s1 L"
    "\<forall>x \<in> set (mts s1). \<forall>r \<in> set_option x. alloc s1 r"
    using assms(3) grows_nw [OF assms(2)] grows_alloc [OF assms(2)] unfolding f by (auto simp: atomic_pre_def)
  have "marked F S s1 ({L} \<union> (\<Union>x \<in> set (mts s1). set_option x)) (bindE (markobject L s1) (foldE (opt markobject) (mts s1)))"
    by (intro marked_bind markobject_ok opt_markobjects_ok assms(1) p marks_inv)
       (use p(4) in \<open>simp_all add: marks_alloc\<close>)
  moreover have "bindE (markobject L s1) (foldE (opt markobject) (mts s1)) = bindE (markobject L s1) markmt"
  proof (cases "markobject L s1")
    case (Inr s2)
    have "wpE (\<lambda>_. False) (\<lambda>s'. marks F S s1 s' \<and> (\<forall>r \<in> {L}. nw s' r)) (markobject L s1)"
      by (rule markobject_ok [OF assms(1) p(3)])
    then have "marks F S s1 s2" using Inr by simp
    then have "mts s2 = mts s1" by (simp add: marks_def)
    then show ?thesis using Inr by (simp add: markmt_def)
  qed simp
  ultimately have m: "marked F S s1 ({L} \<union> (\<Union>x \<in> set (mts s1). set_option x)) (bindE (markobject L s1) markmt)" by simp
  show ?thesis
  proof (rule wpE_mono [OF m], elim conjE)
    fix s' assume s': "marks F S s1 s'" "\<forall>r \<in> {L} \<union> (\<Union>x \<in> set (mts s1). set_option x). nw s' r"
    have "mainthread s' = mainthread s1 \<and> registry s' = registry s1 \<and> mts s' = mts s1"
      using s'(1) by (simp add: marks_def)
    then have "marked_roots L s'" using s'(2) p(1,2) marks_nw [OF s'(1)] by (auto simp: marked_roots_def)
    then show "minv F S s' \<and> evolves s1 s' \<and> marked_roots L s'"
      using s'(1) by (simp add: marks_inv evolves_marks)
  qed
qed

text \<open>Marking until only the userdata to be finalised remain.\<close>

lemma first_phases:
  assumes "atomic_pre L s" "card (dom (heap s)) < n"
  defines "T \<equiv> set (tmudata s)"
  shows "wpE (\<lambda>_. False) (\<lambda>s'. minv done_flags T s' \<and> evolves s s' \<and> marked_roots L s' \<and> gray s' = [])
    (bindE (remarkupvals s) (\<lambda>s.
     bindE (propagateall n s) (\<lambda>s.
     bindE (bindE (markobject L (s\<lparr>gray := weak s, weak := []\<rparr>)) markmt) (\<lambda>s.
     bindE (propagateall n s) (\<lambda>s.
     propagateall n (s\<lparr>gray := grayagain s, grayagain := []\<rparr>))))))"
proof (rule wpE_bind [OF upvals_phase [OF assms(1), folded T_def]], elim conjE)
  fix s1 assume s1: "minv {FUpv} T s1" "evolves s s1"
  let ?Q = "\<lambda>s'. minv done_flags T s' \<and> evolves s s' \<and> marked_roots L s' \<and> gray s' = []"
  show "wpE (\<lambda>_. False) ?Q
    (bindE (propagateall n s1) (\<lambda>s. bindE (bindE (markobject L (s\<lparr>gray := weak s, weak := []\<rparr>)) markmt) (\<lambda>s.
     bindE (propagateall n s) (\<lambda>s. propagateall n (s\<lparr>gray := grayagain s, grayagain := []\<rparr>)))))"
  proof (rule wpE_bind [OF propagate_phase [OF s1(1) grows_evolves [OF s1(2)] assms(2)]], elim conjE)
    fix s2 assume s2: "minv {FUpv} T s2" "evolves s1 s2" "gray s2 = []"
    let ?s = "s2\<lparr>gray := weak s2, weak := []\<rparr>"
    have m: "minv {FWeak, FUpv} T ?s" by (rule move_weak [OF s2(1,3)])
    have "evolves s2 (s2\<lparr>gray := weak s2, grayagain := grayagain s2, weak := []\<rparr>)" by (rule evolves_lists)
    then have e: "evolves s ?s" using evolves_trans [OF evolves_trans [OF s1(2) s2(2)]] by simp
    show "wpE (\<lambda>_. False) ?Q (bindE (bindE (markobject L ?s) markmt) (\<lambda>s.
      bindE (propagateall n s) (\<lambda>s. propagateall n (s\<lparr>gray := grayagain s, grayagain := []\<rparr>))))"
    proof (rule wpE_bind [OF roots_phase [OF m grows_evolves [OF e] assms(1)]], elim conjE)
      fix s3 assume s3: "minv {FWeak, FUpv} T s3" "evolves ?s s3" "marked_roots L s3"
      have e3: "evolves s s3" by (rule evolves_trans [OF e s3(2)])
      show "wpE (\<lambda>_. False) ?Q (bindE (propagateall n s3) (\<lambda>s. propagateall n (s\<lparr>gray := grayagain s, grayagain := []\<rparr>)))"
      proof (rule wpE_bind [OF propagate_phase [OF s3(1) grows_evolves [OF e3] assms(2)]], elim conjE)
        fix s4 assume s4: "minv {FWeak, FUpv} T s4" "evolves s3 s4" "gray s4 = []"
        let ?t = "s4\<lparr>gray := grayagain s4, grayagain := []\<rparr>"
        have m4: "minv done_flags T ?t" by (rule move_again [OF s4(1,3)])
        have "evolves s4 (s4\<lparr>gray := grayagain s4, grayagain := [], weak := weak s4\<rparr>)" by (rule evolves_lists)
        then have e4: "evolves s3 ?t" using evolves_trans [OF s4(2)] by simp
        show "wpE (\<lambda>_. False) ?Q (propagateall n ?t)"
        proof (rule wpE_mono [OF propagate_phase [OF m4 grows_evolves [OF evolves_trans [OF e3 e4]] assms(2)]], elim conjE)
          fix s5 assume s5: "minv done_flags T s5" "evolves ?t s5" "gray s5 = []"
          have e5: "evolves s3 s5" by (rule evolves_trans [OF e4 s5(2)])
          then show "?Q s5" using s5 evolves_trans [OF e3 e5] marked_roots_grows [OF grows_evolves [OF e5] s3(3)] by simp
        qed
      qed
    qed
  qed
qed

text \<open>The userdata, what they keep, and the weak tables.\<close>

lemma last_phases:
  assumes s: "minv done_flags (set (tmudata s)) s" "gray s = []" "card (dom (heap s)) < n"
    and u: "\<forall>a \<in> set (tmudata s) \<union> set (after_main s). obj_is is_udata s a"
  shows "wpE (\<lambda>_. False) (\<lambda>s'. minv done_flags {} s' \<and> grows s s' \<and> gray s' = [] \<and>
      (\<forall>a \<in> set (tmudata s'). nw s' a) \<and> (\<forall>h \<in> set (weak s'). full s' h))
    (bindE (luaC_separateudata False s) (\<lambda>s. bindE (marktmu s) (\<lambda>s. bindE (propagateall n s) (\<lambda>s. cleartable (weak s) s))))"
proof (rule wpE_bind [OF separate_phase [OF s(1)]], use u in simp, elim conjE)
  let ?Q = "\<lambda>s'. minv done_flags {} s' \<and> grows s s' \<and> gray s' = [] \<and>
      (\<forall>a \<in> set (tmudata s'). nw s' a) \<and> (\<forall>h \<in> set (weak s'). full s' h)"
  fix s1 assume s1: "minv done_flags (set (tmudata s)) s1" "grows s s1"
    "set (tmudata s) \<subseteq> set (tmudata s1)" "set (tmudata s1) \<subseteq> set (tmudata s) \<union> set (after_main s)"
  have m1: "minv done_flags ({} \<union> set (tmudata s1)) s1" by (rule minv_weaken [OF s1(1)]) (use s1(3) in simp)
  have "\<forall>a \<in> set (tmudata s1). obj_is is_udata s1 a"
    using u s1(4) grows_obj_is [OF s1(2), of is_udata] sim_udata by blast
  note marktmu_ok [OF m1 this, folded marktmu_def]
  then show "wpE (\<lambda>_. False) ?Q (bindE (marktmu s1) (\<lambda>s. bindE (propagateall n s) (\<lambda>s. cleartable (weak s) s)))"
  proof (rule wpE_bind, elim conjE)
    fix s2 assume s2: "minv done_flags {} s2" "evolves s1 s2" "\<forall>a \<in> set (tmudata s1). nw s2 a"
    have g2: "grows s s2" by (rule grows_trans [OF s1(2) grows_evolves [OF s2(2)]])
    have t2: "tmudata s2 = tmudata s1" by (subst evolves_eq [OF s2(2)]) simp
    show "wpE (\<lambda>_. False) ?Q (bindE (propagateall n s2) (\<lambda>s. cleartable (weak s) s))"
    proof (rule wpE_bind [OF propagate_phase [OF s2(1) g2 s(3)]], elim conjE)
      fix s3 assume s3: "minv done_flags {} s3" "grows s s3" "evolves s2 s3" "gray s3 = []"
      have t3: "tmudata s3 = tmudata s2" by (subst evolves_eq [OF s3(3)]) simp
      show "wpE (\<lambda>_. False) ?Q (cleartable (weak s3) s3)"
      proof (rule wpE_mono [OF cleartable_ok [OF s3(1)]], simp, rule subset_refl, elim conjE)
        fix s4 assume s4: "cleared done_flags s3 s4" "\<forall>h \<in> set (weak s3). full s4 h"
        have e4: "evolves s3 s4" using s4(1) by (simp add: cleared_def)
        have t4: "tmudata s4 = tmudata s3" by (subst evolves_eq [OF e4]) simp
        have "\<forall>a \<in> set (tmudata s4). nw s4 a"
          using s2(3) evolves_nw [OF evolves_trans [OF s3(3) e4]] by (simp add: t4 t3 t2)
        then show "?Q s4"
          using s4 s3(4) grows_trans [OF s3(2) grows_evolves [OF e4]] by (simp add: cleared_def)
      qed
    qed
  qed
qed

lemma atomic_split:
  "atomic n L s =
    bindE (bindE (remarkupvals s) (\<lambda>s.
           bindE (propagateall n s) (\<lambda>s.
           bindE (bindE (markobject L (s\<lparr>gray := weak s, weak := []\<rparr>)) markmt) (\<lambda>s.
           bindE (propagateall n s) (\<lambda>s.
           propagateall n (s\<lparr>gray := grayagain s, grayagain := []\<rparr>)))))) (\<lambda>s.
    bindE (bindE (luaC_separateudata False s) (\<lambda>s. bindE (marktmu s) (\<lambda>s. bindE (propagateall n s) (\<lambda>s. cleartable (weak s) s)))) (\<lambda>s.
      Inr (s\<lparr>g_white := otherwhite (g_white s), sweepstrgc := 0, rootgc := swept s @ rootgc s, swept := [],
             gcstate := GCSsweepstring\<rparr>)))"
  by (simp add: atomic_def bindE_assoc)

definition alive :: "gstate \<Rightarrow> ref \<Rightarrow> bool" where
  "alive s a \<longleftrightarrow> (\<exists>ob. heap s a = Some ob \<and> \<not> o_isdead (g_white s) (o_marked ob))"

lemma nw_alive: "nw s a \<Longrightarrow> alive s a"
  by (auto simp: nw_def alive_def o_isdead_bits iswhite_bits)

text \<open>No object is freed, and none is changed but for entries of tables and dead parts of stacks.\<close>

definition kept :: "gstate \<Rightarrow> gstate \<Rightarrow> bool" where
  "kept s s' \<longleftrightarrow> dom (heap s') = dom (heap s) \<and>
     (\<forall>a ob ob'. heap s a = Some ob \<longrightarrow> heap s' a = Some ob' \<longrightarrow> sim (o_body ob) (o_body ob'))"

lemma atomic_safe:
  assumes "atomic_pre L s" "card (dom (heap s)) < n"
  shows "\<exists>s'. atomic n L s = Inr s' \<and> gcstate s' = GCSsweepstring \<and> g_white s' = otherwhite (g_white s) \<and> kept s s' \<and>
    (\<forall>a. reach s' (gc_roots L s') a \<longrightarrow> alive s' a)"
proof -
  let ?flip = "\<lambda>s. s\<lparr>g_white := otherwhite (g_white s), sweepstrgc := 0, rootgc := swept s @ rootgc s, swept := [],
    gcstate := GCSsweepstring\<rparr>"
  have u: "\<forall>a \<in> set (tmudata s) \<union> set (after_main s). obj_is is_udata s a" using assms(1) by (simp add: atomic_pre_def)
  have "wpE (\<lambda>_. False) (\<lambda>s'. gcstate s' = GCSsweepstring \<and> g_white s' = otherwhite (g_white s) \<and> kept s s' \<and>
      (\<forall>a. reach s' (gc_roots L s') a \<longrightarrow> alive s' a)) (atomic n L s)"
    unfolding atomic_split
  proof (rule wpE_bind [OF first_phases [OF assms]], elim conjE)
    fix s1 assume s1: "minv done_flags (set (tmudata s)) s1" "evolves s s1" "marked_roots L s1" "gray s1 = []"
    have f1: "tmudata s1 = tmudata s" "after_main s1 = after_main s"
      by (simp_all add: after_main_def evolves_fields [OF s1(2)])
    have m1: "minv done_flags (set (tmudata s1)) s1" using s1(1) f1 by simp
    have d1: "card (dom (heap s1)) < n" using assms(2) evolves_dom [OF s1(2)] by simp
    have u1: "\<forall>a \<in> set (tmudata s1) \<union> set (after_main s1). obj_is is_udata s1 a"
      using u evolves_obj_is [OF s1(2)] sim_udata unfolding f1 by blast
    show "wpE (\<lambda>_. False) (\<lambda>s'. gcstate s' = GCSsweepstring \<and> g_white s' = otherwhite (g_white s) \<and> kept s s' \<and>
        (\<forall>a. reach s' (gc_roots L s') a \<longrightarrow> alive s' a))
      (bindE (bindE (luaC_separateudata False s1)
         (\<lambda>s. bindE (marktmu s) (\<lambda>s. bindE (propagateall n s) (\<lambda>s. cleartable (weak s) s)))) (\<lambda>s. Inr (?flip s)))"
    proof (rule wpE_bind [OF last_phases [OF m1 s1(4) d1 u1]], elim conjE)
      fix s2 assume s2: "minv done_flags {} s2" "grows s1 s2" "gray s2 = []" "\<forall>a \<in> set (tmudata s2). nw s2 a"
        "\<forall>h \<in> set (weak s2). full s2 h"
      have g: "grows s s2" by (rule grows_trans [OF grows_evolves [OF s1(2)] s2(2)])
      have e: "heap (?flip s2) = heap s2" by simp
      note h = same_heap [OF e]
      have roots: "\<forall>r \<in> gc_roots L (?flip s2). nw (?flip s2) r"
        using s2(4) marked_roots_grows [OF s2(2) s1(3)] unfolding h(4) by (auto simp: gc_roots_def marked_roots_def)
      have "nw (?flip s2) r" if "nw (?flip s2) a" "heap (?flip s2) a = Some ob" "r \<in> succs (?flip s2) (o_body ob)" for a ob r
        using closed [OF s2(1) _ _ s2(3,5), of a ob r] that unfolding h e by simp
      then have "\<forall>a. reach (?flip s2) (gc_roots L (?flip s2)) a \<longrightarrow> alive (?flip s2) a"
        using reach_nw [OF roots] nw_alive by blast
      moreover have "kept s (?flip s2)" using grows_dom [OF g] grows_heap(2) [OF g] by (fastforce simp: kept_def)
      moreover have "g_white s2 = g_white s" using g by (simp add: grows_def)
      ultimately show "wpE (\<lambda>_. False) (\<lambda>s'. gcstate s' = GCSsweepstring \<and> g_white s' = otherwhite (g_white s) \<and> kept s s' \<and>
        (\<forall>a. reach s' (gc_roots L s') a \<longrightarrow> alive s' a)) (Inr (?flip s2))" by simp
    qed
  qed
  then show ?thesis by (cases "atomic n L s") auto
qed

end
