(* ===== verification/LuaGCRun.thy ===== *)
theory LuaGCRun
  imports LuaGCSafe
begin

text \<open>
  The program and the collector taking turns between the start of a cycle (\<open>markroot\<close>) and its atomic
  step: the program stores references, with the barriers, changes stacks without them, makes new
  objects, opens and closes upvalues; the collector traverses gray objects. The invariant of marking is
  kept by every such step.
\<close>

section \<open>New objects that are not linked by \<open>luaC_link\<close>\<close>

text \<open>Userdata go after the main thread (\<open>luaS_newudata\<close>), strings into their chain (\<open>newlstr\<close>).\<close>

definition insert_after :: "ref \<Rightarrow> ref \<Rightarrow> ref list \<Rightarrow> ref list" where
  "insert_after m a xs = takeWhile (\<lambda>x. x \<noteq> m) xs @ m # a # tl (dropWhile (\<lambda>x. x \<noteq> m) xs)"

definition new_white :: "ref \<Rightarrow> gbody \<Rightarrow> gstate \<Rightarrow> gstate" where
  "new_white a b s = set_obj a \<lparr>o_marked = luaC_white (g_white s), o_body = b\<rparr> s"

definition luaS_newudata :: "ref \<Rightarrow> ref \<Rightarrow> gstate \<Rightarrow> gstate" where
  "luaS_newudata a env s =
     (let s = new_white a (OUserdata None env) s
      in if mainthread s \<in> set (butlast (swept s)) then s\<lparr>swept := insert_after (mainthread s) a (swept s)\<rparr>
         else if swept s \<noteq> [] \<and> last (swept s) = mainthread s then s\<lparr>rootgc := a # rootgc s\<rparr>
         else s\<lparr>rootgc := insert_after (mainthread s) a (rootgc s)\<rparr>)"

definition link_string :: "ref \<Rightarrow> byte list \<Rightarrow> nat \<Rightarrow> gstate \<Rightarrow> gstate" where
  "link_string a bs h s = (new_white a (OString bs) s)\<lparr>strhash := (strhash s)[h := a # strhash s ! h]\<rparr>"

section \<open>Steps between \<open>markroot\<close> and \<open>atomic\<close>\<close>

definition body_kind :: "gbody \<Rightarrow> nat" where
  "body_kind b = (case b of OString _ \<Rightarrow> 0 | OUserdata _ _ \<Rightarrow> 1 | OUpVal u \<Rightarrow> (case u of UvClosed _ \<Rightarrow> 2 | UvOpen _ _ \<Rightarrow> 3)
     | OCClosure _ _ \<Rightarrow> 4 | OLClosure _ _ _ \<Rightarrow> 5 | OTable _ _ _ \<Rightarrow> 6 | OProto _ _ _ _ _ \<Rightarrow> 7 | OThread _ _ _ _ _ \<Rightarrow> 8)"

definition barrier_of :: "gbody \<Rightarrow> ref \<Rightarrow> gval \<Rightarrow> gstate \<Rightarrow> gstate res" where
  "barrier_of b p v s = (if is_table b then luaC_barriert p v s else luaC_barrier p v s)"

text \<open>
  \<open>store\<close> is the change of an object that is not a thread so that it refers at most to what it did and to
  \<open>v\<close>, and the barrier after it; a barrier for a table marks the table again, one for anything else the
  new value. What the program writes keeps the heap well formed.
\<close>

inductive mstep :: "gstate \<Rightarrow> gstate \<Rightarrow> bool" where
  collect: "gray s \<noteq> [] \<Longrightarrow> propagatemark s = Inr s' \<Longrightarrow> mstep s s'"
| store: "heap s p = Some ob \<Longrightarrow> body_kind b = body_kind (o_body ob) \<Longrightarrow> \<not> is_thread b \<Longrightarrow>
    vrefs (refs_of b) \<subseteq> vrefs (refs_of (o_body ob)) \<union> vrefs [v] \<Longrightarrow> \<forall>r \<in> vrefs [v]. alloc s r \<Longrightarrow>
    set_body p b s = Inr s1 \<Longrightarrow> heap_ok s1 \<Longrightarrow> barrier_of b p v s1 = Inr s' \<Longrightarrow> mstep s s'"
| stack: "heap s th = Some ob \<Longrightarrow> is_thread (o_body ob) \<Longrightarrow> is_thread b \<Longrightarrow> set_body th b s = Inr s' \<Longrightarrow> heap_ok s' \<Longrightarrow> mstep s s'"
| new_object: "heap s a = None \<Longrightarrow> \<not> is_udata b \<Longrightarrow> \<not> is_open b \<Longrightarrow> heap_ok (luaC_link a b s) \<Longrightarrow> mstep s (luaC_link a b s)"
| new_string: "heap s a = None \<Longrightarrow> mstep s (link_string a bs h s)"
| new_udata: "heap s a = None \<Longrightarrow> obj_is is_table s env \<Longrightarrow> mstep s (luaS_newudata a env s)"
| open_upvalue: "heap s a = None \<Longrightarrow> luaF_findupval a th level s = Inr (u, s') \<Longrightarrow> heap_ok s' \<Longrightarrow> mstep s s'"
| close_upvalues: "luaF_close th level s = Inr s' \<Longrightarrow> mstep s s'"
| basic_metatable: "\<forall>r \<in> set_option mt. obj_is is_table s r \<Longrightarrow> mstep s (s\<lparr>mts := (mts s)[i := mt]\<rparr>)"

section \<open>The invariant\<close>

definition ginv :: "gstate \<Rightarrow> bool" where
  "ginv s \<longleftrightarrow>
     minv {} (set (tmudata s)) s \<and> gcstate s = GCSpropagate \<and> iswhite (g_white s) \<and>
     distinct (uvhead s) \<and> set (uvhead s) = opens s \<and>
     (\<forall>a \<in> set (tmudata s) \<union> set (after_main s). obj_is is_udata s a) \<and>
     obj_is is_thread s (mainthread s) \<and> nw s (mainthread s) \<and> mainthread s \<in> set (swept s @ rootgc s) \<and>
     (\<forall>r \<in> vrefs [registry s]. nw s r) \<and> (\<forall>r \<in> \<Union> (set_option ` set (mts s)). alloc s r)"

lemma ginv_pre: "ginv s \<Longrightarrow> gray s = [] \<Longrightarrow> alloc s L \<Longrightarrow> atomic_pre L s"
  by (simp add: ginv_def atomic_pre_def)

text \<open>What no step but the making of objects and the closing of upvalues changes.\<close>

definition same_fields :: "gstate \<Rightarrow> gstate \<Rightarrow> bool" where
  "same_fields s s' \<longleftrightarrow>
     gcstate s' = gcstate s \<and> g_white s' = g_white s \<and> tmudata s' = tmudata s \<and> swept s' = swept s \<and> rootgc s' = rootgc s \<and>
     mainthread s' = mainthread s \<and> registry s' = registry s \<and> mts s' = mts s \<and> uvhead s' = uvhead s"

definition obj_stays :: "gcobj option \<Rightarrow> gcobj option \<Rightarrow> bool" where
  "obj_stays x y \<longleftrightarrow>
     (case x of None \<Rightarrow> y = None
      | Some ob \<Rightarrow> \<exists>ob'. y = Some ob' \<and> body_kind (o_body ob') = body_kind (o_body ob) \<and> (iswhite (o_marked ob') \<longrightarrow> iswhite (o_marked ob)))"

definition gc_frame :: "gstate \<Rightarrow> gstate \<Rightarrow> bool" where
  "gc_frame s s' \<longleftrightarrow> same_fields s s' \<and> (\<forall>a. obj_stays (heap s a) (heap s' a))"

lemma kind_iff:
  "is_udata b \<longleftrightarrow> body_kind b = 1" "is_open b \<longleftrightarrow> body_kind b = 3" "is_thread b \<longleftrightarrow> body_kind b = 8" "is_table b \<longleftrightarrow> body_kind b = 6"
  "is_string b \<longleftrightarrow> body_kind b = 0"
  by (auto simp: body_kind_def is_udata_def is_open_def is_thread_def is_table_def is_string_def split: gbody.splits upv.splits)

lemma kind_rank: "body_kind b = body_kind b' \<Longrightarrow> rank b = rank b'" "body_kind b = body_kind b' \<Longrightarrow> traversable b = traversable b'"
  by (auto simp: body_kind_def rank_def traversable_def split: gbody.splits upv.splits)

lemma frame_heap:
  assumes "gc_frame s s'"
  shows "heap s a = None \<Longrightarrow> heap s' a = None"
    and "heap s a = Some ob \<Longrightarrow>
      \<exists>ob'. heap s' a = Some ob' \<and> body_kind (o_body ob') = body_kind (o_body ob) \<and> (iswhite (o_marked ob') \<longrightarrow> iswhite (o_marked ob))"
proof -
  have "obj_stays (heap s a) (heap s' a)" using assms by (simp add: gc_frame_def)
  then show "heap s a = None \<Longrightarrow> heap s' a = None"
    and "heap s a = Some ob \<Longrightarrow>
      \<exists>ob'. heap s' a = Some ob' \<and> body_kind (o_body ob') = body_kind (o_body ob) \<and> (iswhite (o_marked ob') \<longrightarrow> iswhite (o_marked ob))"
    by (simp_all add: obj_stays_def)
qed

lemma frame_fields:
  assumes "gc_frame s s'"
  shows "gcstate s' = gcstate s" "g_white s' = g_white s" "tmudata s' = tmudata s" "swept s' = swept s" "rootgc s' = rootgc s"
    "mainthread s' = mainthread s" "registry s' = registry s" "mts s' = mts s" "uvhead s' = uvhead s"
  using assms by (simp_all add: gc_frame_def same_fields_def)

lemma obj_stays_trans: "obj_stays x y \<Longrightarrow> obj_stays y z \<Longrightarrow> obj_stays x z"
  by (auto simp: obj_stays_def split: option.splits)

lemma frame_trans: "gc_frame s s1 \<Longrightarrow> gc_frame s1 s2 \<Longrightarrow> gc_frame s s2"
  unfolding gc_frame_def by (auto simp: same_fields_def intro: obj_stays_trans)

lemma sim_kind: "sim b b' \<Longrightarrow> body_kind b' = body_kind b"
  by (auto simp: sim_def body_kind_def)

lemma frame_evolves: "evolves s s' \<Longrightarrow> gc_frame s s'"
proof -
  assume e: "evolves s s'"
  have "same_fields s s'" unfolding same_fields_def using e unfolding evolves_def by (elim conjE exE) simp
  moreover have "obj_stays (heap s a) (heap s' a)" for a
    using evolves_heap [OF e, of a] sim_kind by (cases "heap s a") (auto simp: obj_stays_def)
  ultimately show ?thesis by (simp add: gc_frame_def)
qed

lemma frame_obj_is:
  assumes "gc_frame s s'" "\<And>b b'. body_kind b' = body_kind b \<Longrightarrow> P b' = P b"
  shows "obj_is P s' r = obj_is P s r"
proof (cases "heap s r")
  case None
  then show ?thesis using frame_heap(1) [OF assms(1)] by (simp add: obj_is_def)
next
  case (Some ob)
  from frame_heap(2) [OF assms(1) this] obtain ob' where "heap s' r = Some ob'" "body_kind (o_body ob') = body_kind (o_body ob)" by blast
  moreover from this have "P (o_body ob') = P (o_body ob)" by (intro assms(2))
  ultimately show ?thesis using Some by (simp add: obj_is_def)
qed

lemma frame_nw: "gc_frame s s' \<Longrightarrow> nw s r \<Longrightarrow> nw s' r"
  using frame_heap(2) unfolding nw_def by blast

lemma frame_alloc: "gc_frame s s' \<Longrightarrow> alloc s r \<Longrightarrow> alloc s' r"
  using frame_heap(2) unfolding alloc_def by blast

text \<open>The part of the invariant that is not about colours.\<close>

definition grest :: "gstate \<Rightarrow> bool" where
  "grest s \<longleftrightarrow>
     gcstate s = GCSpropagate \<and> iswhite (g_white s) \<and> distinct (uvhead s) \<and> set (uvhead s) = opens s \<and>
     (\<forall>a \<in> set (tmudata s) \<union> set (after_main s). obj_is is_udata s a) \<and>
     obj_is is_thread s (mainthread s) \<and> nw s (mainthread s) \<and> mainthread s \<in> set (swept s @ rootgc s) \<and>
     (\<forall>r \<in> vrefs [registry s]. nw s r) \<and> (\<forall>r \<in> \<Union> (set_option ` set (mts s)). alloc s r)"

lemma ginv_grest: "ginv s \<longleftrightarrow> minv {} (set (tmudata s)) s \<and> grest s"
  unfolding ginv_def grest_def ..

lemma grest_frame:
  assumes "grest s" "gc_frame s s'"
  shows "grest s'"
proof -
  note f = frame_fields [OF assms(2)]
  have o: "obj_is is_udata s' r = obj_is is_udata s r" "obj_is is_open s' r = obj_is is_open s r"
    "obj_is is_thread s' r = obj_is is_thread s r" for r
    by (rule frame_obj_is [OF assms(2)]; simp add: kind_iff)+
  have e: "after_main s' = after_main s" "opens s' = opens s" by (simp_all add: after_main_def opens_def f o)
  show ?thesis
    using assms(1) frame_nw [OF assms(2)] frame_alloc [OF assms(2)] unfolding grest_def f o e by simp
qed

lemma ginv_frame: "ginv s \<Longrightarrow> gc_frame s s' \<Longrightarrow> minv {} (set (tmudata s)) s' \<Longrightarrow> ginv s'"
  using grest_frame [of s s'] frame_fields(3) [of s s'] by (simp add: ginv_grest)

section \<open>Changing a body\<close>

text \<open>Before the atomic step what is gray need only be in a list, so the state of an object depends on little.\<close>

lemma node_ok_empty:
  assumes "node_ok {} s a ob" "\<And>r. nw s r \<Longrightarrow> nw s' r" "gray s' = gray s" "grayagain s' = grayagain s" "weak s' = weak s"
  shows "node_ok {} s' a ob"
  using assms(1,2) by (auto simp: node_ok_def gray_ok_def assms(3-5) split: gbody.splits upv.splits)

lemma gray_ok_empty:
  "gray_ok {} s a ob \<longleftrightarrow> body_kind (o_body ob) \<in> {0, 3} \<or> 4 \<le> body_kind (o_body ob) \<and> a \<in> in_lists s"
  by (cases "o_body ob") (auto simp: gray_ok_def body_kind_def in_lists_def split: upv.splits)

lemma mark_ok_body:
  assumes s: "mark_ok {} S s" "heap s p = Some ob"
    and k: "traversable b = traversable (o_body ob)" "is_table b = is_table (o_body ob)"
  shows "mark_ok {} (insert p S) (change p ob b s)"
proof -
  let ?s = "change p ob b s"
  have n: "nw ?s r = nw s r" for r using s(2) by (auto simp: nw_def)
  have l: "lists_ok s" using s(1) by (simp add: mark_ok_def)
  have x: "node_ok {} ?s x obx" if "heap s x = Some obx" "x \<notin> S" for x obx
  proof (rule node_ok_empty)
    show "node_ok {} s x obx" using s(1) that by (simp add: mark_ok_def)
  qed (simp_all add: n)
  have "\<exists>ob'. heap ?s y = Some ob' \<and> \<not> iswhite (o_marked ob') \<and> traversable (o_body ob')"
    if "y \<in> set (gray s @ grayagain s @ weak s)" for y
    by (rule listed [OF l that]) (use s(2) k(1) in \<open>cases "y = p", auto\<close>)
  moreover have "obj_is is_table ?s r = obj_is is_table s r" for r using s(2) k(2) by (auto simp: obj_is_def)
  ultimately have "lists_ok ?s" unfolding lists_ok_def change_lists(1-3)
    by (intro conjI ballI) (use l in \<open>simp_all add: lists_ok_def\<close>)
  moreover have "node_ok {} ?s x obx" if "heap ?s x = Some obx" "x \<notin> insert p S" for x obx using that x by auto
  moreover have "colour_ok ?s" using s by (auto simp: mark_ok_def colour_ok_def)
  ultimately show ?thesis by (simp add: mark_ok_def)
qed

lemma minv_kind:
  "minv {} S s \<Longrightarrow> heap s p = Some ob \<Longrightarrow> body_kind b = body_kind (o_body ob) \<Longrightarrow> heap_ok (change p ob b s) \<Longrightarrow>
   minv {} (insert p S) (change p ob b s)"
  by (simp add: minv_def mark_ok_body kind_rank(2) [of b] kind_iff)

text \<open>The state of an object after a store: in order but for what was stored.\<close>

definition node_but :: "gval \<Rightarrow> gstate \<Rightarrow> ref \<Rightarrow> gcobj \<Rightarrow> bool" where
  "node_but v s a ob \<longleftrightarrow>
     iswhite (o_marked ob) \<or>
     (if isblack (o_marked ob)
      then \<not> stays_gray (o_body ob) \<and> a \<notin> in_lists s \<and> (\<forall>r \<in> vrefs (refs_of (o_body ob)) - vrefs [v]. nw s r)
      else gray_ok {} s a ob)"

lemma node_but_ok: "node_but v s a ob \<Longrightarrow> isblack (o_marked ob) \<longrightarrow> (\<forall>r \<in> vrefs [v]. nw s r) \<Longrightarrow> node_ok {} s a ob"
  unfolding node_but_def node_ok_def in_lists_def by (cases "isblack (o_marked ob)") (simp_all del: vrefs_simps, blast)

lemma luaC_objbarrier_ok:
  assumes s: "minv {} (insert p S) s" "heap s p = Some ob" "alloc s r" "gcstate s = GCSpropagate"
    and n: "p \<notin> S \<Longrightarrow> node_but (VRef r) s p ob"
  shows "wpE (\<lambda>_. False) (\<lambda>s'. minv {} S s' \<and> evolves s s') (luaC_objbarrier p r s)"
proof -
  obtain obr where r: "heap s r = Some obr" using s(3) by (auto simp: alloc_def)
  have dis: "minv {} S s'" if "minv {} (insert p S) s'" "heap s' p = Some ob" "p \<notin> S \<Longrightarrow> node_ok {} s' p ob" for s'
    using that minv_discharge [OF that(1,2)] by (cases "p \<in> S") (auto simp: insert_absorb)
  show ?thesis
  proof (cases "iswhite (o_marked obr) \<and> isblack (o_marked ob)")
    case False
    have "node_ok {} s p ob" if "p \<notin> S"
      by (rule node_but_ok [OF n [OF that]]) (use False r in \<open>auto simp: nw_def\<close>)
    then show ?thesis using dis [OF s(1,2)] False r s(2) by (auto simp: luaC_objbarrier_def get_obj_ok)
  next
    case True
    have "iswhite (o_marked ob) \<Longrightarrow> \<not> isblack (o_marked ob)"
      using s(1,2) by (auto simp: minv_def mark_ok_def colour_ok_def)
    then have w: "\<not> iswhite (o_marked ob)" using True by blast
    have "wpE (\<lambda>_. False) (\<lambda>s'. minv {} S s' \<and> evolves s s') (reallymarkobject MARKDEPTH r s)"
    proof (rule wpE_mono [OF mark.rm_ok [OF s(1) r _ rank_le]], use True in simp, elim conjE)
      fix s' assume m: "marks {} (insert p S) s s'" "nw s' r"
      note l = marks_lists [OF m(1) s(2) w]
      have "node_ok {} s' p ob" if "p \<notin> S"
        using n [OF that] w True m(2) marks_nw [OF m(1)] l(7) by (auto simp: node_but_def node_ok_def in_lists_def)
      then show "minv {} S s' \<and> evolves s s'" using dis [OF marks_inv [OF m(1)] l(1)] evolves_marks [OF m(1)] by blast
    qed
    then show ?thesis using True r s(2,4) by (simp add: luaC_objbarrier_def get_obj_ok luaC_barrierf_def)
  qed
qed

lemma luaC_objbarriert_ok:
  assumes s: "minv {} (insert p S) s" "heap s p = Some ob" "alloc s r" "p \<notin> S" "is_table (o_body ob)"
    and n: "node_but (VRef r) s p ob"
  shows "wpE (\<lambda>_. False) (\<lambda>s'. minv {} S s' \<and> evolves s s') (luaC_objbarriert p r s)"
proof -
  obtain obr where r: "heap s r = Some obr" using s(3) by (auto simp: alloc_def)
  show ?thesis
  proof (cases "iswhite (o_marked obr) \<and> isblack (o_marked ob)")
    case False
    have "node_ok {} s p ob" by (rule node_but_ok [OF n]) (use False r in \<open>auto simp: nw_def\<close>)
    then show ?thesis using minv_discharge [OF s(1,2)] False r s(2) by (auto simp: luaC_objbarriert_def get_obj_ok)
  next
    case True
    have "iswhite (o_marked ob) \<Longrightarrow> \<not> isblack (o_marked ob)"
      using s(1,2) by (auto simp: minv_def mark_ok_def colour_ok_def)
    then have w: "\<not> iswhite (o_marked ob)" using True by blast
    have q: "p \<notin> in_lists s" using n w True by (auto simp: node_but_def)
    let ?m = "black2gray (o_marked ob)" and ?r = "remark p ob (black2gray (o_marked ob)) s"
    let ?s = "?r\<lparr>grayagain := p # grayagain ?r\<rparr>"
    have m: "minv {} (insert p S) ?r" using minv_remark [OF s(1,2)] w by simp
    have h: "heap ?r p = Some (ob\<lparr>o_marked := ?m\<rparr>)" by (simp add: remark_def)
    have l: "lists_ok ?r" using m by (simp add: minv_def mark_ok_def)
    have e: "?s = ?r\<lparr>gray := gray ?r, grayagain := p # grayagain ?r, weak := weak ?r\<rparr>" by simp
    have t: "traversable (o_body ob)" using s(5) by (auto simp: is_table_iff traversable_def)
    have m1: "minv {} (insert p S) ?s"
      by (rule relist [OF m insertI1 h _ _ e]) (use w t q l in \<open>auto simp: lists_ok_def in_lists_def\<close>)
    have n1: "node_ok {} ?s p (ob\<lparr>o_marked := ?m\<rparr>)"
      using w s(5) by (auto simp: node_ok_def gray_ok_def is_table_iff)
    have "minv {} S ?s" by (rule minv_discharge [OF m1 _ n1]) (simp add: h)
    moreover have "evolves s ?s"
    proof (rule evolves_trans)
      show "evolves s ?r" by (rule evolves_remark [OF s(2)]) (simp add: w)
      show "evolves ?r ?s" by (subst e) (rule evolves_lists)
    qed
    ultimately show ?thesis
      using True r s(2) by (simp add: luaC_objbarriert_def get_obj_ok luaC_barrierback_def upd_mark_ok)
  qed
qed

text \<open>The barrier after a store restores the invariant.\<close>

lemma barrier_ok:
  assumes s: "minv {} (insert p S) s" "heap s p = Some ob" "\<forall>r \<in> vrefs [v]. alloc s r" "gcstate s = GCSpropagate"
    and t: "is_table (o_body ob) \<Longrightarrow> p \<notin> S" and n: "p \<notin> S \<Longrightarrow> node_but v s p ob"
  shows "wpE (\<lambda>_. False) (\<lambda>s'. minv {} S s' \<and> evolves s s') (barrier_of (o_body ob) p v s)"
proof (cases "gcref v")
  case None
  then have "node_ok {} s p ob" if "p \<notin> S" using node_but_ok [OF n [OF that]] by simp
  then have "minv {} S s" using s(1,2) minv_discharge [OF s(1,2)] by (cases "p \<in> S") (auto simp: insert_absorb)
  then show ?thesis using None by (simp add: barrier_of_def luaC_barrier_def luaC_barriert_def opt_def)
next
  case (Some r)
  have e: "vrefs [v] = vrefs [VRef r]" using Some by simp
  have n': "p \<notin> S \<Longrightarrow> node_but (VRef r) s p ob" using n unfolding node_but_def e .
  have r: "alloc s r" using s(3) Some by simp
  show ?thesis
  proof (cases "is_table (o_body ob)")
    case True
    then show ?thesis
      using luaC_objbarriert_ok [OF s(1,2) r t [OF True] True n' [OF t [OF True]]] Some
      by (simp add: barrier_of_def luaC_barriert_def opt_def)
  next
    case False
    then show ?thesis
      using luaC_objbarrier_ok [OF s(1,2) r s(4) n'] Some by (simp add: barrier_of_def luaC_barrier_def opt_def)
  qed
qed

lemma frame_change: "heap s p = Some ob \<Longrightarrow> body_kind b = body_kind (o_body ob) \<Longrightarrow> gc_frame s (change p ob b s)"
  by (auto simp: gc_frame_def same_fields_def obj_stays_def change_def set_obj_def split: option.split)

lemma udata_not_table: "obj_is is_udata s a \<Longrightarrow> heap s a = Some ob \<Longrightarrow> \<not> is_table (o_body ob)"
  by (auto simp: obj_is_def is_udata_iff is_table_iff)

lemma store_step:
  assumes g: "ginv s" and p: "heap s p = Some ob" "body_kind b = body_kind (o_body ob)" "\<not> is_thread b"
    and v: "vrefs (refs_of b) \<subseteq> vrefs (refs_of (o_body ob)) \<union> vrefs [v]" "\<forall>r \<in> vrefs [v]. alloc s r"
    and h: "set_body p b s = Inr s1" "heap_ok s1" and s': "barrier_of b p v s1 = Inr s'"
  shows "ginv s'"
proof -
  let ?S = "set (tmudata s)"
  have m: "minv {} ?S s" "gcstate s = GCSpropagate" "\<forall>a \<in> ?S. obj_is is_udata s a" using g by (auto simp: ginv_def)
  have s1: "s1 = change p ob b s" using h(1) set_body_ok [OF p(1)] by simp
  have m1: "minv {} (insert p ?S) s1" unfolding s1
    by (rule minv_kind [OF m(1) p(1,2)]) (use h(2) s1 in simp)
  have h1: "heap s1 p = Some (ob\<lparr>o_body := b\<rparr>)" by (simp add: s1)
  have f1: "gc_frame s s1" unfolding s1 by (rule frame_change [OF p(1,2)])
  have nw: "nw s1 r = nw s r" for r using p(1) by (auto simp: nw_def s1)
  have "node_but v s1 p (ob\<lparr>o_body := b\<rparr>)" if "p \<notin> ?S"
  proof -
    have n: "node_ok {} s p ob" by (rule minv_node [OF m(1) p(1) that])
    have k: "stays_gray b = stays_gray (o_body ob)" using p(2) by (simp add: stays_gray_def kind_iff)
    have q: "in_lists s1 = in_lists s" "gray s1 = gray s" "grayagain s1 = grayagain s" "weak s1 = weak s" by (simp_all add: s1 in_lists_def)
    have "gray_ok {} s1 p (ob\<lparr>o_body := b\<rparr>)" if "gray_ok {} s p ob"
      using that p(2) by (simp add: gray_ok_empty q)
    then show ?thesis using n v(1) unfolding node_but_def node_ok_def nw q by (auto simp: k in_lists_def simp del: vrefs_simps)
  qed
  moreover have "p \<notin> ?S" if "is_table b" using that m(3) udata_not_table p(1,2) by (auto simp: kind_iff)
  moreover have "\<forall>r \<in> vrefs [v]. alloc s1 r" using v(2) frame_alloc [OF f1] by blast
  moreover have "gcstate s1 = GCSpropagate" using frame_fields(1) [OF f1] m(2) by simp
  ultimately have "wpE (\<lambda>_. False) (\<lambda>s'. minv {} ?S s' \<and> evolves s1 s') (barrier_of b p v s1)"
    using barrier_ok [OF m1 h1, of v] by simp
  then have "minv {} ?S s'" "evolves s1 s'" by (simp_all add: s')
  then show ?thesis using ginv_frame [OF g frame_trans [OF f1 frame_evolves]] by blast
qed

lemma mark_ok_stack:
  assumes m: "mark_ok {} S s" and p: "heap s th = Some ob" "is_thread (o_body ob)" "is_thread b"
  shows "mark_ok {} S (change th ob b s)"
proof -
  have k: "body_kind b = body_kind (o_body ob)" using p(2,3) by (simp add: kind_iff)
  have tt: "traversable b = traversable (o_body ob)" "is_table b = is_table (o_body ob)"
    by (rule kind_rank(2) [OF k]) (simp add: kind_iff k)
  show ?thesis
proof (cases "th \<in> S")
  case True
  then show ?thesis using mark_ok_body [OF m p(1) tt] by (simp add: insert_absorb)
next
  case False
  let ?s = "change th ob b s"
  have "node_ok {} s th ob" using m p(1) False by (simp add: mark_ok_def)
  then have "node_ok {} ?s th (ob\<lparr>o_body := b\<rparr>)"
    using k p(2,3) by (auto simp: node_ok_def gray_ok_empty stays_gray_def in_lists_def)
  then show ?thesis by (rule mark_ok_discharge [OF mark_ok_body [OF m p(1) tt], rotated]) simp
qed
qed

lemma stack_step:
  assumes g: "ginv s" and p: "heap s th = Some ob" "is_thread (o_body ob)" "is_thread b"
    and h: "set_body th b s = Inr s'" "heap_ok s'"
  shows "ginv s'"
proof -
  have s': "s' = change th ob b s" using h(1) set_body_ok [OF p(1)] by simp
  have "mark_ok {} (set (tmudata s)) s" using g by (simp add: ginv_def minv_def)
  then have "minv {} (set (tmudata s)) s'" using mark_ok_stack [OF _ p] h(2) s' by (simp add: minv_def)
  moreover have "gc_frame s s'" unfolding s' by (rule frame_change [OF p(1)]) (use p(2,3) in \<open>simp add: kind_iff\<close>)
  ultimately show ?thesis using ginv_frame [OF g] by blast
qed

section \<open>New objects\<close>

lemma luaC_white_bits: "iswhite (luaC_white w) = iswhite w" "\<not> isblack (luaC_white w)" "\<not> o_isdead w (luaC_white w)"
  by (auto simp: mark_bits o_isdead_bits)

lemma new_white_simps [simp]:
  "heap (new_white a b s) = (heap s)(a \<mapsto> \<lparr>o_marked = luaC_white (g_white s), o_body = b\<rparr>)"
  "gray (new_white a b s) = gray s" "grayagain (new_white a b s) = grayagain s" "weak (new_white a b s) = weak s"
  "g_white (new_white a b s) = g_white s" "tmudata (new_white a b s) = tmudata s" "gcstate (new_white a b s) = gcstate s"
  "swept (new_white a b s) = swept s" "rootgc (new_white a b s) = rootgc s" "mainthread (new_white a b s) = mainthread s"
  "registry (new_white a b s) = registry s" "mts (new_white a b s) = mts s" "uvhead (new_white a b s) = uvhead s"
  by (simp_all add: new_white_def set_obj_def)

lemma mark_ok_new:
  assumes m: "mark_ok {} S s" and a: "heap s a = None" "iswhite (g_white s)"
  shows "mark_ok {} S (new_white a b s)"
proof -
  let ?s = "new_white a b s"
  have n: "nw ?s r" if "nw s r" for r using that a(1) by (auto simp: nw_def)
  have l: "lists_ok s" using m by (simp add: mark_ok_def)
  have "\<exists>ob'. heap ?s y = Some ob' \<and> \<not> iswhite (o_marked ob') \<and> traversable (o_body ob')"
    if "y \<in> set (gray s @ grayagain s @ weak s)" for y
    by (rule listed [OF l that]) (use a(1) in auto)
  moreover have "obj_is is_table ?s r" if "obj_is is_table s r" for r using that a(1) by (auto simp: obj_is_def)
  ultimately have "lists_ok ?s" using l by (simp add: lists_ok_def)
  moreover have "node_ok {} ?s x obx" if "heap ?s x = Some obx" "x \<notin> S" for x obx
  proof (cases "x = a")
    case True
    then show ?thesis using that a(2) luaC_white_bits by (auto simp: node_ok_def)
  next
    case False
    then have "node_ok {} s x obx" using m that by (simp add: mark_ok_def)
    then show ?thesis by (rule node_ok_empty) (use n in simp_all)
  qed
  moreover have "colour_ok ?s" using m luaC_white_bits by (auto simp: mark_ok_def colour_ok_def)
  ultimately show ?thesis by (simp add: mark_ok_def)
qed

lemma heap_ok_new:
  assumes h: "heap_ok s" "heap s a = None" and b: "body_ok (new_white a b s) b"
  shows "heap_ok (new_white a b s)"
proof -
  let ?s = "new_white a b s"
  have o: "obj_is P ?s r" if "obj_is P s r" for P r using that h(2) by (auto simp: obj_is_def)
  have "body_ok ?s c" if "body_ok s c" for c
  proof -
    have sl: "stack_slot ?s th i = stack_slot s th i" if "obj_is P s th" for P th i
      using that h(2) by (auto simp: stack_slot_def obj_is_def)
    have "succs ?s c = succs s c"
      using \<open>body_ok s c\<close> by (auto simp: succs_def body_ok_def sl split: gbody.splits upv.splits)
    then show ?thesis using \<open>body_ok s c\<close> o by (auto simp: body_ok_def split: gbody.splits upv.splits)
  qed
  then show ?thesis using h b by (auto simp: heap_ok_def split: if_splits)
qed

text \<open>Whatever lists a new object is put in, if they stay in order.\<close>

lemma ginv_new:
  assumes g: "ginv s" and a: "heap s a = None" and h: "heap_ok s'"
    and s': "s' = (new_white a b s)\<lparr>swept := sw, rootgc := rt, strhash := hs, uvhead := us\<rparr>"
    and l: "mainthread s \<in> set (sw @ rt)" "set (after_main s') \<subseteq> set (after_main s) \<union> (if is_udata b then {a} else {})"
    and u: "distinct us" "set us = (if is_open b then {a} else {}) \<union> set (uvhead s)"
  shows "ginv s'"
proof -
  have e: "heap s' = heap (new_white a b s)" by (simp add: s')
  note eh = same_heap [OF e]
  have o: "obj_is P s' r = (if r = a then P b else obj_is P s r)" for P r unfolding eh by (simp add: obj_is_def)
  have no: "\<not> obj_is P s a" for P using a by (simp add: obj_is_def)
  then have na: "a \<notin> set (tmudata s) \<union> set (after_main s)" using g by (auto simp: ginv_def)
  have m: "mark_ok {} (set (tmudata s)) s" "iswhite (g_white s)" using g by (simp_all add: ginv_def minv_def)
  have hn: "heap_ok (new_white a b s)" using h eh(3) by simp
  have "minv {} (set (tmudata s)) (new_white a b s)" using mark_ok_new [OF m(1) a m(2)] hn by (simp add: minv_def)
  then have "minv {} (set (tmudata s')) s'" by (subst minv_same [where s = "new_white a b s"]) (simp_all add: s')
  moreover have nw: "nw s' r" if "nw s r" for r using that a unfolding eh by (auto simp: nw_def)
  moreover have al: "alloc s' r" if "alloc s r" for r using that a by (auto simp: alloc_def e)
  moreover have "opens s' = (if is_open b then {a} else {}) \<union> opens s"
    by (auto simp: opens_def o no split: if_splits)
  moreover have "obj_is is_udata s' x" if "x \<in> set (tmudata s) \<union> set (after_main s')" for x
    using that l(2) g na by (auto simp: o ginv_def split: if_splits)
  moreover have "obj_is is_thread s' (mainthread s)" using g no by (auto simp: o ginv_def)
  ultimately show ?thesis using g l(1) u unfolding ginv_def by (simp add: s')
qed

lemma heap_main: "ginv s \<Longrightarrow> heap s a = None \<Longrightarrow> a \<noteq> mainthread s"
  by (auto simp: ginv_def obj_is_def)

lemma after_main_link: "a \<noteq> mainthread s \<Longrightarrow> after_main (link_root a s) = after_main s"
  by (simp add: after_main_def link_root_def)

lemma new_object_step:
  assumes g: "ginv s" and a: "heap s a = None" "\<not> is_udata b" "\<not> is_open b" "heap_ok (luaC_link a b s)"
  shows "ginv (luaC_link a b s)"
proof (rule ginv_new [OF g a(1,4)])
  let ?sw = "if swept s = [] then swept s else a # swept s" and ?rt = "if swept s = [] then a # rootgc s else rootgc s"
  show "luaC_link a b s = (new_white a b s)\<lparr>swept := ?sw, rootgc := ?rt, strhash := strhash s, uvhead := uvhead s\<rparr>"
    by (simp add: luaC_link_def new_white_def link_root_def set_obj_def)
  show "mainthread s \<in> set (?sw @ ?rt)" using g by (auto simp: ginv_def)
  have "after_main (luaC_link a b s) = after_main s"
    using heap_main [OF g a(1)] by (simp add: luaC_link_def link_root_def after_main_def set_obj_def)
  then show "set (after_main (luaC_link a b s)) \<subseteq> set (after_main s) \<union> (if is_udata b then {a} else {})" by simp
qed (use g a(3) in \<open>simp_all add: ginv_def\<close>)

lemma new_string_step:
  assumes g: "ginv s" and a: "heap s a = None"
  shows "ginv (link_string a bs h s)"
proof (rule ginv_new [OF g a])
  have "heap_ok s" using g by (simp add: ginv_def minv_def)
  then have "heap_ok (new_white a (OString bs) s)"
    by (rule heap_ok_new [OF _ a]) (simp add: body_ok_def succs_def refs_of_def)
  moreover have "heap (link_string a bs h s) = heap (new_white a (OString bs) s)" by (simp add: link_string_def)
  ultimately show "heap_ok (link_string a bs h s)" using same_heap(3) by blast
  show "link_string a bs h s = (new_white a (OString bs) s)\<lparr>swept := swept s, rootgc := rootgc s,
      strhash := (strhash s)[h := a # strhash s ! h], uvhead := uvhead s\<rparr>"
    by (simp add: link_string_def new_white_def set_obj_def)
qed (use g in \<open>simp_all add: ginv_def after_main_def link_string_def is_open_def\<close>)

lemma insert_after_last:
  "m \<in> set xs \<Longrightarrow> tl (dropWhile (\<lambda>x. x \<noteq> m) (insert_after m a xs @ ys)) = a # tl (dropWhile (\<lambda>x. x \<noteq> m) (xs @ ys))"
  by (induction xs) (auto simp: insert_after_def)

lemma dropWhile_notin: "m \<notin> set xs \<Longrightarrow> dropWhile (\<lambda>x. x \<noteq> m) (xs @ ys) = dropWhile (\<lambda>x. x \<noteq> m) ys"
  by (induction xs) auto

lemma dropWhile_last: "m \<notin> set xs \<Longrightarrow> dropWhile (\<lambda>x. x \<noteq> m) ((xs @ [m]) @ ys) = m # ys"
  by (induction xs) auto

lemma luaS_newudata_lists:
  assumes "mainthread s \<in> set (swept s @ rootgc s)"
  obtains sw rt where "luaS_newudata a env s = (new_white a (OUserdata None env) s)\<lparr>swept := sw, rootgc := rt\<rparr>"
    "mainthread s \<in> set (sw @ rt)"
    "tl (dropWhile (\<lambda>x. x \<noteq> mainthread s) (sw @ rt)) = a # tl (dropWhile (\<lambda>x. x \<noteq> mainthread s) (swept s @ rootgc s))"
proof -
  let ?m = "mainthread s" and ?s = "new_white a (OUserdata None env) s"
  have i: "?m \<in> set (insert_after ?m a xs)" for xs by (simp add: insert_after_def)
  consider "?m \<in> set (butlast (swept s))" | "?m \<notin> set (butlast (swept s))" "swept s \<noteq> []" "last (swept s) = ?m"
    | "?m \<notin> set (butlast (swept s))" "\<not> (swept s \<noteq> [] \<and> last (swept s) = ?m)" by blast
  then show ?thesis
  proof cases
    case 1
    then have "?m \<in> set (swept s)" by (rule in_set_butlastD)
    then show ?thesis using 1 i insert_after_last [of ?m "swept s"]
      by (intro that [where sw = "insert_after ?m a (swept s)" and rt = "rootgc s"]) (simp_all add: luaS_newudata_def Let_def)
  next
    case 2
    then have e: "swept s = butlast (swept s) @ [?m]" by (metis append_butlast_last_id)
    have "dropWhile (\<lambda>x. x \<noteq> ?m) (swept s @ xs) = ?m # xs" for xs
      using dropWhile_last [OF 2(1)] e by metis
    then show ?thesis using 2 e
      by (intro that [where sw = "swept s" and rt = "a # rootgc s"]) (simp_all add: luaS_newudata_def Let_def, metis last_in_set)
  next
    case 3
    have n: "?m \<notin> set (swept s)"
    proof
      assume "?m \<in> set (swept s)"
      then have "?m \<in> set (butlast (swept s) @ [last (swept s)])" by (metis append_butlast_last_id empty_iff list.set(1))
      then show False using 3 \<open>?m \<in> set (swept s)\<close> by auto
    qed
    then have "?m \<in> set (rootgc s)" using assms by simp
    then show ?thesis using 3 i insert_after_last [of ?m "rootgc s" a "[]"] dropWhile_notin [OF n]
      by (intro that [where sw = "swept s" and rt = "insert_after ?m a (rootgc s)"]) (auto simp: luaS_newudata_def Let_def)
  qed
qed

lemma new_udata_step:
  assumes g: "ginv s" and a: "heap s a = None" "obj_is is_table s env"
  shows "ginv (luaS_newudata a env s)"
proof -
  have "mainthread s \<in> set (swept s @ rootgc s)" using g by (simp add: ginv_def)
  from luaS_newudata_lists [OF this, of a env] obtain sw rt where
    l: "luaS_newudata a env s = (new_white a (OUserdata None env) s)\<lparr>swept := sw, rootgc := rt\<rparr>" "mainthread s \<in> set (sw @ rt)"
    "tl (dropWhile (\<lambda>x. x \<noteq> mainthread s) (sw @ rt)) = a # after_main s" unfolding after_main_def .
  have "heap_ok s" using g by (simp add: ginv_def minv_def)
  moreover have "obj_is (\<lambda>c. rank c \<le> 1) (new_white a (OUserdata None env) s) env"
    using a by (auto simp: obj_is_def is_table_iff rank_def)
  then have "body_ok (new_white a (OUserdata None env) s) (OUserdata None env)"
    by (simp add: body_ok_def succs_def refs_of_def child_rank_def)
  ultimately have "heap_ok (new_white a (OUserdata None env) s)" using heap_ok_new a(1) by blast
  moreover have "heap (luaS_newudata a env s) = heap (new_white a (OUserdata None env) s)" using l(1) by simp
  ultimately have h: "heap_ok (luaS_newudata a env s)" using same_heap(3) by blast
  show ?thesis
  proof (rule ginv_new [OF g a(1) h])
    show "luaS_newudata a env s = (new_white a (OUserdata None env) s)\<lparr>swept := sw, rootgc := rt, strhash := strhash s, uvhead := uvhead s\<rparr>"
      using l(1) by (simp add: new_white_def set_obj_def)
    show "set (after_main (luaS_newudata a env s)) \<subseteq> set (after_main s) \<union> (if is_udata (OUserdata None env) then {a} else {})"
      using l(1,3) by (simp add: after_main_def is_udata_def)
  qed (use g l(2) in \<open>simp_all add: ginv_def is_open_def\<close>)
qed

section \<open>Upvalues\<close>

lemma heap_ok_like:
  assumes h: "heap_ok s" "heap s p = Some ob" "body_ok s b"
    and k: "rank b = rank (o_body ob)" "is_table b = is_table (o_body ob)" "is_string b = is_string (o_body ob)"
      "\<And>i. has_slot i b = has_slot i (o_body ob)" "\<And>th i. stack_slot (change p ob b s) th i = stack_slot s th i"
  shows "heap_ok (change p ob b s)"
proof -
  let ?s = "change p ob b s"
  have o: "obj_is (\<lambda>c. rank c \<le> n) ?s r = obj_is (\<lambda>c. rank c \<le> n) s r" "obj_is is_table ?s r = obj_is is_table s r"
    "obj_is is_string ?s r = obj_is is_string s r" "obj_is (has_slot i) ?s r = obj_is (has_slot i) s r" for n i r
    using h(2) k by (auto simp: obj_is_def)
  have "succs ?s c = succs s c" for c by (auto simp: succs_def k(5) split: gbody.splits upv.splits)
  then have "body_ok ?s c = body_ok s c" for c by (simp add: body_ok_def o cong: gbody.case_cong upv.case_cong)
  moreover have "dom (heap ?s) = dom (heap s)" using h(2) by auto
  ultimately show ?thesis using h by (auto simp: heap_ok_def)
qed

lemma heap_ok_op:
  assumes "heap_ok s" "heap s th = Some ob" "o_body ob = OThread gt st tp cis op"
  shows "heap_ok (change th ob (OThread gt st tp cis op') s)"
proof (rule heap_ok_like [OF assms(1,2)])
  have "body_ok s (o_body ob)" using assms(1,2) unfolding heap_ok_def by blast
  then show "body_ok s (OThread gt st tp cis op')" unfolding assms(3) by (simp add: body_ok_def succs_def refs_of_def child_rank_def)
  show "stack_slot (change th ob (OThread gt st tp cis op') s) x i = stack_slot s x i" for x i
    using assms(2,3) by (simp add: stack_slot_def)
qed (simp_all add: assms(3) rank_def is_table_def is_string_def has_slot_def)

lemma not_dead_marking: "ginv s \<Longrightarrow> heap s a = Some ob \<Longrightarrow> \<not> o_isdead (g_white s) (o_marked ob)"
  by (cases "iswhite (o_marked ob)")
     (auto simp: ginv_def minv_def mark_ok_def colour_ok_def o_isdead_bits iswhite_bits)

lemma get_thread_ok: "get_thread th s = Inr (gt, st, tp, cis, op) \<Longrightarrow> \<exists>ob. heap s th = Some ob \<and> o_body ob = OThread gt st tp cis op"
  by (auto simp: get_thread_def get_obj_def split: option.splits gbody.splits)

lemma open_upvalue_step:
  assumes g: "ginv s" and a: "heap s a = None" and f: "luaF_findupval a th level s = Inr (u, s')" and h: "heap_ok s'"
  shows "ginv s'"
proof -
  obtain gt st tp cis op before r rest where t: "get_thread th s = Inr (gt, st, tp, cis, op)"
    and fo: "find_open level op s = Inr (before, r, rest)" using f
    by (cases "get_thread th s") (auto simp: luaF_findupval_def elim!: bindE_InrE)
  obtain ob where ob: "heap s th = Some ob" "o_body ob = OThread gt st tp cis op" using get_thread_ok [OF t] by blast
  show ?thesis
  proof (cases r)
    case (Some p)
    then have "bindE (get_obj p s) (\<lambda>ob.
        bindE (if o_isdead (g_white s) (o_marked ob) then upd_mark p o_changewhite s else Inr s) (\<lambda>s. Inr (p, s))) = Inr (u, s')"
      using f t fo by (simp add: luaF_findupval_def)
    then have "s' = s" using not_dead_marking [OF g] by (auto simp: get_obj_def split: option.splits)
    then show ?thesis using g by simp
  next
    case None
    let ?b = "OUpVal (UvOpen th level)" and ?t = "OThread gt st tp cis (before @ a # rest)"
    let ?s = "(new_white a ?b s)\<lparr>swept := swept s, rootgc := rootgc s, strhash := strhash s, uvhead := a # uvhead s\<rparr>"
    have na: "th \<noteq> a" using ob(1) a by auto
    have s1: "heap ?s th = Some ob" using ob(1) na by simp
    have e: "heap s' = heap (change th ob ?t ?s)" "s' = change th ob ?t ?s"
      using f t fo None na ob(1)
      by (auto simp: luaF_findupval_def set_body_def get_obj_def new_white_def change_def set_obj_def)
    have o: "heap s' th = Some (ob\<lparr>o_body := ?t\<rparr>)" using e(1) by simp
    have "heap_ok (change th (ob\<lparr>o_body := ?t\<rparr>) (OThread gt st tp cis op) s')" by (rule heap_ok_op [OF h o]) simp
    moreover have "heap (change th (ob\<lparr>o_body := ?t\<rparr>) (OThread gt st tp cis op) s') = heap ?s"
      using e(1) s1 ob(2) by (auto simp: fun_eq_iff)
    ultimately have hs: "heap_ok ?s" using same_heap(3) by metis
    have "ginv ?s"
      by (rule ginv_new [OF g a hs refl]) (use g a in \<open>auto simp: ginv_def after_main_def opens_def obj_is_def is_open_def\<close>)
    then show ?thesis
      by (rule stack_step [OF _ s1, of ?t]) (use ob(2) e(2) h set_body_ok [OF s1] in \<open>auto simp: is_thread_def\<close>)
  qed
qed

text \<open>Closing one upvalue.\<close>

lemma heap_ok_close:
  assumes h: "heap_ok s" "heap s u = Some ob" "o_body ob = OUpVal x" "uv_value x s = Inr v"
  shows "heap_ok (change u ob (OUpVal (UvClosed v)) s)"
proof (rule heap_ok_like [OF h(1,2)])
  obtain v' where v': "uv_value x s = Inr v'" "\<And>r. gcref v' = Some r \<Longrightarrow> obj_is (\<lambda>b. rank b \<le> 2) s r"
    using uv_value_ok [OF h(1-3)] by blast
  then show "body_ok s (OUpVal (UvClosed v))" using h(4) by (auto simp: body_ok_def succs_def refs_of_def child_rank_def)
  show "stack_slot (change u ob (OUpVal (UvClosed v)) s) t i = stack_slot s t i" for t i using h(2,3) by (simp add: stack_slot_def)
qed (simp_all add: h(3) rank_def is_table_def is_string_def has_slot_def)

lemma close_one_step:
  assumes g: "ginv s" and u: "heap s u = Some ob" "o_body ob = OUpVal (UvOpen t i)" "uv_value (UvOpen t i) s = Inr v"
    and s2: "set_body u (OUpVal (UvClosed v)) (unlinkupval u s) = Inr s2" and s': "luaC_linkupval u v s2 = Inr s'"
  shows "ginv s'"
proof -
  let ?S = "set (tmudata s)" and ?b = "OUpVal (UvClosed v)"
  define ob2 where "ob2 = ob\<lparr>o_body := ?b\<rparr>"
  define c where "c = change u ob ?b s"
  define s3 where "s3 = link_root u s2"
  have m: "mark_ok {} ?S s" "heap_ok s" "grest s" using g by (simp_all add: ginv_grest minv_def)
  have gu: "\<forall>a \<in> ?S \<union> set (after_main s). obj_is is_udata s a" using m(3) unfolding grest_def by (elim conjE)
  have "\<not> obj_is is_udata s u" using u(1,2) by (simp add: obj_is_def is_udata_def)
  then have uS: "u \<notin> ?S" and au: "u \<notin> set (after_main s)" using gu by blast+
  have e: "s3 = c\<lparr>uvhead := remove1 u (uvhead s), swept := swept s3, rootgc := rootgc s3\<rparr>"
    using s2 u(1) by (auto simp: s3_def c_def set_body_def get_obj_def unlinkupval_def change_def set_obj_def link_root_def)
  have hc: "heap s3 = heap c" "gray s3 = gray c" "grayagain s3 = grayagain c" "weak s3 = weak c" "g_white s3 = g_white c"
    "gcstate s3 = gcstate c" "tmudata s3 = tmudata c" "mainthread s3 = mainthread c" "registry s3 = registry c" "mts s3 = mts c"
    "uvhead s3 = remove1 u (uvhead s)" by (subst e, simp)+
  have fc: "gcstate c = gcstate s" "mainthread c = mainthread s" "registry c = registry s" "mts c = mts s" "swept c = swept s" "rootgc c = rootgc s"
    "tmudata c = tmudata s" "g_white c = g_white s"
    by (simp_all add: c_def change_def set_obj_def)
  have "mark_ok {} (insert u ?S) c" unfolding c_def
    by (rule mark_ok_body [OF m(1) u(1)]) (simp_all add: u(2) traversable_def is_table_def)
  moreover have "heap_ok c" unfolding c_def by (rule heap_ok_close [OF m(2) u])
  ultimately have "minv {} (insert u ?S) c" by (simp add: minv_def)
  then have m3: "minv {} (insert u ?S) s3" by (subst minv_same [where s = c]) (simp_all add: hc)
  have h3: "heap s3 u = Some ob2" by (simp add: hc c_def ob2_def)
  have nw3: "nw s3 r = nw s r" for r unfolding same_heap(4) [OF hc(1)] using u(1) by (auto simp: nw_def c_def)
  have al3: "alloc s3 r = alloc s r" for r using u(1) by (auto simp: alloc_def hc c_def)
  have o3: "obj_is P s3 r = (if r = u then P ?b else obj_is P s r)" for P r
    unfolding same_heap(1) [OF hc(1)] by (simp add: obj_is_def c_def)
  have um: "u \<noteq> mainthread s" using m(3) u(1,2) by (auto simp: grest_def obj_is_def is_thread_def)
  have sw: "swept s3 = (if swept s = [] then [] else u # swept s)" "rootgc s3 = (if swept s = [] then u # rootgc s else rootgc s)"
    using s2 u(1) by (auto simp: s3_def set_body_def get_obj_def unlinkupval_def set_obj_def link_root_def)
  have am: "after_main s3 = after_main s" using um by (simp add: after_main_def sw hc(8) fc)
  have uu: "u \<in> opens s" using u(1,2) by (simp add: opens_def obj_is_def is_open_def)
  have op: "opens s3 = opens s - {u}" by (auto simp: opens_def o3 is_open_def)
  note r = m(3) [unfolded grest_def]
  have "mainthread s \<in> set (swept s @ rootgc s)" using r by (elim conjE)
  then have ms: "mainthread s \<in> set (swept s3 @ rootgc s3)" by (auto simp: sw)
  have ud: "\<forall>a \<in> ?S \<union> set (after_main s). obj_is is_udata s3 a" using gu uS au by (metis o3 Un_iff)
  have "obj_is is_thread s (mainthread s)" using r by (elim conjE)
  then have th: "obj_is is_thread s3 (mainthread s)" using um by (simp add: o3)
  have "distinct (uvhead s)" "set (uvhead s) = opens s" using r by blast+
  then have uv: "distinct (remove1 u (uvhead s))" "set (remove1 u (uvhead s)) = opens s - {u}" by simp_all
  have g3: "grest s3"
    unfolding grest_def am op hc fc nw3 al3 using r ms ud th uv by (elim conjE) (intro conjI; assumption)
  show ?thesis
  proof (cases "isgray (o_marked ob)")
    case False
    have "node_ok {} s u ob" using m(1) u(1) uS by (simp add: mark_ok_def)
    then have "node_ok {} s3 u ob2" using False u(2) by (auto simp: node_ok_def isgray_def stays_gray_def is_open_def ob2_def)
    then have "minv {} ?S s3" by (rule minv_discharge [OF m3 h3])
    moreover have "s' = s3" using s' h3 False by (simp add: luaC_linkupval_def get_obj_ok ob2_def flip: s3_def)
    ultimately show ?thesis using g3 by (simp add: ginv_grest hc c_def)
  next
    case True
    define s4 where "s4 = remark u ob2 (gray2black (o_marked ob)) s3"
    define ob4 where "ob4 = ob2\<lparr>o_marked := gray2black (o_marked ob)\<rparr>"
    have w: "\<not> iswhite (gray2black (o_marked ob))" using True by (simp add: isgray_def)
    have m4: "minv {} (insert u ?S) s4" using minv_remark [OF m3 h3 w] by (simp add: s4_def)
    have h4: "heap s4 u = Some ob4" by (simp add: s4_def ob4_def remark_def)
    have e4: "evolves s3 s4" unfolding s4_def by (rule evolves_remark [OF h3 w])
    have q: "u \<notin> in_lists s4"
      using not_listed [OF m4 h4] by (simp add: in_lists_def ob4_def ob2_def traversable_def)
    then have n: "node_but v s4 u ob4"
      by (auto simp: node_but_def ob4_def ob2_def stays_gray_def is_open_def is_thread_def refs_of_def)
    have gp: "gcstate s3 = GCSpropagate" using g3 by (simp add: grest_def)
    obtain v' where "uv_value (UvOpen t i) s = Inr v'" "\<And>r. gcref v' = Some r \<Longrightarrow> obj_is (\<lambda>b. rank b \<le> 2) s r"
      using uv_value_ok [OF m(2) u(1,2)] by blast
    then have "\<forall>r \<in> vrefs [v]. alloc s r" using u(3) by (auto intro: obj_is_alloc)
    then have a4: "\<forall>r \<in> vrefs [v]. alloc s4 r" using evolves_alloc [OF e4] al3 by blast
    have "gcstate s4 = GCSpropagate" using gp frame_fields(1) [OF frame_evolves [OF e4]] by simp
    then have "wpE (\<lambda>_. False) (\<lambda>s'. minv {} ?S s' \<and> evolves s4 s') (barrier_of (o_body ob4) u v s4)"
      by (intro barrier_ok [OF m4 h4 a4]) (use n uS in \<open>auto\<close>)
    moreover have "barrier_of (o_body ob4) u v s4 = Inr s'"
      using s' h3 True gp by (simp add: luaC_linkupval_def get_obj_ok upd_mark_ok barrier_of_def is_table_def ob4_def ob2_def s4_def flip: s3_def)
    ultimately have "minv {} ?S s'" "evolves s4 s'" by simp_all
    moreover from this have f: "gc_frame s3 s'" by (intro frame_evolves evolves_trans [OF e4])
    moreover have "tmudata s' = tmudata s" using frame_fields(3) [OF f] by (simp add: hc c_def)
    ultimately show ?thesis using grest_frame [OF g3 f] by (simp add: ginv_grest)
  qed
qed

lemma close_loop_step: "ginv s \<Longrightarrow> luaF_close_loop level op s = Inr (op', s') \<Longrightarrow> ginv s'"
proof (induction op arbitrary: s)
  case (Cons uv op)
  obtain ob where ob: "heap s uv = Some ob" using Cons.prems(2) by (cases "heap s uv") (auto simp: get_obj_def)
  then obtain t i where x: "o_body ob = OUpVal (UvOpen t i)"
    using Cons.prems(2) by (auto simp: get_obj_def split: gbody.splits upv.splits)
  show ?case
  proof (cases "level \<le> i")
    case True
    then have "bindE (bindE (uv_value (UvOpen t i) s) (\<lambda>v. bindE (set_body uv (OUpVal (UvClosed v)) (unlinkupval uv s)) (\<lambda>s.
        luaC_linkupval uv v s))) (luaF_close_loop level op) = Inr (op', s')"
      using Cons.prems(2) x not_dead_marking [OF Cons.prems(1) ob] by (simp add: get_obj_ok [OF ob])
    then obtain v s2 s3 where "uv_value (UvOpen t i) s = Inr v" "set_body uv (OUpVal (UvClosed v)) (unlinkupval uv s) = Inr s2"
      "luaC_linkupval uv v s2 = Inr s3" "luaF_close_loop level op s3 = Inr (op', s')"
      unfolding bindE_eq_Inr by blast
    then show ?thesis using Cons.IH close_one_step [OF Cons.prems(1) ob x] by blast
  next
    case False
    then show ?thesis using Cons.prems ob x by (simp add: get_obj_ok)
  qed
qed simp

lemma close_upvalues_step:
  assumes g: "ginv s" and c: "luaF_close th level s = Inr s'"
  shows "ginv s'"
proof -
  obtain op1 op' s1 gt st tp cis op2 where l: "luaF_close_loop level op1 s = Inr (op', s1)"
    and t: "get_thread th s1 = Inr (gt, st, tp, cis, op2)" and b: "set_body th (OThread gt st tp cis op') s1 = Inr s'"
    using c by (auto simp: luaF_close_def elim!: bindE_InrE)
  have g1: "ginv s1" by (rule close_loop_step [OF g l])
  obtain ob where ob: "heap s1 th = Some ob" "o_body ob = OThread gt st tp cis op2" using get_thread_ok [OF t] by blast
  have "heap_ok (change th ob (OThread gt st tp cis op') s1)"
    by (rule heap_ok_op [OF _ ob]) (use g1 in \<open>simp add: ginv_def minv_def\<close>)
  then have "heap_ok s'" using b set_body_ok [OF ob(1)] by simp
  then show ?thesis by (intro stack_step [OF g1 ob(1) _ _ b]) (simp_all add: ob(2) is_thread_def)
qed

section \<open>The invariant along a run\<close>

lemma ginv_mts:
  assumes g: "ginv s" and m: "\<forall>r \<in> set_option mt. obj_is is_table s r"
  shows "ginv (s\<lparr>mts := (mts s)[i := mt]\<rparr>)"
proof -
  let ?s = "s\<lparr>mts := (mts s)[i := mt]\<rparr>"
  have e: "heap ?s = heap s" by simp
  note h = same_heap [OF e]
  have mv: "minv {} (set (tmudata s)) ?s = minv {} (set (tmudata s)) s" by (rule minv_same) simp_all
  have "set ((mts s)[i := mt]) \<subseteq> insert mt (set (mts s))" by (rule set_update_subset_insert)
  then have "\<Union> (set_option ` set (mts ?s)) \<subseteq> set_option mt \<union> \<Union> (set_option ` set (mts s))" by auto
  moreover have "\<forall>r \<in> set_option mt \<union> \<Union> (set_option ` set (mts s)). alloc ?s r"
    using g m by (auto simp: ginv_def alloc_def obj_is_def)
  ultimately have "\<forall>r \<in> \<Union> (set_option ` set (mts ?s)). alloc ?s r" by blast
  moreover have "opens ?s = opens s" "after_main ?s = after_main s" by (simp_all add: opens_def h after_main_def)
  ultimately show ?thesis using g mv unfolding ginv_def h by simp
qed

lemma ginv_step: "mstep s s' \<Longrightarrow> ginv s \<Longrightarrow> ginv s'"
proof (induction rule: mstep.induct)
  case (collect s s')
  then have "step_done {} (set (tmudata s)) s s'"
    using propagatemark_ok [of "{}" "set (tmudata s)" s] by (simp add: ginv_def)
  then show ?case using ginv_frame [OF collect(3) frame_evolves] by (simp add: step_done_def)
next
  case (store s p ob b v s1 s')
  then show ?case using store_step [of s p ob b v s1 s'] by blast
next
  case (stack s th ob b s')
  then show ?case using stack_step [of s th ob b s'] by blast
qed (blast intro: new_object_step new_string_step new_udata_step open_upvalue_step close_upvalues_step ginv_mts)+

lemma ginv_run: "mstep\<^sup>*\<^sup>* s s' \<Longrightarrow> ginv s \<Longrightarrow> ginv s'"
  by (induction rule: rtranclp_induct) (auto intro: ginv_step)

section \<open>The start of a cycle\<close>

text \<open>
  Between two cycles every object is white and alive, but for the userdata that still wait for their
  finalisers.
\<close>

definition paused :: "gstate \<Rightarrow> bool" where
  "paused s \<longleftrightarrow>
     heap_ok s \<and> colour_ok s \<and> iswhite (g_white s) \<and>
     (\<forall>a ob. heap s a = Some ob \<longrightarrow> a \<notin> set (tmudata s) \<longrightarrow> iswhite (o_marked ob)) \<and>
     distinct (uvhead s) \<and> set (uvhead s) = opens s \<and>
     (\<forall>a \<in> set (tmudata s) \<union> set (after_main s). obj_is is_udata s a) \<and>
     obj_is is_thread s (mainthread s) \<and> mainthread s \<in> set (swept s @ rootgc s) \<and>
     (\<forall>r \<in> vrefs [registry s]. alloc s r) \<and> (\<forall>r \<in> \<Union> (set_option ` set (mts s)). alloc s r)"

lemma paused_minv:
  assumes "paused s"
  shows "minv {} (set (tmudata s)) (s\<lparr>gray := [], grayagain := [], weak := []\<rparr>)" (is "minv _ _ ?s")
proof -
  have e: "heap ?s = heap s" by simp
  have "heap_ok ?s" unfolding same_heap(3) [OF e] using assms by (simp add: paused_def)
  moreover have "node_ok {} ?s a ob" if "heap s a = Some ob" "a \<notin> set (tmudata s)" for a ob
    using assms that by (simp add: paused_def node_ok_def)
  ultimately show ?thesis using assms by (simp add: minv_def mark_ok_def lists_ok_def colour_ok_def paused_def)
qed

lemma is_thread_iff: "is_thread b \<longleftrightarrow> (\<exists>gt st tp cis op. b = OThread gt st tp cis op)"
  by (cases b) (auto simp: is_thread_def)

lemma markroot_ok:
  assumes p: "paused s"
  shows "wpE (\<lambda>_. False) (\<lambda>s'. ginv s' \<and> dom (heap s') = dom (heap s)) (markroot s)" (is "wpE _ ?Q _")
proof -
  let ?S = "set (tmudata s)"
  define s0 where "s0 = s\<lparr>gray := [], grayagain := [], weak := []\<rparr>"
  have m0: "minv {} ?S s0" unfolding s0_def by (rule paused_minv [OF p])
  have e0: "heap s0 = heap s" by (simp add: s0_def)
  have o0: "obj_is P s0 = obj_is P s" for P by (rule same_heap(1) [OF e0])
  have "obj_is is_thread s0 (mainthread s)" unfolding o0 using p by (simp add: paused_def)
  then obtain ob gt st tp cis op where ob: "heap s0 (mainthread s) = Some ob" "o_body ob = OThread gt st tp cis op"
    by (auto simp: obj_is_def is_thread_iff)
  have am: "alloc s0 (mainthread s)" using ob(1) by (simp add: alloc_def)
  have ag: "\<forall>r \<in> vrefs [gt]. alloc s0 r"
    using body_at [OF m0 ob(1)] ob(2) by (auto simp: body_ok_def succs_def refs_of_def intro: obj_is_alloc)
  have ar: "\<forall>r \<in> vrefs [registry s]. alloc s0 r" "\<forall>x \<in> set (mts s). \<forall>r \<in> set_option x. alloc s0 r"
    using p by (auto simp: paused_def alloc_def e0)
  have f0: "mainthread s0 = mainthread s" "registry s0 = registry s" "mts s0 = mts s" by (simp_all add: s0_def)
  have fin: "?Q (s4\<lparr>gcstate := GCSpropagate\<rparr>)"
    if m: "marks {} ?S s0 s4" and n: "nw s4 (mainthread s)" "\<forall>r \<in> vrefs [registry s]. nw s4 r" for s4
  proof -
    let ?s = "s4\<lparr>gcstate := GCSpropagate\<rparr>"
    have k: "mk s0 s4" using m by (simp add: marks_def)
    have e: "heap ?s = heap s4" by simp
    note h = same_heap [OF e]
    have f: "g_white s4 = g_white s" "tmudata s4 = tmudata s" "swept s4 = swept s" "rootgc s4 = rootgc s"
      "mainthread s4 = mainthread s" "registry s4 = registry s" "mts s4 = mts s" "uvhead s4 = uvhead s"
      using k by (simp_all add: s0_def)
    have ob4: "obj_is P s4 r = obj_is P s r" for P r using marks_obj_is [OF m] o0 by metis
    have "minv {} ?S ?s = minv {} ?S s4" by (rule minv_same) simp_all
    moreover have "opens ?s = opens s" unfolding opens_def h ob4 by (rule refl)
    moreover have "after_main ?s = after_main s" by (simp add: after_main_def f)
    moreover have "\<forall>r \<in> \<Union> (set_option ` set (mts s)). alloc ?s r"
      using ar(2) marks_alloc [OF m] by (auto simp: alloc_def)
    moreover have "dom (heap ?s) = dom (heap s)" using dom_mk [OF k] e0 by simp
    ultimately show ?thesis using p marks_inv [OF m] n unfolding ginv_def h ob4 by (simp add: f paused_def)
  qed
  have "wpE (\<lambda>_. False) ?Q (bindE (markobject (mainthread s) s0) (\<lambda>s. bindE (get_obj (mainthread s) s) (\<lambda>ob.
      bindE (case o_body ob of OThread gt _ _ _ _ \<Rightarrow> markvalue gt s | _ \<Rightarrow> Inl OutOfBounds) (\<lambda>s.
      bindE (markvalue (registry s) s) (\<lambda>s. bindE (markmt s) (\<lambda>s. Inr (s\<lparr>gcstate := GCSpropagate\<rparr>)))))))"
  proof (rule wpE_bind [OF markobject_ok [OF m0 am]], elim conjE)
    fix s1 assume s1: "marks {} ?S s0 s1" "\<forall>r \<in> {mainthread s}. nw s1 r"
    have k1: "mk s0 s1" using s1(1) by (simp add: marks_def)
    obtain ob1 where ob1: "heap s1 (mainthread s1) = Some ob1" "o_body ob1 = OThread gt st tp cis op"
      using mk_heap(2) [OF k1 ob(1)] ob(2) k1 f0 by auto
    have ag1: "\<forall>r \<in> vrefs [gt]. alloc s1 r" using ag marks_alloc [OF s1(1)] by blast
    show "wpE (\<lambda>_. False) ?Q (bindE (get_obj (mainthread s1) s1) (\<lambda>ob.
      bindE (case o_body ob of OThread gt _ _ _ _ \<Rightarrow> markvalue gt s1 | _ \<Rightarrow> Inl OutOfBounds) (\<lambda>s.
      bindE (markvalue (registry s) s) (\<lambda>s. bindE (markmt s) (\<lambda>s. Inr (s\<lparr>gcstate := GCSpropagate\<rparr>))))))"
      unfolding get_obj_ok [OF ob1(1)] bindE_Inr ob1(2) gbody.case
    proof (rule wpE_bind [OF markvalue_ok [OF marks_inv [OF s1(1)] ag1]], elim conjE)
      fix s2 assume s2: "marks {} ?S s1 s2"
      have m2: "marks {} ?S s0 s2" by (rule marks_trans [OF s1(1) s2])
      then have f2: "registry s2 = registry s" using f0 unfolding marks_def by (elim conjE) simp
      have ar2: "\<forall>r \<in> vrefs [registry s2]. alloc s2 r" unfolding f2 using ar(1) marks_alloc [OF m2] by blast
      show "wpE (\<lambda>_. False) ?Q (bindE (markvalue (registry s2) s2) (\<lambda>s. bindE (markmt s) (\<lambda>s. Inr (s\<lparr>gcstate := GCSpropagate\<rparr>))))"
      proof (rule wpE_bind [OF markvalue_ok [OF marks_inv [OF m2] ar2]], elim conjE)
        fix s3 assume s3: "marks {} ?S s2 s3" "\<forall>r \<in> vrefs [registry s2]. nw s3 r"
        have m3: "marks {} ?S s0 s3" by (rule marks_trans [OF m2 s3(1)])
        then have f3: "mts s3 = mts s" using f0 unfolding marks_def by (elim conjE) simp
        have ar3: "\<forall>x \<in> set (mts s3). \<forall>r \<in> set_option x. alloc s3 r" unfolding f3 using ar(2) marks_alloc [OF m3] by blast
        show "wpE (\<lambda>_. False) ?Q (bindE (markmt s3) (\<lambda>s. Inr (s\<lparr>gcstate := GCSpropagate\<rparr>)))" unfolding markmt_def
        proof (rule wpE_bind [OF opt_markobjects_ok [OF marks_inv [OF m3] ar3]], elim conjE)
          fix s4 assume s4: "marks {} ?S s3 s4"
          have "nw s4 (mainthread s)" using s1(2) marks_nw [OF marks_trans [OF s2 marks_trans [OF s3(1) s4]]] by simp
          moreover have "\<forall>r \<in> vrefs [registry s]. nw s4 r" using s3(2) marks_nw [OF s4] unfolding f2 by blast
          ultimately show "wpE (\<lambda>_. False) ?Q (Inr (s4\<lparr>gcstate := GCSpropagate\<rparr>))"
            using fin [OF marks_trans [OF m3 s4]] by simp
        qed
      qed
    qed
  qed
  then show ?thesis unfolding markroot_def Let_def by (simp add: s0_def)
qed

section \<open>A cycle\<close>

text \<open>
  A heap between two cycles: the main thread (0) with its globals (1), which hold a table (2) whose
  values are weak by its metatable (4), and a function (7) with an open upvalue (8); the entry (3) of the
  weak table is garbage.
\<close>

definition gc_heap :: "(ref \<times> gcobj) list" where
  "gc_heap = map (\<lambda>(a, b). (a, \<lparr>o_marked = 1, o_body = b\<rparr>))
    [(0, OThread (VRef 1) [VRef 7, VNil, VNil] 1 [2] [8]),
     (1, OTable None [VRef 2, VRef 7] []),
     (2, OTable (Some 4) [VRef 3] []),
     (3, OTable None [] []),
     (4, OTable None [] [(VRef 5, VRef 6)]),
     (5, OString [95, 95, 109, 111, 100, 101]),
     (6, OString [118]),
     (7, OLClosure 1 9 [8]),
     (8, OUpVal (UvOpen 0 0)),
     (9, OProto None [] [] [] [])]"

definition gc_state :: gstate where
  "gc_state = \<lparr>heap = map_of gc_heap, g_white = 1, gcstate = GCSpause, gray = [], grayagain = [], weak = [],
     tmudata = [], swept = [9, 7, 1, 2, 3, 4, 0], rootgc = [], strhash = [[5, 6]], sweepstrgc = 0, mainthread = 0,
     registry = VRef 1, mts = [], uvhead = [8], tm_mode = 5, tm_gc = 6\<rparr>"

lemma map_of_all: "distinct (map fst xs) \<Longrightarrow> (\<forall>a ob. map_of xs a = Some ob \<longrightarrow> P a ob) \<longleftrightarrow> (\<forall>(a, ob) \<in> set xs. P a ob)"
  by auto

lemma gc_state_paused: "paused gc_state"
proof -
  have x: "heap gc_state = map_of gc_heap" by (simp add: gc_state_def)
  have h: "(\<forall>a ob. heap gc_state a = Some ob \<longrightarrow> P a ob) \<longleftrightarrow> (\<forall>(a, ob) \<in> set gc_heap. P a ob)" for P
    unfolding x by (rule map_of_all) (simp add: gc_heap_def)
  have c: "iswhite 1" "\<not> isblack 1" "\<not> o_isdead 1 1"
    by (simp_all add: iswhite_def isblack_def o_isdead_def BLACKMASK_def WHITEBITS_def otherwhite_def)
  have l: "g_white gc_state = 1" "uvhead gc_state = [8]" "tmudata gc_state = []" "after_main gc_state = []"
    "registry gc_state = VRef 1" "mts gc_state = []" "mainthread gc_state = 0" "swept gc_state = [9, 7, 1, 2, 3, 4, 0]"
    by (simp_all add: gc_state_def after_main_def)
  note m = gc_heap_def x
  have "heap_ok gc_state"
    unfolding heap_ok_def h
    by (simp add: m finite_dom_map_of body_ok_def succs_def stack_slot_def refs_of_def obj_is_def rank_def child_rank_def is_table_def
        has_slot_def stack_lim_def)
  moreover have "\<forall>a ob. heap gc_state a = Some ob \<longrightarrow> iswhite (o_marked ob)"
    unfolding h by (simp add: gc_heap_def c)
  moreover from this have "colour_ok gc_state"
    unfolding colour_ok_def h by (simp add: gc_heap_def l c)
  moreover have "opens gc_state = {8}"
  proof -
    have "\<forall>a ob. heap gc_state a = Some ob \<longrightarrow> is_open (o_body ob) \<longrightarrow> a = 8" unfolding h by (simp add: gc_heap_def is_open_def)
    moreover have "obj_is is_open gc_state 8" by (simp add: obj_is_def m is_open_def)
    ultimately show ?thesis by (auto simp: opens_def obj_is_def)
  qed
  moreover have "obj_is is_thread gc_state 0" "alloc gc_state 1" by (simp_all add: obj_is_def alloc_def m is_thread_def)
  ultimately show ?thesis unfolding paused_def by (simp add: l c)
qed

text \<open>
  C34: A collection is safe whatever the program does meanwhile. From a state between two cycles, \<open>markroot\<close>
  starts one. Then let the program and the collector take any number of steps: stores with their
  barriers, changes of stacks, new objects of every kind, upvalues opened and closed, traversals of gray
  objects. No such traversal meets an error. And when nothing is gray any more, the atomic step, called
  from any thread and with a fuel above the number of objects for each propagation, returns. It frees
  nothing and changes no object, except that entries of tables are removed and unused parts of stacks
  cleared. And everything that can then be reached from the roots, which are the main thread, the
  running one, the registry, the metatables of the basic types and the userdata that wait for their
  finalisers, through any reference, weak ones and open upvalues included, is allocated and is not dead
  under the new white: the sweep that follows frees nothing that can be reached.
\<close>

theorem collector_safe:
  assumes "paused s"
  shows "\<exists>s0. markroot s = Inr s0 \<and>
    (\<forall>s1. mstep\<^sup>*\<^sup>* s0 s1 \<longrightarrow>
      (if gray s1 \<noteq> [] then \<exists>s2. propagatemark s1 = Inr s2
       else \<forall>L n. alloc s1 L \<and> card (dom (heap s1)) < n \<longrightarrow>
         (\<exists>s'. atomic n L s1 = Inr s' \<and> gcstate s' = GCSsweepstring \<and> g_white s' = otherwhite (g_white s1) \<and> kept s1 s' \<and>
            (\<forall>a. reach s' (gc_roots L s') a \<longrightarrow> alive s' a))))"
proof -
  obtain s0 where s0: "markroot s = Inr s0" "ginv s0" using markroot_ok [OF assms] by (cases "markroot s") auto
  have "\<exists>s2. propagatemark s1 = Inr s2" if "mstep\<^sup>*\<^sup>* s0 s1" "gray s1 \<noteq> []" for s1
  proof -
    have "minv {} (set (tmudata s1)) s1" using ginv_run [OF that(1) s0(2)] by (simp add: ginv_def)
    from propagatemark_ok [OF this that(2)] show ?thesis by (cases "propagatemark s1") auto
  qed
  moreover have "\<exists>s'. atomic n L s1 = Inr s' \<and> gcstate s' = GCSsweepstring \<and> g_white s' = otherwhite (g_white s1) \<and> kept s1 s' \<and>
      (\<forall>a. reach s' (gc_roots L s') a \<longrightarrow> alive s' a)"
    if "mstep\<^sup>*\<^sup>* s0 s1" "gray s1 = []" "alloc s1 L" "card (dom (heap s1)) < n" for s1 L n
    by (rule atomic_safe [OF ginv_pre [OF ginv_run [OF that(1) s0(2)] that(2,3)] that(4)])
  ultimately show ?thesis using s0(1) by auto
qed

theorem collector_safe_witness:
  "\<exists>s0. markroot gc_state = Inr s0 \<and>
    (\<forall>s1. mstep\<^sup>*\<^sup>* s0 s1 \<longrightarrow>
      (if gray s1 \<noteq> [] then \<exists>s2. propagatemark s1 = Inr s2
       else \<forall>L n. alloc s1 L \<and> card (dom (heap s1)) < n \<longrightarrow>
         (\<exists>s'. atomic n L s1 = Inr s' \<and> gcstate s' = GCSsweepstring \<and> g_white s' = otherwhite (g_white s1) \<and> kept s1 s' \<and>
            (\<forall>a. reach s' (gc_roots L s') a \<longrightarrow> alive s' a))))"
  by (rule collector_safe [OF gc_state_paused])

text \<open>
  C35: Marking ends: after \<open>markroot\<close> and any steps of the program and the collector, traversing gray objects
  while there are any stops after at most as many steps as there are objects, with no error, nothing gray
  left and the invariant of marking kept.
\<close>

theorem marking_ends:
  assumes "paused s" "markroot s = Inr s0" "mstep\<^sup>*\<^sup>* s0 s1" "card (dom (heap s1)) < n"
  shows "\<exists>s2. propagateall n s1 = Inr s2 \<and> gray s2 = [] \<and> ginv s2"
proof -
  have "ginv s0" using markroot_ok [OF assms(1)] assms(2) by simp
  then have g: "ginv s1" by (rule ginv_run [OF assms(3)])
  then have "minv {} (set (tmudata s1)) s1" by (simp add: ginv_def)
  from propagateall_all [OF this assms(4)] obtain s2
    where "propagateall n s1 = Inr s2" "minv {} (set (tmudata s1)) s2" "evolves s1 s2" "gray s2 = []"
    by (cases "propagateall n s1") auto
  then show ?thesis using ginv_frame [OF g frame_evolves] by auto
qed

theorem marking_ends_witness:
  "\<exists>s0 s2. markroot gc_state = Inr s0 \<and> propagateall 11 s0 = Inr s2 \<and> gray s2 = [] \<and> ginv s2"
proof -
  obtain s0 where s0: "markroot gc_state = Inr s0" "dom (heap s0) = dom (heap gc_state)"
    using markroot_ok [OF gc_state_paused] by (cases "markroot gc_state") auto
  have "dom (heap gc_state) = fst ` set gc_heap" by (simp add: gc_state_def dom_map_of_conv_image_fst)
  also have "card \<dots> \<le> length gc_heap" by (metis card_image_le card_length finite_set order_trans)
  finally have "card (dom (heap s0)) < 11" unfolding s0(2) by (simp add: gc_heap_def)
  from marking_ends [OF gc_state_paused s0(1) rtranclp.rtrancl_refl this] show ?thesis using s0(1) by blast
qed

end
