(* ===== verification/LuaGCSweep.thy ===== *)
theory LuaGCSweep
  imports LuaGCRun
begin

text \<open>
  What the clearing of weak tables removes, and what sweeping frees: exactly the entries that refer to
  something dead, and exactly the objects that are dead.
\<close>

section \<open>Weak tables\<close>

text \<open>An entry of a weak table whose object is dead; strings never are, finalised userdata are as values.\<close>

definition dead_value :: "bool \<Rightarrow> gstate \<Rightarrow> gval \<Rightarrow> bool" where
  "dead_value iskey s v \<longleftrightarrow>
     (\<exists>a ob. v = VRef a \<and> heap s a = Some ob \<and> \<not> is_string (o_body ob) \<and>
        (iswhite (o_marked ob) \<or> is_udata (o_body ob) \<and> \<not> iskey \<and> isfinalized (o_marked ob)))"

definition string_mark :: "gcobj option \<Rightarrow> gcobj option \<Rightarrow> bool" where
  "string_mark x y \<longleftrightarrow> y = x \<or> (\<exists>ob m. x = Some ob \<and> is_string (o_body ob) \<and> y = Some (ob\<lparr>o_marked := m\<rparr>))"

definition string_marks :: "gstate \<Rightarrow> gstate \<Rightarrow> bool" where
  "string_marks s s' \<longleftrightarrow> (\<forall>a. string_mark (heap s a) (heap s' a))"

lemma string_marks_refl [simp]: "string_marks s s"
  by (simp add: string_marks_def string_mark_def)

lemma string_marks_cases:
  assumes "string_marks s s'"
  obtains "heap s' a = heap s a"
    | ob m where "heap s a = Some ob" "is_string (o_body ob)" "heap s' a = Some (ob\<lparr>o_marked := m\<rparr>)"
  using assms unfolding string_marks_def string_mark_def by blast

lemma string_mark_trans: "string_mark x y \<Longrightarrow> string_mark y z \<Longrightarrow> string_mark x z"
  by (auto simp: string_mark_def)

lemma string_marks_trans: "string_marks s s1 \<Longrightarrow> string_marks s1 s2 \<Longrightarrow> string_marks s s2"
  unfolding string_marks_def using string_mark_trans by blast

lemma string_marks_other:
  assumes "string_marks s s'" "heap s a = Some ob" "\<not> is_string (o_body ob)"
  shows "heap s' a = Some ob"
  by (rule string_marks_cases [OF assms(1), of a]) (use assms(2,3) in auto)

lemma dead_value_marks [simp]:
  assumes "string_marks s s'"
  shows "dead_value k s' v = dead_value k s v"
proof (cases v)
  case (VRef a)
  show ?thesis by (rule string_marks_cases [OF assms, of a]) (auto simp: dead_value_def VRef)
qed (simp_all add: dead_value_def)

lemma alloc_marks: "string_marks s s' \<Longrightarrow> alloc s a \<Longrightarrow> alloc s' a"
  by (rule string_marks_cases [of s s' a]) (auto simp: alloc_def)

definition live_value :: "gstate \<Rightarrow> gval \<Rightarrow> bool" where   \<comment> \<open>not a dead key, and allocated\<close>
  "live_value s v \<longleftrightarrow> (\<forall>a. v \<noteq> VDead a) \<and> (\<forall>r \<in> vrefs [v]. alloc s r)"

lemma live_marks: "string_marks s s' \<Longrightarrow> live_value s v \<Longrightarrow> live_value s' v"
  by (auto simp: live_value_def alloc_marks)

lemma iscleared_exact:
  assumes "live_value s v"
  obtains s' where "iscleared v k s = Inr (dead_value k s v, s')" "string_marks s s'"
proof (cases v)
  case (VRef a)
  then obtain ob where ob: "heap s a = Some ob" using assms by (auto simp: live_value_def alloc_def)
  show ?thesis
  proof (cases "o_body ob")
    case (OString bs)
    then have "iscleared v k s = Inr (dead_value k s v, remark a ob (white2gray (o_marked ob)) s)"
      using VRef ob by (simp add: iscleared_def get_obj_ok stringmark_def upd_mark_ok dead_value_def is_string_def)
    moreover have "string_marks s (remark a ob (white2gray (o_marked ob)) s)"
      using ob OString by (auto simp: string_marks_def string_mark_def remark_def is_string_def)
    ultimately show ?thesis by (rule that)
  qed (use VRef ob that [of s] in \<open>simp_all add: iscleared_def get_obj_ok dead_value_def is_string_def is_udata_def\<close>)
qed (use assms that [of s] in \<open>simp_all add: iscleared_def dead_value_def live_value_def\<close>)

definition clear_value :: "gstate \<Rightarrow> gval \<Rightarrow> gval" where
  "clear_value s v = (if dead_value False s v then VNil else v)"

definition clear_entry :: "gstate \<Rightarrow> gval \<times> gval \<Rightarrow> gval \<times> gval" where
  "clear_entry s n =
     (if snd n \<noteq> VNil \<and> (dead_value True s (fst n) \<or> dead_value False s (snd n)) then removeentry (fst n, VNil) else n)"

lemma clear_array_exact:
  "\<forall>v \<in> set vs. live_value s v \<Longrightarrow> \<exists>s'. clear_array vs s = Inr (map (clear_value s) vs, s') \<and> string_marks s s'"
proof (induction vs)
  case (Cons v vs)
  then obtain s1 where s1: "clear_array vs s = Inr (map (clear_value s) vs, s1)" "string_marks s s1" by auto
  have "live_value s1 v" using Cons.prems live_marks [OF s1(2)] by simp
  then obtain s2 where "iscleared v False s1 = Inr (dead_value False s1 v, s2)" "string_marks s1 s2"
    by (rule iscleared_exact)
  then show ?case using s1 string_marks_trans [OF s1(2)] by (simp add: clear_value_def)
qed simp

lemma entry_cleared_exact:
  assumes "live_value s (fst n)" "live_value s (snd n)"
  shows "\<exists>s'. entry_cleared n s = Inr (dead_value True s (fst n) \<or> dead_value False s (snd n), s') \<and> string_marks s s'"
proof -
  obtain s1 where s1: "iscleared (fst n) True s = Inr (dead_value True s (fst n), s1)" "string_marks s s1"
    by (rule iscleared_exact [OF assms(1)])
  obtain s2 where s2: "iscleared (snd n) False s1 = Inr (dead_value False s1 (snd n), s2)" "string_marks s1 s2"
    by (rule iscleared_exact [OF live_marks [OF s1(2) assms(2)]])
  show ?thesis using s1 s2 string_marks_trans [OF s1(2) s2(2)] by (auto simp: entry_cleared_def)
qed

lemma clear_nodes_exact:
  "\<forall>n \<in> set ns. snd n \<noteq> VNil \<longrightarrow> live_value s (fst n) \<and> live_value s (snd n) \<Longrightarrow>
   \<exists>s'. clear_nodes ns s = Inr (map (clear_entry s) ns, s') \<and> string_marks s s'"
proof (induction ns)
  case (Cons n ns)
  then obtain s1 where s1: "clear_nodes ns s = Inr (map (clear_entry s) ns, s1)" "string_marks s s1" by auto
  show ?case
  proof (cases "snd n = VNil")
    case False
    then have "live_value s1 (fst n)" "live_value s1 (snd n)" using Cons.prems live_marks [OF s1(2)] by simp_all
    from entry_cleared_exact [OF this] obtain s2
      where "entry_cleared n s1 = Inr (dead_value True s1 (fst n) \<or> dead_value False s1 (snd n), s2)" "string_marks s1 s2" by blast
    then show ?thesis using s1 False string_marks_trans [OF s1(2)] by (auto simp: clear_entry_def)
  qed (use s1 in \<open>simp add: clear_entry_def\<close>)
qed simp

text \<open>
  C36: Clearing a weak table removes exactly the dead entries: from the array part, when the values are
  weak, the values that are white objects or userdata already finalised; from the nodes the entries
  whose key is a white object, or whose value is one or is such a userdata. Strings are never removed.
  The rest of the table stays as it is, and so does every other object but for the marks of strings.
\<close>

theorem cleartable_exact:
  assumes "heap s h = Some ob" "o_body ob = OTable mt arr node"
    "\<forall>v \<in> set arr. live_value s v" "\<forall>n \<in> set node. snd n \<noteq> VNil \<longrightarrow> live_value s (fst n) \<and> live_value s (snd n)"
  shows "\<exists>s'. cleartable [h] s = Inr s' \<and>
    heap s' h = Some (ob\<lparr>o_body := OTable mt (if o_marked ob AND VALUEWEAK \<noteq> 0 then map (clear_value s) arr else arr)
                                   (map (clear_entry s) node)\<rparr>) \<and>
    (\<forall>a. a \<noteq> h \<longrightarrow> string_mark (heap s a) (heap s' a))"
proof -
  let ?arr = "if o_marked ob AND VALUEWEAK \<noteq> 0 then map (clear_value s) arr else arr"
  obtain s1 where s1: "(if o_marked ob AND VALUEWEAK \<noteq> 0 then clear_array arr s else Inr (arr, s)) = Inr (?arr, s1)"
    "string_marks s s1" using clear_array_exact [OF assms(3)] by (cases "o_marked ob AND VALUEWEAK \<noteq> 0") auto
  have "\<forall>n \<in> set node. snd n \<noteq> VNil \<longrightarrow> live_value s1 (fst n) \<and> live_value s1 (snd n)"
    using assms(4) live_marks [OF s1(2)] by blast
  from clear_nodes_exact [OF this] obtain s2 where s2: "clear_nodes node s1 = Inr (map (clear_entry s1) node, s2)" "string_marks s1 s2"
    by blast
  have m: "string_marks s s2" by (rule string_marks_trans [OF s1(2) s2(2)])
  have e: "clear_entry s1 = clear_entry s" using s1(2) by (simp add: clear_entry_def fun_eq_iff)
  have h: "heap s2 h = Some ob" by (rule string_marks_other [OF m assms(1)]) (simp add: assms(2) is_string_def)
  have "cleartable [h] s = Inr (change h ob (OTable mt ?arr (map (clear_entry s) node)) s2)"
    using s1(1) s2(1) by (simp add: cleartable_def cleartable1_def get_obj_ok [OF assms(1)] assms(2) e set_body_ok [OF h])
  then show ?thesis using m by (simp add: string_marks_def)
qed

definition weak_heap :: "(ref \<times> gcobj) list" where
  "weak_heap =
    [(0, \<lparr>o_marked = 16, o_body = OTable None [VRef 1, VRef 2, VRef 3, VPlain 5] [(VPlain 1, VRef 1), (VRef 4, VPlain 7)]\<rparr>),
     (1, \<lparr>o_marked = 1, o_body = OTable None [] []\<rparr>),
     (2, \<lparr>o_marked = 1, o_body = OString [97]\<rparr>),
     (3, \<lparr>o_marked = 12, o_body = OUserdata None 4\<rparr>),
     (4, \<lparr>o_marked = 4, o_body = OTable None [] []\<rparr>)]"

theorem cleartable_exact_witness:
  "\<exists>s'. cleartable [0] (gc_state\<lparr>heap := map_of weak_heap\<rparr>) = Inr s' \<and>
    heap s' 0 = Some \<lparr>o_marked = 16, o_body = OTable None [VNil, VRef 2, VNil, VPlain 5] [(VPlain 1, VNil), (VRef 4, VPlain 7)]\<rparr>"
proof -
  let ?s = "gc_state\<lparr>heap := map_of weak_heap\<rparr>"
  let ?arr = "[VRef 1, VRef 2, VRef 3, VPlain 5]" and ?node = "[(VPlain 1, VRef 1), (VRef 4, VPlain 7)]"
  have c: "iswhite 1" "\<not> iswhite 4" "\<not> iswhite 12" "isfinalized 12"
    by (simp_all add: iswhite_def WHITEBITS_def isfinalized_def FINALIZED_def)
  have l: "\<forall>v \<in> set ?arr. live_value ?s v" "\<forall>n \<in> set ?node. snd n \<noteq> VNil \<longrightarrow> live_value ?s (fst n) \<and> live_value ?s (snd n)"
    by (simp_all add: live_value_def alloc_def weak_heap_def)
  have h: "heap ?s 0 = Some \<lparr>o_marked = 16, o_body = OTable None ?arr ?node\<rparr>" by (simp add: weak_heap_def)
  have e: "map (clear_value ?s) ?arr = [VNil, VRef 2, VNil, VPlain 5]" "map (clear_entry ?s) ?node = [(VPlain 1, VNil), (VRef 4, VPlain 7)]"
    by (simp_all add: clear_value_def clear_entry_def dead_value_def weak_heap_def is_string_def is_udata_def c removeentry_def)
  have v: "(16 :: byte) AND VALUEWEAK \<noteq> 0" by (simp add: VALUEWEAK_def)
  show ?thesis using cleartable_exact [OF h _ l] v unfolding e by auto
qed

section \<open>Sweeping\<close>

text \<open>The open upvalues of a thread, and whether a sweep keeps an object.\<close>

definition openups :: "gstate \<Rightarrow> ref \<Rightarrow> ref list" where
  "openups s a = (case heap s a of Some ob \<Rightarrow> (case o_body ob of OThread _ _ _ _ op \<Rightarrow> op | _ \<Rightarrow> []) | None \<Rightarrow> [])"

definition survives :: "byte \<Rightarrow> gstate \<Rightarrow> ref \<Rightarrow> bool" where
  "survives d s a \<longleftrightarrow> (\<exists>ob. heap s a = Some ob \<and> not_dead d (o_marked ob))"

text \<open>
  What becomes of the objects that are kept: a thread keeps the open upvalues that survive, an open upvalue
  whose thread does not survive takes its value from the stack and is closed.
\<close>

definition after_body :: "byte \<Rightarrow> gstate \<Rightarrow> gbody \<Rightarrow> gbody" where
  "after_body d s b =
     (case b of
        OThread gt st tp cis op \<Rightarrow> OThread gt st tp cis (filter (survives d s) op)
      | OUpVal (UvOpen th i) \<Rightarrow>
          if survives d s th then b
          else (case uv_value (UvOpen th i) s of Inr v \<Rightarrow> OUpVal (UvClosed v) | Inl _ \<Rightarrow> b)
      | _ \<Rightarrow> b)"

definition swept_obj :: "byte \<Rightarrow> gstate \<Rightarrow> gcobj \<Rightarrow> gcobj option" where
  "swept_obj d s ob =
     (if not_dead d (o_marked ob)
      then Some \<lparr>o_marked = makewhite (g_white s) (o_marked ob), o_body = after_body d s (o_body ob)\<rparr> else None)"

text \<open>The heap after the objects of a set have been swept, with the open upvalues of the threads in it.\<close>

definition touched :: "gstate \<Rightarrow> ref set \<Rightarrow> ref set" where
  "touched s V = V \<union> (\<Union>a \<in> V. set (openups s a))"

definition swept_heap :: "byte \<Rightarrow> gstate \<Rightarrow> ref set \<Rightarrow> ref \<Rightarrow> gcobj option" where
  "swept_heap d s V a = (if a \<in> touched s V then Option.bind (heap s a) (swept_obj d s) else heap s a)"

text \<open>The upvalues that the end of a thread closes, and those that stay in the list of open upvalues.\<close>

definition closing :: "byte \<Rightarrow> gstate \<Rightarrow> ref \<Rightarrow> ref list" where
  "closing d s a = (if survives d s a then [] else filter (survives d s) (openups s a))"

definition still_open :: "byte \<Rightarrow> gstate \<Rightarrow> ref set \<Rightarrow> ref \<Rightarrow> bool" where
  "still_open d s V u \<longleftrightarrow> (\<forall>a \<in> V. u \<in> set (openups s a) \<longrightarrow> survives d s u \<and> survives d s a)"

text \<open>
  The list of all objects before a sweep: no open upvalues, and the open upvalues of a thread refer to
  slots of its stack.
\<close>

definition own_ok :: "gstate \<Rightarrow> ref \<Rightarrow> bool" where
  "own_ok s a \<longleftrightarrow>
     (\<exists>ob. heap s a = Some ob \<and> \<not> is_open (o_body ob) \<and>
        (case o_body ob of
           OThread gt st tp cis op \<Rightarrow>
             distinct op \<and> (\<forall>u \<in> set op. \<exists>m i. heap s u = Some \<lparr>o_marked = m, o_body = OUpVal (UvOpen a i)\<rparr> \<and> i < length st)
         | _ \<Rightarrow> True))"

definition sweep_wf :: "gstate \<Rightarrow> bool" where
  "sweep_wf s \<longleftrightarrow> distinct (rootgc s) \<and> distinct (uvhead s) \<and> (\<forall>a \<in> set (rootgc s). own_ok s a)"

lemma own_ups:
  assumes "own_ok s a" "u \<in> set (openups s a)"
  obtains m i where "heap s u = Some \<lparr>o_marked = m, o_body = OUpVal (UvOpen a i)\<rparr>"
proof -
  obtain ob where ob: "heap s a = Some ob" using assms(1) by (auto simp: own_ok_def)
  show thesis
  proof (cases "o_body ob")
    case (OThread gt st tp cis op)
    then have "\<exists>m i. heap s u = Some \<lparr>o_marked = m, o_body = OUpVal (UvOpen a i)\<rparr> \<and> i < length st"
      using assms ob by (simp add: own_ok_def openups_def)
    then show thesis using that by blast
  qed (use assms(2) ob in \<open>simp_all add: openups_def\<close>)
qed

lemma remove1_filter: "distinct xs \<Longrightarrow> remove1 x xs = filter (\<lambda>y. y \<noteq> x) xs"
proof -
  assume "distinct xs"
  moreover have "filter (\<lambda>y. y \<noteq> x) xs = removeAll x xs" by (induction xs) auto
  ultimately show ?thesis by (simp add: distinct_remove1_removeAll)
qed

lemma open_body: "is_open b \<Longrightarrow> \<exists>t i. b = OUpVal (UvOpen t i)"
  by (auto simp: is_open_def split: gbody.splits upv.splits)

subsection \<open>The open upvalues of a thread\<close>

definition whiten :: "byte \<Rightarrow> byte \<Rightarrow> gcobj \<Rightarrow> gcobj option" where
  "whiten d w ob = (if not_dead d (o_marked ob) then Some (ob\<lparr>o_marked := makewhite w (o_marked ob)\<rparr>) else None)"

definition whitened :: "byte \<Rightarrow> gstate \<Rightarrow> ref list \<Rightarrow> ref \<Rightarrow> gcobj option" where
  "whitened d s op x = (if x \<in> set op then Option.bind (heap s x) (whiten d (g_white s)) else heap s x)"

lemma sweep_open:
  "distinct op \<Longrightarrow> \<forall>u \<in> set op. obj_is is_open s u \<Longrightarrow> distinct (uvhead s) \<Longrightarrow>
   sweep_whole d op s =
     Inr (filter (survives d s) op, s\<lparr>heap := whitened d s op, uvhead := filter (\<lambda>u. u \<in> set op \<longrightarrow> survives d s u) (uvhead s)\<rparr>)"
proof (induction op arbitrary: s)
  case Nil
  have "whitened d s [] = heap s" by (simp add: whitened_def fun_eq_iff)
  then show ?case by simp
next
  case (Cons u op)
  obtain ob t i where ob: "heap s u = Some ob" "o_body ob = OUpVal (UvOpen t i)"
    using Cons.prems(2) open_body by (fastforce simp: obj_is_def)
  let ?us = "if survives d s u then uvhead s else filter (\<lambda>y. y \<noteq> u) (uvhead s)"
  let ?s = "s\<lparr>heap := (heap s)(u := whiten d (g_white s) ob), uvhead := ?us\<rparr>"
  have u: "u \<notin> set op" "distinct op" using Cons.prems(1) by simp_all
  have o: "\<forall>x \<in> set op. obj_is is_open ?s x" "distinct (uvhead ?s)"
    using Cons.prems(2,3) u(1) by (auto simp: obj_is_def)
  note IH = Cons.IH [OF u(2) o]
  have sv: "survives d ?s x = survives d s x" if "x \<noteq> u" for x using that by (simp add: survives_def)
  have f: "filter (survives d ?s) op = filter (survives d s) op" by (rule filter_cong [OF refl sv]) (use u(1) in blast)
  have h: "whitened d ?s op = whitened d s (u # op)" using ob(1) u(1) by (auto simp: whitened_def fun_eq_iff)
  have uv: "filter (\<lambda>x. x \<in> set op \<longrightarrow> survives d ?s x) (uvhead ?s) = filter (\<lambda>x. x \<in> set (u # op) \<longrightarrow> survives d s x) (uvhead s)"
  proof -
    have "(x \<in> set op \<longrightarrow> survives d ?s x) = (x \<in> set op \<longrightarrow> survives d s x)" for x using sv u(1) by (cases "x = u") auto
    then show ?thesis by (auto intro: filter_cong)
  qed
  have r: "sweep_whole d op ?s = Inr (filter (survives d s) op,
      s\<lparr>heap := whitened d s (u # op), uvhead := filter (\<lambda>x. x \<in> set (u # op) \<longrightarrow> survives d s x) (uvhead s)\<rparr>)"
    using IH unfolding f h uv by simp
  have su: "survives d s u = not_dead d (o_marked ob)" using ob(1) by (simp add: survives_def)
  show ?case
  proof (cases "not_dead d (o_marked ob)")
    case True
    then have e: "remark u ob (makewhite (g_white s) (o_marked ob)) s = ?s" by (simp add: remark_def set_obj_def whiten_def su)
    show ?thesis using True r unfolding sweep_whole.simps get_obj_ok [OF ob(1)] bindE_Inr upd_mark_ok [OF ob(1)] e by (simp add: su)
  next
    case False
    then have "freeobj u s = Inr ?s"
      using ob remove1_filter [OF Cons.prems(3)]
      by (simp add: freeobj_def get_obj_ok luaF_freeupval_def free_obj_def unlinkupval_def whiten_def su)
    then show ?thesis using False r unfolding sweep_whole.simps get_obj_ok [OF ob(1)] bindE_Inr by (simp add: su)
  qed
qed

definition relink :: "ref list \<Rightarrow> gstate \<Rightarrow> gstate" where
  "relink op s = (if swept s = [] then s\<lparr>rootgc := rev op @ rootgc s\<rparr> else s\<lparr>swept := rev op @ swept s\<rparr>)"

definition closed :: "gval list \<Rightarrow> gcobj \<Rightarrow> gcobj" where
  "closed st ob = (case o_body ob of OUpVal (UvOpen _ i) \<Rightarrow> ob\<lparr>o_body := OUpVal (UvClosed (st ! i))\<rparr> | _ \<Rightarrow> ob)"

definition close_heap :: "gval list \<Rightarrow> ref list \<Rightarrow> gstate \<Rightarrow> ref \<Rightarrow> gcobj option" where
  "close_heap st op s x = (if x \<in> set op then map_option (closed st) (heap s x) else heap s x)"

lemma closing_loop_ok:
  "distinct op \<Longrightarrow> a \<notin> set op \<Longrightarrow> heap s a = Some oa \<Longrightarrow> o_body oa = OThread gt st tp cis op0 \<Longrightarrow> distinct (uvhead s) \<Longrightarrow>
   \<forall>u \<in> set op. \<exists>m i. heap s u = Some \<lparr>o_marked = m, o_body = OUpVal (UvOpen a i)\<rparr> \<and> i < length st
      \<and> \<not> o_isdead (g_white s) m \<and> \<not> isgray m \<Longrightarrow>
   luaF_close_loop 0 op s =
     Inr ([], relink op (s\<lparr>heap := close_heap st op s, uvhead := filter (\<lambda>u. u \<notin> set op) (uvhead s)\<rparr>))"
proof (induction op arbitrary: s)
  case Nil
  have "close_heap st [] s = heap s" by (simp add: close_heap_def fun_eq_iff)
  then show ?case by (simp add: relink_def)
next
  case (Cons u op)
  obtain m i where u: "heap s u = Some \<lparr>o_marked = m, o_body = OUpVal (UvOpen a i)\<rparr>" "i < length st"
    "\<not> o_isdead (g_white s) m" "\<not> isgray m" using Cons.prems(6) by auto
  let ?t = "change u \<lparr>o_marked = m, o_body = OUpVal (UvOpen a i)\<rparr> (OUpVal (UvClosed (st ! i))) (unlinkupval u s)"
  let ?s = "link_root u ?t"
  have l: "heap ?s = (heap s)(u \<mapsto> \<lparr>o_marked = m, o_body = OUpVal (UvClosed (st ! i))\<rparr>)"
    "g_white ?s = g_white s" "uvhead ?s = filter (\<lambda>x. x \<noteq> u) (uvhead s)"
    using remove1_filter [OF Cons.prems(5)] by (simp_all add: link_root_def change_def set_obj_def unlinkupval_def)
  have ne: "u \<notin> set op" "a \<noteq> u" "distinct op" "a \<notin> set op" using Cons.prems(1,2) by auto
  have v: "uv_value (UvOpen a i) s = Inr (st ! i)"
    using Cons.prems(3,4) u(2) by (simp add: uv_value_def get_obj_ok)
  have b: "set_body u (OUpVal (UvClosed (st ! i))) (unlinkupval u s) = Inr ?t"
    by (rule set_body_ok) (simp add: unlinkupval_def u(1))
  have k: "luaC_linkupval u (st ! i) ?t = Inr ?s" using l(1) u(4) by (simp add: luaC_linkupval_def get_obj_def Let_def)
  have "luaF_close_loop 0 (u # op) s = luaF_close_loop 0 op ?s"
    using u v b k by (simp add: get_obj_ok)
  also have "\<dots> = Inr ([], relink op (?s\<lparr>heap := close_heap st op ?s, uvhead := filter (\<lambda>u. u \<notin> set op) (uvhead ?s)\<rparr>))"
    using Cons.prems(3-6) ne by (intro Cons.IH) (auto simp: l)
  also have "relink op (?s\<lparr>heap := close_heap st op ?s, uvhead := filter (\<lambda>u. u \<notin> set op) (uvhead ?s)\<rparr>) =
      relink (u # op) (s\<lparr>heap := close_heap st (u # op) s, uvhead := filter (\<lambda>x. x \<notin> set (u # op)) (uvhead s)\<rparr>)"
  proof -
    have "close_heap st op ?s = close_heap st (u # op) s" unfolding close_heap_def l
      using u(1) ne(1) by (auto simp: fun_eq_iff closed_def)
    moreover have "filter (\<lambda>u. u \<notin> set op) (uvhead ?s) = filter (\<lambda>x. x \<notin> set (u # op)) (uvhead s)"
      by (simp add: l)
    ultimately show ?thesis by (simp add: relink_def link_root_def change_def set_obj_def unlinkupval_def)
  qed
  finally show ?case .
qed


subsection \<open>One object of the list\<close>

lemma own_thread:
  assumes own: "own_ok s a" and ob: "heap s a = Some ob"
  shows "distinct (openups s a)" "\<forall>u \<in> set (openups s a). obj_is is_open s u" "a \<notin> set (openups s a)" "\<not> is_open (o_body ob)"
proof -
  show n: "\<not> is_open (o_body ob)" using own ob by (simp add: own_ok_def)
  show "distinct (openups s a)"
  proof (cases "o_body ob")
    case (OThread gt st tp cis op)
    then have "distinct op" using own ob by (simp add: own_ok_def)
    then show ?thesis using OThread ob by (simp add: openups_def)
  qed (simp_all add: openups_def ob)
  show o: "\<forall>u \<in> set (openups s a). obj_is is_open s u"
  proof
    fix u assume "u \<in> set (openups s a)"
    then obtain m i where "heap s u = Some \<lparr>o_marked = m, o_body = OUpVal (UvOpen a i)\<rparr>" by (rule own_ups [OF own])
    then show "obj_is is_open s u" by (simp add: obj_is_def is_open_def)
  qed
  then show "a \<notin> set (openups s a)" using n ob by (auto simp: obj_is_def)
qed

definition threaded :: "byte \<Rightarrow> gstate \<Rightarrow> ref \<Rightarrow> gstate" where
  "threaded d s a =
     s\<lparr>heap := (whitened d s (openups s a))(a := map_option (\<lambda>ob. ob\<lparr>o_body := after_body d s (o_body ob)\<rparr>) (heap s a)),
       uvhead := filter (\<lambda>u. u \<in> set (openups s a) \<longrightarrow> survives d s u) (uvhead s)\<rparr>"

lemma after_body_other: "\<not> is_open b \<Longrightarrow> \<not> is_thread b \<Longrightarrow> after_body d s b = b"
  by (cases b) (auto simp: after_body_def is_open_def is_thread_def split: upv.splits)

lemma sweep_thread_ok:
  assumes own: "own_ok s a" and uv: "distinct (uvhead s)"
  shows "sweep_thread d a s = Inr (threaded d s a)"
proof -
  obtain ob where ob: "heap s a = Some ob" using own by (auto simp: own_ok_def)
  note t = own_thread [OF own ob]
  show ?thesis
  proof (cases "is_thread (o_body ob)")
    case True
    then obtain gt st tp cis op where b: "o_body ob = OThread gt st tp cis op" by (cases "o_body ob") (auto simp: is_thread_def)
    then have op: "openups s a = op" using ob by (simp add: openups_def)
    note sw = sweep_open [OF t(1,2) uv, of d, unfolded op]
    have h: "heap (s\<lparr>heap := whitened d s op, uvhead := us\<rparr>) a = Some ob" for us using t(3) ob op by (simp add: whitened_def)
    show ?thesis using ob b sw
      by (simp add: sweep_thread_def get_obj_ok set_body_ok [OF h] change_def set_obj_def threaded_def op after_body_def)
  next
    case False
    then have op: "openups s a = []" using ob by (cases "o_body ob") (simp_all add: openups_def is_thread_def)
    have "ob\<lparr>o_body := after_body d s (o_body ob)\<rparr> = ob" using after_body_other [OF t(4) False] by simp
    moreover have "whitened d s [] = heap s" by (simp add: whitened_def fun_eq_iff)
    ultimately have "threaded d s a = s" using ob by (simp add: threaded_def op fun_upd_idem)
    then show ?thesis using False ob by (cases "o_body ob") (simp_all add: sweep_thread_def get_obj_ok is_thread_def)
  qed
qed

lemma makewhite_bits: "bit (makewhite w m) 0 = bit w 0" "bit (makewhite w m) 1 = bit w 1"
  by (simp_all add: mark_bits)

lemmas makewhite_bits' = makewhite_bits makewhite_bits [unfolded One_nat_def]

lemma mark_facts:
  shows "bit w 0 \<noteq> bit w 1 \<Longrightarrow> not_dead (otherwhite w) (makewhite w m)"
    and "bit w 0 \<noteq> bit w 1 \<Longrightarrow> \<not> isgray (makewhite w m)"
    and "\<not> o_isdead w (makewhite w m)"
    and "makewhite w (makewhite w m) = makewhite w m"
proof -
  show "not_dead (otherwhite w) (makewhite w m)" if "bit w 0 \<noteq> bit w 1"
  proof -
    let ?x = "(makewhite w m XOR WHITEBITS) AND otherwhite w"
    have "bit ?x 0 = (\<not> bit w 0)" "bit ?x 1 = (\<not> bit w 1)"
      by (simp_all add: bit_and_iff bit_xor_iff makewhite_bits' otherwhite_def bit_WHITEBITS)
    then have "bit ?x 0 \<or> bit ?x 1" using that by blast
    moreover have "x \<noteq> 0" if "bit x n" for x :: byte and n using that by auto
    ultimately show ?thesis unfolding not_dead_def by blast
  qed
  show "\<not> isgray (makewhite w m)" if "bit w 0 \<noteq> bit w 1" using that by (auto simp: isgray_def iswhite_bits makewhite_bits')
  show "\<not> o_isdead w (makewhite w m)" by (auto simp: o_isdead_bits makewhite_bits')
  show "makewhite w (makewhite w m) = makewhite w m" by (rule bit_eqI) (auto simp: mark_bits)
qed

text \<open>The state after one object of the list and, if it is a thread, its open upvalues.\<close>

definition visited :: "byte \<Rightarrow> gstate \<Rightarrow> ref \<Rightarrow> ref list \<Rightarrow> gstate" where
  "visited d s a p =
     relink (closing d s a)
       (s\<lparr>heap := swept_heap d s {a}, uvhead := filter (still_open d s {a}) (uvhead s),
          swept := swept s @ (if survives d s a then [a] else []), rootgc := p\<rparr>)"

lemma swept_heap_self:
  assumes own: "own_ok s a" and ob: "heap s a = Some ob" and sv: "not_dead d (o_marked ob)"
  shows "(heap (threaded d s a))(a \<mapsto> \<lparr>o_marked = makewhite (g_white s) (o_marked ob), o_body = after_body d s (o_body ob)\<rparr>)
    = swept_heap d s {a}"
proof
  fix x
  note t = own_thread [OF own ob]
  show "((heap (threaded d s a))(a \<mapsto> \<lparr>o_marked = makewhite (g_white s) (o_marked ob), o_body = after_body d s (o_body ob)\<rparr>)) x
    = swept_heap d s {a} x"
  proof (cases "x \<in> set (openups s a)")
    case True
    obtain m i where x: "heap s x = Some \<lparr>o_marked = m, o_body = OUpVal (UvOpen a i)\<rparr>" using own_ups [OF own True] .
    have "survives d s a" using ob sv by (simp add: survives_def)
    then show ?thesis using x True t(3)
      by (auto simp: threaded_def swept_heap_def touched_def whitened_def whiten_def swept_obj_def after_body_def)
  next
    case False
    then show ?thesis using ob sv by (simp add: threaded_def swept_heap_def touched_def whitened_def swept_obj_def)
  qed
qed

lemma still_open_self: "still_open d s {a} = (\<lambda>u. u \<in> set (openups s a) \<longrightarrow> survives d s u \<and> survives d s a)"
  by (simp add: still_open_def fun_eq_iff)

text \<open>The end of a thread: its surviving upvalues are closed and linked into the list of all objects.\<close>

lemma free_thread:
  assumes own: "own_ok s a" and ob: "heap s a = Some ob" and d: "\<not> not_dead d (o_marked ob)"
    and uv: "distinct (uvhead s)" and w: "bit (g_white s) 0 \<noteq> bit (g_white s) 1"
  shows "freeobj a ((threaded d s a)\<lparr>rootgc := p\<rparr>) = Inr (visited d s a p)"
proof -
  note t = own_thread [OF own ob]
  let ?t = "(threaded d s a)\<lparr>rootgc := p\<rparr>" and ?c = "filter (survives d s) (openups s a)"
  have na: "\<not> survives d s a" using ob d by (simp add: survives_def)
  have h: "heap ?t a = Some (ob\<lparr>o_body := after_body d s (o_body ob)\<rparr>)" using ob by (simp add: threaded_def)
  show ?thesis
  proof (cases "is_thread (o_body ob)")
    case False
    then have op: "openups s a = []" using ob by (cases "o_body ob") (simp_all add: openups_def is_thread_def)
    have b: "after_body d s (o_body ob) = o_body ob" by (rule after_body_other [OF t(4) False])
    have "freeobj a ?t = Inr (free_obj a ?t)"
      using h t(4) False unfolding b
      by (cases "o_body ob") (auto simp: freeobj_def get_obj_ok luaF_freeupval_def is_thread_def is_open_def split: upv.splits)
    moreover have "heap (free_obj a ?t) = swept_heap d s {a}"
      using ob d by (auto simp: free_obj_def threaded_def swept_heap_def touched_def op whitened_def swept_obj_def fun_eq_iff)
    then have "free_obj a ?t = visited d s a p"
      using na by (simp add: visited_def relink_def closing_def op still_open_self) (simp add: free_obj_def threaded_def op)
    ultimately show ?thesis by simp
  next
    case True
    then obtain gt st tp cis op where b: "o_body ob = OThread gt st tp cis op" by (cases "o_body ob") (auto simp: is_thread_def)
    then have op: "openups s a = op" using ob by (simp add: openups_def)
    have ups: "\<exists>m i. heap s u = Some \<lparr>o_marked = m, o_body = OUpVal (UvOpen a i)\<rparr> \<and> i < length st" if "u \<in> set op" for u
      using own ob b that by (simp add: own_ok_def)
    let ?ob = "ob\<lparr>o_body := OThread gt st tp cis (filter (survives d s) op)\<rparr>"
    have ht: "heap ?t a = Some ?ob" using h b by (simp add: after_body_def)
    have hu: "\<exists>m i. heap ?t u = Some \<lparr>o_marked = m, o_body = OUpVal (UvOpen a i)\<rparr> \<and> i < length st
        \<and> \<not> o_isdead (g_white ?t) m \<and> \<not> isgray m" if u: "u \<in> set ?c" for u
    proof -
      obtain m i where m: "heap s u = Some \<lparr>o_marked = m, o_body = OUpVal (UvOpen a i)\<rparr>" "i < length st" using ups [of u] u op by auto
      have "u \<noteq> a" using u t(3) by auto
      then have "heap ?t u = Some \<lparr>o_marked = makewhite (g_white s) m, o_body = OUpVal (UvOpen a i)\<rparr>"
        using u m by (auto simp: threaded_def whitened_def whiten_def survives_def)
      then show ?thesis using m mark_facts(2,3) [of "g_white s"] w by (simp add: threaded_def)
    qed
    have cl: "distinct ?c" "a \<notin> set ?c" "distinct (uvhead ?t)" using t(1,3) uv by (simp_all add: threaded_def)
    define s2 where "s2 = ?t\<lparr>heap := close_heap st ?c ?t, uvhead := filter (\<lambda>u. u \<notin> set ?c) (uvhead ?t)\<rparr>"
    have "luaF_close_loop 0 ?c ?t = Inr ([], relink ?c s2)"
      using closing_loop_ok [OF cl(1,2) ht _ cl(3)] hu by (simp add: s2_def)
    moreover have hr: "heap (relink ?c s2) a = Some ?ob"
      using ht cl(2) by (auto simp: relink_def close_heap_def s2_def)
    moreover have "get_thread a ?t = Inr (gt, st, tp, cis, ?c)" using ht op by (simp add: get_thread_def get_obj_def)
    ultimately have "luaF_close a 0 ?t = Inr (change a ?ob (OThread gt st tp cis []) (relink ?c s2))"
      by (simp add: luaF_close_def set_body_ok [OF hr]) (simp add: get_thread_def get_obj_def)
    then have "freeobj a ?t = Inr (free_obj a (change a ?ob (OThread gt st tp cis []) (relink ?c s2)))"
      using ht by (simp add: freeobj_def get_obj_def)
    moreover have "(close_heap st ?c ?t)(a := None) = swept_heap d s {a}"
    proof
      fix x
      show "((close_heap st ?c ?t)(a := None)) x = swept_heap d s {a} x"
      proof (cases "x \<in> set op")
        case True
        then obtain m i where x: "heap s x = Some \<lparr>o_marked = m, o_body = OUpVal (UvOpen a i)\<rparr>" "i < length st" using ups by blast
        have "x \<noteq> a" using True t(3) op by auto
        moreover have "uv_value (UvOpen a i) s = Inr (st ! i)" using ob b x(2) by (simp add: uv_value_def get_obj_ok)
        ultimately show ?thesis using x True na op
          by (auto simp: close_heap_def threaded_def whitened_def whiten_def swept_heap_def touched_def swept_obj_def
              after_body_def survives_def closed_def)
      next
        case False
        then show ?thesis using ob d op
          by (simp add: close_heap_def threaded_def whitened_def swept_heap_def touched_def swept_obj_def)
      qed
    qed
    moreover have "filter (\<lambda>u. u \<notin> set ?c) (uvhead ?t) = filter (still_open d s {a}) (uvhead s)"
      using na by (auto simp: threaded_def still_open_self intro: filter_cong)
    ultimately show ?thesis using na
      by (simp add: visited_def closing_def relink_def free_obj_def change_def set_obj_def s2_def) (simp add: threaded_def)
  qed
qed

lemma sweeplist_step:
  assumes r: "rootgc s = a # p" and own: "own_ok s a" and uv: "distinct (uvhead s)" and w: "bit (g_white s) 0 \<noteq> bit (g_white s) 1"
  shows "sweeplist d (Suc cnt) s = sweeplist d cnt (visited d s a p)"
proof -
  obtain ob where ob: "heap s a = Some ob" using own by (auto simp: own_ok_def)
  let ?t = "threaded d s a"
  have h: "heap ?t a = Some (ob\<lparr>o_body := after_body d s (o_body ob)\<rparr>)" using ob by (simp add: threaded_def)
  show ?thesis
  proof (cases "not_dead d (o_marked ob)")
    case True
    let ?s = "remark a (ob\<lparr>o_body := after_body d s (o_body ob)\<rparr>) (makewhite (g_white s) (o_marked ob)) ?t"
    obtain m b where mb: "ob = \<lparr>o_marked = m, o_body = b\<rparr>" by (cases ob)
    have "?s\<lparr>swept := swept s @ [a], rootgc := p\<rparr> = visited d s a p"
      using swept_heap_self [OF own ob True] True ob
      by (simp add: visited_def closing_def relink_def survives_def still_open_self remark_def set_obj_def mb)
        (simp add: threaded_def survives_def)
    moreover have "upd_mark a (makewhite (g_white s)) ?t = Inr ?s" using upd_mark_ok [OF h] by simp
    ultimately show ?thesis using r True
      by (simp add: sweep_thread_ok [OF own uv] get_obj_ok [OF h]) (simp add: threaded_def remark_def set_obj_def)
  next
    case False
    have "rootgc ?t = a # p" using r by (simp add: threaded_def)
    then show ?thesis using r False free_thread [OF own ob False uv w, of p]
      by (simp add: sweep_thread_ok [OF own uv] get_obj_ok [OF h])
  qed
qed

subsection \<open>The whole sweep\<close>

lemma visited_fields:
  "heap (visited d s a p) = swept_heap d s {a}" "uvhead (visited d s a p) = filter (still_open d s {a}) (uvhead s)"
  "g_white (visited d s a p) = g_white s"
  "rootgc (visited d s a p) = (if swept s = [] then rev (closing d s a) else []) @ p"
  "swept (visited d s a p) = (if swept s = [] then [] else rev (closing d s a)) @ swept s @ (if survives d s a then [a] else [])"
  "(visited d s a p)\<lparr>heap := h, uvhead := us, swept := q, rootgc := r\<rparr> = s\<lparr>heap := h, uvhead := us, swept := q, rootgc := r\<rparr>"
  by (auto simp: visited_def relink_def closing_def)

lemma objects_apart:
  assumes own: "own_ok s a" "own_ok s x" and ne: "x \<noteq> a"
  shows "x \<notin> touched s {a}" "u \<in> set (openups s x) \<Longrightarrow> u \<notin> touched s {a}"
proof -
  have n: "\<exists>ob. heap s y = Some ob \<and> \<not> is_open (o_body ob)" if "own_ok s y" for y using that by (auto simp: own_ok_def)
  have o: "\<exists>m i. heap s u = Some \<lparr>o_marked = m, o_body = OUpVal (UvOpen y i)\<rparr>" if "own_ok s y" "u \<in> set (openups s y)" for u y
    using own_ups [OF that] by metis
  show "x \<notin> touched s {a}" using n [OF own(2)] o [OF own(1), of x] ne by (auto simp: touched_def is_open_def)
  show "u \<notin> touched s {a}" if u: "u \<in> set (openups s x)"
    using o [OF own(2) u] o [OF own(1), of u] n [OF own(1)] ne by (auto simp: touched_def is_open_def)
qed

lemma swept_compose:
  assumes own: "own_ok s a" and V: "\<forall>x \<in> V. own_ok s x" "a \<notin> V"
    and s1: "heap s1 = swept_heap d s {a}" "g_white s1 = g_white s"
  shows "x \<in> V \<Longrightarrow> survives d s1 x = survives d s x" "x \<in> V \<Longrightarrow> openups s1 x = openups s x"
    "x \<in> V \<Longrightarrow> u \<in> set (openups s x) \<Longrightarrow> survives d s1 u = survives d s u"
    "swept_heap d s1 V = swept_heap d s (insert a V)"
proof -
  have out: "heap s1 x = heap s x" if "x \<notin> touched s {a}" for x using that by (simp add: s1 swept_heap_def)
  have v: "heap s1 x = heap s x" if "x \<in> V" for x using out objects_apart(1) own V that by metis
  have o: "heap s1 u = heap s u" if "x \<in> V" "u \<in> set (openups s x)" for x u using out objects_apart(2) own V that by metis
  show sv: "survives d s1 x = survives d s x" if "x \<in> V" for x using v [OF that] by (simp add: survives_def)
  show op: "openups s1 x = openups s x" if "x \<in> V" for x using v [OF that] by (simp add: openups_def)
  show so: "survives d s1 u = survives d s u" if "x \<in> V" "u \<in> set (openups s x)" for x u
    using o [OF that] by (simp add: survives_def)
  have t: "touched s1 V = touched s V" using op by (simp add: touched_def)
  have t2: "touched s (insert a V) = touched s {a} \<union> touched s V" by (auto simp: touched_def)
  have tv: "x \<notin> touched s {a}" if "x \<in> touched s V" for x
    using that objects_apart [OF own] V by (auto simp: touched_def [of s V])
  have obj: "swept_obj d s1 ob = swept_obj d s ob" if x: "x \<in> touched s V" "heap s x = Some ob" for x ob
  proof -
    have "after_body d s1 (o_body ob) = after_body d s (o_body ob)"
    proof (cases "x \<in> V")
      case True
      then have n: "\<not> is_open (o_body ob)" using V x(2) own_thread(4) by blast
      show ?thesis
      proof (cases "is_thread (o_body ob)")
        case th: True
        then obtain gt st tp cis op where b: "o_body ob = OThread gt st tp cis op" by (cases "o_body ob") (auto simp: is_thread_def)
        then have "openups s x = op" using x(2) by (simp add: openups_def)
        then have "filter (survives d s1) op = filter (survives d s) op" using so [OF True] by (auto intro: filter_cong)
        then show ?thesis by (simp add: after_body_def b)
      qed (simp add: after_body_other n)
    next
      case False
      then obtain y where y: "y \<in> V" "x \<in> set (openups s y)" using x(1) by (auto simp: touched_def)
      obtain m i where "ob = \<lparr>o_marked = m, o_body = OUpVal (UvOpen y i)\<rparr>"
        using own_ups [OF _ y(2)] V y(1) x(2) by (metis option.inject)
      then show ?thesis using sv [OF y(1)] v [OF y(1)] by (simp add: after_body_def uv_value_def get_obj_def)
    qed
    then show ?thesis by (simp add: swept_obj_def s1(2))
  qed
  show "swept_heap d s1 V = swept_heap d s (insert a V)"
  proof
    fix x
    show "swept_heap d s1 V x = swept_heap d s (insert a V) x"
    proof (cases "x \<in> touched s V")
      case True
      then have "swept_heap d s1 V x = Option.bind (heap s x) (swept_obj d s1)"
        using out [OF tv [OF True]] by (simp add: swept_heap_def t)
      also have "\<dots> = Option.bind (heap s x) (swept_obj d s)" using obj [OF True] by (cases "heap s x") auto
      finally show ?thesis using True by (simp add: swept_heap_def t2)
    next
      case False
      then show ?thesis using s1(1) by (simp add: swept_heap_def t t2)
    qed
  qed
qed

text \<open>A closed upvalue that has been swept and is linked where the sweep goes on stays as it is.\<close>

definition fresh_upval :: "gstate \<Rightarrow> ref \<Rightarrow> bool" where
  "fresh_upval s u \<longleftrightarrow> (\<exists>m v. heap s u = Some \<lparr>o_marked = makewhite (g_white s) m, o_body = OUpVal (UvClosed v)\<rparr>)"

lemma fresh_upval:
  assumes "fresh_upval s u" "bit (g_white s) 0 \<noteq> bit (g_white s) 1"
  shows "survives (otherwhite (g_white s)) s u" "openups s u = []" "own_ok s u"
    "Option.bind (heap s u) (swept_obj (otherwhite (g_white s)) s) = heap s u"
  using assms mark_facts(1,4) [of "g_white s"]
  by (auto simp: fresh_upval_def survives_def openups_def own_ok_def is_open_def swept_obj_def after_body_def)

lemma swept_again:
  assumes "\<forall>u \<in> C. fresh_upval s u" "bit (g_white s) 0 \<noteq> bit (g_white s) 1"
  shows "swept_heap (otherwhite (g_white s)) s (C \<union> V) = swept_heap (otherwhite (g_white s)) s V"
proof
  fix x
  have "touched s (C \<union> V) = C \<union> touched s V" using assms fresh_upval(2) by (fastforce simp: touched_def)
  then show "swept_heap (otherwhite (g_white s)) s (C \<union> V) x = swept_heap (otherwhite (g_white s)) s V x"
    using assms fresh_upval(4) by (auto simp: swept_heap_def)
qed

lemma closing_fresh:
  assumes own: "own_ok s a" and u: "u \<in> set (closing d s a)"
  shows "fresh_upval (visited d s a p) u" "u \<in> set (openups s a)"
proof -
  have na: "\<not> survives d s a" and o: "u \<in> set (openups s a)" and su: "survives d s u"
    using u by (auto simp: closing_def split: if_splits)
  obtain ob where ob: "heap s a = Some ob" using own by (auto simp: own_ok_def)
  then obtain gt st tp cis op where b: "o_body ob = OThread gt st tp cis op"
    using o by (cases "o_body ob") (auto simp: openups_def)
  then obtain m i where m: "heap s u = Some \<lparr>o_marked = m, o_body = OUpVal (UvOpen a i)\<rparr>" "i < length st"
    using own ob o by (auto simp: own_ok_def openups_def)
  have "swept_heap d s {a} u = Some \<lparr>o_marked = makewhite (g_white s) m, o_body = OUpVal (UvClosed (st ! i))\<rparr>"
    using m o su na ob b
    by (simp add: swept_heap_def touched_def swept_obj_def after_body_def uv_value_def get_obj_ok survives_def)
  then show "fresh_upval (visited d s a p) u" by (auto simp: fresh_upval_def visited_fields)
  show "u \<in> set (openups s a)" using o .
qed

lemma visited_wf:
  assumes wf: "sweep_wf s" and r: "rootgc s = a # p"
  shows "sweep_wf (visited d s a p)"
proof -
  have own: "own_ok s a" "\<forall>x \<in> set p. own_ok s x" and d: "a \<notin> set p" "distinct p" "distinct (uvhead s)"
    using wf r by (auto simp: sweep_wf_def)
  let ?s = "visited d s a p"
  obtain ob where ob: "heap s a = Some ob" using own(1) by (auto simp: own_ok_def)
  have fu: "own_ok ?s u" "u \<notin> set p" if u: "u \<in> set (closing d s a)" for u
  proof -
    show "own_ok ?s u"
      using closing_fresh(1) [OF own(1) u, of p] by (auto simp: fresh_upval_def own_ok_def is_open_def)
    have "obj_is is_open s u" using own_thread(2) [OF own(1) ob] closing_fresh(2) [OF own(1) u] by blast
    then show "u \<notin> set p" using own(2) by (auto simp: obj_is_def own_ok_def)
  qed
  have "own_ok ?s x" if x: "x \<in> set p" for x
  proof -
    have ne: "x \<noteq> a" and ox: "own_ok s x" using x d(1) own(2) by auto
    have h: "heap ?s y = heap s y" if "y \<notin> touched s {a}" for y using that by (simp add: visited_fields swept_heap_def)
    have hx: "heap ?s x = heap s x" using h objects_apart(1) [OF own(1) ox ne] by simp
    have hu: "heap ?s u = heap s u" if "u \<in> set (openups s x)" for u using h objects_apart(2) [OF own(1) ox ne that] by simp
    obtain ox1 where o: "heap s x = Some ox1" using ox by (auto simp: own_ok_def)
    show ?thesis
    proof (cases "o_body ox1")
      case (OThread gt st tp cis op)
      then show ?thesis using ox o hx hu by (simp add: own_ok_def openups_def)
    qed (use ox o hx in \<open>simp_all add: own_ok_def\<close>)
  qed
  moreover have "distinct (closing d s a)" using own_thread(1) [OF own(1) ob] by (simp add: closing_def)
  ultimately show ?thesis using fu d by (auto simp: sweep_wf_def visited_fields)
qed

text \<open>What a sweep of \<open>cnt\<close> objects leaves behind, when \<open>V\<close> are the objects swept and \<open>r\<close> what it linked again.\<close>

definition sweep_post :: "nat \<Rightarrow> gstate \<Rightarrow> nat \<Rightarrow> ref list \<Rightarrow> gstate \<Rightarrow> bool" where
  "sweep_post cnt s n r s' \<longleftrightarrow>
     (let d = otherwhite (g_white s); V = take n (rootgc s); C = concat (map (closing d s) V)
      in s' = s\<lparr>heap := swept_heap d s (set V), uvhead := filter (still_open d s (set V)) (uvhead s),
                swept := swept s', rootgc := r @ drop n (rootgc s)\<rparr>
         \<and> swept s' @ r = rev C @ swept s @ filter (survives d s) V \<and> set r \<subseteq> set C
         \<and> n \<le> cnt \<and> cnt \<le> n + length C \<and> (0 < cnt \<longrightarrow> 0 < n) \<and> (swept s \<noteq> [] \<longrightarrow> n = cnt \<and> r = []))"

lemma sweep_post_visited:
  assumes wf: "sweep_wf s" and r: "rootgc s = a # p" and w: "bit (g_white s) 0 \<noteq> bit (g_white s) 1"
    and post: "sweep_post cnt (visited (otherwhite (g_white s)) s a p) n1 r1 s'"
  shows "\<exists>n r. sweep_post (Suc cnt) s n r s'"
proof -
  let ?d = "otherwhite (g_white s)" and ?us = "uvhead s"
  let ?s = "visited ?d s a p" and ?c = "closing ?d s a"
  define C1 where "C1 = (if swept s = [] then rev ?c else [])"
  define m where "m = n1 - length C1"
  define V where "V = take m p"
  have own: "own_ok s a" "\<forall>x \<in> set V. own_ok s x" "a \<notin> set V"
    using wf r by (auto simp: sweep_wf_def V_def dest: in_set_takeD)
  have root: "rootgc ?s = C1 @ p" by (simp add: visited_fields C1_def)
  have V1: "take n1 (rootgc ?s) = take n1 C1 @ V" "drop n1 (rootgc ?s) = drop n1 C1 @ drop m p"
    by (simp_all add: root m_def V_def)
  have w1: "bit (g_white ?s) 0 \<noteq> bit (g_white ?s) 1" "otherwhite (g_white ?s) = ?d" using w by (simp_all add: visited_fields)
  have fr: "fresh_upval ?s u" if "u \<in> set C1" for u
    using that closing_fresh(1) [OF own(1), of u ?d p] by (auto simp: C1_def split: if_splits)
  then have frt: "\<forall>u \<in> set (take n1 C1). fresh_upval ?s u" by (auto dest: in_set_takeD)
  note sc = swept_compose [OF own visited_fields(1,3) [of ?d s a p]]
  have cf: "survives ?d ?s u" "openups ?s u = []" if "u \<in> set (take n1 C1)" for u
    using fresh_upval(1,2) [OF _ w1(1), unfolded w1(2)] frt that by blast+
  have cl: "concat (map (closing ?d ?s) (take n1 C1 @ V)) = concat (map (closing ?d s) V)"
  proof -
    have "concat (map (closing ?d ?s) (take n1 C1)) = []" using cf(1) by (simp add: closing_def)
    moreover have "closing ?d ?s x = closing ?d s x" if "x \<in> set V" for x
      using sc(1-3) [OF that] by (auto simp: closing_def intro: filter_cong)
    then have "map (closing ?d ?s) V = map (closing ?d s) V" by simp
    ultimately show ?thesis by (simp only: map_append concat_append append_Nil)
  qed
  have fs: "filter (survives ?d ?s) (take n1 C1 @ V) = take n1 C1 @ filter (survives ?d s) V"
  proof -
    have "filter (survives ?d ?s) (take n1 C1) = take n1 C1" using cf(1) by simp
    moreover have "filter (survives ?d ?s) V = filter (survives ?d s) V" by (rule filter_cong [OF refl sc(1)])
    ultimately show ?thesis by (simp only: filter_append)
  qed
  have sh: "swept_heap ?d ?s (set (take n1 C1 @ V)) = swept_heap ?d s (insert a (set V))"
    using swept_again [OF frt w1(1), of "set V", unfolded w1(2)] sc(4) by (simp only: set_append)
  have so: "filter (still_open ?d ?s (set (take n1 C1 @ V))) (uvhead ?s) = filter (still_open ?d s (insert a (set V))) ?us"
  proof -
    have "still_open ?d ?s (set (take n1 C1 @ V)) u = still_open ?d s (set V) u" for u
      using cf(2) sc(1-3) unfolding still_open_def by (simp only: set_append ball_Un) (auto simp: ball_empty)
    moreover have "still_open ?d s (insert a (set V)) u \<longleftrightarrow> still_open ?d s {a} u \<and> still_open ?d s (set V) u" for u
      by (auto simp: still_open_def)
    ultimately show ?thesis by (simp add: visited_fields) (rule filter_cong, auto)
  qed
  have P: "s' = ?s\<lparr>heap := swept_heap ?d s (insert a (set V)), uvhead := filter (still_open ?d s (insert a (set V))) ?us,
                swept := swept s', rootgc := r1 @ drop n1 C1 @ drop m p\<rparr>"
    "swept s' @ r1 = rev (concat (map (closing ?d s) V)) @ swept ?s @ take n1 C1 @ filter (survives ?d s) V"
    "set r1 \<subseteq> set (concat (map (closing ?d s) V))" "n1 \<le> cnt" "cnt \<le> n1 + length (concat (map (closing ?d s) V))"
    "swept ?s \<noteq> [] \<longrightarrow> n1 = cnt \<and> r1 = []"
    using post unfolding sweep_post_def Let_def V1 w1(2) cl fs sh so append_assoc by blast+
  have two: "take n1 C1 @ filter (survives ?d s) V @ drop n1 C1 = C1 @ filter (survives ?d s) V"
  proof (cases "n1 \<le> length C1")
    case True
    then have "V = []" by (simp add: V_def m_def)
    then show ?thesis by simp
  qed (simp add: m_def)
  have "sweep_post (Suc cnt) s (Suc m) (r1 @ drop n1 C1) s'"
    unfolding sweep_post_def Let_def
  proof (intro conjI)
    have tk: "take (Suc m) (rootgc s) = a # V" "drop (Suc m) (rootgc s) = drop m p" by (simp_all add: r V_def)
    show "s' = s\<lparr>heap := swept_heap ?d s (set (take (Suc m) (rootgc s))),
        uvhead := filter (still_open ?d s (set (take (Suc m) (rootgc s)))) ?us, swept := swept s',
        rootgc := (r1 @ drop n1 C1) @ drop (Suc m) (rootgc s)\<rparr>"
      using P(1) unfolding visited_fields(6) tk by (simp only: list.set append_assoc)
    show "swept s' @ r1 @ drop n1 C1 =
        rev (concat (map (closing ?d s) (take (Suc m) (rootgc s)))) @ swept s @ filter (survives ?d s) (take (Suc m) (rootgc s))"
    proof (cases "swept s = []")
      case True
      have "(swept s' @ r1) @ drop n1 C1 = rev (concat (map (closing ?d s) V)) @ swept ?s @ C1 @ filter (survives ?d s) V"
        unfolding P(2) using two by (simp only: append_assoc)
      then show ?thesis using True unfolding tk by (simp add: visited_fields C1_def closing_def)
    next
      case False
      then have c1: "C1 = []" by (simp add: C1_def)
      show ?thesis using P(2) False unfolding tk c1 by (simp add: visited_fields)
    qed
    show "set (r1 @ drop n1 C1) \<subseteq> set (concat (map (closing ?d s) (take (Suc m) (rootgc s))))"
      using P(3) unfolding tk by (auto simp: C1_def dest: in_set_dropD split: if_splits)
    show "Suc m \<le> Suc cnt" "Suc cnt \<le> Suc m + length (concat (map (closing ?d s) (take (Suc m) (rootgc s))))"
      using P(4,5) unfolding tk by (auto simp: C1_def m_def)
    show "0 < Suc cnt \<longrightarrow> 0 < Suc m" by simp
    show "swept s \<noteq> [] \<longrightarrow> Suc m = Suc cnt \<and> r1 @ drop n1 C1 = []"
      using P(6) by (auto simp: visited_fields C1_def m_def)
  qed
  then show ?thesis by blast
qed

lemma sweeplist_post:
  "sweep_wf s \<Longrightarrow> bit (g_white s) 0 \<noteq> bit (g_white s) 1 \<Longrightarrow>
   \<exists>n r s'. sweeplist (otherwhite (g_white s)) cnt s = Inr s' \<and> sweep_post cnt s n r s'"
proof (induction cnt arbitrary: s)
  case 0
  have "sweep_post 0 s 0 [] s"
    by (simp add: sweep_post_def swept_heap_def touched_def still_open_def fun_eq_iff)
  then show ?case by auto
next
  case (Suc cnt)
  show ?case
  proof (cases "rootgc s")
    case Nil
    have "sweep_post (Suc cnt) s (Suc cnt) [] s"
      using Nil by (simp add: sweep_post_def swept_heap_def touched_def still_open_def fun_eq_iff)
    then show ?thesis using Nil by auto
  next
    case (Cons a p)
    let ?s = "visited (otherwhite (g_white s)) s a p"
    have own: "own_ok s a" "distinct (uvhead s)" using Suc.prems(1) Cons by (auto simp: sweep_wf_def)
    have "bit (g_white ?s) 0 \<noteq> bit (g_white ?s) 1" using Suc.prems(2) by (simp add: visited_fields)
    from Suc.IH [OF visited_wf [OF Suc.prems(1) Cons] this]
    obtain n r s' where "sweeplist (otherwhite (g_white s)) cnt ?s = Inr s'" "sweep_post cnt ?s n r s'"
      by (auto simp: visited_fields)
    then show ?thesis
      using sweeplist_step [OF Cons own Suc.prems(2)] sweep_post_visited [OF Suc.prems(1) Cons Suc.prems(2)] by auto
  qed
qed

text \<open>
  C37: Sweeping \<open>cnt\<close> objects of the list of all objects frees exactly the dead ones, with the threads among
  them and their open upvalues. Of the objects \<open>V\<close> that the sweep reaches, those that survive stay in the
  list in their order, white for the next cycle; the others are freed. A thread that survives keeps the
  open upvalues that survive, the dead ones are freed; when a thread is freed, its surviving upvalues are
  closed with the value of their stack slot, leave the list of open upvalues and are linked at the head of
  the list of all objects. No other object is touched, and memory that is not allocated is not read. Only
  when nothing before the position of the sweep is left can the upvalues linked again fall after that
  position, so that they are swept as well and take a part of the count: \<open>n\<close> of the original objects are
  reached then, and \<open>r\<close> is what is left of those upvalues.
\<close>

theorem sweep_exact:
  assumes "sweep_wf s" "bit (g_white s) 0 \<noteq> bit (g_white s) 1"
  shows "\<exists>n r s'. sweeplist (otherwhite (g_white s)) cnt s = Inr s' \<and>
    (let d = otherwhite (g_white s); V = take n (rootgc s); C = concat (map (closing d s) V)
     in s' = s\<lparr>heap := swept_heap d s (set V), uvhead := filter (still_open d s (set V)) (uvhead s),
               swept := swept s', rootgc := r @ drop n (rootgc s)\<rparr>
        \<and> swept s' @ r = rev C @ swept s @ filter (survives d s) V \<and> set r \<subseteq> set C
        \<and> n \<le> cnt \<and> cnt \<le> n + length C \<and> (0 < cnt \<longrightarrow> 0 < n) \<and> (swept s \<noteq> [] \<longrightarrow> n = cnt \<and> r = []))"
  using sweeplist_post [OF assms, of cnt] unfolding sweep_post_def .

definition sweep_demo :: "(ref \<times> gcobj) list" where
  "sweep_demo =
    [(8, \<lparr>o_marked = 1, o_body = OThread VNil [VPlain 10, VPlain 11] 2 [2] [5, 6]\<rparr>),
     (2, \<lparr>o_marked = 4, o_body = OThread VNil [VPlain 12] 1 [1] [7]\<rparr>),
     (3, \<lparr>o_marked = 1, o_body = OTable None [] []\<rparr>),
     (4, \<lparr>o_marked = 12, o_body = OUserdata None 4\<rparr>),
     (5, \<lparr>o_marked = 4, o_body = OUpVal (UvOpen 8 1)\<rparr>),
     (6, \<lparr>o_marked = 1, o_body = OUpVal (UvOpen 8 0)\<rparr>),
     (7, \<lparr>o_marked = 1, o_body = OUpVal (UvOpen 2 0)\<rparr>)]"

theorem sweep_exact_witness:
  "\<exists>s'. sweeplist 1 GCSWEEPMAX (gc_state\<lparr>heap := map_of sweep_demo, g_white := 2, uvhead := [7, 5, 6], swept := [0], rootgc := [8, 2, 3, 4]\<rparr>) = Inr s' \<and>
    swept s' = [5, 0, 2, 4] \<and> rootgc s' = [] \<and> uvhead s' = [] \<and> map (heap s') [8, 3, 6, 7] = [None, None, None, None] \<and>
    heap s' 2 = Some \<lparr>o_marked = 2, o_body = OThread VNil [VPlain 12] 1 [1] []\<rparr> \<and>
    heap s' 5 = Some \<lparr>o_marked = 2, o_body = OUpVal (UvClosed (VPlain 11))\<rparr>"
proof -
  let ?s = "gc_state\<lparr>heap := map_of sweep_demo, g_white := 2, uvhead := [7, 5, 6], swept := [0], rootgc := [8, 2, 3, 4]\<rparr>"
  have wf: "sweep_wf ?s" by (simp add: sweep_wf_def own_ok_def sweep_demo_def is_open_def)
  have b: "bit (g_white ?s) 0 \<noteq> bit (g_white ?s) 1" by (simp add: bit_numeral_rec)
  have d: "otherwhite (2 :: byte) = 1" by (simp add: otherwhite_def WHITEBITS_def)
  have n: "\<not> not_dead 1 1" "not_dead 1 4" "not_dead 1 12" by (simp_all add: not_dead_def WHITEBITS_def)
  have w: "makewhite 2 4 = 2" by (simp add: makewhite_def maskmarks_def BLACKMASK_def WHITEBITS_def luaC_white_def)
  have o: "openups ?s 8 = [5, 6]" "openups ?s 2 = [7]" "openups ?s 3 = []" "openups ?s 4 = []"
    by (simp_all add: openups_def sweep_demo_def)
  have v: "\<not> survives 1 ?s 8" "survives 1 ?s 2" "\<not> survives 1 ?s 3" "survives 1 ?s 4" "survives 1 ?s 5" "\<not> survives 1 ?s 6" "\<not> survives 1 ?s 7"
    by (simp_all add: survives_def sweep_demo_def n)
  obtain s' where s': "sweeplist 1 GCSWEEPMAX ?s = Inr s'" "heap s' = swept_heap 1 ?s {8, 2, 3, 4}"
    "uvhead s' = filter (still_open 1 ?s {8, 2, 3, 4}) [7, 5, 6]" "rootgc s' = []"
    "swept s' = rev (concat (map (closing 1 ?s) [8, 2, 3, 4])) @ [0] @ filter (survives 1 ?s) [8, 2, 3, 4]"
    using sweep_exact [OF wf b, of GCSWEEPMAX] by (auto simp: d GCSWEEPMAX_def Let_def)
  have sw: "swept s' = [5, 0, 2, 4]" unfolding s'(5) by (simp add: closing_def o v)
  have us: "uvhead s' = []" unfolding s'(3) by (simp add: still_open_def o v)
  have "touched ?s {8, 2, 3, 4} = {8, 2, 3, 4, 5, 6, 7}" by (auto simp: touched_def o)
  then have h: "heap s' x = Option.bind (map_of sweep_demo x) (swept_obj 1 ?s)" if "x \<in> {8, 2, 3, 4, 5, 6, 7}" for x
    using that by (simp add: s'(2) swept_heap_def)
  have m: "map_of sweep_demo 8 = Some \<lparr>o_marked = 1, o_body = OThread VNil [VPlain 10, VPlain 11] 2 [2] [5, 6]\<rparr>"
    "map_of sweep_demo 2 = Some \<lparr>o_marked = 4, o_body = OThread VNil [VPlain 12] 1 [1] [7]\<rparr>"
    "map_of sweep_demo 3 = Some \<lparr>o_marked = 1, o_body = OTable None [] []\<rparr>"
    "map_of sweep_demo 5 = Some \<lparr>o_marked = 4, o_body = OUpVal (UvOpen 8 1)\<rparr>"
    "map_of sweep_demo 6 = Some \<lparr>o_marked = 1, o_body = OUpVal (UvOpen 8 0)\<rparr>"
    "map_of sweep_demo 7 = Some \<lparr>o_marked = 1, o_body = OUpVal (UvOpen 2 0)\<rparr>" by (simp_all add: sweep_demo_def)
  have "uv_value (UvOpen 8 1) ?s = Inr (VPlain 11)" by (simp add: uv_value_def get_obj_def m)
  then have hs: "map (heap s') [8, 3, 6, 7] = [None, None, None, None]"
    "heap s' 2 = Some \<lparr>o_marked = 2, o_body = OThread VNil [VPlain 12] 1 [1] []\<rparr>"
    "heap s' 5 = Some \<lparr>o_marked = 2, o_body = OUpVal (UvClosed (VPlain 11))\<rparr>"
    by (simp_all add: h m swept_obj_def n w after_body_def v)
  show ?thesis by (rule exI [of _ s'], intro conjI) (fact s' sw us hs)+
qed

end
