(* ===== verification/Spec2Isabelle.thy ===== *)
theory Spec2Isabelle
  imports SocketObj LuaTableIter LuaGsub LuaVerify LuaTabMain LuaGCSweep
begin

text \<open>
  A verification development for the socket client library for Lua scripts and the Lua 5.1 interpreter
  it embeds (all paths below are under \<open>src/\<close>).

  The program. A script talks to servers through \<open>SocketObject\<close>s and \<open>CLuaMsg\<close> handles
  (\<open>eng_socket.cpp\<close>, \<open>LuaMsg.cpp\<close>). Each socket has a \<open>CConnectionManager\<close>
  (\<open>ConnectionManager.cpp\<close>) that a periodic \<open>Update\<close> drives through connecting, sending and receiving.
  Messages (\<open>NetMessage.cpp\<close>) are typed fields in a buffer from a pool, framed by a header of two or six
  bytes. \<open>SocketCommon.cpp\<close> wraps the system calls. The scripts run in the Lua interpreter
  (\<open>lua/src\<close>), of which the data structures and the libraries that have a contract of their own are
  modelled: instructions, values, tables, strings, streams, precompiled chunks and the checker of their
  code, string buffers, the string and the table library, and the garbage collector.

  Conventions (theory \<open>Prelude\<close>). Memory is explicit: a buffer is the list of its bytes with checked
  access, and everything that C or C++ leaves undefined (an access outside an object, a null or dangling
  pointer, overflow of a signed integer) is an error value of type \<open>ub\<close>, as is a loop that uses up its
  bound (\<open>Diverges\<close>). So a theorem that a call returns a value, or an error that the code reports, says
  that it does none of these. \<open>wpE\<close> is the rule by which proofs follow the sequence of the code. Signed
  integers are \<open>int\<close>s with their range checked where the code computes with them; unsigned and
  fixed-width ones are words. What is not under \<open>src\<close> is a parameter: \<open>malloc\<close> and \<open>realloc\<close>, the
  system calls (a record of functions on a world), the block reader and the dump writer of Lua chunks, the
  allocator of Lua, functions and tables given to \<open>string.gsub\<close>.

  Theories, and what their lemmas show.

  \<^item> \<open>BufPool\<close> models \<open>MemBuffer\<close> and \<open>CMessageBufPool\<close>: the pool stays sorted, a request is answered
    with the best fit.
  \<^item> \<open>NetMsg\<close> has the state and the operations of \<open>NetMessage\<close>, \<open>NetCodec\<close> the fields (what is
    written is read back, buffers grow as needed; a locale for field codecs with one interpretation per
    type), \<open>NetFrame\<close> the frames: a frame transmitted and received in any pieces of its payload is the
    message, and two ways in which a peer makes the receiver write past its buffer.
  \<^item> \<open>SocketLayer\<close> is \<open>CSocketCommon\<close> over the system calls of the POSIX branch.
  \<^item> \<open>ConnMgr\<close> models the connection manager and proves its invariant (a socket exists exactly while
    connecting or connected; the queues own live messages once each) over every public method and the
    steps of the peer and the clock; \<open>ConnRun\<close> shows what a whole \<open>Update\<close> does with queues and traffic, in
    any pieces that do not cut a frame header, the timeout of connecting, and where it dereferences null.
  \<^item> \<open>SocketObj\<close> models the script objects, and sequences of script calls on them: no call uses or
    frees a message that is gone, and no message has two owners.
  \<^item> \<open>LuaOpcodes\<close> is the instruction format, \<open>LuaObject\<close> values, raw equality and the number codings
    of \<open>lobject.c\<close>, \<open>LuaZio\<close> the input streams, \<open>LuaDump\<close> writing and reading precompiled chunks: a
    dump is loaded back equal.
  \<^item> \<open>LuaString\<close> models interned strings: each content once, also while the table grows.
  \<^item> \<open>LuaTable\<close> is \<open>ltable.c\<close>, with the nodes of the hash part as a list and checked access to the array,
    the nodes and the counters of a rehash; \<open>LuaTableInv\<close> its invariant over a locale of hashing,
    \<open>LuaTableMap\<close> and \<open>LuaTableRehash\<close> the effect of insertion with Brent's variation and of a rehash,
    \<open>LuaTableMain\<close> the refinement of a map (through the locale \<open>key_store\<close>) and termination, for keys of
    every kind with the errors of nil, NaN and \<open>-2^31\<close>; \<open>LuaTableIter\<close> traversal, also when fields are
    cleared and the collector makes dead keys of them on the way, and length.
  \<^item> \<open>LuaBuffer\<close> models the string buffers of the auxiliary library and gives them the interface
    \<open>string_builder\<close>; \<open>LuaStrlib\<close> is the string library over it; \<open>LuaPattern\<close> proves the matcher safe
    (the locale \<open>matcher_contract\<close> states what the mutually recursive functions rely on) and plain search
    correct; \<open>LuaGsub\<close> treats substitution and the simple functions.
  \<^item> \<open>LuaVerify\<close> models the checker of precompiled code (\<open>ldebug.c\<close>) and, of the virtual machine, what
    each instruction touches, what it does to \<open>L->top\<close> and where it goes next (the relation \<open>vm_runs\<close>): a
    function that the checker has accepted stays within its code, frame, constants, upvalues and inner
    functions, and open arguments and results within the stack, with two exceptions that are shown.
  \<^item> \<open>LuaTabLib\<close> models insertion, removal, concatenation and sorting of the table library over
    \<open>lua_rawgeti\<close> and \<open>lua_rawseti\<close>, which are total functions on integer keys there;
    \<open>LuaSort\<close> has the locale \<open>sort_order\<close> of comparisons and proves the quicksort correct for
    it; \<open>LuaTabMain\<close> gives it the interpretations for strings and numbers and states the results.
  \<^item> \<open>LuaGC\<close> models the incremental collector (\<open>lgc.c\<close>) with the open upvalues of \<open>lfunc.c\<close>, over a heap of
    objects with their mark bits and the lists of the collector. \<open>LuaGCMark\<close> has the invariant of marking
    (a black object refers to no white one; a gray one is in a list or of a kind that stays gray), with
    the locale \<open>marker\<close> for functions that mark; \<open>LuaGCStep\<close> and \<open>LuaGCProp\<close> prove that the traversal of
    each kind of object keeps it and leaves less to be done, \<open>LuaGCAtomic\<close>, \<open>LuaGCClear\<close> and \<open>LuaGCSafe\<close>
    go through the phases of the atomic step; \<open>LuaGCRun\<close> lets the program run between the steps of the
    collector (the relation \<open>mstep\<close>) and proves a whole cycle safe; \<open>LuaGCSweep\<close> says what exactly is
    removed from weak tables and freed by the sweep, threads and their open upvalues included.

  Bounds. Loops of the code are recursive functions whose termination is proved, or take a bound that is
  shown to be enough: growth of a buffer doubles at most 32 times (\<open>grow_fuel\<close>); the loops of \<open>Update\<close>
  are bounded by the bytes and messages at hand; nested functions of a chunk by the limit of 200 on C
  calls; walks along a chain of a hash table by its number of nodes; a rehash inside an insertion happens
  once; a match recurses at most once per character of the pattern; \<open>string.gsub\<close> loops at most once per
  character of the subject and once more. A call of \<open>auxsort\<close> on n elements recurses at most n deep;
  marking an object recurses at most to \<open>MARKDEPTH\<close>, from an upvalue to a userdata to its tables;
  \<open>propagateall\<close> takes at most as many steps as there are objects.

  Not modelled. The WIN32 branches and printed output; the class wrapper \<open>LuaWrapper\<close> (template glue over the
  Lua C API). Messages have one owner each and are values in a store. The tables and strings of \<open>LuaTable\<close>
  and \<open>LuaString\<close> are values too, without mark bits except where interning depends on them; the heap of
  \<open>LuaGC\<close> has objects of its own, with the references that the collector follows. Of the collector the
  amounts of work and memory, which only decide when a step is made, the shrinking of stacks, and the finalisers, which
  are code of the program, are left out. C stack depth and the limits of memory are not modelled beyond the allocator's
  answers. The conversion of a number outside \<open>int\<close> by \<open>lua_number2int\<close>, which C leaves
  undefined, is taken to give \<open>INT_MIN\<close>, as it does on the usual machines. Of the virtual machine only what
  the code checker is about is modelled, of the debug interface only that checker. The rest of the interpreter is listed
  as not modelled in the manifest: its compiler, calls and errors, the system libraries and the stand-alone programs.
\<close>

end
